(* ===== verification/Prelude.thy ===== *)
theory Prelude
  imports Main "HOL-Library.Word"
begin

text \<open>
  Shared vocabulary of the development: the C integer types of strace as words, the ways in
  which strace terminates itself, C strings, and the generic facts about lists and words
  that the component theories use.
\<close>

unbundle bit_operations_syntax

section \<open>Types\<close>

text \<open>
  A C unsigned type of a fixed width is a word of that width.  Array indices and counters
  that the code bounds far below their width are natural numbers; where the width matters
  the operation says so.
\<close>

type_synonym u8 = "8 word"
type_synonym u16 = "16 word"
type_synonym u32 = "32 word"
type_synonym u64 = "64 word"

text \<open>
  The functions that end the strace process instead of returning: \<open>error_msg_and_die\<close>
  (with \<open>perror_msg_and_die\<close> and \<open>error_func_msg_and_die\<close>), \<open>error_msg_and_help\<close> and
  \<open>die_out_of_memory\<close>.  An operation that may call one of them returns an \<open>outcome\<close>, as does
  one that may access an array outside of its bounds, which C leaves undefined.
\<close>

datatype fatal =
    Error_msg_and_die string
  | Error_msg_and_help string
  | Out_of_memory
  | Undefined_behaviour string

type_synonym 'a outcome = "fatal + 'a"

definition obind :: "'a outcome \<Rightarrow> ('a \<Rightarrow> 'b outcome) \<Rightarrow> 'b outcome" where
  "obind r f = (case r of Inl e \<Rightarrow> Inl e | Inr x \<Rightarrow> f x)"

lemma obind_simps [simp]:
  "obind (Inl e) f = Inl e"
  "obind (Inr x) f = f x"
  by (simp_all add: obind_def)

lemma obind_eq_Inr: "obind r f = Inr y \<longleftrightarrow> (\<exists>x. r = Inr x \<and> f x = Inr y)"
  by (cases r) auto

lemma obind_assoc: "obind (obind r f) g = obind r (\<lambda>x. obind (f x) g)"
  by (cases r) auto

section \<open>Named collections\<close>

named_theorems bit_facts \<open>what a bit of a C bit operation is\<close>

section \<open>Bits of words\<close>

text \<open>A single bit \<open>1 << k\<close> is \<open>2 ^ k\<close> after simplification.\<close>

lemma and_bit_eq_0_iff [simp]:
  fixes w :: "'a::len word"
  assumes "k < LENGTH('a)"
  shows "w AND 2 ^ k = 0 \<longleftrightarrow> \<not> bit w k"
proof
  assume "w AND 2 ^ k = 0"
  then have "\<not> bit (w AND 2 ^ k) k"
    by simp
  with assms show "\<not> bit w k"
    by (simp add: bit_simps)
next
  assume "\<not> bit w k"
  then show "w AND 2 ^ k = 0"
    by (intro bit_eqI) (auto simp: bit_simps)
qed

lemma bit_or_bit [simp]:
  fixes w :: "'a::len word"
  assumes "k < LENGTH('a)"
  shows "bit (w OR 2 ^ k) j \<longleftrightarrow> bit w j \<or> j = k"
  using assms by (auto simp: bit_simps)

lemma of_nat_word_inj:
  assumes "a < 2 ^ LENGTH('a)" "b < 2 ^ LENGTH('a)"
  shows "(of_nat a :: 'a::len word) = of_nat b \<longleftrightarrow> a = b"
  using assms by (metis mod_less unat_of_nat)

lemma sint_eq_uint_small:
  assumes "uint (w :: u64) < 2 ^ 63"
  shows "sint w = uint w"
proof -
  have "- (2 ^ 63) \<le> (0 :: int)" by simp
  then have "- (2 ^ 63) \<le> uint w" using uint_ge_0 [of w] by (rule order_trans)
  with assms have "signed_take_bit 63 (uint w) = uint w"
    by (intro signed_take_bit_int_eq_self)
  then show ?thesis by (simp add: sint_uint)
qed

lemma sint_eq_unat_small:
  assumes "unat (w :: u32) < 2 ^ 31"
  shows "sint w = int (unat w)"
proof -
  have "- (2 ^ 31) \<le> (0 :: int)" by simp
  then have "- (2 ^ 31) \<le> uint w" using uint_ge_0 [of w] by (rule order_trans)
  moreover have "uint w < 2 ^ 31"
    using of_nat_less_iff [where 'a = int, THEN iffD2, OF assms] by simp
  ultimately have "signed_take_bit 31 (uint w) = uint w"
    by (intro signed_take_bit_int_eq_self)
  then show ?thesis by (simp add: sint_uint)
qed

lemma unat_exp: "n < LENGTH('a) \<Longrightarrow> unat (2 ^ n :: 'a::len word) = 2 ^ n"
  using unat_of_nat [where 'a = 'a, of "2 ^ n"] by simp

lemma unat64_less: "unat (w :: u64) < 2 ^ 64"
  using unsigned_less [where 'a = nat, of w] by simp

lemma unat32_less: "unat (w :: u32) < 2 ^ 32"
  using unsigned_less [where 'a = nat, of w] by simp

section \<open>Lists\<close>

lemma nth_append_replicate:
  "i < length xs + n \<Longrightarrow> (xs @ replicate n x) ! i = (if i < length xs then xs ! i else x)"
  by (auto simp: nth_append)

lemma takeWhile_until [simp]:
  assumes "d \<notin> set t"
  shows "takeWhile (\<lambda>c. c \<noteq> d) (t @ d # s) = t" "dropWhile (\<lambda>c. c \<noteq> d) (t @ d # s) = d # s"
    "takeWhile (\<lambda>c. c \<noteq> d) t = t" "dropWhile (\<lambda>c. c \<noteq> d) t = []"
  using assms by (induction t) auto

lemma find_upt:
  "(case find P [a..<b] of
      Some i \<Rightarrow> a \<le> i \<and> i < b \<and> P i \<and> (\<forall>j. a \<le> j \<and> j < i \<longrightarrow> \<not> P j)
    | None \<Rightarrow> \<forall>j. a \<le> j \<and> j < b \<longrightarrow> \<not> P j)"
proof (induction "b - a" arbitrary: a)
  case 0
  then show ?case by auto
next
  case (Suc n)
  then have "a < b" "n = b - Suc a" by simp_all
  then have u: "[a..<b] = a # [Suc a..<b]" by (simp add: upt_conv_Cons)
  show ?case
  proof (cases "P a")
    case True
    with u \<open>a < b\<close> show ?thesis by auto
  next
    case False
    have split: "a \<le> j \<longleftrightarrow> j = a \<or> Suc a \<le> j" for j by auto
    show ?thesis
      using Suc.hyps(1) [OF \<open>n = b - Suc a\<close>] False
      by (simp only: u find.simps if_False split) (auto split: option.splits)
  qed
qed

lemma find_upt_SomeD:
  "find P [a..<b] = Some i \<Longrightarrow> a \<le> i \<and> i < b \<and> P i \<and> (\<forall>j. a \<le> j \<and> j < i \<longrightarrow> \<not> P j)"
  using find_upt [of a b P] by simp

lemma find_upt_NoneD: "find P [a..<b] = None \<Longrightarrow> a \<le> j \<Longrightarrow> j < b \<Longrightarrow> \<not> P j"
  using find_upt [of a b P] by simp

text \<open>An index into \<open>x # xs\<close> is 0 or an index into \<open>xs\<close>, shifted.\<close>

lemma ex_less_Suc_shift: "(\<exists>j < Suc k. P j) \<longleftrightarrow> P 0 \<or> (\<exists>j < k. P (Suc j))"
  by (metis less_Suc_eq_0_disj not0_implies_Suc zero_less_Suc)

lemma ex_range_split:
  "(\<exists>m. j \<le> m \<and> m < j + Suc n \<and> P m) \<longleftrightarrow> P j \<or> (\<exists>m. Suc j \<le> m \<and> m < Suc j + n \<and> P m)"
proof
  assume "\<exists>m. j \<le> m \<and> m < j + Suc n \<and> P m"
  then obtain m where m: "j \<le> m" "m < j + Suc n" "P m" by blast
  then show "P j \<or> (\<exists>m. Suc j \<le> m \<and> m < Suc j + n \<and> P m)"
    by (cases "m = j") (auto intro!: exI [of _ m])
next
  assume "P j \<or> (\<exists>m. Suc j \<le> m \<and> m < Suc j + n \<and> P m)"
  then show "\<exists>m. j \<le> m \<and> m < j + Suc n \<and> P m"
    by (metis add_Suc_right add_Suc_shift le_add1 le_imp_less_Suc Suc_leD order_refl)
qed

end
