(* ===== verification/Bpf.thy ===== *)
theory Bpf
  imports Prelude
begin

text \<open>
  Classic BPF programs as \<^verbatim>\<open>filter_seccomp.c\<close> builds them.  The machine that runs a program is
  the kernel's, so its behaviour is the locale \<open>cbpf\<close>: one law for each instruction
  strace emits, as the kernel documents them.  A concrete evaluator that satisfies the laws
  is defined as well.
\<close>

section \<open>Instructions\<close>

record sock_filter =
  sf_code :: u16
  sf_jt :: u8
  sf_jf :: u8
  sf_k :: u32

record seccomp_data =
  sd_nr :: u32
  sd_arch :: u32

definition BPF_LD :: u16 where "BPF_LD = 0x00"
definition BPF_ALU :: u16 where "BPF_ALU = 0x04"
definition BPF_JMP :: u16 where "BPF_JMP = 0x05"
definition BPF_RET :: u16 where "BPF_RET = 0x06"
definition BPF_MISC :: u16 where "BPF_MISC = 0x07"
definition BPF_W :: u16 where "BPF_W = 0x00"
definition BPF_IMM :: u16 where "BPF_IMM = 0x00"
definition BPF_ABS :: u16 where "BPF_ABS = 0x20"
definition BPF_K :: u16 where "BPF_K = 0x00"
definition BPF_X :: u16 where "BPF_X = 0x08"
definition BPF_AND :: u16 where "BPF_AND = 0x50"
definition BPF_LSH :: u16 where "BPF_LSH = 0x60"
definition BPF_RSH :: u16 where "BPF_RSH = 0x70"
definition BPF_JA :: u16 where "BPF_JA = 0x00"
definition BPF_JEQ :: u16 where "BPF_JEQ = 0x10"
definition BPF_JGE :: u16 where "BPF_JGE = 0x30"
definition BPF_JSET :: u16 where "BPF_JSET = 0x40"
definition BPF_TAX :: u16 where "BPF_TAX = 0x00"
definition BPF_TXA :: u16 where "BPF_TXA = 0x80"

lemmas bpf_code_defs =
  BPF_LD_def BPF_ALU_def BPF_JMP_def BPF_RET_def BPF_MISC_def BPF_W_def BPF_IMM_def BPF_ABS_def
  BPF_K_def BPF_X_def BPF_AND_def BPF_LSH_def BPF_RSH_def BPF_JA_def BPF_JEQ_def BPF_JGE_def
  BPF_JSET_def BPF_TAX_def BPF_TXA_def

definition BPF_CLASS :: "u16 \<Rightarrow> u16" where "BPF_CLASS c = c AND 0x07"
definition BPF_OP :: "u16 \<Rightarrow> u16" where "BPF_OP c = c AND 0xf0"

definition BPF_MAXINSNS :: nat where "BPF_MAXINSNS = 4096"

text \<open>\<open>offsetof(struct seccomp_data, nr)\<close> and \<open>offsetof(struct seccomp_data, arch)\<close>.\<close>

definition offsetof_nr :: u32 where "offsetof_nr = 0"
definition offsetof_arch :: u32 where "offsetof_arch = 4"

definition SECCOMP_RET_TRACE :: u32 where "SECCOMP_RET_TRACE = 0x7ff00000"
definition SECCOMP_RET_ALLOW :: u32 where "SECCOMP_RET_ALLOW = 0x7fff0000"

definition SET_BPF :: "u16 \<Rightarrow> u8 \<Rightarrow> u8 \<Rightarrow> u32 \<Rightarrow> sock_filter" where
  "SET_BPF c t f v = \<lparr>sf_code = c, sf_jt = t, sf_jf = f, sf_k = v\<rparr>"

definition SET_BPF_STMT :: "u16 \<Rightarrow> u32 \<Rightarrow> sock_filter" where
  "SET_BPF_STMT c v = SET_BPF c 0 0 v"

definition SET_BPF_JUMP :: "u16 \<Rightarrow> u32 \<Rightarrow> u8 \<Rightarrow> u8 \<Rightarrow> sock_filter" where
  "SET_BPF_JUMP c v t f = SET_BPF (BPF_JMP OR c) t f v"

section \<open>The machine\<close>

text \<open>
  \<open>exec prog d pc a x\<close> is the value the program returns for the data \<open>d\<close> when it continues at
  instruction \<open>pc\<close> with accumulator \<open>a\<close> and index register \<open>x\<close>.
\<close>

locale cbpf =
  fixes exec :: "sock_filter list \<Rightarrow> seccomp_data \<Rightarrow> nat \<Rightarrow> u32 \<Rightarrow> u32 \<Rightarrow> u32"
  assumes ld_nr: "pc < length prog \<Longrightarrow> sf_code (prog ! pc) = BPF_LD OR BPF_W OR BPF_ABS \<Longrightarrow>
      sf_k (prog ! pc) = offsetof_nr \<Longrightarrow> exec prog d pc a x = exec prog d (Suc pc) (sd_nr d) x"
    and ld_arch: "pc < length prog \<Longrightarrow> sf_code (prog ! pc) = BPF_LD OR BPF_W OR BPF_ABS \<Longrightarrow>
      sf_k (prog ! pc) = offsetof_arch \<Longrightarrow> exec prog d pc a x = exec prog d (Suc pc) (sd_arch d) x"
    and ld_imm: "pc < length prog \<Longrightarrow> sf_code (prog ! pc) = BPF_LD OR BPF_IMM \<Longrightarrow>
      exec prog d pc a x = exec prog d (Suc pc) (sf_k (prog ! pc)) x"
    and alu_and: "pc < length prog \<Longrightarrow> sf_code (prog ! pc) = BPF_ALU OR BPF_AND OR BPF_K \<Longrightarrow>
      exec prog d pc a x = exec prog d (Suc pc) (a AND sf_k (prog ! pc)) x"
    and alu_lsh: "pc < length prog \<Longrightarrow> sf_code (prog ! pc) = BPF_ALU OR BPF_LSH OR BPF_X \<Longrightarrow>
      unat x < 32 \<Longrightarrow> exec prog d pc a x = exec prog d (Suc pc) (push_bit (unat x) a) x"
    and alu_rsh: "pc < length prog \<Longrightarrow> sf_code (prog ! pc) = BPF_ALU OR BPF_RSH OR BPF_K \<Longrightarrow>
      unat (sf_k (prog ! pc)) < 32 \<Longrightarrow>
      exec prog d pc a x = exec prog d (Suc pc) (drop_bit (unat (sf_k (prog ! pc))) a) x"
    and tax: "pc < length prog \<Longrightarrow> sf_code (prog ! pc) = BPF_MISC OR BPF_TAX \<Longrightarrow>
      exec prog d pc a x = exec prog d (Suc pc) a a"
    and txa: "pc < length prog \<Longrightarrow> sf_code (prog ! pc) = BPF_MISC OR BPF_TXA \<Longrightarrow>
      exec prog d pc a x = exec prog d (Suc pc) x x"
    and ja: "pc < length prog \<Longrightarrow> sf_code (prog ! pc) = BPF_JMP OR BPF_JA \<Longrightarrow>
      exec prog d pc a x = exec prog d (Suc pc + unat (sf_k (prog ! pc))) a x"
    and jeq: "pc < length prog \<Longrightarrow> sf_code (prog ! pc) = BPF_JMP OR BPF_JEQ OR BPF_K \<Longrightarrow>
      exec prog d pc a x =
        exec prog d (Suc pc + unat (if a = sf_k (prog ! pc) then sf_jt (prog ! pc) else sf_jf (prog ! pc))) a x"
    and jge: "pc < length prog \<Longrightarrow> sf_code (prog ! pc) = BPF_JMP OR BPF_JGE OR BPF_K \<Longrightarrow>
      exec prog d pc a x =
        exec prog d (Suc pc + unat (if sf_k (prog ! pc) \<le> a then sf_jt (prog ! pc) else sf_jf (prog ! pc))) a x"
    and jset: "pc < length prog \<Longrightarrow> sf_code (prog ! pc) = BPF_JMP OR BPF_JSET OR BPF_K \<Longrightarrow>
      exec prog d pc a x =
        exec prog d (Suc pc + unat (if a AND sf_k (prog ! pc) \<noteq> 0 then sf_jt (prog ! pc) else sf_jf (prog ! pc))) a x"
    and ret: "pc < length prog \<Longrightarrow> sf_code (prog ! pc) = BPF_RET OR BPF_K \<Longrightarrow>
      exec prog d pc a x = sf_k (prog ! pc)"

section \<open>A concrete machine\<close>

text \<open>
  Jumps go forward only, so the evaluator terminates.  Where strace emits nothing the machine
  gives 0 (\<open>SECCOMP_RET_KILL\<close>).
\<close>

definition jump_offset :: "sock_filter \<Rightarrow> u32 \<Rightarrow> nat" where
  "jump_offset i a =
     (if sf_code i = BPF_JMP OR BPF_JA then unat (sf_k i)
      else unat (if (if sf_code i = BPF_JMP OR BPF_JEQ OR BPF_K then a = sf_k i
                     else if sf_code i = BPF_JMP OR BPF_JGE OR BPF_K then sf_k i \<le> a
                     else a AND sf_k i \<noteq> 0) then sf_jt i else sf_jf i))"

definition alu_step :: "sock_filter \<Rightarrow> seccomp_data \<Rightarrow> u32 \<Rightarrow> u32 \<Rightarrow> u32 \<times> u32" where
  "alu_step i d a x =
     (if sf_code i = BPF_LD OR BPF_W OR BPF_ABS then (if sf_k i = offsetof_nr then sd_nr d else sd_arch d, x)
      else if sf_code i = BPF_LD OR BPF_IMM then (sf_k i, x)
      else if sf_code i = BPF_ALU OR BPF_AND OR BPF_K then (a AND sf_k i, x)
      else if sf_code i = BPF_ALU OR BPF_LSH OR BPF_X then (push_bit (unat x) a, x)
      else if sf_code i = BPF_ALU OR BPF_RSH OR BPF_K then (drop_bit (unat (sf_k i)) a, x)
      else if sf_code i = BPF_MISC OR BPF_TAX then (a, a)
      else (x, x))"

function run_bpf :: "sock_filter list \<Rightarrow> seccomp_data \<Rightarrow> nat \<Rightarrow> u32 \<Rightarrow> u32 \<Rightarrow> u32" where
  "run_bpf prog d pc a x =
     (if pc \<ge> length prog then 0
      else if BPF_CLASS (sf_code (prog ! pc)) = BPF_RET then sf_k (prog ! pc)
      else if BPF_CLASS (sf_code (prog ! pc)) = BPF_JMP
        then run_bpf prog d (Suc pc + jump_offset (prog ! pc) a) a x
      else case alu_step (prog ! pc) d a x of (a, x) \<Rightarrow> run_bpf prog d (Suc pc) a x)"
  by pat_completeness auto
termination
  by (relation "measure (\<lambda>(prog, d, pc, a, x). length prog - pc)") auto

declare run_bpf.simps [simp del]

interpretation run: cbpf run_bpf
  by unfold_locales
    (subst run_bpf.simps, simp add: alu_step_def jump_offset_def BPF_CLASS_def bpf_code_defs
        offsetof_nr_def offsetof_arch_def)+

end
