(* ===== verification/Cstring.thy ===== *)
theory Cstring
  imports Prelude
begin

text \<open>
  C strings and the option-parsing helpers of strace built on them: \<^verbatim>\<open>string_to_uint.c\<close>,
  \<open>str_strip_prefix_len\<close> of \<^verbatim>\<open>defs.h\<close>, and \<open>find_xlat_val_ex\<close>, \<open>find_arg_val\<close> and
  \<open>str2timescale_ex\<close> of \<^verbatim>\<open>util.c\<close>.  A C string is the list of its characters up to the
  terminating NUL; a pointer into a string is the suffix it points at.
\<close>

section \<open>The C library functions the sources call\<close>

definition isspace :: "char \<Rightarrow> bool" where
  "isspace c \<longleftrightarrow> (of_char c :: nat) = 32 \<or> 9 \<le> (of_char c :: nat) \<and> (of_char c :: nat) \<le> 13"

definition isdigit :: "char \<Rightarrow> bool" where
  "isdigit c \<longleftrightarrow> 48 \<le> (of_char c :: nat) \<and> (of_char c :: nat) \<le> 57"

definition digit_val :: "char \<Rightarrow> nat" where
  "digit_val c = of_char c - 48"

definition digits_val :: "string \<Rightarrow> nat" where
  "digits_val ds = foldl (\<lambda>a c. a * 10 + digit_val c) 0 ds"

definition tolower :: "char \<Rightarrow> char" where
  "tolower c = (if 65 \<le> (of_char c :: nat) \<and> (of_char c :: nat) \<le> 90
                then char_of ((of_char c :: nat) + 32) else c)"

text \<open>The value of a hexadecimal digit, and of a sequence of digits in a base up to 16.\<close>

definition hex_val :: "char \<Rightarrow> nat option" where
  "hex_val c =
     (let n = of_char (tolower c) :: nat
      in if isdigit c then Some (digit_val c) else if 97 \<le> n \<and> n \<le> 102 then Some (n - 87) else None)"

definition base_val :: "nat \<Rightarrow> string \<Rightarrow> nat" where
  "base_val base ds = foldl (\<lambda>a c. a * base + the (hex_val c)) 0 ds"

definition LLONG_MAX :: int where
  "LLONG_MAX = 2 ^ 63 - 1"

definition LLONG_MIN :: int where
  "LLONG_MIN = - (2 ^ 63)"

definition INT_MAX :: int where
  "INT_MAX = 2 ^ 31 - 1"

text \<open>
  \<open>strtoll(str, &end, 10)\<close>: the value, the suffix \<open>end\<close> points at, and whether \<open>errno\<close>
  becomes \<open>ERANGE\<close>.  Without a digit nothing is converted and \<open>end\<close> is \<open>str\<close>.
\<close>

definition strtoll :: "string \<Rightarrow> int \<times> string \<times> bool" where
  "strtoll str =
     (let s = dropWhile isspace str;
          neg = (s \<noteq> [] \<and> hd s = CHR ''-'');
          body = (if s \<noteq> [] \<and> (hd s = CHR ''-'' \<or> hd s = CHR ''+'') then tl s else s);
          ds = takeWhile isdigit body;
          rest = dropWhile isdigit body;
          v = (if neg then - int (digits_val ds) else int (digits_val ds))
      in if ds = [] then (0, str, False)
         else if v > LLONG_MAX then (LLONG_MAX, rest, True)
         else if v < LLONG_MIN then (LLONG_MIN, rest, True)
         else (v, rest, False))"

text \<open>\<open>strcasecmp(a, b) == 0\<close> and \<open>strncasecmp(a, b, n) == 0\<close>.\<close>

definition strcaseeq :: "string \<Rightarrow> string \<Rightarrow> bool" where
  "strcaseeq a b \<longleftrightarrow> map tolower a = map tolower b"

definition strncaseeq :: "string \<Rightarrow> string \<Rightarrow> nat \<Rightarrow> bool" where
  "strncaseeq a b n \<longleftrightarrow> map tolower (take n a) = map tolower (take n b)"

text \<open>
  The tokens that repeated calls of \<open>strtok_r\<close> with the one delimiter \<open>d\<close> return: leading
  delimiters are skipped, so no token is empty.
\<close>

definition strtok_r :: "char \<Rightarrow> string \<Rightarrow> (string \<times> string) option" where
  "strtok_r d s =
     (let s' = dropWhile (\<lambda>c. c = d) s
      in if s' = [] then None
         else Some (takeWhile (\<lambda>c. c \<noteq> d) s', drop 1 (dropWhile (\<lambda>c. c \<noteq> d) s')))"

lemma strtok_r_shorter: "strtok_r d s = Some (tok, rest) \<Longrightarrow> length rest < length s"
proof -
  assume a: "strtok_r d s = Some (tok, rest)"
  let ?s = "dropWhile (\<lambda>c. c = d) s"
  from a have ne: "?s \<noteq> []" and r: "rest = drop 1 (dropWhile (\<lambda>c. c \<noteq> d) ?s)"
    by (auto simp: strtok_r_def Let_def split: if_splits)
  have "hd ?s \<noteq> d" using hd_dropWhile [OF ne] by simp
  then have "length (dropWhile (\<lambda>c. c \<noteq> d) ?s) < length ?s"
    using ne by (cases ?s) (auto simp: le_imp_less_Suc length_dropWhile_le)
  also have "length ?s \<le> length s" by (rule length_dropWhile_le)
  finally show ?thesis using r by simp
qed

function tokens :: "char \<Rightarrow> string \<Rightarrow> string list" where
  "tokens d s = (case strtok_r d s of None \<Rightarrow> [] | Some (tok, rest) \<Rightarrow> tok # tokens d rest)"
  by pat_completeness auto
termination
  by (relation "measure (\<lambda>(d, s). length s)") (auto dest: strtok_r_shorter)

declare tokens.simps [simp del]

section \<open>string_to_uint.c\<close>

text \<open>
  The value (\<open>-1\<close> on failure) and what is stored through \<open>endptr\<close> (nothing on failure).
  \<open>accepted_ending\<close> may be \<open>NULL\<close>.
\<close>

definition string_to_uint_ex :: "string \<Rightarrow> int \<Rightarrow> string option \<Rightarrow> int \<times> string option" where
  "string_to_uint_ex str max_val accepted_ending =
     (if str = [] then (-1, None)
      else case strtoll str of (val, endp, erange) \<Rightarrow>
        if str = endp \<or> val < 0 \<or> val > max_val \<or> val = LLONG_MAX \<and> erange then (-1, None)
        else if endp \<noteq> [] \<and> (case accepted_ending of None \<Rightarrow> True
                               | Some acc \<Rightarrow> hd endp \<notin> set acc) then (-1, None)
        else (val, Some endp))"

definition string_to_uint_upto :: "string \<Rightarrow> int \<Rightarrow> int" where
  "string_to_uint_upto str max_val = fst (string_to_uint_ex str max_val None)"

definition string_to_uint :: "string \<Rightarrow> int" where
  "string_to_uint str = string_to_uint_upto str INT_MAX"

section \<open>Option tables\<close>

text \<open>
  \<open>str_strip_prefix_len\<close> returns \<open>str\<close> itself when the prefix does not match; its callers
  compare the pointers.  The model returns \<open>None\<close> in that case.
\<close>

definition str_strip_prefix_len :: "string \<Rightarrow> string \<Rightarrow> string option" where
  "str_strip_prefix_len str pfx =
     (if take (length pfx) str = pfx then Some (drop (length pfx) str) else None)"

type_synonym xlat_data = "u64 \<times> string"

fun find_xlat_val_ex :: "xlat_data list \<Rightarrow> string \<Rightarrow> bool \<Rightarrow> xlat_data option" where
  "find_xlat_val_ex [] s case_sensitive = None"
| "find_xlat_val_ex (item # items) s case_sensitive =
     (if (if case_sensitive then snd item = s else strcaseeq (snd item) s) then Some item
      else find_xlat_val_ex items s case_sensitive)"

definition find_arg_val :: "string option \<Rightarrow> xlat_data list \<Rightarrow> u64 \<Rightarrow> u64 \<Rightarrow> u64" where
  "find_arg_val arg strs default_val not_found =
     (case arg of None \<Rightarrow> default_val
      | Some a \<Rightarrow> (case find_xlat_val_ex strs a False of
                     Some item \<Rightarrow> fst item | None \<Rightarrow> not_found))"

text \<open>
  \<open>str2timescale_ex\<close>: the number of nanoseconds of a unit, as a C \<open>int\<close> (the low half of the
  table value), and the width stored through a non-null \<open>width\<close>.
\<close>

definition timescale_units :: "xlat_data list" where
  "timescale_units =
     [(1000000000, ''s''), (1000000 OR push_bit 32 3, ''ms''),
      (1000 OR push_bit 32 6, ''us''), (1 OR push_bit 32 9, ''ns'')]"

definition str2timescale_ex :: "string option \<Rightarrow> int \<Rightarrow> int \<Rightarrow> int" where
  "str2timescale_ex arg empty_dflt null_dflt =
     (case arg of None \<Rightarrow> null_dflt
      | Some a \<Rightarrow>
          if a = [] then empty_dflt
          else let res = find_arg_val arg timescale_units (of_int null_dflt) (- 1)
               in sint (ucast (res AND 0xffffffff) :: u32))"

definition str2timescale_sfx :: "string option \<Rightarrow> int" where
  "str2timescale_sfx arg = str2timescale_ex arg 1000 (-1)"

section \<open>Decimal output\<close>

text \<open>What \<open>%u\<close> and \<open>%llu\<close> print.\<close>

fun dec :: "nat \<Rightarrow> string" where
  "dec n = (if n < 10 then [char_of (48 + n)] else dec (n div 10) @ [char_of (48 + n mod 10)])"

declare dec.simps [simp del]

text \<open>A string between the apostrophes of an error message.\<close>

definition squote :: "string \<Rightarrow> string" where
  "squote s = CHR 0x27 # s @ [CHR 0x27]"

section \<open>Facts about numbers in strings\<close>

lemma digits_val_append_one: "digits_val (ds @ [c]) = digits_val ds * 10 + digit_val c"
  by (simp add: digits_val_def)

lemma digit_char:
  assumes "k < 10"
  shows "isdigit (char_of (48 + k))" "digit_val (char_of (48 + k)) = k"
    "\<not> isspace (char_of (48 + k))" "char_of (48 + k) \<noteq> CHR ''-''" "char_of (48 + k) \<noteq> CHR ''+''"
  using assms by (auto simp: isdigit_def digit_val_def isspace_def of_char_of
      dest: arg_cong [where f = "of_char :: char \<Rightarrow> nat"])

lemma dec_nonempty [simp]: "dec n \<noteq> []"
  by (simp add: dec.simps [of n])

lemma dec_digits: "c \<in> set (dec n) \<Longrightarrow> \<exists>k < 10. c = char_of (48 + k :: nat)"
proof (induction n rule: dec.induct)
  case (1 n)
  show ?case
  proof (cases "n < 10")
    case True
    with "1.prems" show ?thesis by (auto simp: dec.simps [of n])
  next
    case False
    with "1.prems" have "c \<in> set (dec (n div 10)) \<or> c = char_of (48 + n mod 10)"
      by (auto simp: dec.simps [of n])
    moreover have "n mod 10 < 10" by simp
    ultimately show ?thesis using "1.IH" [OF False] by blast
  qed
qed

lemma digits_val_dec [simp]: "digits_val (dec n) = n"
proof (induction n rule: dec.induct)
  case (1 n)
  show ?case
  proof (cases "n < 10")
    case True
    then show ?thesis by (simp add: dec.simps [of n] digits_val_def digit_char)
  next
    case False
    with "1.IH" show ?thesis
      by (simp add: dec.simps [of n] digits_val_append_one digit_char)
  qed
qed

lemma dec_chars: "set (dec n) \<subseteq> set ''0123456789''"
proof
  fix c assume "c \<in> set (dec n)"
  then obtain k where k: "k < 10" "c = char_of (48 + k :: nat)" using dec_digits by blast
  have "list_all (\<lambda>k. char_of (48 + k :: nat) \<in> set ''0123456789'') [0..<10]"
    by code_simp
  then show "c \<in> set ''0123456789''"
    using k unfolding list_all_iff by simp
qed

lemma dec_isdigit: "list_all isdigit (dec n)"
  by (auto simp: list_all_iff dest!: dec_digits intro: digit_char)

lemma strtoll_digits:
  assumes "ds \<noteq> []" "list_all isdigit ds" "rest = [] \<or> \<not> isdigit (hd rest)"
  shows "strtoll (ds @ rest) =
     (if int (digits_val ds) > LLONG_MAX then (LLONG_MAX, rest, True)
      else (int (digits_val ds), rest, False))"
proof -
  obtain c cs where ds: "ds = c # cs" using assms(1) by (cases ds) auto
  with assms(2) have c: "isdigit c" by simp
  then have nc: "\<not> isspace c" "c \<noteq> CHR ''-''" "c \<noteq> CHR ''+''"
    by (auto simp: isdigit_def isspace_def)
  have d: "isdigit x" if "x \<in> set ds" for x
    using assms(2) that by (simp add: list_all_iff)
  have tw: "takeWhile isdigit (ds @ rest) = ds" "dropWhile isdigit (ds @ rest) = rest"
    using assms(3) d by (auto simp: takeWhile_append dropWhile_append takeWhile_eq_Nil_iff
        dropWhile_eq_self_iff)
  have "\<not> int (digits_val ds) < LLONG_MIN"
    by (simp add: LLONG_MIN_def)
  with tw nc show ?thesis
    by (simp add: strtoll_def Let_def ds)
qed

lemma strtoll_dec:
  "rest = [] \<or> \<not> isdigit (hd rest) \<Longrightarrow>
   strtoll (dec n @ rest) =
     (if int n > LLONG_MAX then (LLONG_MAX, rest, True) else (int n, rest, False))"
  using strtoll_digits [OF dec_nonempty dec_isdigit] by simp

text \<open>\<open>string_to_uint_ex\<close> on a printed number followed by an accepted ending.\<close>

lemma string_to_uint_ex_dec:
  assumes "int n \<le> max_val" "max_val \<le> LLONG_MAX"
    and "rest = [] \<or> (\<exists>acc. accepted = Some acc \<and> hd rest \<in> set acc) \<and> \<not> isdigit (hd rest)"
  shows "string_to_uint_ex (dec n @ rest) max_val accepted = (int n, Some rest)"
proof -
  have "strtoll (dec n @ rest) = (int n, rest, False)"
    using assms by (subst strtoll_dec) auto
  with assms show ?thesis
    by (auto simp: string_to_uint_ex_def)
qed

section \<open>Facts about tokens\<close>

lemma tokens_Nil [simp]: "tokens d [] = []"
  by (simp add: tokens.simps strtok_r_def)

lemma tokens_delim [simp]: "tokens d (d # s) = tokens d s"
  by (simp add: tokens.simps [of d "d # s"] tokens.simps [of d s] strtok_r_def)

lemma tokens_append_delim:
  assumes "t \<noteq> []" "d \<notin> set t"
  shows "tokens d (t @ d # s) = t # tokens d s" "tokens d t = [t]"
proof -
  have skip: "dropWhile (\<lambda>c. c = d) (t @ u) = t @ u" for u
    using assms by (cases t) auto
  show "tokens d (t @ d # s) = t # tokens d s"
    using skip [of "d # s"] assms by (simp add: tokens.simps [of d "t @ d # s"] strtok_r_def)
  show "tokens d t = [t]"
    using skip [of "[]"] assms by (simp add: tokens.simps [of d t] strtok_r_def)
qed

text \<open>The comma-separated form of a list of tokens.\<close>

fun join :: "char \<Rightarrow> string list \<Rightarrow> string" where
  "join d [] = []"
| "join d [t] = t"
| "join d (t # ts) = t @ d # join d ts"

lemma tokens_join: "list_all (\<lambda>t. t \<noteq> [] \<and> d \<notin> set t) ts \<Longrightarrow> tokens d (join d ts) = ts"
  by (induction d ts rule: join.induct) (simp_all add: tokens_append_delim)

lemma tokens_nonempty: "t \<in> set (tokens d s) \<Longrightarrow> t \<noteq> [] \<and> d \<notin> set t"
proof (induction d s rule: tokens.induct)
  case (1 d s)
  show ?case
  proof (cases "strtok_r d s")
    case None
    with "1.prems" show ?thesis by (simp add: tokens.simps [of d s])
  next
    case (Some p)
    obtain tok rest where p: "p = (tok, rest)" by fastforce
    have "tok \<noteq> [] \<and> d \<notin> set tok"
    proof -
      let ?s = "dropWhile (\<lambda>c. c = d) s"
      have ne: "?s \<noteq> []" and tok: "tok = takeWhile (\<lambda>c. c \<noteq> d) ?s"
        using Some p by (auto simp: strtok_r_def Let_def split: if_splits)
      have "hd ?s \<noteq> d" using hd_dropWhile [OF ne] by simp
      then show ?thesis
        using ne tok by (cases ?s) (auto dest: set_takeWhileD)
    qed
    with "1.IH" [OF Some [unfolded p]] "1.prems" Some p show ?thesis
      by (auto simp: tokens.simps [of d s])
  qed
qed

section \<open>Properties\<close>

text \<open>
  A number printed in decimal is read back by \<open>string_to_uint_ex\<close>, with the end pointer at
  the accepted ending, exactly when it does not exceed \<open>max_val\<close>; a larger number is rejected,
  also when it does not fit a \<open>long long\<close>.
\<close>

lemma string_to_uint_ex_roundtrip:
  assumes "max_val \<le> LLONG_MAX"
    and "rest = [] \<or> (\<exists>acc. accepted = Some acc \<and> hd rest \<in> set acc) \<and> \<not> isdigit (hd rest)"
  shows "string_to_uint_ex (dec n @ rest) max_val accepted =
     (if int n \<le> max_val then (int n, Some rest) else (- 1, None))"
proof (cases "int n \<le> max_val")
  case True
  with assms show ?thesis
    by (simp add: string_to_uint_ex_dec)
next
  case False
  have "strtoll (dec n @ rest) =
      (if int n > LLONG_MAX then (LLONG_MAX, rest, True) else (int n, rest, False))"
    using assms(2) by (intro strtoll_dec) auto
  with False show ?thesis
    by (auto simp: string_to_uint_ex_def)
qed

lemma string_to_uint_ex_roundtrip_witness:
  "string_to_uint_ex (dec 42 @ ''+7'') 65535 (Some ''+.'') = (42, Some ''+7'')"
proof -
  have "(65535 :: int) \<le> LLONG_MAX"
    by (simp add: LLONG_MAX_def)
  moreover have "hd ''+7'' \<in> set ''+.''" "\<not> isdigit (hd ''+7'')"
    by (simp_all add: isdigit_def)
  ultimately show ?thesis
    using string_to_uint_ex_roundtrip [of 65535 "''+7''" "Some ''+.''" 42] by simp
qed

text \<open>
  \<open>string_to_uint_upto\<close> returns \<open>-1\<close> or a value within \<open>max_val\<close>, and it returns a value
  only for a string that is blanks, an optional sign and digits, to its last character.
\<close>

lemma string_to_uint_upto_sound:
  assumes "0 \<le> string_to_uint_upto str max_val"
  shows "string_to_uint_upto str max_val \<le> max_val
    \<and> (\<exists>ws sign ds. str = ws @ sign @ ds \<and> list_all isspace ws
         \<and> sign \<in> {[], ''+'', ''-''} \<and> ds \<noteq> [] \<and> list_all isdigit ds
         \<and> string_to_uint_upto str max_val = int (digits_val ds)
         \<and> (sign = ''-'' \<longrightarrow> digits_val ds = 0))"
proof -
  let ?s = "dropWhile isspace str" and ?r = "string_to_uint_upto str max_val"
  define signed where "signed \<longleftrightarrow> ?s \<noteq> [] \<and> (hd ?s = CHR ''-'' \<or> hd ?s = CHR ''+'')"
  define body where "body = (if signed then tl ?s else ?s)"
  define v where "v = (if ?s \<noteq> [] \<and> hd ?s = CHR ''-'' then - int (digits_val (takeWhile isdigit body))
     else int (digits_val (takeWhile isdigit body)))"
  have st: "strtoll str = (if takeWhile isdigit body = [] then (0, str, False)
      else if v > LLONG_MAX then (LLONG_MAX, dropWhile isdigit body, True)
      else if v < LLONG_MIN then (LLONG_MIN, dropWhile isdigit body, True)
      else (v, dropWhile isdigit body, False))"
    unfolding strtoll_def Let_def v_def body_def signed_def by simp
  have neg: "LLONG_MIN < 0" by (simp add: LLONG_MIN_def)
  from assms have ds: "takeWhile isdigit body \<noteq> []" and rest: "dropWhile isdigit body = []"
    and r: "?r = v" "v \<le> max_val"
    using neg by (auto simp: string_to_uint_upto_def string_to_uint_ex_def st split: if_splits)
  have bd: "body = takeWhile isdigit body"
    using rest by (metis append_Nil2 takeWhile_dropWhile_id)
  define sign where "sign = (if signed then [hd ?s] else [])"
  have "str = takeWhile isspace str @ sign @ body"
    by (cases ?s) (auto simp: sign_def signed_def body_def, (metis takeWhile_dropWhile_id append_Nil2)+)
  moreover have "list_all isspace (takeWhile isspace str)" "list_all isdigit body"
    using bd by (metis list_all_iff set_takeWhileD)+
  moreover have "?r = int (digits_val body)" "sign = ''-'' \<longrightarrow> digits_val body = 0"
    using assms r bd by (auto simp: v_def sign_def signed_def split: if_splits)
  moreover have "sign \<in> {[], ''+'', ''-''}"
    by (auto simp: sign_def signed_def)
  ultimately show ?thesis
    using ds bd r by metis
qed

lemma string_to_uint_upto_sound_witness:
  "string_to_uint_upto ''4095'' 4095 = 4095 \<and> string_to_uint_upto ''4095'' 4095 \<le> 4095"
proof -
  have v: "string_to_uint_upto ''4095'' 4095 = 4095"
    by code_simp
  then show ?thesis
    using string_to_uint_upto_sound [of "''4095''" 4095] by simp
qed

end
