(* ===== verification/Timespec.thy ===== *)
theory Timespec
  imports Cstring
begin

text \<open>
  Time arithmetic of \<^verbatim>\<open>util.c\<close>: \<open>ts_nz\<close> to \<open>ts_max\<close> and \<open>parse_ts\<close>.  The fields of
  \<open>struct timespec\<close> are signed C integers, taken as their values; \<open>ts_div\<close> mixes them with
  an unsigned 64-bit count and is modelled at that width.
\<close>

section \<open>Operations\<close>

record timespec =
  tv_sec :: int
  tv_nsec :: int

definition NS_IN_S :: int where
  "NS_IN_S = 1000000000"

definition ts_nz :: "timespec \<Rightarrow> bool" where
  "ts_nz a \<longleftrightarrow> tv_sec a \<noteq> 0 \<or> tv_nsec a \<noteq> 0"

definition ts_cmp :: "timespec \<Rightarrow> timespec \<Rightarrow> int" where
  "ts_cmp a b =
     (if tv_sec a < tv_sec b \<or> tv_sec a = tv_sec b \<and> tv_nsec a < tv_nsec b then -1
      else if tv_sec a > tv_sec b \<or> tv_sec a = tv_sec b \<and> tv_nsec a > tv_nsec b then 1
      else 0)"

definition ts_add :: "timespec \<Rightarrow> timespec \<Rightarrow> timespec" where
  "ts_add a b =
     (let sec = tv_sec a + tv_sec b; nsec = tv_nsec a + tv_nsec b
      in if nsec \<ge> 1000000000 then \<lparr>tv_sec = sec + 1, tv_nsec = nsec - 1000000000\<rparr>
         else \<lparr>tv_sec = sec, tv_nsec = nsec\<rparr>)"

definition ts_sub :: "timespec \<Rightarrow> timespec \<Rightarrow> timespec" where
  "ts_sub a b =
     (let sec = tv_sec a - tv_sec b; nsec = tv_nsec a - tv_nsec b
      in if nsec < 0 then \<lparr>tv_sec = sec - 1, tv_nsec = nsec + 1000000000\<rparr>
         else \<lparr>tv_sec = sec, tv_nsec = nsec\<rparr>)"

text \<open>
  In \<open>ts_div\<close> the count \<open>n\<close> is a \<open>uint64_t\<close>, so every operand of the first line is
  converted to unsigned 64 bits; the quotient is stored in a \<open>long long\<close>, whose division by
  a positive constant truncates towards zero.
\<close>

definition c_quot :: "int \<Rightarrow> int \<Rightarrow> int" where
  "c_quot a b = sgn a * sgn b * (\<bar>a\<bar> div \<bar>b\<bar>)"

definition c_rem :: "int \<Rightarrow> int \<Rightarrow> int" where
  "c_rem a b = a - b * c_quot a b"

definition ts_div :: "timespec \<Rightarrow> u64 \<Rightarrow> timespec" where
  "ts_div a n =
     (let sec = word_of_int (tv_sec a) :: u64;
          nsec = sint ((sec mod n * 1000000000 + word_of_int (tv_nsec a) + n div 2) div n)
      in \<lparr>tv_sec = sint (sec div n + word_of_int (c_quot nsec 1000000000)),
          tv_nsec = c_rem nsec 1000000000\<rparr>)"

definition ts_min :: "timespec \<Rightarrow> timespec \<Rightarrow> timespec" where
  "ts_min a b = (if ts_cmp a b < 0 then a else b)"

definition ts_max :: "timespec \<Rightarrow> timespec \<Rightarrow> timespec" where
  "ts_max a b = (if ts_cmp a b > 0 then a else b)"

text \<open>
  \<open>parse_ts\<close> reads an integer or a floating-point number with a unit suffix.  The
  floating-point operations of C are a parameter: what \<open>strtod\<close> returns (value, end pointer,
  whether \<open>errno\<close> is set), the test against zero, and the conversion of a value at a scale.
\<close>

record 'd float_ops =
  strtod :: "string \<Rightarrow> 'd \<times> string \<times> bool"
  float_lt_0 :: "'d \<Rightarrow> bool"
  float_to_ts :: "'d \<Rightarrow> int \<Rightarrow> timespec"

definition strspn :: "string \<Rightarrow> string \<Rightarrow> nat" where
  "strspn s accept = length (takeWhile (\<lambda>c. c \<in> set accept) s)"

definition parse_ts :: "'d float_ops \<Rightarrow> string \<Rightarrow> timespec option" where
  "parse_ts fo s =
     (let float_len = strspn s ''eE.-+0123456789'';
          int_len = strspn s ''+0123456789''
      in if float_len > int_len then
           (case strtod fo s of (float_val, endptr, err) \<Rightarrow>
              if endptr = s \<or> err then None
              else if float_lt_0 fo float_val then None
              else let scale = str2timescale_sfx (Some endptr)
                   in if scale \<le> 0 then None else Some (float_to_ts fo float_val scale))
         else
           (case string_to_uint_ex s LLONG_MAX (Some ''smun'') of (int_val, endptr) \<Rightarrow>
              if int_val < 0 then None
              else let scale = str2timescale_sfx endptr
                   in if scale \<le> 0 then None
                      else Some \<lparr>tv_sec = c_quot int_val (NS_IN_S div scale),
                                 tv_nsec = c_rem int_val (NS_IN_S div scale) * scale\<rparr>))"

lemma strspn_stop:
  "set ds \<subseteq> set accept \<Longrightarrow> sfx = [] \<or> hd sfx \<notin> set accept \<Longrightarrow>
   strspn (ds @ sfx) accept = length ds"
  by (induction ds) (cases sfx; auto simp: strspn_def)+

section \<open>Time values as nanoseconds\<close>

definition ts_norm :: "timespec \<Rightarrow> bool" where
  "ts_norm a \<longleftrightarrow> 0 \<le> tv_nsec a \<and> tv_nsec a < NS_IN_S"

definition ts_ns :: "timespec \<Rightarrow> int" where
  "ts_ns a = tv_sec a * NS_IN_S + tv_nsec a"

lemmas ts_unfold = ts_norm_def ts_ns_def NS_IN_S_def

lemma ts_norm_add [simp]: "ts_norm a \<Longrightarrow> ts_norm b \<Longrightarrow> ts_norm (ts_add a b)"
  by (auto simp: ts_unfold ts_add_def Let_def)

lemma ts_norm_sub [simp]: "ts_norm a \<Longrightarrow> ts_norm b \<Longrightarrow> ts_norm (ts_sub a b)"
  by (auto simp: ts_unfold ts_sub_def Let_def)

lemma ts_ns_add [simp]: "ts_ns (ts_add a b) = ts_ns a + ts_ns b"
  by (simp add: ts_unfold ts_add_def Let_def)

lemma ts_ns_sub [simp]: "ts_ns (ts_sub a b) = ts_ns a - ts_ns b"
  by (simp add: ts_unfold ts_sub_def Let_def)

lemma ts_cmp_sgn: "ts_norm a \<Longrightarrow> ts_norm b \<Longrightarrow> ts_cmp a b = sgn (ts_ns a - ts_ns b)"
  by (auto simp: ts_unfold ts_cmp_def sgn_if)

lemma ts_of_ns: "ts_norm a \<Longrightarrow> tv_sec a = ts_ns a div NS_IN_S \<and> tv_nsec a = ts_ns a mod NS_IN_S"
  by (simp add: ts_unfold)

lemma ts_ns_inj: "ts_norm a \<Longrightarrow> ts_norm b \<Longrightarrow> ts_ns a = ts_ns b \<Longrightarrow> a = b"
  by (simp add: ts_of_ns timespec.equality)

lemma ts_ns_max: "ts_norm a \<Longrightarrow> ts_norm b \<Longrightarrow> ts_ns (ts_max a b) = max (ts_ns a) (ts_ns b)"
  by (auto simp: ts_max_def ts_cmp_sgn sgn_if)

lemma ts_ns_min: "ts_norm a \<Longrightarrow> ts_norm b \<Longrightarrow> ts_ns (ts_min a b) = min (ts_ns a) (ts_ns b)"
  by (auto simp: ts_min_def ts_cmp_sgn sgn_if)

lemma ts_norm_max [simp]: "ts_norm a \<Longrightarrow> ts_norm b \<Longrightarrow> ts_norm (ts_max a b)"
  and ts_norm_min [simp]: "ts_norm a \<Longrightarrow> ts_norm b \<Longrightarrow> ts_norm (ts_min a b)"
  by (simp_all add: ts_max_def ts_min_def)

lemma c_quot_nonneg: "0 \<le> a \<Longrightarrow> 0 < b \<Longrightarrow> c_quot a b = a div b"
  by (cases "a = 0") (simp_all add: c_quot_def)

lemma c_rem_nonneg: "0 \<le> a \<Longrightarrow> 0 < b \<Longrightarrow> c_rem a b = a mod b"
  by (simp add: c_rem_def c_quot_nonneg minus_mult_div_eq_mod)

section \<open>Properties\<close>

text \<open>
  On normalised time values \<open>ts_add\<close>, \<open>ts_sub\<close>, \<open>ts_min\<close> and \<open>ts_max\<close> are exact on
  nanoseconds and return normalised values (also when a difference is negative), and
  \<open>ts_cmp\<close> is the sign of the difference.
\<close>

lemma ts_arith_exact:
  assumes "ts_norm a" "ts_norm b"
  shows "ts_norm (ts_add a b) \<and> ts_ns (ts_add a b) = ts_ns a + ts_ns b
    \<and> ts_norm (ts_sub a b) \<and> ts_ns (ts_sub a b) = ts_ns a - ts_ns b
    \<and> ts_ns (ts_min a b) = min (ts_ns a) (ts_ns b)
    \<and> ts_ns (ts_max a b) = max (ts_ns a) (ts_ns b)
    \<and> ts_cmp a b = sgn (ts_ns a - ts_ns b)"
  using assms by (simp add: ts_ns_min ts_ns_max ts_cmp_sgn)

lemma ts_arith_exact_witness:
  "ts_ns (ts_sub \<lparr>tv_sec = 1, tv_nsec = 2\<rparr> \<lparr>tv_sec = 1, tv_nsec = 5\<rparr>) = - 3"
proof -
  have "ts_norm \<lparr>tv_sec = 1, tv_nsec = 2\<rparr>" "ts_norm \<lparr>tv_sec = 1, tv_nsec = 5\<rparr>"
    by (simp_all add: ts_unfold)
  then show ?thesis
    using ts_arith_exact [of "\<lparr>tv_sec = 1, tv_nsec = 2\<rparr>" "\<lparr>tv_sec = 1, tv_nsec = 5\<rparr>"]
    by (simp add: ts_unfold)
qed

lemma ts_div_quotient:
  fixes n :: u64
  assumes "ts_norm a" "0 \<le> tv_sec a" "tv_sec a < 2 ^ 63" "0 < uint n" "uint n \<le> 10000000000"
  defines "q \<equiv> (tv_sec a mod uint n * 1000000000 + tv_nsec a + uint n div 2) div uint n"
  shows "uint (((word_of_int (tv_sec a) :: u64) mod n * 1000000000 + word_of_int (tv_nsec a)
            + n div 2) div n) = q"
    and "0 \<le> q" "q \<le> 1000000000"
proof -
  let ?N = "uint n" and ?r = "tv_sec a mod uint n"
  let ?x = "?r * 1000000000 + tv_nsec a + ?N div 2"
  have r: "0 \<le> ?r" "?r \<le> ?N - 1" using assms(4) by (simp_all add: int_one_le_iff_zero_less)
  then have rr: "?r * 1000000000 \<le> (?N - 1) * 1000000000" by (intro mult_right_mono) simp_all
  have ns: "0 \<le> tv_nsec a" "tv_nsec a < 1000000000" using assms(1) by (simp_all add: ts_unfold)
  have x: "0 \<le> ?x" "?x \<le> ?N * 1000000000 - 1 + ?N div 2"
    using r rr ns assms(4) by (auto simp: algebra_simps)
  have half: "?N div 2 \<le> ?N" "0 \<le> ?N div 2" using assms(4) by linarith+
  then have big: "?x < 18446744073709551616" using x(2) assms(5) by linarith
  have sec: "uint (word_of_int (tv_sec a) :: u64) = tv_sec a"
    using assms(2,3) by (simp add: uint_word_of_int)
  have m: "uint ((word_of_int (tv_sec a) :: u64) mod n * 1000000000) = ?r * 1000000000"
    using r rr assms(5) by (simp add: uint_word_ariths uint_mod sec)
  have m2: "uint ((word_of_int (tv_sec a) :: u64) mod n * 1000000000 + word_of_int (tv_nsec a))
      = ?r * 1000000000 + tv_nsec a"
    using r rr ns assms(5) by (simp add: uint_word_ariths(1) m uint_word_of_int)
  have "uint ((word_of_int (tv_sec a) :: u64) mod n * 1000000000 + word_of_int (tv_nsec a)
      + n div 2) = ?x"
    using x(1) big by (subst uint_word_ariths(1), subst m2) (simp add: uint_div)
  then show "uint (((word_of_int (tv_sec a) :: u64) mod n * 1000000000
      + word_of_int (tv_nsec a) + n div 2) div n) = q"
    by (simp add: uint_div q_def)
  show "0 \<le> q" using x(1) assms(4) by (simp add: q_def pos_imp_zdiv_nonneg_iff)
  have "?x \<le> ?N - 1 + 1000000000 * ?N" using x(2) assms(4) by linarith
  then have "q \<le> (?N - 1 + 1000000000 * ?N) div ?N"
    unfolding q_def using assms(4) by (intro zdiv_mono1) simp_all
  also have "\<dots> = 1000000000 + (?N - 1) div ?N"
    using assms(4) by (intro div_mult_self1) simp
  also have "\<dots> = 1000000000" using assms(4) by (simp add: div_pos_pos_trivial)
  finally show "q \<le> 1000000000" .
qed

text \<open>
  \<open>ts_div\<close> is the exact quotient rounded to the nearest nanosecond (halves up), in
  normalised form, for every non-negative time and every count up to ten thousand million,
  where the 64-bit products of the code cannot wrap.
\<close>

lemma ts_div_rounds:
  assumes "ts_norm a" "0 \<le> tv_sec a" "tv_sec a < 2 ^ 62" "0 < uint n" "uint n \<le> 10000000000"
  shows "ts_norm (ts_div a n) \<and> ts_ns (ts_div a n) = (ts_ns a + uint n div 2) div uint n"
proof -
  let ?N = "uint n" and ?S = "tv_sec a"
  define q where "q = (?S mod ?N * 1000000000 + tv_nsec a + ?N div 2) div ?N"
  have "?S < 2 ^ 63" using assms(3) by simp
  note Q = ts_div_quotient [OF assms(1,2) this assms(4,5), folded q_def]
  have nsec: "sint (((word_of_int ?S :: u64) mod n * 1000000000 + word_of_int (tv_nsec a)
      + n div 2) div n) = q"
    using Q by (subst sint_eq_uint_small) simp_all
  have qd: "0 \<le> q div 1000000000" "q div 1000000000 \<le> 1"
    using Q(2) Q(3) by simp_all
  have "?S div ?N \<le> ?S"
    using zdiv_mono2 [of ?S 1 ?N] assms(2,4) by simp
  then have sd: "0 \<le> ?S div ?N" "?S div ?N < 2 ^ 62"
    using assms(2-4) by (simp_all add: pos_imp_zdiv_nonneg_iff)
  have "uint ((word_of_int ?S :: u64) div n + word_of_int (q div 1000000000))
      = ?S div ?N + q div 1000000000"
    using qd sd assms(2,3) by (simp add: uint_word_ariths(1) uint_div uint_word_of_int)
  then have sec: "sint ((word_of_int ?S :: u64) div n + word_of_int (q div 1000000000))
      = ?S div ?N + q div 1000000000"
    using qd sd by (subst sint_eq_uint_small) simp_all
  have d: "ts_div a n = \<lparr>tv_sec = ?S div ?N + q div 1000000000, tv_nsec = q mod 1000000000\<rparr>"
    using Q(2) by (simp add: ts_div_def Let_def nsec c_quot_nonneg c_rem_nonneg sec)
  have "?S = ?S div ?N * ?N + ?S mod ?N" by simp
  then have "?S * 1000000000 = (?S div ?N * 1000000000) * ?N + ?S mod ?N * 1000000000"
    by algebra
  then have "(ts_ns a + ?N div 2) div ?N = ?S div ?N * 1000000000 + q"
    using assms(4) unfolding q_def ts_unfold
    by (simp add: add.assoc)
  then show ?thesis
    by (simp add: d ts_unfold algebra_simps)
qed

lemma ts_div_rounds_witness:
  "ts_ns (ts_div \<lparr>tv_sec = 2, tv_nsec = 1\<rparr> 2) = (2000000001 + 1) div 2"
proof -
  have "ts_norm \<lparr>tv_sec = 2, tv_nsec = 1\<rparr>" by (simp add: ts_unfold)
  from ts_div_rounds [OF this, of 2] show ?thesis by (simp add: ts_unfold)
qed

lemma str2timescale_sfx_units:
  "str2timescale_sfx (Some []) = 1000" "str2timescale_sfx (Some ''s'') = 1000000000"
  "str2timescale_sfx (Some ''ms'') = 1000000" "str2timescale_sfx (Some ''us'') = 1000"
  "str2timescale_sfx (Some ''ns'') = 1"
  by (simp_all add: str2timescale_sfx_def str2timescale_ex_def find_arg_val_def timescale_units_def
      strcaseeq_def tolower_def)

lemma ts_scaled:
  assumes "0 < k" "0 < scale" "k * scale = NS_IN_S"
  shows "ts_norm \<lparr>tv_sec = v div k, tv_nsec = v mod k * scale\<rparr>
    \<and> ts_ns \<lparr>tv_sec = v div k, tv_nsec = v mod k * scale\<rparr> = v * scale"
proof -
  have "v mod k * scale < k * scale"
    using assms(1,2) by (intro mult_strict_right_mono) simp_all
  moreover have "v div k * (k * scale) + v mod k * scale = (v div k * k + v mod k) * scale"
    by algebra
  moreover have "0 \<le> v mod k * scale" using assms by simp
  ultimately show ?thesis
    using assms(3) by (simp add: ts_norm_def ts_ns_def)
qed

text \<open>
  An integer with a unit suffix (none means microseconds), as given to \<open>-e inject=delay_*\<close>
  and \<open>--summary-syscall-overhead\<close>, parses to exactly that many nanoseconds in normalised form.
\<close>

lemma parse_ts_integer:
  assumes "int n \<le> LLONG_MAX"
    and "(sfx, scale) \<in> {([], 1000), (''s'', 1000000000), (''ms'', 1000000), (''us'', 1000), (''ns'', 1)}"
  shows "\<exists>t. parse_ts fo (dec n @ sfx) = Some t \<and> ts_norm t \<and> ts_ns t = int n * scale"
proof -
  have sfx: "sfx = [] \<or> hd sfx \<in> set ''smun'' \<and> \<not> isdigit (hd sfx)"
    using assms(2) by (auto simp: isdigit_def)
  have "strspn (dec n @ sfx) ''eE.-+0123456789'' = length (dec n)"
    using assms(2) by (intro strspn_stop subset_trans [OF dec_chars]) (simp, elim insertE, simp_all)
  moreover have "strspn (dec n @ sfx) ''+0123456789'' = length (dec n)"
    using assms(2) by (intro strspn_stop subset_trans [OF dec_chars]) (simp, elim insertE, simp_all)
  moreover have "string_to_uint_ex (dec n @ sfx) LLONG_MAX (Some ''smun'') = (int n, Some sfx)"
    using assms(1) sfx by (intro string_to_uint_ex_dec) auto
  moreover have "str2timescale_sfx (Some sfx) = scale" "0 < scale" "NS_IN_S div scale * scale = NS_IN_S"
    using assms(2) str2timescale_sfx_units by (auto simp: NS_IN_S_def)
  moreover have "0 < NS_IN_S div scale"
    using assms(2) by (auto simp: NS_IN_S_def)
  ultimately show ?thesis
    using ts_scaled [of "NS_IN_S div scale" scale "int n"]
    by (simp add: parse_ts_def c_quot_nonneg c_rem_nonneg)
qed

lemma parse_ts_integer_witness:
  "\<exists>t. parse_ts (undefined :: unit float_ops) (dec 1500 @ ''ms'') = Some t \<and> ts_ns t = 1500000000"
proof -
  have "int 1500 \<le> LLONG_MAX" by (simp add: LLONG_MAX_def)
  from parse_ts_integer [OF this, of "''ms''" 1000000] show ?thesis by auto
qed

end
