(* ===== verification/Sysent.thy ===== *)
theory Sysent
  imports Timespec
begin

text \<open>
  The tables strace is built with: the system call tables of each personality
  (\<^verbatim>\<open>sysent.h\<close>, \<^verbatim>\<open>syscall.c\<close>), error and signal names, and the architecture's choices.
  They are generated or selected per architecture, so they are fields of a configuration.
\<close>

section \<open>System call entries\<close>

text \<open>
  \<open>sys_func\<close> is modelled by whether it is non-null, and \<open>sen\<close>, an enumerator \<open>SEN_x\<close> of the
  generated \<^verbatim>\<open>sen.h\<close>, by its name \<open>x\<close>.
\<close>

record sysent =
  nargs :: nat
  sys_flags :: u32
  sen :: string
  sys_func :: bool
  sys_name :: "string option"

definition TRACE_FILE :: u32 where "TRACE_FILE = 0x1"
definition TRACE_IPC :: u32 where "TRACE_IPC = 0x2"
definition TRACE_NETWORK :: u32 where "TRACE_NETWORK = 0x4"
definition TRACE_PROCESS :: u32 where "TRACE_PROCESS = 0x8"
definition TRACE_SIGNAL :: u32 where "TRACE_SIGNAL = 0x10"
definition TRACE_DESC :: u32 where "TRACE_DESC = 0x20"
definition TRACE_MEMORY :: u32 where "TRACE_MEMORY = 0x40"
definition SYSCALL_NEVER_FAILS :: u32 where "SYSCALL_NEVER_FAILS = 0x80"
definition MEMORY_MAPPING_CHANGE :: u32 where "MEMORY_MAPPING_CHANGE = 0x100"
definition STACKTRACE_CAPTURE_ON_ENTER :: u32 where "STACKTRACE_CAPTURE_ON_ENTER = 0x200"
definition TRACE_INDIRECT_SUBCALL :: u32 where "TRACE_INDIRECT_SUBCALL = 0x400"
definition COMPAT_SYSCALL_TYPES :: u32 where "COMPAT_SYSCALL_TYPES = 0x800"
definition TRACE_STAT :: u32 where "TRACE_STAT = 0x1000"
definition TRACE_LSTAT :: u32 where "TRACE_LSTAT = 0x2000"
definition TRACE_STATFS :: u32 where "TRACE_STATFS = 0x4000"
definition TRACE_FSTATFS :: u32 where "TRACE_FSTATFS = 0x8000"
definition TRACE_STATFS_LIKE :: u32 where "TRACE_STATFS_LIKE = 0x10000"
definition TRACE_FSTAT :: u32 where "TRACE_FSTAT = 0x20000"
definition TRACE_STAT_LIKE :: u32 where "TRACE_STAT_LIKE = 0x40000"
definition TRACE_PURE :: u32 where "TRACE_PURE = 0x80000"
definition TRACE_SECCOMP_DEFAULT :: u32 where "TRACE_SECCOMP_DEFAULT = 0x100000"
definition TRACE_CREDS :: u32 where "TRACE_CREDS = 0x200000"
definition TRACE_CLOCK :: u32 where "TRACE_CLOCK = 0x400000"
definition COMM_CHANGE :: u32 where "COMM_CHANGE = 0x800000"

section \<open>The build configuration\<close>

record audit_arch_t =
  arch :: u32
  flag :: u32

text \<open>
  The POSIX regular expression functions of the C library: compiling gives an error message
  or a matcher, and matching a name succeeds, fails, or reports an error.
\<close>

datatype regexec_result = Re_match | Re_nomatch | Re_error string

record 'd config =
  sysent_vec :: "sysent list list"
  personality_designators :: "string list"
  audit_arch_vec :: "audit_arch_t list"
  shuffle_scno_pers :: "nat \<Rightarrow> nat \<Rightarrow> nat"
  arch_needs_non_shuffled_scno_check :: bool
  errnoent :: "string option list"
  signalent :: "string option list"
  asm_sigrt :: "(nat \<times> nat) option"
  nsig_bytes :: nat
  any_wordsize_less_than_kernel_long :: bool
  have_arch_dedicated_err_reg :: bool
  enable_secontext :: bool
  have_linux_kvm_h :: bool
  ENOSYS :: u64
  os_release :: nat
  regcomp :: "string \<Rightarrow> string + (string \<Rightarrow> regexec_result)"
  float_ops :: "'d float_ops"

definition SUPPORTED_PERSONALITIES :: "'d config \<Rightarrow> nat" where
  "SUPPORTED_PERSONALITIES cfg = length (sysent_vec cfg)"

text \<open>\<open>nsyscall_vec[p]\<close> is the size of the table of personality \<open>p\<close>.\<close>

definition nsyscall_vec :: "'d config \<Rightarrow> nat \<Rightarrow> nat" where
  "nsyscall_vec cfg p = length (sysent_vec cfg ! p)"

definition scno_pers_in_range :: "'d config \<Rightarrow> nat \<Rightarrow> nat \<Rightarrow> bool" where
  "scno_pers_in_range cfg scno pers \<longleftrightarrow> scno < nsyscall_vec cfg pers"

definition scno_pers_is_valid :: "'d config \<Rightarrow> nat \<Rightarrow> nat \<Rightarrow> bool" where
  "scno_pers_is_valid cfg scno pers \<longleftrightarrow>
     scno_pers_in_range cfg scno pers
     \<and> sys_func (sysent_vec cfg ! pers ! scno)
     \<and> sys_flags (sysent_vec cfg ! pers ! scno) AND TRACE_INDIRECT_SUBCALL = 0"

text \<open>
  A small build for the concrete evaluations of the development: two personalities, a few
  system calls with their real flags, and no regular expressions that compile.
\<close>

definition sample_entry :: "string \<Rightarrow> u32 \<Rightarrow> sysent" where
  "sample_entry name fl = \<lparr>nargs = 3, sys_flags = fl, sen = name, sys_func = True, sys_name = Some name\<rparr>"

definition sample_config :: "unit config" where
  "sample_config = \<lparr>
     sysent_vec =
       [[sample_entry ''read'' TRACE_DESC, sample_entry ''write'' TRACE_DESC,
         sample_entry ''open'' TRACE_FILE, sample_entry ''getpid'' TRACE_PURE],
        [sample_entry ''read'' TRACE_DESC, sample_entry ''getpid'' TRACE_PURE]],
     personality_designators = [''64'', ''32''],
     audit_arch_vec = [\<lparr>arch = 0xc000003e, flag = 0\<rparr>, \<lparr>arch = 0x40000003, flag = 0\<rparr>],
     shuffle_scno_pers = (\<lambda>nr p. nr),
     arch_needs_non_shuffled_scno_check = False,
     errnoent = [None, Some ''EPERM'', Some ''ENOENT''],
     signalent = [None, Some ''SIGHUP'', Some ''SIGINT''],
     asm_sigrt = Some (32, 64),
     nsig_bytes = 8,
     any_wordsize_less_than_kernel_long = True,
     have_arch_dedicated_err_reg = False,
     enable_secontext = False,
     have_linux_kvm_h = True,
     ENOSYS = 38,
     os_release = 0x041000,
     regcomp = (\<lambda>str. Inl ''unsupported''),
     float_ops = \<lparr>strtod = (\<lambda>s. ((), s, False)), float_lt_0 = (\<lambda>_. False),
                  float_to_ts = (\<lambda>_ _. \<lparr>tv_sec = 0, tv_nsec = 0\<rparr>)\<rparr>\<rparr>"

section \<open>Signal names\<close>

definition signame :: "'d config \<Rightarrow> int \<Rightarrow> string option" where
  "signame cfg sig =
     (if sig > 0 then
        (let s = nat sig
         in if s < length (signalent cfg) then signalent cfg ! s
            else case asm_sigrt cfg of None \<Rightarrow> None
              | Some (rtmin, rtmax) \<Rightarrow>
                  if s \<ge> rtmin \<and> s \<le> rtmax then Some (''SIGRT_'' @ dec (s - rtmin)) else None)
      else None)"

end
