(* ===== verification/Seccomp_Gen.thy ===== *)
theory Seccomp_Gen
  imports Bpf Sysent
begin

text \<open>
  The two generators of BPF programs of \<^verbatim>\<open>filter_seccomp.c\<close>, for a given predicate
  \<open>traced i p\<close> of the system calls to report, and what their programs compute on the
  machine of \<open>Bpf\<close>.
\<close>

section \<open>Jump placeholders\<close>

definition JMP_PLACEHOLDER_NEXT :: u8 where "JMP_PLACEHOLDER_NEXT = 255"
definition JMP_PLACEHOLDER_TRACE :: u8 where "JMP_PLACEHOLDER_TRACE = 254"
definition JMP_PLACEHOLDER_ALLOW :: u8 where "JMP_PLACEHOLDER_ALLOW = 253"

definition replace_jmp_placeholders :: "u8 \<Rightarrow> u8 \<Rightarrow> u8 \<Rightarrow> u8 \<Rightarrow> u8" where
  "replace_jmp_placeholders jmp_offset jmp_next jmp_trace jmp_allow =
     (if jmp_offset = JMP_PLACEHOLDER_NEXT then jmp_next
      else if jmp_offset = JMP_PLACEHOLDER_TRACE then jmp_trace
      else if jmp_offset = JMP_PLACEHOLDER_ALLOW then jmp_allow
      else jmp_offset)"

text \<open>
  The body of the loop that resolves the placeholders, for the instruction at offset \<open>i\<close> of
  a section of \<open>len\<close> instructions.
\<close>

definition resolve_insn :: "nat \<Rightarrow> nat \<Rightarrow> sock_filter \<Rightarrow> sock_filter" where
  "resolve_insn len i f =
     (if BPF_CLASS (sf_code f) \<noteq> BPF_JMP then f
      else let jmp_next = of_nat (len - i - 1);
               jmp_trace = of_nat (len - i - 2);
               jmp_allow = of_nat (len - i - 3);
               f = f\<lparr>sf_jt := replace_jmp_placeholders (sf_jt f) jmp_next jmp_trace jmp_allow,
                     sf_jf := replace_jmp_placeholders (sf_jf f) jmp_next jmp_trace jmp_allow\<rparr>
           in if BPF_OP (sf_code f) = BPF_JA then f\<lparr>sf_k := ucast jmp_next\<rparr> else f)"

text \<open>The instructions before offset \<open>end_off\<close> of a section are resolved.\<close>

definition resolve_section :: "nat \<Rightarrow> sock_filter list \<Rightarrow> sock_filter list" where
  "resolve_section end_off sec =
     map (\<lambda>i. if i < end_off then resolve_insn (length sec) i (sec ! i) else sec ! i) [0..<length sec]"

section \<open>The linear generator\<close>

definition LD_arch :: sock_filter where
  "LD_arch = SET_BPF_STMT (BPF_LD OR BPF_W OR BPF_ABS) offsetof_arch"

definition LD_nr :: sock_filter where
  "LD_nr = SET_BPF_STMT (BPF_LD OR BPF_W OR BPF_ABS) offsetof_nr"

definition RET_TRACE :: sock_filter where
  "RET_TRACE = SET_BPF_STMT (BPF_RET OR BPF_K) SECCOMP_RET_TRACE"

definition RET_ALLOW :: sock_filter where
  "RET_ALLOW = SET_BPF_STMT (BPF_RET OR BPF_K) SECCOMP_RET_ALLOW"

definition bpf_syscalls_cmp :: "u32 \<Rightarrow> u32 \<Rightarrow> sock_filter list" where
  "bpf_syscalls_cmp lower upper =
     (if lower + 1 = upper
      then [SET_BPF_JUMP (BPF_JEQ OR BPF_K) lower JMP_PLACEHOLDER_TRACE 0]
      else [SET_BPF_JUMP (BPF_JGE OR BPF_K) lower 0 1,
            SET_BPF_JUMP (BPF_JGE OR BPF_K) upper 0 JMP_PLACEHOLDER_TRACE])"

text \<open>
  The loop over the system calls \<open>i, i + 1, \<dots>\<close> below \<open>n\<close> (\<open>left\<close> of them); \<open>lower\<close> is
  \<open>None\<close> for \<open>UINT_MAX\<close>, outside a range of traced system calls.
\<close>

fun linear_loop :: "(nat \<Rightarrow> bool) \<Rightarrow> u32 \<Rightarrow> nat \<Rightarrow> nat \<Rightarrow> nat option \<Rightarrow> sock_filter list" where
  "linear_loop traced fl i 0 lower =
     (case lower of None \<Rightarrow> []
      | Some l \<Rightarrow> bpf_syscalls_cmp (of_nat l OR fl) (of_nat i OR fl))"
| "linear_loop traced fl i (Suc left) lower =
     (if traced i
      then linear_loop traced fl (Suc i) left (case lower of None \<Rightarrow> Some i | Some l \<Rightarrow> Some l)
      else case lower of
             None \<Rightarrow> linear_loop traced fl (Suc i) left None
           | Some l \<Rightarrow> bpf_syscalls_cmp (of_nat l OR fl) (of_nat i OR fl)
                       @ linear_loop traced fl (Suc i) left None)"

text \<open>The instructions that select a personality; none with a single personality.\<close>

definition arch_check :: "'d config \<Rightarrow> nat \<Rightarrow> sock_filter list" where
  "arch_check cfg p =
     (if SUPPORTED_PERSONALITIES cfg > 1
      then [SET_BPF_JUMP (BPF_JEQ OR BPF_K) (arch (audit_arch_vec cfg ! p)) 0 JMP_PLACEHOLDER_NEXT]
      else [])"

definition flag_check :: "'d config \<Rightarrow> nat \<Rightarrow> sock_filter list" where
  "flag_check cfg p =
     (if SUPPORTED_PERSONALITIES cfg > 1 \<and> flag (audit_arch_vec cfg ! p) \<noteq> 0
      then [SET_BPF_JUMP (BPF_JGE OR BPF_K) (flag (audit_arch_vec cfg ! p)) 2 0,
            LD_arch,
            SET_BPF_JUMP BPF_JA (ucast JMP_PLACEHOLDER_NEXT) 0 0]
      else [])"

definition linear_section :: "'d config \<Rightarrow> (nat \<Rightarrow> nat \<Rightarrow> bool) \<Rightarrow> nat \<Rightarrow> sock_filter list" where
  "linear_section cfg traced p =
     arch_check cfg p @ [LD_nr] @ flag_check cfg p
     @ linear_loop (\<lambda>i. traced i p) (flag (audit_arch_vec cfg ! p)) 0 (nsyscall_vec cfg p) None
     @ [SET_BPF_JUMP (BPF_JGE OR BPF_K) (of_nat (nsyscall_vec cfg p) OR flag (audit_arch_vec cfg ! p)) 1 0,
        RET_ALLOW, RET_TRACE]"

text \<open>The loop over the personalities below \<open>p\<close>, downwards; the flag is the overflow.\<close>

fun linear_sections ::
  "'d config \<Rightarrow> (nat \<Rightarrow> nat \<Rightarrow> bool) \<Rightarrow> nat \<Rightarrow> sock_filter list \<Rightarrow> sock_filter list \<times> bool" where
  "linear_sections cfg traced 0 prog = (prog, False)"
| "linear_sections cfg traced (Suc p) prog =
     (let sec = linear_section cfg traced p
      in if length sec > 255 then (prog @ sec, True)
         else linear_sections cfg traced p (prog @ resolve_section (length sec - 3) sec))"

definition linear_filter_generator ::
  "'d config \<Rightarrow> (nat \<Rightarrow> nat \<Rightarrow> bool) \<Rightarrow> sock_filter list \<times> bool" where
  "linear_filter_generator cfg traced =
     (let many = (SUPPORTED_PERSONALITIES cfg > 1)
      in case linear_sections cfg traced (SUPPORTED_PERSONALITIES cfg) (if many then [LD_arch] else []) of
           (prog, True) \<Rightarrow> (prog, True)
         | (prog, False) \<Rightarrow> (prog @ (if many then [RET_TRACE] else []), False))"

section \<open>The binary match generator\<close>

definition bpf_syscalls_match :: "u32 \<Rightarrow> u32 \<Rightarrow> sock_filter list" where
  "bpf_syscalls_match bitarray bitarray_idx =
     (if bitarray = 0
      then [SET_BPF_JUMP (BPF_JMP OR BPF_JEQ OR BPF_K) bitarray_idx JMP_PLACEHOLDER_ALLOW 0]
      else if bitarray = - 1
      then [SET_BPF_JUMP (BPF_JMP OR BPF_JEQ OR BPF_K) bitarray_idx JMP_PLACEHOLDER_TRACE 0]
      else [SET_BPF_JUMP (BPF_JMP OR BPF_JEQ OR BPF_K) bitarray_idx 0 2,
            SET_BPF_STMT (BPF_MISC OR BPF_TXA) 0,
            SET_BPF_JUMP (BPF_JMP OR BPF_JSET OR BPF_K) bitarray JMP_PLACEHOLDER_TRACE JMP_PLACEHOLDER_ALLOW])"

text \<open>
  The loop over the system calls from \<open>i\<close> on, \<open>left\<close> of them; \<open>pos\<close> is the position in the
  program.  It also ends when the program is too long.
\<close>

fun match_loop :: "(nat \<Rightarrow> bool) \<Rightarrow> nat \<Rightarrow> nat \<Rightarrow> u32 \<Rightarrow> nat \<Rightarrow> sock_filter list" where
  "match_loop traced i 0 bitarray pos =
     (if i mod 32 \<noteq> 0 then bpf_syscalls_match bitarray (of_nat (i div 32)) else [])"
| "match_loop traced i (Suc left) bitarray pos =
     (if pos > BPF_MAXINSNS
      then (if i mod 32 \<noteq> 0 then bpf_syscalls_match bitarray (of_nat (i div 32)) else [])
      else let bitarray = (if traced i then bitarray OR push_bit (i mod 32) 1 else bitarray)
           in if i mod 32 = 31
              then (let m = bpf_syscalls_match bitarray (of_nat (i div 32))
                    in m @ match_loop traced (Suc i) left 0 (pos + length m))
              else match_loop traced (Suc i) left bitarray pos)"

definition binary_header :: "'d config \<Rightarrow> nat \<Rightarrow> sock_filter list" where
  "binary_header cfg p =
     (let fl = flag (audit_arch_vec cfg ! p);
          strip = SET_BPF_STMT (BPF_ALU OR BPF_AND OR BPF_K) (NOT fl)
      in arch_check cfg p @ [LD_nr]
         @ (if SUPPORTED_PERSONALITIES cfg > 1 \<and> fl \<noteq> 0 then flag_check cfg p @ [strip] else [])
         @ [SET_BPF_STMT (BPF_ALU OR BPF_AND OR BPF_K) 0x1F,
            SET_BPF_STMT (BPF_MISC OR BPF_TAX) 0,
            SET_BPF_STMT (BPF_LD OR BPF_IMM) 1,
            SET_BPF_STMT (BPF_ALU OR BPF_LSH OR BPF_X) 0,
            SET_BPF_STMT (BPF_MISC OR BPF_TAX) 0,
            LD_nr]
         @ (if fl \<noteq> 0 then [strip] else [])
         @ [SET_BPF_STMT (BPF_ALU OR BPF_RSH OR BPF_K) 5])"

definition binary_section :: "'d config \<Rightarrow> (nat \<Rightarrow> nat \<Rightarrow> bool) \<Rightarrow> nat \<Rightarrow> nat \<Rightarrow> sock_filter list" where
  "binary_section cfg traced p pos =
     (let h = binary_header cfg p
      in h @ match_loop (\<lambda>i. traced i p) 0 (nsyscall_vec cfg p) 0 (pos + length h)
         @ [RET_ALLOW, RET_TRACE])"

fun binary_sections ::
  "'d config \<Rightarrow> (nat \<Rightarrow> nat \<Rightarrow> bool) \<Rightarrow> nat \<Rightarrow> sock_filter list \<Rightarrow> sock_filter list \<times> bool" where
  "binary_sections cfg traced 0 prog = (prog, False)"
| "binary_sections cfg traced (Suc p) prog =
     (if length prog > BPF_MAXINSNS then (prog, False)
      else let sec = binary_section cfg traced p (length prog)
           in if length sec > 255 then (prog @ sec, True)
              else binary_sections cfg traced p (prog @ resolve_section (length sec - 2) sec))"

definition binary_match_filter_generator ::
  "'d config \<Rightarrow> (nat \<Rightarrow> nat \<Rightarrow> bool) \<Rightarrow> sock_filter list \<times> bool" where
  "binary_match_filter_generator cfg traced =
     (let many = (SUPPORTED_PERSONALITIES cfg > 1)
      in case binary_sections cfg traced (SUPPORTED_PERSONALITIES cfg) (if many then [LD_arch] else []) of
           (prog, True) \<Rightarrow> (prog, True)
         | (prog, False) \<Rightarrow> (prog @ (if many then [RET_TRACE] else []), False))"

section \<open>Code at its place in a program\<close>

text \<open>
  \<open>placed prog b len e i xs\<close>: the instructions \<open>xs\<close>, whose placeholders are resolved before
  offset \<open>e\<close> of their section, stand at offset \<open>i\<close> of the section of length \<open>len\<close> that starts at
  \<open>b\<close>.
\<close>

definition placed :: "sock_filter list \<Rightarrow> nat \<Rightarrow> nat \<Rightarrow> nat \<Rightarrow> nat \<Rightarrow> sock_filter list \<Rightarrow> bool" where
  "placed prog b len e i xs \<longleftrightarrow>
     (\<forall>j < length xs. b + i + j < length prog
        \<and> prog ! (b + i + j) = (if i + j < e then resolve_insn len (i + j) (xs ! j) else xs ! j))"

lemma placed_Nil [simp]: "placed prog b len e i []"
  by (simp add: placed_def)

lemma all_less_Suc_shift: "(\<forall>j < Suc n. P j) \<longleftrightarrow> P 0 \<and> (\<forall>j < n. P (Suc j))"
  using less_Suc_eq_0_disj by auto

lemma placed_Cons [simp]:
  "placed prog b len e i (x # xs) \<longleftrightarrow>
     b + i < length prog \<and> prog ! (b + i) = (if i < e then resolve_insn len i x else x)
     \<and> placed prog b len e (Suc i) xs"
  unfolding placed_def length_Cons all_less_Suc_shift by simp

lemma placed_append [simp]:
  "placed prog b len e i (xs @ ys) \<longleftrightarrow> placed prog b len e i xs \<and> placed prog b len e (i + length xs) ys"
  by (induction xs arbitrary: i) simp_all

lemma length_resolve_section [simp]: "length (resolve_section e sec) = length sec"
  by (simp add: resolve_section_def)

lemma placed_section:
  "placed (pre @ resolve_section e sec @ post) (length pre) (length sec) e 0 sec"
  by (auto simp: placed_def resolve_section_def nth_append)

lemmas set_bpf_defs = SET_BPF_JUMP_def SET_BPF_STMT_def SET_BPF_def

lemmas insn_defs = LD_arch_def LD_nr_def RET_TRACE_def RET_ALLOW_def set_bpf_defs

text \<open>What resolving does to the instructions strace emits.\<close>

lemma resolve_stmt [simp]:
  "resolve_insn len i LD_arch = LD_arch"
  "resolve_insn len i LD_nr = LD_nr"
  "resolve_insn len i (SET_BPF_STMT (BPF_ALU OR BPF_AND OR BPF_K) v) = SET_BPF_STMT (BPF_ALU OR BPF_AND OR BPF_K) v"
  "resolve_insn len i (SET_BPF_STMT (BPF_ALU OR BPF_LSH OR BPF_X) v) = SET_BPF_STMT (BPF_ALU OR BPF_LSH OR BPF_X) v"
  "resolve_insn len i (SET_BPF_STMT (BPF_ALU OR BPF_RSH OR BPF_K) v) = SET_BPF_STMT (BPF_ALU OR BPF_RSH OR BPF_K) v"
  "resolve_insn len i (SET_BPF_STMT (BPF_MISC OR BPF_TAX) v) = SET_BPF_STMT (BPF_MISC OR BPF_TAX) v"
  "resolve_insn len i (SET_BPF_STMT (BPF_MISC OR BPF_TXA) v) = SET_BPF_STMT (BPF_MISC OR BPF_TXA) v"
  "resolve_insn len i (SET_BPF_STMT (BPF_LD OR BPF_IMM) v) = SET_BPF_STMT (BPF_LD OR BPF_IMM) v"
  by (simp_all add: resolve_insn_def insn_defs BPF_CLASS_def bpf_code_defs)

text \<open>A jump offset as the code stores it, in an \<open>unsigned char\<close>.\<close>

definition off8 :: "nat \<Rightarrow> u8" where
  "off8 n = of_nat n"

definition resolve_off :: "nat \<Rightarrow> nat \<Rightarrow> u8 \<Rightarrow> u8" where
  "resolve_off len i f =
     replace_jmp_placeholders f (of_nat (len - i - 1)) (of_nat (len - i - 2)) (of_nat (len - i - 3))"

lemma resolve_jump [simp]:
  "resolve_insn len i (SET_BPF_JUMP (BPF_JEQ OR BPF_K) v t f) =
     SET_BPF_JUMP (BPF_JEQ OR BPF_K) v (resolve_off len i t) (resolve_off len i f)"
  "resolve_insn len i (SET_BPF_JUMP (BPF_JGE OR BPF_K) v t f) =
     SET_BPF_JUMP (BPF_JGE OR BPF_K) v (resolve_off len i t) (resolve_off len i f)"
  "resolve_insn len i (SET_BPF_JUMP (BPF_JSET OR BPF_K) v t f) =
     SET_BPF_JUMP (BPF_JSET OR BPF_K) v (resolve_off len i t) (resolve_off len i f)"
  "resolve_insn len i (SET_BPF_JUMP BPF_JA v 0 0) = SET_BPF_JUMP BPF_JA (ucast (off8 (len - i - 1))) 0 0"
  by (simp_all add: resolve_insn_def set_bpf_defs BPF_CLASS_def BPF_OP_def bpf_code_defs Let_def
      off8_def resolve_off_def replace_jmp_placeholders_def JMP_PLACEHOLDER_NEXT_def JMP_PLACEHOLDER_TRACE_def
      JMP_PLACEHOLDER_ALLOW_def)

lemma jmp_twice [simp]:
  "SET_BPF_JUMP (BPF_JMP OR BPF_JEQ OR BPF_K) = SET_BPF_JUMP (BPF_JEQ OR BPF_K)"
  "SET_BPF_JUMP (BPF_JMP OR BPF_JSET OR BPF_K) = SET_BPF_JUMP (BPF_JSET OR BPF_K)"
  by (simp_all add: fun_eq_iff set_bpf_defs bpf_code_defs)

lemma resolve_off_simps [simp]:
  "resolve_off len i 0 = 0" "resolve_off len i 1 = 1" "resolve_off len i 2 = 2"
  "resolve_off len i JMP_PLACEHOLDER_NEXT = off8 (len - i - 1)"
  "resolve_off len i JMP_PLACEHOLDER_TRACE = off8 (len - i - 2)"
  "resolve_off len i JMP_PLACEHOLDER_ALLOW = off8 (len - i - 3)"
  by (simp_all add: off8_def resolve_off_def replace_jmp_placeholders_def JMP_PLACEHOLDER_NEXT_def JMP_PLACEHOLDER_TRACE_def
      JMP_PLACEHOLDER_ALLOW_def)

lemma unat_offset [simp]: "n \<le> 255 \<Longrightarrow> unat (off8 n) = n" "n \<le> 255 \<Longrightarrow> unat (ucast (off8 n) :: u32) = n"
  by (simp_all add: off8_def unat_of_nat unsigned_ucast_eq take_bit_nat_eq_self_iff)

section \<open>What the pieces compute\<close>

text \<open>The two labels at the end of a section.\<close>

definition ends_section :: "sock_filter list \<Rightarrow> nat \<Rightarrow> nat \<Rightarrow> bool" where
  "ends_section prog b len \<longleftrightarrow> 2 \<le> len \<and> len \<le> 255 \<and> b + len \<le> length prog
     \<and> prog ! (b + len - 2) = RET_ALLOW \<and> prog ! (b + len - 1) = RET_TRACE"

lemma word_cell: "(l :: u32) < l + 1 \<Longrightarrow> l \<le> a \<and> a < l + 1 \<longleftrightarrow> a = l"
proof -
  assume lt: "l < l + 1"
  then have "1 + l \<noteq> 0" by (auto simp: add.commute)
  then have "unat (l + 1) = Suc (unat l)" using unatSuc [of l] by (simp add: add.commute)
  then have "l \<le> a \<and> a < l + 1 \<longleftrightarrow> unat a = unat l"
    by (auto simp: word_le_nat_alt word_less_nat_alt)
  then show ?thesis by (simp only: word_unat_eq_iff)
qed

context cbpf
begin

lemma exec_stmt:
  assumes "pc < length prog"
  shows "prog ! pc = LD_nr \<Longrightarrow> exec prog d pc a x = exec prog d (Suc pc) (sd_nr d) x"
    and "prog ! pc = LD_arch \<Longrightarrow> exec prog d pc a x = exec prog d (Suc pc) (sd_arch d) x"
    and "prog ! pc = RET_TRACE \<Longrightarrow> exec prog d pc a x = SECCOMP_RET_TRACE"
    and "prog ! pc = RET_ALLOW \<Longrightarrow> exec prog d pc a x = SECCOMP_RET_ALLOW"
    and "prog ! pc = SET_BPF_STMT (BPF_ALU OR BPF_AND OR BPF_K) v \<Longrightarrow>
       exec prog d pc a x = exec prog d (Suc pc) (a AND v) x"
    and "prog ! pc = SET_BPF_STMT (BPF_ALU OR BPF_LSH OR BPF_X) v \<Longrightarrow> unat x < 32 \<Longrightarrow>
       exec prog d pc a x = exec prog d (Suc pc) (push_bit (unat x) a) x"
    and "prog ! pc = SET_BPF_STMT (BPF_ALU OR BPF_RSH OR BPF_K) v \<Longrightarrow> unat v < 32 \<Longrightarrow>
       exec prog d pc a x = exec prog d (Suc pc) (drop_bit (unat v) a) x"
    and "prog ! pc = SET_BPF_STMT (BPF_MISC OR BPF_TAX) v \<Longrightarrow> exec prog d pc a x = exec prog d (Suc pc) a a"
    and "prog ! pc = SET_BPF_STMT (BPF_MISC OR BPF_TXA) v \<Longrightarrow> exec prog d pc a x = exec prog d (Suc pc) x x"
    and "prog ! pc = SET_BPF_STMT (BPF_LD OR BPF_IMM) v \<Longrightarrow> exec prog d pc a x = exec prog d (Suc pc) v x"
  using ld_nr [OF assms] ld_arch [OF assms] ret [OF assms] alu_and [OF assms] alu_lsh [OF assms]
    alu_rsh [OF assms] tax [OF assms] txa [OF assms] ld_imm [OF assms]
  by (simp_all add: insn_defs)

lemma exec_jump:
  assumes "pc < length prog"
  shows "prog ! pc = SET_BPF_JUMP (BPF_JEQ OR BPF_K) v t f \<Longrightarrow>
      exec prog d pc a x = exec prog d (Suc pc + unat (if a = v then t else f)) a x"
    and "prog ! pc = SET_BPF_JUMP (BPF_JGE OR BPF_K) v t f \<Longrightarrow>
      exec prog d pc a x = exec prog d (Suc pc + unat (if v \<le> a then t else f)) a x"
    and "prog ! pc = SET_BPF_JUMP (BPF_JSET OR BPF_K) v t f \<Longrightarrow>
      exec prog d pc a x = exec prog d (Suc pc + unat (if a AND v \<noteq> 0 then t else f)) a x"
    and "prog ! pc = SET_BPF_JUMP BPF_JA v 0 0 \<Longrightarrow>
      exec prog d pc a x = exec prog d (Suc pc + unat v) a x"
  using jeq [OF assms] jge [OF assms] jset [OF assms] ja [OF assms] by (simp_all add: set_bpf_defs)

lemma exec_ends:
  assumes "ends_section prog b len"
  shows "exec prog d (b + len - 1) a x = SECCOMP_RET_TRACE"
    and "exec prog d (b + len - 2) a x = SECCOMP_RET_ALLOW"
  using assms by (auto simp: ends_section_def intro!: exec_stmt)

text \<open>Where a resolved jump lands.\<close>

lemma lands:
  assumes "ends_section prog b len" "i + 3 \<le> len"
  shows "exec prog d (Suc (b + i) + unat (off8 (len - i - 2))) a x = SECCOMP_RET_TRACE"
    and "exec prog d (Suc (b + i) + unat (off8 (len - i - 3))) a x = SECCOMP_RET_ALLOW"
    and "Suc (b + i) + unat (off8 (len - i - 1)) = b + len"
    and "Suc (b + i) + unat (ucast (off8 (len - i - 1)) :: u32) = b + len"
proof -
  have len: "len \<le> 255" using assms(1) by (simp add: ends_section_def)
  have "Suc (b + i) + unat (off8 (len - i - 2)) = b + len - 1"
    "Suc (b + i) + unat (off8 (len - i - 3)) = b + len - 2"
    using len assms(2) by simp_all
  then show "exec prog d (Suc (b + i) + unat (off8 (len - i - 2))) a x = SECCOMP_RET_TRACE"
    "exec prog d (Suc (b + i) + unat (off8 (len - i - 3))) a x = SECCOMP_RET_ALLOW"
    using exec_ends [OF assms(1)] by (simp_all only:)
  show "Suc (b + i) + unat (off8 (len - i - 1)) = b + len"
    "Suc (b + i) + unat (ucast (off8 (len - i - 1)) :: u32) = b + len"
    using len assms(2) by simp_all
qed

lemma cmp_exec:
  assumes "placed prog b len e i (bpf_syscalls_cmp l u)" "ends_section prog b len"
    and "i + length (bpf_syscalls_cmp l u) \<le> e" "e + 2 \<le> len" "l < u"
  shows "exec prog d (b + i) a x =
     (if l \<le> a \<and> a < u then SECCOMP_RET_TRACE
      else exec prog d (b + i + length (bpf_syscalls_cmp l u)) a x)"
proof (cases "l + 1 = u")
  case True
  then have cell: "l \<le> a \<and> a < u \<longleftrightarrow> a = l"
    using assms(5) word_cell [of l a] by simp
  have p: "b + i < length prog"
    "prog ! (b + i) = SET_BPF_JUMP (BPF_JEQ OR BPF_K) l (off8 (len - i - 2)) 0" "i + 3 \<le> len"
    using assms(1,3,4) True by (auto simp: bpf_syscalls_cmp_def)
  show ?thesis
    unfolding exec_jump(1) [OF p(1,2)] cell
    using True by (simp add: lands [OF assms(2) p(3), simplified] bpf_syscalls_cmp_def)
next
  case False
  then have p: "b + i < length prog" "prog ! (b + i) = SET_BPF_JUMP (BPF_JGE OR BPF_K) l 0 1"
    "b + Suc i < length prog"
    "prog ! (b + Suc i) = SET_BPF_JUMP (BPF_JGE OR BPF_K) u 0 (off8 (len - Suc i - 2))" "Suc i + 3 \<le> len"
    using assms(1,3,4) by (auto simp: bpf_syscalls_cmp_def)
  have "exec prog d (b + Suc i) a x =
      (if a < u then SECCOMP_RET_TRACE else exec prog d (Suc (b + Suc i)) a x)"
    unfolding exec_jump(2) [OF p(3,4)] using lands(1) [OF assms(2) p(5)] by auto
  moreover have "exec prog d (b + i) a x =
      (if l \<le> a then exec prog d (b + Suc i) a x else exec prog d (Suc (b + Suc i)) a x)"
    unfolding exec_jump(2) [OF p(1,2)] by simp
  ultimately show ?thesis using False by (simp add: bpf_syscalls_cmp_def)
qed

text \<open>
  The loop of the linear generator: the word \<open>w j\<close> of system call \<open>j\<close> grows with \<open>j\<close>, and the
  code catches exactly the words of the traced system calls.
\<close>

lemma linear_loop_exec:
  fixes fl :: u32
  defines "w \<equiv> \<lambda>j. of_nat j OR fl"
  assumes "placed prog b len e i (linear_loop traced fl j left lower)" "ends_section prog b len"
    and "i + length (linear_loop traced fl j left lower) \<le> e" "e + 2 \<le> len"
    and "\<And>m n. m < n \<Longrightarrow> n \<le> j + left \<Longrightarrow> w m < w n"
    and "\<And>l. lower = Some l \<Longrightarrow> l < j"
  shows "exec prog d (b + i) a x =
     (if (\<exists>l. lower = Some l \<and> w l \<le> a \<and> a < w j)
         \<or> (\<exists>m. j \<le> m \<and> m < j + left \<and> traced m \<and> w m \<le> a \<and> a < w (Suc m))
      then SECCOMP_RET_TRACE
      else exec prog d (b + i + length (linear_loop traced fl j left lower)) a x)"
  using assms(2-7)
proof (induction left arbitrary: i j lower)
  case 0
  show ?case
  proof (cases lower)
    case None
    then show ?thesis by auto
  next
    case (Some l)
    then have "w l < w j" using 0 by simp
    with 0 Some show ?thesis by (auto simp: w_def cmp_exec)
  qed
next
  case (Suc left)
  note mono = Suc.prems(5)
  note split = ex_range_split [of j left]
  show ?case
  proof (cases "traced j")
    case True
    let ?l = "case lower of None \<Rightarrow> j | Some l \<Rightarrow> l"
    have "exec prog d (b + i) a x =
     (if (\<exists>l. Some ?l = Some l \<and> w l \<le> a \<and> a < w (Suc j))
         \<or> (\<exists>m. Suc j \<le> m \<and> m < Suc j + left \<and> traced m \<and> w m \<le> a \<and> a < w (Suc m))
      then SECCOMP_RET_TRACE
      else exec prog d (b + i + length (linear_loop traced fl (Suc j) left (Some ?l))) a x)"
      using Suc.prems True
      by (intro Suc.IH) (auto split: option.splits simp: less_SucI)
    moreover have "w ?l \<le> a \<and> a < w (Suc j) \<longleftrightarrow>
       (\<exists>l. lower = Some l \<and> w l \<le> a \<and> a < w j) \<or> w j \<le> a \<and> a < w (Suc j)"
      using Suc.prems(6) mono [of ?l j] mono [of j "Suc j"]
      by (auto split: option.splits)
    moreover have "linear_loop traced fl j (Suc left) lower = linear_loop traced fl (Suc j) left (Some ?l)"
      using True by (auto split: option.splits)
    ultimately show ?thesis
      unfolding split using True by auto
  next
    case False
    show ?thesis
    proof (cases lower)
      case None
      have "exec prog d (b + i) a x =
       (if (\<exists>l. None = Some l \<and> w l \<le> a \<and> a < w (Suc j))
           \<or> (\<exists>m. Suc j \<le> m \<and> m < Suc j + left \<and> traced m \<and> w m \<le> a \<and> a < w (Suc m))
        then SECCOMP_RET_TRACE
        else exec prog d (b + i + length (linear_loop traced fl (Suc j) left None)) a x)"
        using Suc.prems False None by (intro Suc.IH) auto
      then show ?thesis unfolding split using False None by auto
    next
      case (Some l)
      let ?c = "bpf_syscalls_cmp (w l) (w j)"
      have c: "exec prog d (b + i) a x = (if w l \<le> a \<and> a < w j then SECCOMP_RET_TRACE
          else exec prog d (b + i + length ?c) a x)"
        using Suc.prems False Some mono [of l j] by (intro cmp_exec) (auto simp: w_def)
      have "exec prog d (b + (i + length ?c)) a x =
       (if (\<exists>l. None = Some l \<and> w l \<le> a \<and> a < w (Suc j))
           \<or> (\<exists>m. Suc j \<le> m \<and> m < Suc j + left \<and> traced m \<and> w m \<le> a \<and> a < w (Suc m))
        then SECCOMP_RET_TRACE
        else exec prog d (b + (i + length ?c) + length (linear_loop traced fl (Suc j) left None)) a x)"
        using Suc.prems False Some by (intro Suc.IH) (auto simp: w_def)
      moreover have "linear_loop traced fl j (Suc left) lower = ?c @ linear_loop traced fl (Suc j) left None"
        using False Some by (simp add: w_def)
      ultimately show ?thesis using c False Some unfolding split by (auto simp: add.assoc)
    qed
  qed
qed

text \<open>The selection of the personality, for both generators.\<close>

lemma header_exec:
  assumes "SUPPORTED_PERSONALITIES cfg > 1" "ends_section prog b len" "e + 2 \<le> len"
    and "placed prog b len e 0 (arch_check cfg p @ [LD_nr] @ flag_check cfg p)"
    and "length (arch_check cfg p @ [LD_nr] @ flag_check cfg p) \<le> e"
  shows "exec prog d b (sd_arch d) x =
     (if sd_arch d = arch (audit_arch_vec cfg ! p)
         \<and> (flag (audit_arch_vec cfg ! p) = 0 \<or> flag (audit_arch_vec cfg ! p) \<le> sd_nr d)
      then exec prog d (b + length (arch_check cfg p @ [LD_nr] @ flag_check cfg p)) (sd_nr d) x
      else exec prog d (b + len) (sd_arch d) x)"
proof -
  let ?A = "arch (audit_arch_vec cfg ! p)" and ?F = "flag (audit_arch_vec cfg ! p)"
  have p0: "b + 0 < length prog"
    "prog ! (b + 0) = SET_BPF_JUMP (BPF_JEQ OR BPF_K) ?A 0 (off8 (len - 0 - 1))"
    "b + 1 < length prog" "prog ! (b + 1) = LD_nr" "0 + 3 \<le> len"
    using assms by (auto simp: arch_check_def split: if_splits)
  have "exec prog d (b + 0) (sd_arch d) x =
      (if sd_arch d = ?A then exec prog d (b + 1) (sd_arch d) x else exec prog d (b + len) (sd_arch d) x)"
    unfolding exec_jump(1) [OF p0(1,2)] lands(3) [OF assms(2) p0(5), symmetric] by simp
  then have start: "exec prog d b (sd_arch d) x =
      (if sd_arch d = ?A then exec prog d (Suc (b + 1)) (sd_nr d) x else exec prog d (b + len) (sd_arch d) x)"
    using exec_stmt(1) [OF p0(3,4)] by simp
  show ?thesis
  proof (cases "?F = 0")
    case True
    then show ?thesis using start assms(1) by (simp add: arch_check_def flag_check_def)
  next
    case False
    define i2 i3 i4 :: nat where "i2 = Suc (Suc 0)" and "i3 = Suc i2" and "i4 = Suc i3"
    note i = i4_def i3_def i2_def
    have p1: "b + i2 < length prog" "prog ! (b + i2) = SET_BPF_JUMP (BPF_JGE OR BPF_K) ?F 2 0"
      "b + i3 < length prog" "prog ! (b + i3) = LD_arch" "b + i4 < length prog"
      "prog ! (b + i4) = SET_BPF_JUMP BPF_JA (ucast (off8 (len - i4 - 1))) 0 0" "i4 + 3 \<le> len"
      using assms False by (auto simp: arch_check_def flag_check_def i split: if_splits)
    have "exec prog d (b + i4) (sd_arch d) x = exec prog d (b + len) (sd_arch d) x"
      unfolding exec_jump(4) [OF p1(5,6)] lands(4) [OF assms(2) p1(7)] ..
    then have "exec prog d (b + i2) (sd_nr d) x =
        (if ?F \<le> sd_nr d then exec prog d (Suc (b + i4)) (sd_nr d) x else exec prog d (b + len) (sd_arch d) x)"
      using exec_jump(2) [OF p1(1,2), of d "sd_nr d" x] exec_stmt(2) [OF p1(3,4), of d "sd_nr d" x]
      by (auto simp: i)
    with start False assms(1) show ?thesis
      by (auto simp: arch_check_def flag_check_def i)
  qed
qed

end

section \<open>System call words\<close>

text \<open>
  The word \<open>i | flag\<close> that stands for system call \<open>i\<close> in the \<open>nr\<close> field.  The flag of a
  personality lies above all numbers of its table (\<open>__X32_SYSCALL_BIT\<close>, or 0).
\<close>

definition nr_word :: "'d config \<Rightarrow> nat \<Rightarrow> nat \<Rightarrow> u32" where
  "nr_word cfg p i = of_nat i OR flag (audit_arch_vec cfg ! p)"

definition flag_above :: "nat \<Rightarrow> u32 \<Rightarrow> bool" where
  "flag_above n fl \<longleftrightarrow> (\<exists>b \<le> 31. n < 2 ^ b \<and> take_bit b fl = 0)"

definition flags_ok :: "'d config \<Rightarrow> bool" where
  "flags_ok cfg \<longleftrightarrow>
     (\<forall>p < SUPPORTED_PERSONALITIES cfg. flag_above (nsyscall_vec cfg p) (flag (audit_arch_vec cfg ! p))
        \<and> (SUPPORTED_PERSONALITIES cfg = 1 \<longrightarrow> flag (audit_arch_vec cfg ! p) = 0))"

lemma flag_above_add:
  assumes "flag_above n fl" "i \<le> n"
  shows "of_nat i AND fl = 0" "unat (of_nat i OR fl) = unat fl + i"
proof -
  obtain b where b: "b \<le> 31" "n < 2 ^ b" "take_bit b fl = 0"
    using assms(1) by (auto simp: flag_above_def)
  have i: "i < 2 ^ b" using b(2) assms(2) by simp
  then have t: "of_nat i = take_bit b (of_nat i :: u32)"
    by (simp add: take_bit_of_nat take_bit_nat_eq_self)
  have nb: "\<not> bit fl m" if "m < b" for m
    using b(3) that bit_take_bit_iff [of b fl m] by simp
  show d: "of_nat i AND fl = 0"
    by (subst t, rule bit_eqI) (auto simp: bit_simps dest: nb)
  have "take_bit b (unat fl) = 0"
    using b(3) by (metis unsigned_0 unsigned_take_bit_eq)
  then have "2 ^ b dvd unat fl" by (simp only: take_bit_eq_0_iff)
  then obtain q where q: "unat fl = 2 ^ b * q" by blast
  have w: "(2 :: nat) ^ 32 = 2 ^ b * 2 ^ (32 - b)" using b(1) by (simp flip: power_add)
  with unat32_less [of fl] q have "2 ^ b * q < 2 ^ b * 2 ^ (32 - b)" by simp
  then have "q + 1 \<le> 2 ^ (32 - b)" by simp
  then have "2 ^ b * (q + 1) \<le> 2 ^ b * 2 ^ (32 - b)" by (intro mult_le_mono) simp_all
  then have s: "unat fl + i < 2 ^ 32" using q i w by simp
  have "of_nat i OR fl = fl + of_nat i" using disjunctive_add_eq_or [OF d] by (simp add: add.commute)
  then have "unat (of_nat i OR fl) = (unat fl + i) mod 2 ^ 32"
    by (simp add: unat_word_ariths unat_of_nat mod_simps)
  with s show "unat (of_nat i OR fl) = unat fl + i" by (simp only: mod_less)
qed

lemma nr_word_mono:
  assumes "flags_ok cfg" "p < SUPPORTED_PERSONALITIES cfg" "j \<le> nsyscall_vec cfg p"
  shows "i < j \<Longrightarrow> nr_word cfg p i < nr_word cfg p j"
    and "i \<le> j \<Longrightarrow> unat (nr_word cfg p i) = unat (flag (audit_arch_vec cfg ! p)) + i"
    and "i \<le> j \<Longrightarrow> flag (audit_arch_vec cfg ! p) \<le> nr_word cfg p i"
    and "i < j \<Longrightarrow> nr_word cfg p i \<le> a \<and> a < nr_word cfg p (Suc i) \<longleftrightarrow> a = nr_word cfg p i"
proof -
  have fl: "flag_above (nsyscall_vec cfg p) (flag (audit_arch_vec cfg ! p))"
    using assms(1,2) by (simp add: flags_ok_def)
  have u: "unat (nr_word cfg p i) = unat (flag (audit_arch_vec cfg ! p)) + i" if "i \<le> j" for i
    unfolding nr_word_def using assms(3) that by (intro flag_above_add(2) [OF fl]) simp
  show "i < j \<Longrightarrow> nr_word cfg p i < nr_word cfg p j" by (simp add: word_less_nat_alt u)
  show "i \<le> j \<Longrightarrow> unat (nr_word cfg p i) = unat (flag (audit_arch_vec cfg ! p)) + i" by (rule u)
  show "i \<le> j \<Longrightarrow> flag (audit_arch_vec cfg ! p) \<le> nr_word cfg p i" by (simp add: word_le_nat_alt u)
  assume "i < j"
  then have "nr_word cfg p i \<le> a \<and> a < nr_word cfg p (Suc i) \<longleftrightarrow> unat a = unat (nr_word cfg p i)"
    by (auto simp: word_le_nat_alt word_less_nat_alt u)
  then show "nr_word cfg p i \<le> a \<and> a < nr_word cfg p (Suc i) \<longleftrightarrow> a = nr_word cfg p i"
    by (simp only: word_unat_eq_iff)
qed

section \<open>The linear program\<close>

text \<open>What the section of personality \<open>p\<close> decides.\<close>

definition linear_decision :: "'d config \<Rightarrow> (nat \<Rightarrow> nat \<Rightarrow> bool) \<Rightarrow> nat \<Rightarrow> u32 \<Rightarrow> u32" where
  "linear_decision cfg traced p n =
     (if (\<exists>i < nsyscall_vec cfg p. traced i p \<and> n = nr_word cfg p i) \<or> nr_word cfg p (nsyscall_vec cfg p) \<le> n
      then SECCOMP_RET_TRACE else SECCOMP_RET_ALLOW)"

text \<open>
  The personality a program takes a system call for: the last one whose architecture and flag
  fit.  With a single personality there is no test.
\<close>

definition fits :: "'d config \<Rightarrow> seccomp_data \<Rightarrow> nat \<Rightarrow> bool" where
  "fits cfg d p \<longleftrightarrow> sd_arch d = arch (audit_arch_vec cfg ! p)
     \<and> (flag (audit_arch_vec cfg ! p) = 0 \<or> flag (audit_arch_vec cfg ! p) \<le> sd_nr d)"

fun decide :: "'d config \<Rightarrow> seccomp_data \<Rightarrow> (nat \<Rightarrow> u32) \<Rightarrow> nat \<Rightarrow> u32" where
  "decide cfg d sec 0 = SECCOMP_RET_TRACE"
| "decide cfg d sec (Suc p) =
     (if \<not> (SUPPORTED_PERSONALITIES cfg > 1) \<or> fits cfg d p then sec p else decide cfg d sec p)"

context cbpf
begin

lemma single_header_exec:
  assumes "\<not> SUPPORTED_PERSONALITIES cfg > 1"
    and "placed prog b len e 0 (arch_check cfg p @ [LD_nr] @ flag_check cfg p)"
  shows "exec prog d b a x =
    exec prog d (b + length (arch_check cfg p @ [LD_nr] @ flag_check cfg p)) (sd_nr d) x"
  using assms exec_stmt(1) [of b prog d a x] by (auto simp: arch_check_def flag_check_def split: if_splits)

lemma linear_section_exec:
  assumes "flags_ok cfg" "p < SUPPORTED_PERSONALITIES cfg"
    and "length (linear_section cfg traced p) \<le> 255"
    and "placed prog b (length (linear_section cfg traced p)) (length (linear_section cfg traced p) - 3) 0
           (linear_section cfg traced p)"
    and "SUPPORTED_PERSONALITIES cfg > 1 \<Longrightarrow> a = sd_arch d"
  shows "exec prog d b a x =
     (if \<not> SUPPORTED_PERSONALITIES cfg > 1 \<or> fits cfg d p then linear_decision cfg traced p (sd_nr d)
      else exec prog d (b + length (linear_section cfg traced p)) (sd_arch d) x)"
proof -
  let ?s = "linear_section cfg traced p" and ?n = "nsyscall_vec cfg p"
  let ?h = "arch_check cfg p @ [LD_nr] @ flag_check cfg p"
  let ?l = "linear_loop (\<lambda>i. traced i p) (flag (audit_arch_vec cfg ! p)) 0 ?n None"
  let ?t = "[SET_BPF_JUMP (BPF_JGE OR BPF_K) (nr_word cfg p ?n) 1 0, RET_ALLOW, RET_TRACE]"
  have s: "?s = ?h @ ?l @ ?t" by (simp add: linear_section_def nr_word_def)
  then have len: "length ?s = length ?h + length ?l + 3" by simp
  have pl: "placed prog b (length ?s) (length ?s - 3) 0 ?h"
    "placed prog b (length ?s) (length ?s - 3) (length ?h) ?l"
    "placed prog b (length ?s) (length ?s - 3) (length ?h + length ?l) ?t"
    using assms(4) unfolding s by (simp_all only: placed_append add_0)
  define q where "q = length ?h + length ?l"
  have len': "length ?s = q + 3" using len by (simp only: q_def)
  have tail: "b + q < length prog" "prog ! (b + q) = SET_BPF_JUMP (BPF_JGE OR BPF_K) (nr_word cfg p ?n) 1 0"
    and ends: "ends_section prog b (length ?s)"
    using pl(3) assms(3) unfolding len' q_def [symmetric] by (auto simp: ends_section_def eval_nat_numeral)
  have rest: "exec prog d (b + q) a x =
      (if nr_word cfg p ?n \<le> a then SECCOMP_RET_TRACE else SECCOMP_RET_ALLOW)" for a x
    using exec_jump(2) [OF tail, of d a x] exec_ends [OF ends, of d a x] unfolding len'
    by (auto simp: eval_nat_numeral)
  have loop: "exec prog d (b + length ?h) a x =
      (if \<exists>i < ?n. traced i p \<and> a = nr_word cfg p i then SECCOMP_RET_TRACE
       else exec prog d (b + length ?h + length ?l) a x)" for a x
  proof -
    have "exec prog d (b + length ?h) a x =
       (if (\<exists>l. None = Some l \<and> of_nat l OR flag (audit_arch_vec cfg ! p) \<le> a
              \<and> a < of_nat 0 OR flag (audit_arch_vec cfg ! p))
           \<or> (\<exists>m. 0 \<le> m \<and> m < 0 + ?n \<and> traced m p \<and> of_nat m OR flag (audit_arch_vec cfg ! p) \<le> a
              \<and> a < of_nat (Suc m) OR flag (audit_arch_vec cfg ! p))
        then SECCOMP_RET_TRACE else exec prog d (b + length ?h + length ?l) a x)"
      using pl(2) ends len nr_word_mono(1) [OF assms(1,2)]
      by (intro linear_loop_exec) (auto simp: nr_word_def simp del: of_nat_Suc)
    then show ?thesis
      using nr_word_mono(4) [OF assms(1,2) order_refl] unfolding nr_word_def [symmetric] by auto
  qed
  have body: "exec prog d (b + length ?h) (sd_nr d) x = linear_decision cfg traced p (sd_nr d)" for x
  proof -
    have e: "b + length ?h + length ?l = b + q" by (simp only: q_def add.assoc)
    show ?thesis unfolding loop e rest linear_decision_def by auto
  qed
  show ?thesis
  proof (cases "SUPPORTED_PERSONALITIES cfg > 1")
    case True
    have "length ?s - 3 + 2 \<le> length ?s" "length ?h \<le> length ?s - 3" using len by simp_all
    from header_exec [OF True ends this(1) pl(1) this(2), of d x] body True assms(5) show ?thesis
      by (simp only: fits_def if_True simp_thms)
  next
    case False
    then show ?thesis using single_header_exec [OF False pl(1)] body by (simp only: simp_thms if_True)
  qed
qed

lemma sections_extend:
  "linear_sections cfg traced p pre = (prog, ov) \<Longrightarrow> \<exists>suf. prog = pre @ suf"
  "binary_sections cfg traced p pre = (prog, ov) \<Longrightarrow> \<exists>suf. prog = pre @ suf"
  by (induction p arbitrary: pre) (force simp: Let_def split: if_splits)+

lemma linear_sections_exec:
  assumes "flags_ok cfg" "p \<le> SUPPORTED_PERSONALITIES cfg"
    and "linear_sections cfg traced p pre = (body, False)"
    and "\<And>a x. SUPPORTED_PERSONALITIES cfg > 1 \<Longrightarrow> exec (body @ post) d (length body) a x = SECCOMP_RET_TRACE"
    and "SUPPORTED_PERSONALITIES cfg > 1 \<or> p > 0" "SUPPORTED_PERSONALITIES cfg > 1 \<Longrightarrow> a = sd_arch d"
  shows "exec (body @ post) d (length pre) a x =
    decide cfg d (\<lambda>q. linear_decision cfg traced q (sd_nr d)) p"
  using assms(2,3,5,6)
proof (induction p arbitrary: pre a x)
  case 0
  then show ?case using assms(4) by simp
next
  case (Suc p)
  let ?s = "linear_section cfg traced p"
  let ?r = "resolve_section (length ?s - 3) ?s"
  from Suc.prems(2) have len: "length ?s \<le> 255"
    and l: "linear_sections cfg traced p (pre @ ?r) = (body, False)"
    by (auto simp: Let_def split: if_splits)
  obtain suf where suf: "body = (pre @ ?r) @ suf" using sections_extend(1) [OF l] by blast
  have "placed (body @ post) (length pre) (length ?s) (length ?s - 3) 0 ?s"
    using placed_section [of pre "length ?s - 3" ?s "suf @ post"] by (simp add: suf)
  from linear_section_exec [OF assms(1) _ len this Suc.prems(4), where x = x] Suc.prems(1)
  have step: "exec (body @ post) d (length pre) a x =
     (if \<not> SUPPORTED_PERSONALITIES cfg > 1 \<or> fits cfg d p then linear_decision cfg traced p (sd_nr d)
      else exec (body @ post) d (length (pre @ ?r)) (sd_arch d) x)"
    by simp
  show ?case
  proof (cases "\<not> SUPPORTED_PERSONALITIES cfg > 1 \<or> fits cfg d p")
    case True
    then show ?thesis using step by auto
  next
    case False
    then show ?thesis using step Suc.IH [OF _ l, of "sd_arch d" x] Suc.prems(1) by auto
  qed
qed

lemma linear_filter_exec:
  assumes "flags_ok cfg" "0 < SUPPORTED_PERSONALITIES cfg"
    and "linear_filter_generator cfg traced = (prog, False)"
  shows "exec prog d 0 a x =
    decide cfg d (\<lambda>q. linear_decision cfg traced q (sd_nr d)) (SUPPORTED_PERSONALITIES cfg)"
proof (cases "SUPPORTED_PERSONALITIES cfg > 1")
  case True
  then obtain body where l: "linear_sections cfg traced (SUPPORTED_PERSONALITIES cfg) [LD_arch] = (body, False)"
    and prog: "prog = body @ [RET_TRACE]"
    using assms(3) by (auto simp: linear_filter_generator_def split: prod.splits bool.splits)
  obtain suf where suf: "body = [LD_arch] @ suf" using sections_extend(1) [OF l] by blast
  have "exec prog d (length body) a x = SECCOMP_RET_TRACE" for a x
    unfolding prog by (intro exec_stmt(3)) simp_all
  then have "exec prog d (length [LD_arch]) (sd_arch d) x =
      decide cfg d (\<lambda>q. linear_decision cfg traced q (sd_nr d)) (SUPPORTED_PERSONALITIES cfg)"
    unfolding prog by (intro linear_sections_exec [OF assms(1) _ l]) (use True in auto)
  moreover have "exec prog d 0 a x = exec prog d (Suc 0) (sd_arch d) x"
    by (intro exec_stmt(2)) (simp_all add: prog suf)
  ultimately show ?thesis by simp
next
  case False
  then have l: "linear_sections cfg traced (SUPPORTED_PERSONALITIES cfg) [] = (prog, False)"
    using assms(3) by (auto simp: linear_filter_generator_def split: prod.splits bool.splits)
  from linear_sections_exec [OF assms(1) order_refl l, of "[]" d a x] False assms(2) show ?thesis by simp
qed

end

section \<open>The binary match program\<close>

definition binary_decision :: "'d config \<Rightarrow> (nat \<Rightarrow> nat \<Rightarrow> bool) \<Rightarrow> nat \<Rightarrow> u32 \<Rightarrow> u32" where
  "binary_decision cfg traced p n =
     (let m = unat (n AND NOT (flag (audit_arch_vec cfg ! p)))
      in if m < nsyscall_vec cfg p \<and> traced m p then SECCOMP_RET_TRACE else SECCOMP_RET_ALLOW)"

text \<open>The part of the header that computes \<open>nr / 32\<close> and \<open>1 << nr % 32\<close>.\<close>

definition split_nr :: "u32 \<Rightarrow> sock_filter list" where
  "split_nr fl =
     (let strip = SET_BPF_STMT (BPF_ALU OR BPF_AND OR BPF_K) (NOT fl)
      in (if fl \<noteq> 0 then [strip] else [])
         @ [SET_BPF_STMT (BPF_ALU OR BPF_AND OR BPF_K) 0x1F,
            SET_BPF_STMT (BPF_MISC OR BPF_TAX) 0,
            SET_BPF_STMT (BPF_LD OR BPF_IMM) 1,
            SET_BPF_STMT (BPF_ALU OR BPF_LSH OR BPF_X) 0,
            SET_BPF_STMT (BPF_MISC OR BPF_TAX) 0,
            LD_nr]
         @ (if fl \<noteq> 0 then [strip] else [])
         @ [SET_BPF_STMT (BPF_ALU OR BPF_RSH OR BPF_K) 5])"

lemma binary_header_split:
  assumes "flags_ok cfg" "p < SUPPORTED_PERSONALITIES cfg"
  shows "binary_header cfg p =
    (arch_check cfg p @ [LD_nr] @ flag_check cfg p) @ split_nr (flag (audit_arch_vec cfg ! p))"
  using assms by (auto simp: binary_header_def split_nr_def Let_def flag_check_def flags_ok_def)

lemma word_index_split: "j div 32 \<le> u \<and> 32 * u + r < j \<longleftrightarrow> u = j div 32 \<and> r < j mod (32 :: nat)"
proof -
  define q t where "q = j div 32" and "t = j mod 32"
  have j: "j = 32 * q + t" "t < 32" by (simp_all add: q_def t_def)
  have "q \<le> u \<and> 32 * u + r < 32 * q + t \<longleftrightarrow> u = q \<and> r < t"
  proof (cases "u \<le> q")
    case False
    then have "32 * q + 32 \<le> 32 * u" by simp
    with j False show ?thesis by simp
  qed auto
  then show ?thesis by (simp add: q_def t_def)
qed

lemma word_eq_of_nat: "n < 2 ^ 32 \<Longrightarrow> (a :: u32) = of_nat n \<longleftrightarrow> unat a = n"
  by (auto simp: unat_of_nat)

lemma or_and_not:
  fixes a b :: u32
  assumes "a AND b = 0"
  shows "(a OR b) AND NOT b = a"
proof (rule bit_eqI)
  fix n assume "possible_bit TYPE(u32) n"
  moreover have "\<not> (bit a n \<and> bit b n)"
    using arg_cong [OF assms, of "\<lambda>w. bit w n"] by (simp add: bit_and_iff)
  ultimately show "bit ((a OR b) AND NOT b) n = bit a n"
    by (auto simp: bit_and_iff bit_or_iff bit_not_iff)
qed

lemma and_31: "unat ((m :: u32) AND 31) = unat m mod 32"
proof -
  have "m AND 31 = take_bit 5 m" by (simp add: take_bit_eq_mask mask_eq_exp_minus_1)
  then show ?thesis by (simp add: unsigned_take_bit_eq take_bit_eq_mod [of 5 "unat m"])
qed

context cbpf
begin

lemma split_nr_exec:
  fixes fl :: u32 and d :: seccomp_data
  defines "m \<equiv> sd_nr d AND NOT fl"
  assumes "placed prog b len e i (split_nr fl)"
  shows "exec prog d (b + i) (sd_nr d) x =
    exec prog d (b + i + length (split_nr fl)) (drop_bit 5 m) (2 ^ (unat m mod 32))"
proof -
  have lt: "unat m mod 32 < 32" by simp
  show ?thesis
  proof (cases "fl = 0")
    case True
    with assms(2) lt show ?thesis
      by (simp add: split_nr_def Let_def exec_stmt and_31 m_def del: mod_less_divisor)
  next
    case False
    with assms(2) lt show ?thesis
      by (simp add: split_nr_def Let_def exec_stmt and_31 m_def del: mod_less_divisor)
  qed
qed

text \<open>One word of 32 system calls.\<close>

lemma match_exec:
  assumes "placed prog b len e i (bpf_syscalls_match bits idx)" "ends_section prog b len"
    and "i + length (bpf_syscalls_match bits idx) \<le> e" "e + 2 \<le> len" "r < 32"
  shows "exec prog d (b + i) a (2 ^ r) =
     (if a = idx then (if bit bits r then SECCOMP_RET_TRACE else SECCOMP_RET_ALLOW)
      else exec prog d (b + i + length (bpf_syscalls_match bits idx)) a (2 ^ r))"
proof -
  note m = bpf_syscalls_match_def
  consider "bits = 0" | "bits = - 1" | (mixed) "bits \<noteq> 0" "bits \<noteq> - 1" by blast
  then show ?thesis
  proof cases
    case 1
    then have p: "b + i < length prog"
      "prog ! (b + i) = SET_BPF_JUMP (BPF_JEQ OR BPF_K) idx (off8 (len - i - 3)) 0" "i + 3 \<le> len"
      using assms(1,3,4) by (auto simp: m)
    show ?thesis
      unfolding exec_jump(1) [OF p(1,2)] using 1 lands(2) [OF assms(2) p(3), of d a] by (auto simp: m)
  next
    case 2
    then have p: "b + i < length prog"
      "prog ! (b + i) = SET_BPF_JUMP (BPF_JEQ OR BPF_K) idx (off8 (len - i - 2)) 0" "i + 3 \<le> len"
      using assms(1,3,4) by (auto simp: m)
    show ?thesis
      unfolding exec_jump(1) [OF p(1,2)] using 2 assms(5) lands(1) [OF assms(2) p(3), of d a] by (auto simp: m)
  next
    case mixed
    define j where "j = Suc (Suc i)"
    have p: "b + i < length prog" "prog ! (b + i) = SET_BPF_JUMP (BPF_JEQ OR BPF_K) idx 0 2"
      "Suc (b + i) < length prog" "prog ! Suc (b + i) = SET_BPF_STMT (BPF_MISC OR BPF_TXA) 0"
      "b + j < length prog"
      "prog ! (b + j) = SET_BPF_JUMP (BPF_JSET OR BPF_K) bits (off8 (len - j - 2)) (off8 (len - j - 3))"
      "j + 3 \<le> len"
      using assms(1,3,4) mixed by (auto simp: m j_def)
    have b: "2 ^ r AND bits \<noteq> 0 \<longleftrightarrow> bit bits r"
      using assms(5) and_bit_eq_0_iff [of r bits] by (simp add: and.commute)
    have "exec prog d (b + j) (2 ^ r) (2 ^ r) = (if bit bits r then SECCOMP_RET_TRACE else SECCOMP_RET_ALLOW)"
      unfolding exec_jump(3) [OF p(5,6)] b using lands(1,2) [OF assms(2) p(7)] by auto
    then have "exec prog d (Suc (b + i)) a (2 ^ r) = (if bit bits r then SECCOMP_RET_TRACE else SECCOMP_RET_ALLOW)"
      using exec_stmt(9) [OF p(3,4)] by (simp add: j_def)
    then show ?thesis
      unfolding exec_jump(1) [OF p(1,2)] using mixed by (auto simp: m)
  qed
qed

text \<open>
  The loop over the words: \<open>bits\<close> holds the traced system calls of the current word before
  \<open>i\<close>.  The code behind the loop allows the call.
\<close>

lemma match_loop_exec:
  assumes "placed prog b len e i (match_loop traced j left bits pos)" "ends_section prog b len"
    and "i + length (match_loop traced j left bits pos) \<le> e" "e + 2 \<le> len" "r < 32"
    and "\<And>q. bit bits q \<longleftrightarrow> q < j mod 32 \<and> traced (32 * (j div 32) + q)"
    and "j + left < 2 ^ 32" "pos + length (match_loop traced j left bits pos) \<le> BPF_MAXINSNS"
    and "\<And>a x. exec prog d (b + i + length (match_loop traced j left bits pos)) a x = SECCOMP_RET_ALLOW"
  shows "exec prog d (b + i) a (2 ^ r) =
     (if j div 32 \<le> unat a \<and> 32 * unat a + r < j + left \<and> traced (32 * unat a + r)
      then SECCOMP_RET_TRACE else SECCOMP_RET_ALLOW)"
  using assms(1,3,6-9)
proof (induction left arbitrary: i j bits pos)
  case 0
  have idx: "a = of_nat (j div 32) \<longleftrightarrow> unat a = j div 32"
    using "0.prems"(4) by (intro word_eq_of_nat) simp
  show ?case
  proof (cases "j mod 32 = 0")
    case True
    then have "\<not> (j div 32 \<le> unat a \<and> 32 * unat a + r < j)"
      unfolding word_index_split by simp
    with True 0(6) show ?thesis by auto
  next
    case False
    with 0 have "exec prog d (b + i) a (2 ^ r) =
       (if a = of_nat (j div 32) then (if bit bits r then SECCOMP_RET_TRACE else SECCOMP_RET_ALLOW)
        else exec prog d (b + i + length (bpf_syscalls_match bits (of_nat (j div 32)))) a (2 ^ r))"
      by (intro match_exec [OF _ assms(2) _ assms(4,5)]) auto
    moreover have "j div 32 \<le> unat a \<and> 32 * unat a + r < j \<longleftrightarrow> unat a = j div 32 \<and> r < j mod 32"
      by (rule word_index_split)
    ultimately show ?thesis
      using False 0(3,6) unfolding idx by auto
  qed
next
  case (Suc left)
  define bits' where "bits' = (if traced j then bits OR push_bit (j mod 32) 1 else bits)"
  have idx: "a = of_nat (j div 32) \<longleftrightarrow> unat a = j div 32"
    using Suc.prems(4) by (intro word_eq_of_nat) simp
  have "j mod 32 < LENGTH(32)" by simp
  then have bits': "bit bits' q \<longleftrightarrow> q < Suc (j mod 32) \<and> traced (32 * (j div 32) + q)" for q
    using Suc.prems(3) [of q] by (auto simp: bits'_def less_Suc_eq)
  have pos: "\<not> BPF_MAXINSNS < pos" using Suc.prems(5) by simp
  show ?case
  proof (cases "j mod 32 = 31")
    case False
    then have sj: "Suc j mod 32 = Suc (j mod 32)" "Suc j div 32 = j div 32" by (simp_all add: mod_Suc div_Suc)
    have l: "match_loop traced j (Suc left) bits pos = match_loop traced (Suc j) left bits' pos"
      using False pos by (simp add: bits'_def)
    show ?thesis
      using Suc.prems(4) Suc.IH [OF Suc.prems(1,2) [unfolded l] _ _ Suc.prems(5,6) [unfolded l]] bits'
      by (simp add: sj)
  next
    case True
    let ?m = "bpf_syscalls_match bits' (of_nat (j div 32))"
    have sj: "Suc j mod 32 = 0" "Suc j div 32 = Suc (j div 32)" using True by (simp_all add: mod_Suc div_Suc)
    have l: "match_loop traced j (Suc left) bits pos = ?m @ match_loop traced (Suc j) left 0 (pos + length ?m)"
      using True pos by (simp add: bits'_def Let_def)
    have m: "exec prog d (b + i) a (2 ^ r) =
       (if a = of_nat (j div 32) then (if bit bits' r then SECCOMP_RET_TRACE else SECCOMP_RET_ALLOW)
        else exec prog d (b + i + length ?m) a (2 ^ r))"
      using Suc.prems(1,2) unfolding l by (intro match_exec [OF _ assms(2) _ assms(4,5)]) simp_all
    have "exec prog d (b + (i + length ?m)) a (2 ^ r) =
       (if Suc j div 32 \<le> unat a \<and> 32 * unat a + r < Suc j + left \<and> traced (32 * unat a + r)
        then SECCOMP_RET_TRACE else SECCOMP_RET_ALLOW)"
      using Suc.prems unfolding l
      by (intro Suc.IH [of "i + length ?m" "Suc j" 0 "pos + length ?m"]) (simp_all add: sj add.assoc)
    moreover have "unat a = j div 32 \<Longrightarrow> 32 * unat a + r < Suc j + left"
      using True assms(5) mult_div_mod_eq [of 32 j] by simp
    moreover have "r < Suc (j mod 32)" using True assms(5) by simp
    ultimately show ?thesis
      using m bits' [of r] unfolding idx sj by (auto simp: add.assoc le_Suc_eq Suc_le_eq)
  qed
qed

end

context cbpf
begin

lemma binary_section_exec:
  assumes "flags_ok cfg" "p < SUPPORTED_PERSONALITIES cfg"
    and "length (binary_section cfg traced p pos) \<le> 255" "pos + 255 \<le> BPF_MAXINSNS"
    and "placed prog b (length (binary_section cfg traced p pos)) (length (binary_section cfg traced p pos) - 2) 0
           (binary_section cfg traced p pos)"
    and "SUPPORTED_PERSONALITIES cfg > 1 \<Longrightarrow> a = sd_arch d"
  shows "exec prog d b a x =
     (if \<not> SUPPORTED_PERSONALITIES cfg > 1 \<or> fits cfg d p then binary_decision cfg traced p (sd_nr d)
      else exec prog d (b + length (binary_section cfg traced p pos)) (sd_arch d) x)"
proof -
  let ?s = "binary_section cfg traced p pos" and ?n = "nsyscall_vec cfg p"
  let ?fl = "flag (audit_arch_vec cfg ! p)"
  let ?h = "arch_check cfg p @ [LD_nr] @ flag_check cfg p"
  define sp where "sp = split_nr ?fl"
  define l where "l = match_loop (\<lambda>i. traced i p) 0 ?n 0 (pos + length (binary_header cfg p))"
  define m where "m = sd_nr d AND NOT ?fl"
  have hd: "binary_header cfg p = ?h @ sp" unfolding sp_def by (rule binary_header_split [OF assms(1,2)])
  have s: "?s = ?h @ sp @ l @ [RET_ALLOW, RET_TRACE]"
    by (simp add: binary_section_def Let_def l_def hd)
  define q where "q = length ?h + length sp + length l"
  have len: "length ?s = q + 2" unfolding s by (simp add: q_def)
  have pl: "placed prog b (length ?s) (length ?s - 2) 0 ?h"
    "placed prog b (length ?s) (length ?s - 2) (length ?h) sp"
    "placed prog b (length ?s) (length ?s - 2) (length ?h + length sp) l"
    "placed prog b (length ?s) (length ?s - 2) q [RET_ALLOW, RET_TRACE]"
    using assms(5) unfolding s q_def by (simp_all only: placed_append add_0 add.assoc)
  have ends: "ends_section prog b (length ?s)"
    using pl(4) assms(3) unfolding len by (auto simp: ends_section_def)
  have after: "exec prog d (b + (length ?h + length sp) + length l) a x = SECCOMP_RET_ALLOW" for a x
    using exec_ends(2) [OF ends] unfolding len q_def by (simp add: add.assoc)
  have n: "?n < 2 ^ 32"
  proof -
    obtain c where "c \<le> 31" "?n < 2 ^ c" using assms(1,2) by (auto simp: flags_ok_def flag_above_def)
    moreover from this have "(2 :: nat) ^ c \<le> 2 ^ 31" by (intro power_increasing) simp_all
    ultimately show ?thesis by simp
  qed
  have "exec prog d (b + (length ?h + length sp)) (drop_bit 5 m) (2 ^ (unat m mod 32)) =
     (if 0 div 32 \<le> unat (drop_bit 5 m) \<and> 32 * unat (drop_bit 5 m) + unat m mod 32 < 0 + ?n
         \<and> traced (32 * unat (drop_bit 5 m) + unat m mod 32) p
      then SECCOMP_RET_TRACE else SECCOMP_RET_ALLOW)"
  proof (rule match_loop_exec [where e = "length ?s - 2" and len = "length ?s" and bits = 0
        and pos = "pos + length (binary_header cfg p)" and traced = "\<lambda>i. traced i p"
        and j = 0 and left = ?n, folded l_def])
    show "placed prog b (length ?s) (length ?s - 2) (length ?h + length sp) l" by (rule pl(3))
    show "pos + length (binary_header cfg p) + length l \<le> BPF_MAXINSNS"
      using assms(3,4) len unfolding hd q_def by simp
  qed (use ends len after n in \<open>auto simp: q_def\<close>)
  moreover have "32 * unat (drop_bit 5 m) + unat m mod 32 = unat m"
    by (simp add: drop_bit_eq_div unat_div)
  moreover have "exec prog d (b + length ?h) (sd_nr d) x =
      exec prog d (b + (length ?h + length sp)) (drop_bit 5 m) (2 ^ (unat m mod 32))" for x
    using split_nr_exec [OF pl(2) [unfolded sp_def]] unfolding m_def sp_def by (simp add: add.assoc)
  ultimately have body: "exec prog d (b + length ?h) (sd_nr d) x = binary_decision cfg traced p (sd_nr d)" for x
    by (simp add: binary_decision_def m_def Let_def)
  show ?thesis
  proof (cases "SUPPORTED_PERSONALITIES cfg > 1")
    case True
    have "length ?s - 2 + 2 \<le> length ?s" "length ?h \<le> length ?s - 2" using len by (simp_all add: q_def)
    from header_exec [OF True ends this(1) pl(1) this(2), of d x] body True assms(6) show ?thesis
      by (simp only: fits_def if_True simp_thms)
  next
    case False
    then show ?thesis using single_header_exec [OF False pl(1)] body by (simp only: simp_thms if_True)
  qed
qed

lemma binary_sections_exec:
  assumes "flags_ok cfg" "p \<le> SUPPORTED_PERSONALITIES cfg" "length pre + 255 * p \<le> BPF_MAXINSNS"
    and "binary_sections cfg traced p pre = (body, False)"
    and "\<And>a x. SUPPORTED_PERSONALITIES cfg > 1 \<Longrightarrow> exec (body @ post) d (length body) a x = SECCOMP_RET_TRACE"
    and "SUPPORTED_PERSONALITIES cfg > 1 \<or> p > 0" "SUPPORTED_PERSONALITIES cfg > 1 \<Longrightarrow> a = sd_arch d"
  shows "exec (body @ post) d (length pre) a x =
    decide cfg d (\<lambda>q. binary_decision cfg traced q (sd_nr d)) p"
  using assms(2-4,6,7)
proof (induction p arbitrary: pre a x)
  case 0
  then show ?case using assms(5) by simp
next
  case (Suc p)
  let ?s = "binary_section cfg traced p (length pre)"
  let ?r = "resolve_section (length ?s - 2) ?s"
  have pos: "length pre + 255 \<le> BPF_MAXINSNS" using Suc.prems(2) by simp
  with Suc.prems(3) have len: "length ?s \<le> 255"
    and l: "binary_sections cfg traced p (pre @ ?r) = (body, False)"
    by (auto simp: Let_def split: if_splits)
  obtain suf where suf: "body = (pre @ ?r) @ suf" using sections_extend(2) [OF l] by blast
  have "placed (body @ post) (length pre) (length ?s) (length ?s - 2) 0 ?s"
    using placed_section [of pre "length ?s - 2" ?s "suf @ post"] by (simp add: suf)
  from binary_section_exec [OF assms(1) _ len pos this Suc.prems(5), where x = x] Suc.prems(1)
  have step: "exec (body @ post) d (length pre) a x =
     (if \<not> SUPPORTED_PERSONALITIES cfg > 1 \<or> fits cfg d p then binary_decision cfg traced p (sd_nr d)
      else exec (body @ post) d (length (pre @ ?r)) (sd_arch d) x)"
    by simp
  show ?case
  proof (cases "\<not> SUPPORTED_PERSONALITIES cfg > 1 \<or> fits cfg d p")
    case True
    then show ?thesis using step by auto
  next
    case False
    have "length (pre @ ?r) + 255 * p \<le> BPF_MAXINSNS" using Suc.prems(2) len by simp
    with False show ?thesis using step Suc.IH [OF _ _ l, of "sd_arch d" x] Suc.prems(1) by auto
  qed
qed

lemma binary_filter_exec:
  assumes "flags_ok cfg" "0 < SUPPORTED_PERSONALITIES cfg" "SUPPORTED_PERSONALITIES cfg \<le> 16"
    and "binary_match_filter_generator cfg traced = (prog, False)"
  shows "exec prog d 0 a x =
    decide cfg d (\<lambda>q. binary_decision cfg traced q (sd_nr d)) (SUPPORTED_PERSONALITIES cfg)"
proof (cases "SUPPORTED_PERSONALITIES cfg > 1")
  case True
  then obtain body where l: "binary_sections cfg traced (SUPPORTED_PERSONALITIES cfg) [LD_arch] = (body, False)"
    and prog: "prog = body @ [RET_TRACE]"
    using assms(4) by (auto simp: binary_match_filter_generator_def split: prod.splits bool.splits)
  obtain suf where suf: "body = [LD_arch] @ suf" using sections_extend(2) [OF l] by blast
  have room: "length [LD_arch] + 255 * SUPPORTED_PERSONALITIES cfg \<le> BPF_MAXINSNS"
    using assms(3) by (simp add: BPF_MAXINSNS_def)
  have "exec prog d (length body) a x = SECCOMP_RET_TRACE" for a x
    unfolding prog by (intro exec_stmt(3)) simp_all
  then have "exec prog d (length [LD_arch]) (sd_arch d) x =
      decide cfg d (\<lambda>q. binary_decision cfg traced q (sd_nr d)) (SUPPORTED_PERSONALITIES cfg)"
    unfolding prog by (intro binary_sections_exec [OF assms(1) _ room l]) (use True in auto)
  moreover have "exec prog d 0 a x = exec prog d (Suc 0) (sd_arch d) x"
    by (intro exec_stmt(2)) (simp_all add: prog suf)
  ultimately show ?thesis by simp
next
  case False
  then have l: "binary_sections cfg traced (SUPPORTED_PERSONALITIES cfg) [] = (prog, False)"
    using assms(4) by (auto simp: binary_match_filter_generator_def split: prod.splits bool.splits)
  have "length [] + 255 * SUPPORTED_PERSONALITIES cfg \<le> BPF_MAXINSNS"
    using assms(3) by (simp add: BPF_MAXINSNS_def)
  from binary_sections_exec [OF assms(1) order_refl this l, of "[]" d a x] False assms(2) show ?thesis by simp
qed

end

end
