(* ===== verification/Number_Set.thy ===== *)
theory Number_Set
  imports Prelude
begin

text \<open>
  \<^verbatim>\<open>number_set.c\<close>: sets of unsigned integers as growing bit vectors with an inversion flag.
  They carry every filter of strace (which system calls are traced, which descriptors are
  dumped, which signals are shown).  The theory models each operation, gives the set a vector
  denotes and shows that the operations compute on that set.
\<close>

section \<open>Data and operations\<close>

definition BITS_PER_SLOT :: nat where
  "BITS_PER_SLOT = 32"

text \<open>
  \<open>struct number_set\<close>.  \<open>vec\<close> is the allocated vector; \<open>nslots\<close> counts its slots.
  Element numbers are C \<open>unsigned int\<close>s, taken by value.
\<close>

record number_set =
  vec :: "u32 list"
  nslots :: nat
  not :: bool

definition number_setbit :: "nat \<Rightarrow> u32 list \<Rightarrow> u32 list" where
  "number_setbit i v =
     v[i div BITS_PER_SLOT := v ! (i div BITS_PER_SLOT) OR push_bit (i mod BITS_PER_SLOT) 1]"

definition number_isset :: "nat \<Rightarrow> u32 list \<Rightarrow> bool" where
  "number_isset i v \<longleftrightarrow> v ! (i div BITS_PER_SLOT) AND push_bit (i mod BITS_PER_SLOT) 1 \<noteq> 0"

definition reallocate_number_set :: "number_set \<Rightarrow> nat \<Rightarrow> number_set" where
  "reallocate_number_set s new_nslots =
     (if new_nslots \<le> nslots s then s
      else s\<lparr>vec := vec s @ replicate (new_nslots - nslots s) 0, nslots := new_nslots\<rparr>)"

text \<open>
  \<open>popcount32\<close> of \<^verbatim>\<open>defs.h\<close>, in the portable form: each round of the inner loop clears the
  lowest set bit of the word.  The counter is an \<open>unsigned int\<close>.
\<close>

function popcount_word :: "u32 \<Rightarrow> u32 \<Rightarrow> u32" where
  "popcount_word x count = (if x = 0 then count else popcount_word (x AND (x - 1)) (count + 1))"
  by pat_completeness auto
termination
proof (relation "measure (\<lambda>(x, count). unat x)")
  show "wf (measure (\<lambda>(x :: u32, count :: u32). unat x))"
    by simp
next
  fix x count :: u32
  assume "x \<noteq> 0"
  then have "x - 1 < x"
    by (simp add: word_less_nat_alt unat_minus_one unat_gt_0)
  then have "x AND (x - 1) < x"
    by (rule le_less_trans [OF word_and_le1])
  then show "((x AND (x - 1), count + 1), (x, count)) \<in> measure (\<lambda>(x, count). unat x)"
    by (simp add: word_less_nat_alt)
qed

declare popcount_word.simps [simp del]

fun popcount32 :: "u32 list \<Rightarrow> nat \<Rightarrow> u32 \<Rightarrow> u32" where
  "popcount32 a 0 count = count"
| "popcount32 [] (Suc n) count = count"
| "popcount32 (x # a) (Suc n) count = popcount32 a n (popcount_word x count)"

definition get_number_setbit :: "number_set \<Rightarrow> u32" where
  "get_number_setbit s = popcount32 (vec s) (nslots s) 0"

text \<open>
  A set pointer may be \<open>NULL\<close>; an array of sets is a list, one set per personality.
\<close>

definition number_set_array_is_empty :: "number_set list option \<Rightarrow> nat \<Rightarrow> bool" where
  "number_set_array_is_empty sp idx =
     (case sp of None \<Rightarrow> True
      | Some a \<Rightarrow> \<not> (nslots (a ! idx) \<noteq> 0 \<or> not (a ! idx)))"

definition is_number_in_set :: "nat \<Rightarrow> number_set option \<Rightarrow> bool" where
  "is_number_in_set number sp =
     (case sp of None \<Rightarrow> False
      | Some s \<Rightarrow>
          (number div BITS_PER_SLOT < nslots s \<and> number_isset number (vec s)) \<noteq> not s)"

definition is_number_in_set_array :: "nat \<Rightarrow> number_set list option \<Rightarrow> nat \<Rightarrow> bool" where
  "is_number_in_set_array number sp idx =
     (case sp of None \<Rightarrow> False
      | Some a \<Rightarrow>
          (number div BITS_PER_SLOT < nslots (a ! idx) \<and> number_isset number (vec (a ! idx)))
          \<noteq> not (a ! idx))"

definition is_complete_set :: "number_set option \<Rightarrow> u32 \<Rightarrow> bool" where
  "is_complete_set sp max_numbers =
     (case sp of None \<Rightarrow> False
      | Some s \<Rightarrow> not s \<and> nslots s = 0 \<or> get_number_setbit s = max_numbers)"

fun is_complete_set_array :: "number_set list \<Rightarrow> u32 list \<Rightarrow> nat \<Rightarrow> bool" where
  "is_complete_set_array (s # a) (m # max_numbers) (Suc nmemb) =
     (if \<not> is_complete_set (Some s) m then False
      else is_complete_set_array a max_numbers nmemb)"
| "is_complete_set_array a max_numbers nmemb = True"

definition add_number_to_set :: "nat \<Rightarrow> number_set \<Rightarrow> number_set" where
  "add_number_to_set number s =
     (let s' = reallocate_number_set s (number div BITS_PER_SLOT + 1)
      in s'\<lparr>vec := number_setbit number (vec s')\<rparr>)"

definition add_number_to_set_array :: "nat \<Rightarrow> number_set list \<Rightarrow> nat \<Rightarrow> number_set list" where
  "add_number_to_set_array number a idx = a[idx := add_number_to_set number (a ! idx)]"

text \<open>The bodies of the two loops over an array, and the loops.\<close>

definition clear_number_set :: "number_set \<Rightarrow> number_set" where
  "clear_number_set s =
     (if nslots s \<noteq> 0 then s\<lparr>vec := replicate (nslots s) 0\<rparr> else s)\<lparr>not := False\<rparr>"

fun clear_number_set_array :: "number_set list \<Rightarrow> nat \<Rightarrow> number_set list" where
  "clear_number_set_array (s # a) (Suc nmemb) = clear_number_set s # clear_number_set_array a nmemb"
| "clear_number_set_array a nmemb = a"

definition invert_number_set :: "number_set \<Rightarrow> number_set" where
  "invert_number_set s = s\<lparr>not := \<not> not s\<rparr>"

fun invert_number_set_array :: "number_set list \<Rightarrow> nat \<Rightarrow> number_set list" where
  "invert_number_set_array (s # a) (Suc nmemb) =
     invert_number_set s # invert_number_set_array a nmemb"
| "invert_number_set_array a nmemb = a"

definition alloc_number_set_array :: "nat \<Rightarrow> number_set list" where
  "alloc_number_set_array nmemb = replicate nmemb \<lparr>vec = [], nslots = 0, not = False\<rparr>"

section \<open>The vector as a set\<close>

text \<open>The invariant of \<^verbatim>\<open>number_set.c\<close>: \<open>nslots\<close> is the length of the vector.\<close>

definition number_set_wf :: "number_set \<Rightarrow> bool" where
  "number_set_wf s \<longleftrightarrow> length (vec s) = nslots s"

text \<open>The numbers whose bit is set, and the numbers the set denotes.\<close>

definition slots_set :: "u32 list \<Rightarrow> nat set" where
  "slots_set v = {n. n div BITS_PER_SLOT < length v
                    \<and> bit (v ! (n div BITS_PER_SLOT)) (n mod BITS_PER_SLOT)}"

definition denotes :: "number_set \<Rightarrow> nat set" where
  "denotes s = {n. is_number_in_set n (Some s)}"

lemma number_isset_iff: "number_isset i v \<longleftrightarrow> bit (v ! (i div BITS_PER_SLOT)) (i mod BITS_PER_SLOT)"
  by (simp add: number_isset_def BITS_PER_SLOT_def)

lemma is_number_in_set_Some:
  "number_set_wf s \<Longrightarrow> is_number_in_set n (Some s) \<longleftrightarrow> (n \<in> slots_set (vec s)) \<noteq> not s"
  by (simp add: is_number_in_set_def slots_set_def number_isset_iff number_set_wf_def)

lemma is_number_in_set_array_Some [simp]:
  "is_number_in_set_array n (Some a) idx = is_number_in_set n (Some (a ! idx))"
  by (simp add: is_number_in_set_array_def is_number_in_set_def)

lemma denotes_eq:
  "number_set_wf s \<Longrightarrow> denotes s = (if not s then - slots_set (vec s) else slots_set (vec s))"
  by (auto simp: denotes_def is_number_in_set_Some)

lemma in_slots_set_iff:
  "n \<in> slots_set v \<longleftrightarrow>
     n div BITS_PER_SLOT < length v \<and> bit (v ! (n div BITS_PER_SLOT)) (n mod BITS_PER_SLOT)"
  by (simp add: slots_set_def)

lemma slots_set_grow [simp]: "slots_set (v @ replicate k 0) = slots_set v"
  by (auto simp: slots_set_def nth_append_replicate cong: conj_cong split: if_splits)

lemma slots_set_zero [simp]: "slots_set (replicate k 0) = {}"
  by (auto simp: slots_set_def)

lemma slots_set_setbit:
  assumes "i div BITS_PER_SLOT < length v"
  shows "slots_set (number_setbit i v) = insert i (slots_set v)"
proof -
  have eq: "n = i \<longleftrightarrow> n div 32 = i div 32 \<and> n mod 32 = i mod (32 :: nat)" for n
    by (metis div_mult_mod_eq)
  have "n \<in> slots_set (number_setbit i v) \<longleftrightarrow> n \<in> insert i (slots_set v)" for n
    using assms
    by (auto simp: slots_set_def number_setbit_def nth_list_update
        BITS_PER_SLOT_def eq)
  then show ?thesis by blast
qed

lemma reallocate_wf [simp]:
  "number_set_wf s \<Longrightarrow> number_set_wf (reallocate_number_set s k)"
  by (auto simp: number_set_wf_def reallocate_number_set_def)

lemma reallocate_not [simp]: "not (reallocate_number_set s k) = not s"
  by (simp add: reallocate_number_set_def)

lemma reallocate_slots_set [simp]:
  "slots_set (vec (reallocate_number_set s k)) = slots_set (vec s)"
  by (simp add: reallocate_number_set_def)

lemma reallocate_length:
  "number_set_wf s \<Longrightarrow> length (vec (reallocate_number_set s k)) = max k (nslots s)"
  by (auto simp: number_set_wf_def reallocate_number_set_def)

lemma add_number_wf [simp]: "number_set_wf s \<Longrightarrow> number_set_wf (add_number_to_set n s)"
  using reallocate_wf[of s "n div BITS_PER_SLOT + 1"]
  by (simp add: add_number_to_set_def Let_def number_set_wf_def number_setbit_def)

lemma add_number_not [simp]: "not (add_number_to_set n s) = not s"
  by (simp add: add_number_to_set_def Let_def)

lemma add_number_slots_set:
  "number_set_wf s \<Longrightarrow> slots_set (vec (add_number_to_set n s)) = insert n (slots_set (vec s))"
  by (simp add: add_number_to_set_def Let_def slots_set_setbit reallocate_length)

lemma clear_number_set_facts [simp]:
  "number_set_wf s \<Longrightarrow> number_set_wf (clear_number_set s)"
  "number_set_wf s \<Longrightarrow> slots_set (vec (clear_number_set s)) = {}"
  "not (clear_number_set s) = False"
  by (auto simp: clear_number_set_def number_set_wf_def slots_set_def)

lemma invert_number_set_facts [simp]:
  "number_set_wf (invert_number_set s) = number_set_wf s"
  "vec (invert_number_set s) = vec s"
  "not (invert_number_set s) = (\<not> not s)"
  by (simp_all add: invert_number_set_def number_set_wf_def)

section \<open>The contract of a number set\<close>

text \<open>
  What the clients of \<^verbatim>\<open>number_set.h\<close> rely on: membership after an addition, a clear and an
  inversion.  The clients (\<^verbatim>\<open>basic_filters.c\<close>) clear a set, invert it once per leading
  \<open>!\<close> and then add numbers; the membership test that results is derived here once.
\<close>

locale number_set_contract =
  fixes mem :: "nat \<Rightarrow> 's \<Rightarrow> bool"
    and add :: "nat \<Rightarrow> 's \<Rightarrow> 's"
    and clear :: "'s \<Rightarrow> 's"
    and invert :: "'s \<Rightarrow> 's"
    and negated :: "'s \<Rightarrow> bool"
    and wf :: "'s \<Rightarrow> bool"
  assumes mem_add: "wf s \<Longrightarrow> mem n (add m s) = (if n = m then \<not> negated s else mem n s)"
    and mem_clear: "wf s \<Longrightarrow> \<not> mem n (clear s)"
    and mem_invert: "wf s \<Longrightarrow> mem n (invert s) = (\<not> mem n s)"
    and negated_add: "negated (add m s) = negated s"
    and negated_clear: "\<not> negated (clear s)"
    and negated_invert: "negated (invert s) = (\<not> negated s)"
    and wf_add: "wf s \<Longrightarrow> wf (add m s)"
    and wf_clear: "wf s \<Longrightarrow> wf (clear s)"
    and wf_invert: "wf s \<Longrightarrow> wf (invert s)"
begin

lemma wf_fold_add: "wf s \<Longrightarrow> wf (fold add ns s)"
  by (induction ns arbitrary: s) (simp_all add: wf_add)

lemma negated_fold_add: "negated (fold add ns s) = negated s"
  by (induction ns arbitrary: s) (simp_all add: negated_add)

lemma mem_fold_add:
  "wf s \<Longrightarrow> mem n (fold add ns s) = (if n \<in> set ns then \<not> negated s else mem n s)"
  by (induction ns arbitrary: s) (auto simp: wf_add mem_add negated_add)

lemma invert_power:
  "wf s \<Longrightarrow> wf ((invert ^^ k) s) \<and> mem n ((invert ^^ k) s) = (mem n s \<noteq> odd k)
     \<and> negated ((invert ^^ k) s) = (negated s \<noteq> odd k)"
  by (induction k) (auto simp: wf_invert mem_invert negated_invert)

text \<open>Clear, invert \<open>k\<close> times, add \<open>ns\<close>: the numbers \<open>ns\<close>, complemented for odd \<open>k\<close>.\<close>

lemma mem_qualified:
  assumes "wf s"
  shows "mem n (fold add ns ((invert ^^ k) (clear s))) = ((n \<in> set ns) \<noteq> odd k)"
proof -
  have "wf ((invert ^^ k) (clear s))" "mem n ((invert ^^ k) (clear s)) = odd k"
    "negated ((invert ^^ k) (clear s)) = odd k"
    using invert_power[OF wf_clear[OF assms], of k n] mem_clear[OF assms] negated_clear by auto
  then show ?thesis
    by (simp add: mem_fold_add)
qed

lemma wf_qualified: "wf s \<Longrightarrow> wf (fold add ns ((invert ^^ k) (clear s)))"
  using invert_power[OF wf_clear] wf_fold_add by blast

end

interpretation ns: number_set_contract
  "\<lambda>n s. is_number_in_set n (Some s)" add_number_to_set clear_number_set invert_number_set
  not number_set_wf
  by unfold_locales
    (auto simp: is_number_in_set_Some add_number_slots_set)

section \<open>Population count\<close>

text \<open>The number of set bits of a natural number, bit by bit.\<close>

fun bitcount :: "nat \<Rightarrow> nat" where
  "bitcount n = (if n = 0 then 0 else n mod 2 + bitcount (n div 2))"

declare bitcount.simps [simp del]

lemma bitcount_0 [simp]: "bitcount 0 = 0"
  by (simp add: bitcount.simps)

lemma bitcount_double [simp]: "bitcount (2 * n) = bitcount n"
  by (cases "n = 0") (simp_all add: bitcount.simps [of "2 * n"])

lemma bitcount_Suc_double: "bitcount (Suc (2 * n)) = Suc (bitcount n)"
  by (simp add: bitcount.simps [of "Suc (2 * n)"])

text \<open>Clearing the lowest set bit takes one from the count.\<close>

lemma bitcount_and_pred: "0 < n \<Longrightarrow> Suc (bitcount (n AND (n - 1))) = bitcount n"
proof (induction n rule: less_induct)
  case (less n)
  show ?case
  proof (cases "even n")
    case True
    then obtain m where m: "n = 2 * m" by blast
    with less.prems have "0 < m" "m < n" by auto
    then have "n - 1 = Suc (2 * (m - 1))" using m by linarith
    then have "n AND (n - 1) = 2 * (m AND (m - 1))"
      using m by (simp add: and_nat_rec [of "2 * m"])
    with less.IH [OF \<open>m < n\<close> \<open>0 < m\<close>] m show ?thesis by simp
  next
    case False
    then obtain m where m: "n = Suc (2 * m)" by (auto elim: oddE)
    then have "n AND (n - 1) = 2 * m"
      by (simp add: and_nat_rec [of "Suc (2 * m)"])
    with m show ?thesis by (simp add: bitcount_Suc_double)
  qed
qed

lemma popcount_word_eq: "popcount_word x count = count + of_nat (bitcount (unat x))"
proof (induction x count rule: popcount_word.induct)
  case (1 x count)
  show ?case
  proof (cases "x = 0")
    case True
    then show ?thesis by (simp add: popcount_word.simps [of 0])
  next
    case False
    then have "Suc (bitcount (unat (x AND (x - 1)))) = bitcount (unat x)"
      using bitcount_and_pred [of "unat x"]
      by (simp add: unsigned_and_eq unat_minus_one unat_gt_0)
    with "1.IH" [OF False] False show ?thesis
      by (simp add: popcount_word.simps [of x] flip: of_nat_Suc)
  qed
qed

text \<open>The count is the number of set bits, and over a vector the size of \<open>slots_set\<close>.\<close>

lemma bits_nat_rec:
  "{k. bit (n :: nat) k} = (if odd n then {0} else {}) \<union> Suc ` {k. bit (n div 2) k}"
proof -
  have "bit n k \<longleftrightarrow> k \<in> (if odd n then {0} else {}) \<union> Suc ` {k. bit (n div 2) k}" for k
    by (cases k) (auto simp: bit_0 bit_Suc)
  then show ?thesis by blast
qed

lemma finite_bits_nat: "finite {k. bit (n :: nat) k}"
proof (induction n rule: bitcount.induct)
  case (1 n)
  then show ?case
    by (cases "n = 0") (simp, subst bits_nat_rec, simp)
qed

lemma card_bits_nat: "card {k. bit (n :: nat) k} = bitcount n"
proof (induction n rule: bitcount.induct)
  case (1 n)
  show ?case
  proof (cases "n = 0")
    case True
    then show ?thesis by simp
  next
    case False
    have "card {k. bit n k} = (if odd n then 1 else 0) + card (Suc ` {k. bit (n div 2) k})"
      by (subst bits_nat_rec) (auto simp: finite_bits_nat card_insert_if)
    also have "\<dots> = bitcount n"
      using "1.IH" [OF False] False
      by (simp add: card_image bitcount.simps [of n] odd_iff_mod_2_eq_one even_iff_mod_2_eq_zero)
    finally show ?thesis .
  qed
qed

lemma card_bits_word: "card {k. bit (x :: u32) k} = bitcount (unat x)"
  using card_bits_nat [of "unat x"] by (simp add: bit_unsigned_iff)

lemma slots_set_Cons:
  "slots_set (x # v) = {k. bit x k} \<union> (\<lambda>n. n + BITS_PER_SLOT) ` slots_set v"
proof -
  have bx: "bit x k \<Longrightarrow> k < 32" for k
    using bit_imp_le_length [of x k] by simp
  have shift: "n \<in> (\<lambda>n. n + BITS_PER_SLOT) ` slots_set v \<longleftrightarrow> 32 \<le> n \<and> n - 32 \<in> slots_set v" for n
    by (auto simp: BITS_PER_SLOT_def image_iff intro: bexI [of _ "n - 32"])
  have "n \<in> slots_set (x # v) \<longleftrightarrow> bit x n \<or> n \<in> (\<lambda>n. n + BITS_PER_SLOT) ` slots_set v" for n
  proof (cases "n < 32")
    case True
    then show ?thesis unfolding shift by (simp add: in_slots_set_iff BITS_PER_SLOT_def)
  next
    case False
    then obtain m where m: "n = m + 32" by (metis le_add_diff_inverse2 not_less)
    have "(m + 32) div 32 = Suc (m div 32)" by simp
    have "\<not> bit x n" using bx [of n] False by blast
    with \<open>(m + 32) div 32 = Suc (m div 32)\<close> show ?thesis unfolding shift using m
      by (simp add: in_slots_set_iff BITS_PER_SLOT_def del: div_add_self2)
  qed
  then show ?thesis by blast
qed

lemma slots_set_Nil [simp]: "slots_set [] = {}"
  by (simp add: slots_set_def)

lemma finite_slots_set: "finite (slots_set v)"
proof -
  have "n < 32 * length v" if "n \<in> slots_set v" for n
    using that by (simp add: slots_set_def BITS_PER_SLOT_def less_mult_imp_div_less
        div_less_iff_less_mult mult.commute)
  then show ?thesis by (auto intro: finite_subset [of _ "{..<32 * length v}"])
qed

lemma card_slots_set_Cons: "card (slots_set (x # v)) = bitcount (unat x) + card (slots_set v)"
proof -
  have "bit x k \<Longrightarrow> k < 32" for k
    using bit_imp_le_length [of x k] by simp
  then have "{k. bit x k} \<inter> (\<lambda>n. n + BITS_PER_SLOT) ` slots_set v = {}"
    by (fastforce simp: BITS_PER_SLOT_def)
  moreover have "finite {k. bit x k}"
    by (auto intro: finite_subset [of _ "{..<32}"] dest: bit_imp_le_length)
  ultimately show ?thesis
    by (simp add: slots_set_Cons card_Un_disjoint finite_slots_set card_image card_bits_word)
qed

lemma popcount32_eq:
  "length v = n \<Longrightarrow> popcount32 v n count = count + of_nat (card (slots_set v))"
proof (induction v n count rule: popcount32.induct)
  case (3 x a n count)
  then show ?case
    by (simp add: popcount_word_eq card_slots_set_Cons)
qed (auto simp: slots_set_def)

lemma get_number_setbit_eq:
  "number_set_wf s \<Longrightarrow> get_number_setbit s = of_nat (card (slots_set (vec s)))"
  by (simp add: get_number_setbit_def number_set_wf_def popcount32_eq)

section \<open>Arrays of sets\<close>

lemma clear_number_set_array_all:
  "clear_number_set_array a (length a) = map clear_number_set a"
  by (induction a) simp_all

lemma invert_number_set_array_all:
  "invert_number_set_array a (length a) = map invert_number_set a"
  by (induction a) simp_all

lemma alloc_number_set_wf: "list_all number_set_wf (alloc_number_set_array n)"
  by (simp add: alloc_number_set_array_def number_set_wf_def list_all_iff)

section \<open>Properties\<close>

text \<open>
  C9: The operations of \<^verbatim>\<open>number_set.c\<close> compute on the denoted set and keep the vector
  well-formed: adding a number inserts it (removes it from an inverted set), clearing gives the
  empty set whatever was stored before, inverting gives the complement.
\<close>

theorem number_set_refines_sets:
  assumes "number_set_wf s"
  shows "denotes (add_number_to_set n s) = (if not s then denotes s - {n} else insert n (denotes s))
    \<and> denotes (clear_number_set s) = {}
    \<and> denotes (invert_number_set s) = - denotes s
    \<and> number_set_wf (add_number_to_set n s) \<and> number_set_wf (clear_number_set s)
    \<and> number_set_wf (invert_number_set s)"
  using assms by (auto simp: denotes_eq add_number_slots_set)

theorem number_set_refines_sets_witness:
  "denotes (add_number_to_set 33 \<lparr>vec = [5], nslots = 1, not = False\<rparr>)
     = insert 33 (denotes \<lparr>vec = [5], nslots = 1, not = False\<rparr>)"
proof -
  have "number_set_wf \<lparr>vec = [5], nslots = 1, not = False\<rparr>"
    by (simp add: number_set_wf_def)
  from number_set_refines_sets [OF this, of 33] show ?thesis by simp
qed

text \<open>
  For a set that is not inverted and whose members are below \<open>m\<close>, \<open>is_complete_set\<close> holds
  exactly when every number below \<open>m\<close> is a member.  The bit count is the portable
  clear-the-lowest-bit loop of \<open>popcount32\<close>.
\<close>

lemma is_complete_set_iff:
  assumes "number_set_wf s" "\<not> not s" "denotes s \<subseteq> {..<m}" "m < 2 ^ 32"
  shows "is_complete_set (Some s) (of_nat m) \<longleftrightarrow> (\<forall>n < m. is_number_in_set n (Some s))"
proof -
  have d: "denotes s = slots_set (vec s)" "card (slots_set (vec s)) \<le> m"
    using assms card_mono [of "{..<m}" "slots_set (vec s)"] by (auto simp: denotes_eq)
  have "is_complete_set (Some s) (of_nat m) \<longleftrightarrow> (of_nat (card (slots_set (vec s))) :: u32) = of_nat m"
    using assms by (simp add: is_complete_set_def get_number_setbit_eq)
  also have "\<dots> \<longleftrightarrow> card (slots_set (vec s)) = m"
    using assms(4) d(2) by (intro of_nat_word_inj) simp_all
  also have "\<dots> \<longleftrightarrow> slots_set (vec s) = {..<m}"
    using card_subset_eq [of "{..<m}" "slots_set (vec s)"] assms(3) d(1) by fastforce
  also have "\<dots> \<longleftrightarrow> (\<forall>n < m. is_number_in_set n (Some s))"
  proof
    assume "slots_set (vec s) = {..<m}"
    with d(1) have "denotes s = {..<m}" by simp
    then show "\<forall>n < m. is_number_in_set n (Some s)" unfolding denotes_def by blast
  next
    assume "\<forall>n < m. is_number_in_set n (Some s)"
    then have "{..<m} \<subseteq> denotes s" unfolding denotes_def by blast
    with assms(3) d(1) show "slots_set (vec s) = {..<m}" by simp
  qed
  finally show ?thesis .
qed

lemma is_complete_set_iff_witness:
  "is_complete_set (Some \<lparr>vec = [7], nslots = 1, not = False\<rparr>) 3
     \<and> is_number_in_set 0 (Some \<lparr>vec = [7], nslots = 1, not = False\<rparr>)
     \<and> is_number_in_set 2 (Some \<lparr>vec = [7], nslots = 1, not = False\<rparr>)"
proof -
  let ?s = "\<lparr>vec = [7], nslots = 1, not = False\<rparr>"
  have wf: "number_set_wf ?s" "\<not> not ?s"
    by (simp_all add: number_set_wf_def)
  have "(7 :: u32) = mask 3"
    by (simp add: mask_eq_exp_minus_1)
  then have "bit (7 :: u32) k \<longleftrightarrow> k < 3" for k
    using bit_mask_iff [where 'a = "32 word", of 3 k] by auto
  then have "denotes ?s = {..<3}"
    using wf by (simp add: denotes_eq slots_set_Cons lessThan_def)
  then have sub: "denotes ?s \<subseteq> {..<3}" and all: "\<forall>n < 3. is_number_in_set n (Some ?s)"
    unfolding denotes_def by blast+
  with is_complete_set_iff [OF wf sub] show ?thesis by simp
qed

end
