(* ===== verification/Basic_Filters.thy ===== *)
theory Basic_Filters
  imports Sysent Number_Set
begin

text \<open>
  \<^verbatim>\<open>basic_filters.c\<close>: the language of filter expressions such as
  \<open>!open,?/^clock_,%net@64\<close>, which fills one number set per personality, and the simpler
  token lists that fill a single set.
\<close>

section \<open>Personality suffix\<close>

text \<open>The suffix after the last \<open>c\<close> and the prefix before it, if \<open>strrchr\<close> finds one.\<close>

definition split_last :: "char \<Rightarrow> string \<Rightarrow> (string \<times> string) option" where
  "split_last c s =
     (if c \<in> set s
      then Some (rev (drop 1 (dropWhile (\<lambda>x. x \<noteq> c) (rev s))), rev (takeWhile (\<lambda>x. x \<noteq> c) (rev s)))
      else None)"

fun index_of :: "string \<Rightarrow> string list \<Rightarrow> nat option" where
  "index_of x [] = None"
| "index_of x (y # ys) = (if x = y then Some 0 else map_option Suc (index_of x ys))"

definition qualify_syscall_separate_personality ::
  "'d config \<Rightarrow> string \<Rightarrow> (string \<times> nat) option outcome" where
  "qualify_syscall_separate_personality cfg s =
     (case split_last (CHR ''@'') s of None \<Rightarrow> Inr None
      | Some (pre, suf) \<Rightarrow>
          (case index_of suf (take (SUPPORTED_PERSONALITIES cfg) (personality_designators cfg)) of
             Some i \<Rightarrow> Inr (Some (pre, i))
           | None \<Rightarrow> Inl (Error_msg_and_help (''incorrect personality designator '' @ squote suf
                       @ '' in qualification '' @ squote s))))"

section \<open>One token, one personality\<close>

text \<open>
  Each function returns whether the token is valid, and the sets.  \<open>string_to_uint\<close> returns
  an \<open>int\<close> that is stored in an \<open>unsigned int\<close>.
\<close>

definition to_uint :: "int \<Rightarrow> nat" where
  "to_uint v = nat (v mod 2 ^ 32)"

definition qualify_syscall_number ::
  "'d config \<Rightarrow> string \<Rightarrow> nat \<Rightarrow> number_set list \<Rightarrow> bool \<times> number_set list" where
  "qualify_syscall_number cfg str p sets =
     (let nr = to_uint (string_to_uint str);
          scno = shuffle_scno_pers cfg nr p mod 2 ^ 32
      in if \<not> scno_pers_is_valid cfg scno p then
           (if arch_needs_non_shuffled_scno_check cfg \<and> scno_pers_is_valid cfg nr p
            then (True, add_number_to_set_array nr sets p)
            else (False, sets))
         else (True, add_number_to_set_array scno sets p))"

text \<open>The loop over the table; \<open>i\<close> is the index of the first entry of the list.\<close>

fun regex_loop ::
  "(string \<Rightarrow> regexec_result) \<Rightarrow> string \<Rightarrow> nat \<Rightarrow> sysent list \<Rightarrow> nat \<Rightarrow> bool \<Rightarrow> number_set list
     \<Rightarrow> (bool \<times> number_set list) outcome" where
  "regex_loop m str p [] i found sets = Inr (found, sets)"
| "regex_loop m str p (e # es) i found sets =
     (case sys_name e of None \<Rightarrow> regex_loop m str p es (Suc i) found sets
      | Some name \<Rightarrow>
          (case m name of
             Re_nomatch \<Rightarrow> regex_loop m str p es (Suc i) found sets
           | Re_error buf \<Rightarrow> Inl (Error_msg_and_die (''regexec: '' @ str @ '': '' @ buf))
           | Re_match \<Rightarrow> regex_loop m str p es (Suc i) True (add_number_to_set_array i sets p)))"

definition qualify_syscall_regex ::
  "'d config \<Rightarrow> string \<Rightarrow> nat \<Rightarrow> number_set list \<Rightarrow> (bool \<times> number_set list) outcome" where
  "qualify_syscall_regex cfg str p sets =
     (case regcomp cfg str of
        Inl buf \<Rightarrow> Inl (Error_msg_and_die (''regcomp: '' @ str @ '': '' @ buf))
      | Inr m \<Rightarrow> regex_loop m str p (sysent_vec cfg ! p) 0 False sets)"

definition syscall_class :: "(u32 \<times> string) list" where
  "syscall_class =
     [(TRACE_DESC, ''%desc''), (TRACE_FILE, ''%file''), (TRACE_MEMORY, ''%memory''),
      (TRACE_PROCESS, ''%process''), (TRACE_CREDS, ''%creds''), (TRACE_SIGNAL, ''%signal''),
      (TRACE_IPC, ''%ipc''), (TRACE_NETWORK, ''%net''), (TRACE_NETWORK, ''%network''),
      (TRACE_STAT, ''%stat''), (TRACE_LSTAT, ''%lstat''), (TRACE_FSTAT, ''%fstat''),
      (TRACE_STAT_LIKE, ''%%stat''), (TRACE_STATFS, ''%statfs''), (TRACE_FSTATFS, ''%fstatfs''),
      (TRACE_STATFS_LIKE, ''%%statfs''), (TRACE_PURE, ''%pure''), (TRACE_CLOCK, ''%clock''),
      (0, ''all''), (TRACE_DESC, ''desc''), (TRACE_FILE, ''file''), (TRACE_MEMORY, ''memory''),
      (TRACE_PROCESS, ''process''), (TRACE_SIGNAL, ''signal''), (TRACE_IPC, ''ipc''),
      (TRACE_NETWORK, ''network'')]"

fun class_loop :: "u32 \<Rightarrow> nat \<Rightarrow> sysent list \<Rightarrow> nat \<Rightarrow> number_set list \<Rightarrow> number_set list" where
  "class_loop n p [] i sets = sets"
| "class_loop n p (e # es) i sets =
     class_loop n p es (Suc i)
       (if sys_name e \<noteq> None \<and> sys_flags e AND n = n then add_number_to_set_array i sets p else sets)"

definition qualify_syscall_class ::
  "'d config \<Rightarrow> string \<Rightarrow> nat \<Rightarrow> number_set list \<Rightarrow> bool \<times> number_set list" where
  "qualify_syscall_class cfg str p sets =
     (case find (\<lambda>c. snd c = str) syscall_class of
        None \<Rightarrow> (False, sets)
      | Some c \<Rightarrow> (True, class_loop (fst c) p (sysent_vec cfg ! p) 0 sets))"

text \<open>The first system call number from \<open>start\<close> on with the name, or \<open>-1\<close>.\<close>

definition scno_by_name :: "'d config \<Rightarrow> string \<Rightarrow> nat \<Rightarrow> nat \<Rightarrow> int" where
  "scno_by_name cfg s p start =
     (if p \<ge> SUPPORTED_PERSONALITIES cfg then -1
      else case find (\<lambda>i. sys_name (sysent_vec cfg ! p ! i) = Some s) [start..<nsyscall_vec cfg p] of
             Some i \<Rightarrow> int i | None \<Rightarrow> -1)"

lemma scno_by_name_range:
  "0 \<le> scno_by_name cfg s p start \<Longrightarrow>
     start \<le> nat (scno_by_name cfg s p start) \<and> nat (scno_by_name cfg s p start) < nsyscall_vec cfg p"
  by (auto simp: scno_by_name_def split: if_splits option.splits dest!: find_upt_SomeD)

function name_loop ::
  "'d config \<Rightarrow> string \<Rightarrow> nat \<Rightarrow> nat \<Rightarrow> bool \<Rightarrow> number_set list \<Rightarrow> bool \<times> number_set list" where
  "name_loop cfg s p start found sets =
     (let scno = scno_by_name cfg s p start
      in if scno \<ge> 0
         then name_loop cfg s p (Suc (nat scno)) True (add_number_to_set_array (nat scno) sets p)
         else (found, sets))"
  by pat_completeness auto
termination
proof (relation "measure (\<lambda>(cfg, s, p, start, found, sets). nsyscall_vec cfg p - start)", goal_cases)
  case (2 cfg s p start found sets x)
  then show ?case
    using scno_by_name_range [of cfg s p start] by (auto intro: diff_less_mono2)
qed simp

declare name_loop.simps [simp del]

definition qualify_syscall_name ::
  "'d config \<Rightarrow> string \<Rightarrow> nat \<Rightarrow> number_set list \<Rightarrow> bool \<times> number_set list" where
  "qualify_syscall_name cfg s p sets = name_loop cfg s p 0 False sets"

definition qualify_syscall_pers ::
  "'d config \<Rightarrow> string \<Rightarrow> nat \<Rightarrow> number_set list \<Rightarrow> (bool \<times> number_set list) outcome" where
  "qualify_syscall_pers cfg token p sets =
     (if token \<noteq> [] \<and> isdigit (hd token) then Inr (qualify_syscall_number cfg token p sets)
      else if token \<noteq> [] \<and> hd token = CHR ''/'' then qualify_syscall_regex cfg (tl token) p sets
      else case qualify_syscall_class cfg token p sets of
             (True, sets) \<Rightarrow> Inr (True, sets)
           | (False, sets) \<Rightarrow> Inr (qualify_syscall_name cfg token p sets))"

text \<open>The loop over the personalities from \<open>p\<close> on; \<open>n\<close> of them are left.\<close>

fun pers_loop ::
  "'d config \<Rightarrow> string \<Rightarrow> nat \<Rightarrow> nat \<Rightarrow> bool \<Rightarrow> number_set list \<Rightarrow> (bool \<times> number_set list) outcome" where
  "pers_loop cfg token p 0 rc sets = Inr (rc, sets)"
| "pers_loop cfg token p (Suc n) rc sets =
     obind (qualify_syscall_pers cfg token p sets)
       (\<lambda>(r, sets). pers_loop cfg token (Suc p) n (rc \<or> r) sets)"

definition qualify_syscall ::
  "'d config \<Rightarrow> string \<Rightarrow> number_set list \<Rightarrow> (bool \<times> number_set list) outcome" where
  "qualify_syscall cfg token sets =
     (let rc = (token \<noteq> [] \<and> hd token = CHR ''?'');
          token = dropWhile (\<lambda>c. c = CHR ''?'') token
      in obind (qualify_syscall_separate_personality cfg token)
           (\<lambda>sp. case sp of
              Some (str, p) \<Rightarrow>
                obind (qualify_syscall_pers cfg str p sets) (\<lambda>(r, sets). Inr (rc \<or> r, sets))
            | None \<Rightarrow> pers_loop cfg token 0 (SUPPORTED_PERSONALITIES cfg) rc sets))"

section \<open>Filter expressions\<close>

text \<open>The loop over the leading exclamation marks: each inverts the sets.\<close>

fun bang_loop :: "('s \<Rightarrow> 's) \<Rightarrow> string \<Rightarrow> 's \<Rightarrow> string \<times> 's" where
  "bang_loop neg (c # s) sets =
     (if c = CHR ''!'' then bang_loop neg s (neg sets) else (c # s, sets))"
| "bang_loop neg [] sets = ([], sets)"

fun syscall_token_loop ::
  "'d config \<Rightarrow> string list \<Rightarrow> bool \<Rightarrow> number_set list \<Rightarrow> (bool \<times> number_set list) outcome" where
  "syscall_token_loop cfg [] ok0 sets = Inr (ok0, sets)"
| "syscall_token_loop cfg (token # ts) ok0 sets =
     obind (qualify_syscall cfg token sets)
       (\<lambda>(ok, sets). if \<not> ok then Inl (Error_msg_and_die (''invalid system call '' @ squote token))
                     else syscall_token_loop cfg ts ok sets)"

definition qualify_syscall_tokens ::
  "'d config \<Rightarrow> string \<Rightarrow> number_set list \<Rightarrow> number_set list outcome" where
  "qualify_syscall_tokens cfg str sets =
     (let n = SUPPORTED_PERSONALITIES cfg
      in case bang_loop (\<lambda>a. invert_number_set_array a n) str (clear_number_set_array sets n) of
           (s, sets) \<Rightarrow>
             if s = ''none'' then Inr sets
             else if s = ''all'' then Inr (invert_number_set_array sets n)
             else obind (syscall_token_loop cfg (tokens (CHR '','') s) False sets)
               (\<lambda>(ok, sets). if \<not> ok then Inl (Error_msg_and_die (''invalid system call '' @ squote str))
                             else Inr sets))"

text \<open>The simpler lists of numbers; the set is an array of one.\<close>

fun number_token_loop ::
  "(string \<Rightarrow> int) \<Rightarrow> string \<Rightarrow> string list \<Rightarrow> int \<Rightarrow> number_set \<Rightarrow> (int \<times> number_set) outcome" where
  "number_token_loop func name [] number s = Inr (number, s)"
| "number_token_loop func name (token # ts) number s =
     (let number = func token
      in if number < 0 then Inl (Error_msg_and_die (''invalid '' @ name @ '' '' @ squote token))
         else number_token_loop func name ts number (add_number_to_set (nat number) s))"

definition qualify_tokens ::
  "string \<Rightarrow> number_set \<Rightarrow> (string \<Rightarrow> int) \<Rightarrow> string \<Rightarrow> number_set outcome" where
  "qualify_tokens str st func name =
     (case bang_loop invert_number_set str (clear_number_set st) of
        (s, st) \<Rightarrow>
          if s = ''none'' then Inr st
          else if s = ''all'' then Inr (invert_number_set st)
          else obind (number_token_loop func name (tokens (CHR '','') s) (-1) st)
            (\<lambda>(number, st). if number < 0 then Inl (Error_msg_and_die (''invalid '' @ name @ '' '' @ squote str))
                            else Inr st))"

section \<open>What an expression selects\<close>

text \<open>
  The meaning of a token, independent of the order in which numbers are collected: which
  system calls of a personality it names, and whether it names any.
\<close>

definition pers_selects :: "'d config \<Rightarrow> string \<Rightarrow> nat \<Rightarrow> nat \<Rightarrow> bool" where
  "pers_selects cfg token p n \<longleftrightarrow>
     (if token \<noteq> [] \<and> isdigit (hd token) then
        (let nr = to_uint (string_to_uint token); scno = shuffle_scno_pers cfg nr p mod 2 ^ 32
         in if scno_pers_is_valid cfg scno p then n = scno
            else arch_needs_non_shuffled_scno_check cfg \<and> scno_pers_is_valid cfg nr p \<and> n = nr)
      else if token \<noteq> [] \<and> hd token = CHR ''/'' then
        (\<exists>m name. regcomp cfg (tl token) = Inr m \<and> n < nsyscall_vec cfg p
           \<and> sys_name (sysent_vec cfg ! p ! n) = Some name \<and> m name = Re_match)
      else case find (\<lambda>c. snd c = token) syscall_class of
        Some c \<Rightarrow> n < nsyscall_vec cfg p \<and> sys_name (sysent_vec cfg ! p ! n) \<noteq> None
                  \<and> sys_flags (sysent_vec cfg ! p ! n) AND fst c = fst c
      | None \<Rightarrow> n < nsyscall_vec cfg p \<and> sys_name (sysent_vec cfg ! p ! n) = Some token)"

definition token_selects :: "'d config \<Rightarrow> string \<Rightarrow> nat \<Rightarrow> nat \<Rightarrow> bool" where
  "token_selects cfg token p n \<longleftrightarrow>
     (let token = dropWhile (\<lambda>c. c = CHR ''?'') token
      in case qualify_syscall_separate_personality cfg token of
           Inr (Some (str, q)) \<Rightarrow> p = q \<and> pers_selects cfg str p n
         | Inr None \<Rightarrow> p < SUPPORTED_PERSONALITIES cfg \<and> pers_selects cfg token p n
         | Inl _ \<Rightarrow> False)"

text \<open>
  The sets after an operation are those before with a list of numbers added to the set of
  each personality: \<open>adds ns\<close> says that the numbers \<open>ns p\<close> were added to set \<open>p\<close>.
\<close>

definition adds :: "(nat \<Rightarrow> nat \<Rightarrow> bool) \<Rightarrow> number_set list \<Rightarrow> number_set list \<Rightarrow> bool" where
  "adds sel a b \<longleftrightarrow> length b = length a
     \<and> (\<forall>p < length a. number_set_wf (b ! p) \<and> not (b ! p) = not (a ! p)
          \<and> slots_set (vec (b ! p)) = slots_set (vec (a ! p)) \<union> {n. sel p n})"

abbreviation sets_wf :: "number_set list \<Rightarrow> bool" where
  "sets_wf a \<equiv> list_all number_set_wf a"

lemma adds_wf: "adds sel a b \<Longrightarrow> sets_wf b"
  by (simp add: adds_def list_all_length)

lemma adds_refl: "sets_wf a \<Longrightarrow> adds (\<lambda>_ _. False) a a"
  by (simp add: adds_def list_all_length)

lemma adds_trans: "adds sel a b \<Longrightarrow> adds sel' b c \<Longrightarrow> adds (\<lambda>p n. sel p n \<or> sel' p n) a c"
  by (auto simp: adds_def)

lemma adds_cong: "adds sel a b \<Longrightarrow> (\<And>p n. p < length a \<Longrightarrow> sel p n = sel' p n) \<Longrightarrow> adds sel' a b"
  by (auto simp: adds_def)

lemma adds_one:
  "sets_wf a \<Longrightarrow> adds (\<lambda>q n. q = p \<and> n = k) a (add_number_to_set_array k a p)"
  by (cases "p < length a")
    (auto simp: adds_def add_number_to_set_array_def list_all_length nth_list_update
      add_number_slots_set list_update_beyond)

lemma class_loop_adds:
  "sets_wf sets \<Longrightarrow>
   adds (\<lambda>q n. q = p \<and> (\<exists>j < length es. n = i + j \<and> sys_name (es ! j) \<noteq> None
            \<and> sys_flags (es ! j) AND c = c)) sets (class_loop c p es i sets)"
proof (induction es arbitrary: i sets)
  case Nil
  then show ?case by (simp add: adds_refl)
next
  case (Cons e es)
  let ?hit = "sys_name e \<noteq> None \<and> sys_flags e AND c = c"
  let ?s = "if ?hit then add_number_to_set_array i sets p else sets"
  have a: "adds (\<lambda>q n. q = p \<and> n = i \<and> ?hit) sets ?s"
    using adds_one [OF Cons.prems, of p i] adds_refl [OF Cons.prems] by (auto elim: adds_cong)
  note adds_trans [OF a Cons.IH [OF adds_wf [OF a], of "Suc i"]]
  then show ?case
    by (simp only: class_loop.simps length_Cons ex_less_Suc_shift) (rule adds_cong, assumption, auto)
qed

lemma regex_loop_adds:
  "sets_wf sets \<Longrightarrow> regex_loop m str p es i found sets = Inr (r, sets') \<Longrightarrow>
   adds (\<lambda>q n. q = p \<and> (\<exists>j < length es. n = i + j \<and> (\<exists>name. sys_name (es ! j) = Some name
            \<and> m name = Re_match))) sets sets'"
proof (induction es arbitrary: i sets found)
  case Nil
  then show ?case by (simp add: adds_refl)
next
  case (Cons e es)
  let ?hit = "\<exists>name. sys_name e = Some name \<and> m name = Re_match"
  let ?s = "if ?hit then add_number_to_set_array i sets p else sets"
  have a: "adds (\<lambda>q n. q = p \<and> n = i \<and> ?hit) sets ?s"
    using adds_one [OF Cons.prems(1), of p i] adds_refl [OF Cons.prems(1)] by (auto elim: adds_cong)
  obtain found' where "regex_loop m str p es (Suc i) found' ?s = Inr (r, sets')"
    using Cons.prems(2) by (auto split: option.splits regexec_result.splits)
  note adds_trans [OF a Cons.IH [OF adds_wf [OF a] this]]
  then show ?case
    by (simp only: length_Cons ex_less_Suc_shift) (rule adds_cong, assumption, auto)
qed

lemma name_loop_adds:
  assumes "sets_wf sets" "p < SUPPORTED_PERSONALITIES cfg"
  shows "adds (\<lambda>q n. q = p \<and> start \<le> n \<and> n < nsyscall_vec cfg p
            \<and> sys_name (sysent_vec cfg ! p ! n) = Some s) sets (snd (name_loop cfg s p start found sets))"
  using assms
proof (induction cfg s p start found sets rule: name_loop.induct)
  case (1 cfg s p start found sets)
  let ?P = "\<lambda>n. sys_name (sysent_vec cfg ! p ! n) = Some s"
  show ?case
  proof (cases "find ?P [start..<nsyscall_vec cfg p]")
    case None
    then have "scno_by_name cfg s p start = -1" by (simp add: scno_by_name_def)
    then have "snd (name_loop cfg s p start found sets) = sets"
      by (simp add: name_loop.simps [of cfg s p start])
    with adds_refl [OF "1.prems"(1)] find_upt_NoneD [OF None] show ?thesis
      by (auto elim: adds_cong)
  next
    case (Some i)
    have sc: "scno_by_name cfg s p start = int i"
      using Some "1.prems"(2) by (simp add: scno_by_name_def)
    note i = find_upt_SomeD [OF Some]
    have one: "adds (\<lambda>q n. q = p \<and> n = i) sets (add_number_to_set_array i sets p)"
      by (rule adds_one [OF "1.prems"(1)])
    have "adds (\<lambda>q n. q = p \<and> Suc i \<le> n \<and> n < nsyscall_vec cfg p \<and> ?P n)
        (add_number_to_set_array i sets p)
        (snd (name_loop cfg s p (Suc i) True (add_number_to_set_array i sets p)))"
      using "1.IH" [OF refl] sc adds_wf [OF one] "1.prems"(2) by simp
    note adds_trans [OF one this]
    moreover have "(q = p \<and> n = i \<or> q = p \<and> Suc i \<le> n \<and> n < nsyscall_vec cfg p \<and> ?P n)
        \<longleftrightarrow> (q = p \<and> start \<le> n \<and> n < nsyscall_vec cfg p \<and> ?P n)" for q n
      using i by (cases n i rule: linorder_cases) auto
    ultimately show ?thesis
      by (simp add: name_loop.simps [of cfg s p start] sc)
  qed
qed

lemma qualify_syscall_pers_adds:
  assumes "sets_wf sets" "p < SUPPORTED_PERSONALITIES cfg"
    "qualify_syscall_pers cfg token p sets = Inr (r, sets')"
  shows "adds (\<lambda>q n. q = p \<and> pers_selects cfg token p n) sets sets'"
proof -
  consider (num) "token \<noteq> [] \<and> isdigit (hd token)"
    | (re) "\<not> (token \<noteq> [] \<and> isdigit (hd token))" "token \<noteq> [] \<and> hd token = CHR ''/''"
    | (cls) "\<not> (token \<noteq> [] \<and> isdigit (hd token))" "\<not> (token \<noteq> [] \<and> hd token = CHR ''/'')"
    by blast
  then show ?thesis
  proof cases
    case num
    then have "sets' = snd (qualify_syscall_number cfg token p sets)"
      using assms(3) by (simp add: qualify_syscall_pers_def)
    with num adds_one [OF assms(1)] adds_refl [OF assms(1)] show ?thesis
      by (auto simp: pers_selects_def qualify_syscall_number_def Let_def elim: adds_cong)
  next
    case re
    then have "qualify_syscall_regex cfg (tl token) p sets = Inr (r, sets')"
      using assms(3) by (simp add: qualify_syscall_pers_def)
    then obtain m where m: "regcomp cfg (tl token) = Inr m"
      and l: "regex_loop m (tl token) p (sysent_vec cfg ! p) 0 False sets = Inr (r, sets')"
      by (auto simp: qualify_syscall_regex_def split: sum.splits)
    from regex_loop_adds [OF assms(1) l] re m show ?thesis
      by (auto simp: pers_selects_def nsyscall_vec_def elim: adds_cong)
  next
    case cls
    show ?thesis
    proof (cases "find (\<lambda>c. snd c = token) syscall_class")
      case None
      then have "sets' = snd (name_loop cfg token p 0 False sets)"
        using assms(3) cls by (simp add: qualify_syscall_pers_def qualify_syscall_class_def
            qualify_syscall_name_def)
      with name_loop_adds [OF assms(1,2), of 0 token False] None cls show ?thesis
        by (auto simp: pers_selects_def elim: adds_cong)
    next
      case (Some c)
      then have "sets' = class_loop (fst c) p (sysent_vec cfg ! p) 0 sets"
        using assms(3) cls by (simp add: qualify_syscall_pers_def qualify_syscall_class_def)
      with class_loop_adds [OF assms(1), of p "sysent_vec cfg ! p" 0 "fst c"] Some cls show ?thesis
        by (auto simp: pers_selects_def nsyscall_vec_def elim: adds_cong)
    qed
  qed
qed

lemma pers_loop_adds:
  "sets_wf sets \<Longrightarrow> p + n \<le> SUPPORTED_PERSONALITIES cfg \<Longrightarrow>
   pers_loop cfg token p n rc sets = Inr (r, sets') \<Longrightarrow>
   adds (\<lambda>q k. p \<le> q \<and> q < p + n \<and> pers_selects cfg token q k) sets sets'"
proof (induction n arbitrary: p rc sets)
  case 0
  then show ?case by (auto intro: adds_cong [OF adds_refl])
next
  case (Suc n)
  from Suc.prems(3) obtain r1 s1 where q: "qualify_syscall_pers cfg token p sets = Inr (r1, s1)"
    and l: "pers_loop cfg token (Suc p) n (rc \<or> r1) s1 = Inr (r, sets')"
    by (auto simp: obind_eq_Inr)
  have a: "adds (\<lambda>q n. q = p \<and> pers_selects cfg token p n) sets s1"
    using qualify_syscall_pers_adds [OF Suc.prems(1) _ q] Suc.prems(2) by simp
  have "adds (\<lambda>q k. Suc p \<le> q \<and> q < Suc p + n \<and> pers_selects cfg token q k) s1 sets'"
    using Suc.IH [OF adds_wf [OF a] _ l] Suc.prems(2) by simp
  from adds_trans [OF a this] show ?case
    by (rule adds_cong) (auto simp: Suc_le_eq le_less)
qed

lemma index_of_less: "index_of x ys = Some i \<Longrightarrow> i < length ys \<and> ys ! i = x"
  by (induction ys arbitrary: i) (auto split: if_splits)

lemma qualify_syscall_adds:
  assumes "sets_wf sets" "qualify_syscall cfg token sets = Inr (r, sets')"
  shows "adds (token_selects cfg token) sets sets'"
proof -
  let ?t = "dropWhile (\<lambda>c. c = CHR ''?'') token"
  from assms(2) obtain sp where sp: "qualify_syscall_separate_personality cfg ?t = Inr sp"
    by (auto simp: qualify_syscall_def Let_def obind_eq_Inr)
  show ?thesis
  proof (cases sp)
    case None
    then obtain rc where "pers_loop cfg ?t 0 (SUPPORTED_PERSONALITIES cfg) rc sets = Inr (r, sets')"
      using assms(2) sp by (auto simp: qualify_syscall_def Let_def)
    from pers_loop_adds [OF assms(1) _ this] sp None show ?thesis
      by (auto simp: token_selects_def elim: adds_cong)
  next
    case (Some pr)
    obtain str p where pr: "pr = (str, p)" by fastforce
    have p: "p < SUPPORTED_PERSONALITIES cfg"
      using sp Some pr
      by (auto simp: qualify_syscall_separate_personality_def split: option.splits dest!: index_of_less)
    obtain r' where "qualify_syscall_pers cfg str p sets = Inr (r', sets')"
      using assms(2) sp Some pr by (auto simp: qualify_syscall_def Let_def obind_eq_Inr)
    note qualify_syscall_pers_adds [OF assms(1) p this]
    then show ?thesis
      by (rule adds_cong) (auto simp: token_selects_def sp Some pr)
  qed
qed

lemma syscall_token_loop_adds:
  "sets_wf sets \<Longrightarrow> syscall_token_loop cfg ts ok sets = Inr (r, sets') \<Longrightarrow>
   adds (\<lambda>p n. \<exists>t \<in> set ts. token_selects cfg t p n) sets sets'"
proof (induction ts arbitrary: ok sets)
  case Nil
  then show ?case by (auto intro: adds_cong [OF adds_refl])
next
  case (Cons t ts)
  from Cons.prems(2) obtain s1 where q: "qualify_syscall cfg t sets = Inr (True, s1)"
    and l: "syscall_token_loop cfg ts True s1 = Inr (r, sets')"
    by (auto simp: obind_eq_Inr split: if_splits)
  have a: "adds (token_selects cfg t) sets s1"
    by (rule qualify_syscall_adds [OF Cons.prems(1) q])
  from adds_trans [OF a Cons.IH [OF adds_wf [OF a] l]] show ?case
    by (rule adds_cong) auto
qed

section \<open>Leading inversions\<close>

lemma bang_loop_eq:
  assumes "s = [] \<or> hd s \<noteq> CHR ''!''"
  shows "bang_loop neg (replicate k (CHR ''!'') @ s) x = (s, (neg ^^ k) x)"
proof (induction k arbitrary: x)
  case 0
  with assms show ?case by (cases s) simp_all
next
  case (Suc k)
  then show ?case by (simp add: funpow_swap1)
qed

lemma number_token_loop_eq:
  "number_token_loop func name ts number s =
     (case find (\<lambda>t. func t < 0) ts of
        Some t \<Rightarrow> Inl (Error_msg_and_die (''invalid '' @ name @ '' '' @ squote t))
      | None \<Rightarrow> Inr (if ts = [] then number else func (last ts),
                     fold add_number_to_set (map (nat \<circ> func) ts) s))"
  by (induction ts arbitrary: number s) (auto simp: Let_def split: option.splits)

lemma funpow_invert_array:
  "((\<lambda>a. invert_number_set_array a (length xs)) ^^ k) xs = map (invert_number_set ^^ k) xs"
proof (induction k)
  case (Suc k)
  then show ?case
    using invert_number_set_array_all [of "map (invert_number_set ^^ k) xs"] by (simp add: comp_def)
qed simp

text \<open>
  What the body of a list of numbers denotes: \<open>none\<close>, \<open>all\<close>, or the numbers of its tokens; no
  meaning if there is no token or one of them is not a number.
\<close>

definition tokens_denote :: "(string \<Rightarrow> int) \<Rightarrow> string \<Rightarrow> nat set option" where
  "tokens_denote func s =
     (if s = ''none'' then Some {}
      else if s = ''all'' then Some UNIV
      else if tokens (CHR '','') s = [] \<or> (\<exists>t \<in> set (tokens (CHR '','') s). func t < 0) then None
      else Some ((nat \<circ> func) ` set (tokens (CHR '','') s)))"

text \<open>What the body of a system call expression selects in personality \<open>p\<close>.\<close>

definition expr_selects :: "'d config \<Rightarrow> string \<Rightarrow> nat \<Rightarrow> nat \<Rightarrow> bool" where
  "expr_selects cfg s p n \<longleftrightarrow>
     (if s = ''none'' then False else if s = ''all'' then True
      else \<exists>t \<in> set (tokens (CHR '','') s). token_selects cfg t p n)"

lemma denotes_qualified:
  assumes "number_set_wf st"
  shows "denotes (fold add_number_to_set ns ((invert_number_set ^^ k) (clear_number_set st)))
     = (if odd k then - set ns else set ns)"
  unfolding denotes_def ns.mem_qualified [OF assms] by auto

lemma find_neg_None: "(find (\<lambda>t. func t < 0) ts = None) = (\<forall>t \<in> set ts. \<not> func t < (0 :: int))"
  by (auto simp: find_None_iff)

section \<open>Properties\<close>

text \<open>
  \<open>qualify_tokens\<close> implements the meaning of a list of numbers.  With \<open>k\<close> exclamation
  marks in front of a body \<open>s\<close> it stores exactly the denoted numbers, complemented when \<open>k\<close>
  is odd, whatever the set held before, and it ends strace exactly when the body has no token
  or a token that is not a number.
\<close>

lemma qualify_tokens_spec:
  assumes "number_set_wf st" "s = [] \<or> hd s \<noteq> CHR ''!''"
  shows "case qualify_tokens (replicate k (CHR ''!'') @ s) st func name of
      Inr st' \<Rightarrow> number_set_wf st' \<and> (\<exists>D. tokens_denote func s = Some D
                    \<and> denotes st' = (if odd k then - D else D))
    | Inl e \<Rightarrow> tokens_denote func s = None \<and> (\<exists>m. e = Error_msg_and_die m)"
proof -
  let ?c = "(invert_number_set ^^ k) (clear_number_set st)" and ?ts = "tokens (CHR '','') s"
  have q: "qualify_tokens (replicate k (CHR ''!'') @ s) st func name =
     (if s = ''none'' then Inr ?c
      else if s = ''all'' then Inr (invert_number_set ?c)
      else obind (number_token_loop func name ?ts (-1) ?c)
        (\<lambda>(number, st'). if number < 0
            then Inl (Error_msg_and_die (''invalid '' @ name @ '' '' @ squote (replicate k (CHR ''!'') @ s)))
            else Inr st'))"
    by (simp add: qualify_tokens_def bang_loop_eq [OF assms(2)])
  note t = tokens_denote_def [of func s]
  note d = denotes_qualified [OF assms(1), where k = k] ns.wf_qualified [OF assms(1), where k = k]
  consider (none) "s = ''none''" | (all) "s = ''all''" | (toks) "s \<noteq> ''none''" "s \<noteq> ''all''"
    by blast
  then show ?thesis
  proof cases
    case none
    with d(1) [of "[]"] d(2) [of "[]"] show ?thesis unfolding q t by simp
  next
    case all
    with denotes_qualified [OF assms(1), where k = "Suc k", of "[]"]
      ns.wf_qualified [OF assms(1), where k = "Suc k", of "[]"] show ?thesis
      unfolding q t by simp
  next
    case toks
    show ?thesis
    proof (cases "find (\<lambda>t. func t < 0) ?ts")
      case None
      then have nn: "\<not> (\<exists>t \<in> set ?ts. func t < 0)" by (simp add: find_neg_None)
      then have "0 \<le> func (last ?ts)" if "?ts \<noteq> []"
        using last_in_set [OF that] by force
      with toks d(1) [of "map (nat \<circ> func) ?ts"] d(2) [of "map (nat \<circ> func) ?ts"] nn show ?thesis
        unfolding q t number_token_loop_eq None by auto
    next
      case (Some t)
      then have "\<exists>t \<in> set ?ts. func t < 0" using find_neg_None [of func ?ts] by auto
      with toks show ?thesis unfolding q t number_token_loop_eq Some by simp
    qed
  qed
qed

lemma qualify_tokens_spec_witness:
  "case qualify_tokens ''!3,7'' \<lparr>vec = [255], nslots = 1, not = False\<rparr> string_to_uint ''descriptor'' of
      Inr st' \<Rightarrow> number_set_wf st' \<and> (\<exists>D. tokens_denote string_to_uint ''3,7'' = Some D
                    \<and> denotes st' = - D)
    | Inl e \<Rightarrow> tokens_denote string_to_uint ''3,7'' = None \<and> (\<exists>m. e = Error_msg_and_die m)"
proof -
  have "number_set_wf \<lparr>vec = [255], nslots = 1, not = False\<rparr>" by (simp add: number_set_wf_def)
  from qualify_tokens_spec [OF this, where s = "''3,7''" and k = "Suc 0"
      and func = string_to_uint and name = "''descriptor''"]
  show ?thesis by (simp cong: sum.case_cong)
qed

lemma qualify_syscall_tokens_sound:
  assumes "sets_wf sets" "length sets = SUPPORTED_PERSONALITIES cfg"
    and "s = [] \<or> hd s \<noteq> CHR ''!''"
    and "qualify_syscall_tokens cfg (replicate k (CHR ''!'') @ s) sets = Inr sets'"
  shows "length sets' = length sets \<and> (\<forall>p < length sets'. number_set_wf (sets' ! p)
     \<and> (\<forall>n. is_number_in_set_array n (Some sets') p \<longleftrightarrow> expr_selects cfg s p n \<noteq> odd k))"
proof -
  let ?n = "SUPPORTED_PERSONALITIES cfg"
  let ?c = "\<lambda>k. map (invert_number_set ^^ k) (map clear_number_set sets)"
  have c: "((\<lambda>a. invert_number_set_array a ?n) ^^ k) (clear_number_set_array sets ?n) = ?c k"
    using clear_number_set_array_all [of sets]
      funpow_invert_array [where xs = "map clear_number_set sets" and k = k] assms(2) by simp
  have i: "invert_number_set_array (?c k) ?n = ?c (Suc k)"
    using invert_number_set_array_all [of "?c k"] assms(2) by (simp add: comp_def)
  note q = qualify_syscall_tokens_def [of cfg] bang_loop_eq [OF assms(3)] Let_def c i
  have wf: "number_set_wf (sets ! p)" if "p < length sets" for p
    using assms(1) that by (simp add: list_all_length)
  have base: "number_set_wf (?c k ! p) \<and> slots_set (vec (?c k ! p)) = {} \<and> not (?c k ! p) = odd k"
    if "p < length sets" for p k
    using wf [OF that] that by (induction k) auto
  have cwf: "sets_wf (?c k)" using base by (simp add: list_all_length)
  consider (none) "s = ''none''" | (all) "s = ''all''" | (toks) "s \<noteq> ''none''" "s \<noteq> ''all''"
    by blast
  then show ?thesis
  proof cases
    case none
    with assms(4) have "sets' = ?c k" unfolding q by simp
    with none base show ?thesis by (auto simp: expr_selects_def is_number_in_set_Some)
  next
    case all
    with assms(4) have "sets' = ?c (Suc k)" unfolding q by (simp add: i del: map_map)
    with all base [of _ "Suc k"] show ?thesis
      by (auto simp: expr_selects_def is_number_in_set_Some simp del: funpow.simps)
  next
    case toks
    then obtain ok where "syscall_token_loop cfg (tokens (CHR '','') s) False (?c k) = Inr (ok, sets')"
      using assms(4) by (auto simp: q obind_eq_Inr split: if_splits simp del: map_map)
    from syscall_token_loop_adds [OF cwf this] base [of _ k] toks show ?thesis
      by (auto simp: adds_def expr_selects_def is_number_in_set_Some simp del: map_map)
  qed
qed

text \<open>Every expression is a number of exclamation marks and a body.\<close>

lemma split_bangs:
  obtains k s where "str = replicate k (CHR ''!'') @ s" "s = [] \<or> hd s \<noteq> CHR ''!''"
proof
  show "str = replicate (length (takeWhile (\<lambda>c. c = CHR ''!'') str)) (CHR ''!'')
      @ dropWhile (\<lambda>c. c = CHR ''!'') str"
    by (induction str) auto
  show "dropWhile (\<lambda>c. c = CHR ''!'') str = [] \<or> hd (dropWhile (\<lambda>c. c = CHR ''!'') str) \<noteq> CHR ''!''"
    using hd_dropWhile [of "\<lambda>c. c = CHR ''!''" str] by auto
qed

lemma qualify_syscall_tokens_wf:
  assumes "sets_wf sets" "length sets = SUPPORTED_PERSONALITIES cfg"
    and "qualify_syscall_tokens cfg str sets = Inr sets'"
  shows "length sets' = SUPPORTED_PERSONALITIES cfg \<and> sets_wf sets'"
proof -
  obtain k s where "str = replicate k (CHR ''!'') @ s" "s = [] \<or> hd s \<noteq> CHR ''!''"
    by (rule split_bangs)
  with qualify_syscall_tokens_sound [OF assms(1,2), of s k sets'] assms(2,3) show ?thesis
    by (auto simp: list_all_length)
qed

text \<open>
  C5: After \<open>qualify_syscall_tokens\<close> accepted an expression with \<open>k\<close> exclamation marks and
  body \<open>s\<close>, system call \<open>n\<close> is in the set of personality \<open>p\<close> exactly when some token of the
  body selects it (by number, regular expression, class or name, on that personality), or
  exactly when none does if \<open>k\<close> is odd.  What the sets held before does not matter, and
  every set stays well-formed.
\<close>

theorem qualify_syscall_tokens_spec:
  assumes "sets_wf sets" "length sets = SUPPORTED_PERSONALITIES cfg"
    and "s = [] \<or> hd s \<noteq> CHR ''!''"
    and "qualify_syscall_tokens cfg (replicate k (CHR ''!'') @ s) sets = Inr sets'"
  shows "length sets' = length sets \<and> (\<forall>p < length sets'. number_set_wf (sets' ! p)
     \<and> (\<forall>n. is_number_in_set_array n (Some sets') p \<longleftrightarrow> expr_selects cfg s p n \<noteq> odd k))"
  using assms by (rule qualify_syscall_tokens_sound)

text \<open>The sample build accepts \<open>!getpid\<close>.\<close>

lemma sample_expression:
  "\<exists>sets'. qualify_syscall_tokens sample_config ''!getpid'' (alloc_number_set_array 2) = Inr sets'"
  "\<exists>sets'. qualify_syscall_tokens sample_config ''getpid'' (alloc_number_set_array 2) = Inr sets'"
proof -
  have t: "tokens (CHR '','') ''getpid'' = [''getpid'']"
    by (rule tokens_append_delim(2)) simp_all
  have c: "find (\<lambda>c. snd c = ''getpid'') syscall_class = None"
    by (simp add: syscall_class_def)
  have e: "sysent_vec sample_config =
       [[sample_entry ''read'' TRACE_DESC, sample_entry ''write'' TRACE_DESC,
         sample_entry ''open'' TRACE_FILE, sample_entry ''getpid'' TRACE_PURE],
        [sample_entry ''read'' TRACE_DESC, sample_entry ''getpid'' TRACE_PURE]]"
    by (simp add: sample_config_def)
  show "\<exists>sets'. qualify_syscall_tokens sample_config ''!getpid'' (alloc_number_set_array 2) = Inr sets'"
    "\<exists>sets'. qualify_syscall_tokens sample_config ''getpid'' (alloc_number_set_array 2) = Inr sets'"
    by (simp_all add: qualify_syscall_tokens_def Let_def t c e SUPPORTED_PERSONALITIES_def nsyscall_vec_def
        qualify_syscall_def qualify_syscall_separate_personality_def split_last_def
        qualify_syscall_pers_def qualify_syscall_class_def qualify_syscall_name_def isdigit_def
        name_loop.simps scno_by_name_def upt_rec sample_entry_def numeral_2_eq_2)
qed

theorem qualify_syscall_tokens_spec_witness:
  "\<exists>sets'. qualify_syscall_tokens sample_config ''!getpid'' (alloc_number_set_array 2) = Inr sets'
     \<and> (\<forall>n. is_number_in_set_array n (Some sets') 1 \<longleftrightarrow>
            \<not> expr_selects sample_config ''getpid'' 1 n)"
proof -
  obtain sets' where q: "qualify_syscall_tokens sample_config
      (replicate (Suc 0) (CHR ''!'') @ ''getpid'') (alloc_number_set_array 2) = Inr sets'"
    using sample_expression(1) by auto
  have "length (alloc_number_set_array 2) = SUPPORTED_PERSONALITIES sample_config"
    by (simp add: alloc_number_set_array_def SUPPORTED_PERSONALITIES_def sample_config_def)
  from qualify_syscall_tokens_spec [OF alloc_number_set_wf this _ q] q show ?thesis
    by (auto simp: alloc_number_set_array_def simp del: is_number_in_set_array_Some)
qed

end
