(* ===== verification/Xmalloc.thy ===== *)
theory Xmalloc
  imports Prelude
begin

text \<open>
  The size computations of \<^verbatim>\<open>xmalloc.c\<close> on an LP64 target: the overflow guard of
  \<open>xallocarray\<close> and \<open>xreallocarray\<close> and the growth policy of \<open>xgrowarray\<close>.  An allocation that
  the system refuses ends strace through \<open>die_out_of_memory\<close>; whether it does so is up to
  the system, so the model decides only the refusals that the sizes themselves cause.
\<close>

section \<open>Operations\<close>

definition HALF_SIZE_T :: u64 where
  "HALF_SIZE_T = push_bit (8 * 4) 1"

text \<open>\<open>bytes\<close>, unless the product of the two sizes overflows.\<close>

definition xreallocarray :: "u64 \<Rightarrow> u64 \<Rightarrow> u64 outcome" where
  "xreallocarray nmemb sz =
     (let bytes = nmemb * sz
      in if nmemb OR sz \<ge> HALF_SIZE_T \<and> sz \<noteq> 0 \<and> bytes div sz \<noteq> nmemb then Inl Out_of_memory
         else Inr bytes)"

definition DEFAULT_ALLOC_SIZE :: u64 where
  "DEFAULT_ALLOC_SIZE = 64 * 8 div 4"

definition ROUNDUP_DIV :: "u64 \<Rightarrow> u64 \<Rightarrow> u64" where
  "ROUNDUP_DIV v d = (v + d - 1) div d"

text \<open>
  The new number of members.  \<open>is_null\<close> says whether the array has not been allocated yet.
\<close>

definition xgrowarray :: "bool \<Rightarrow> u64 \<Rightarrow> u64 \<Rightarrow> u64 outcome" where
  "xgrowarray is_null nmemb memb_size =
     (let grow_memb = (if is_null
                       then (if nmemb \<noteq> 0 then 0 else ROUNDUP_DIV DEFAULT_ALLOC_SIZE memb_size)
                       else drop_bit 1 nmemb + 1)
      in if nmemb + grow_memb < nmemb then Inl Out_of_memory
         else obind (xreallocarray (nmemb + grow_memb) memb_size) (\<lambda>_. Inr (nmemb + grow_memb)))"

section \<open>The overflow guard\<close>

lemma le_or_left: "(a :: 'a::len word) \<le> a OR b"
proof -
  have "a AND (a OR b) \<le> a OR b" by (rule word_and_le1)
  then show ?thesis by simp
qed

lemma le_or_right: "(b :: 'a::len word) \<le> a OR b"
  using le_or_left [of b a] by (simp add: or.commute)

lemma product_small:
  fixes a b :: nat
  assumes "a < 2 ^ 32" "b < 2 ^ 32"
  shows "a * b < 2 ^ 64"
proof -
  have "a * b \<le> (2 ^ 32 - 1) * (2 ^ 32 - 1)" using assms by (intro mult_le_mono) simp_all
  then show ?thesis by simp
qed

lemma HALF_SIZE_T_nat: "unat HALF_SIZE_T = 2 ^ 32"
  by (simp add: HALF_SIZE_T_def)

lemma xreallocarray_eq:
  "xreallocarray nmemb sz =
     (if unat nmemb * unat sz < 2 ^ 64 then Inr (of_nat (unat nmemb * unat sz))
      else Inl Out_of_memory)"
proof -
  have bytes: "nmemb * sz = of_nat (unat nmemb * unat sz)" by simp
  show ?thesis
  proof (cases "unat nmemb * unat sz < 2 ^ 64")
    case True
    then have "unat (nmemb * sz) = unat nmemb * unat sz"
      by (simp add: unat_word_ariths)
    then have "unat (nmemb * sz div sz) = unat nmemb" if "sz \<noteq> 0"
      using that by (simp add: unat_div unat_gt_0)
    then have "sz = 0 \<or> nmemb * sz div sz = nmemb"
      by (metis word_unat_eq_iff)
    with True show ?thesis
      by (simp add: xreallocarray_def Let_def)
  next
    case False
    then have "\<not> (unat nmemb < 2 ^ 32 \<and> unat sz < 2 ^ 32)"
      using product_small by blast
    then have half: "HALF_SIZE_T \<le> nmemb \<or> HALF_SIZE_T \<le> sz"
      unfolding word_le_nat_alt HALF_SIZE_T_nat by linarith
    then have "HALF_SIZE_T \<le> nmemb OR sz"
      using le_or_left [of nmemb sz] le_or_right [of sz nmemb] by auto
    moreover have "sz \<noteq> 0" using False by auto
    moreover have "nmemb * sz div sz \<noteq> nmemb"
    proof
      assume "nmemb * sz div sz = nmemb"
      then have "unat (nmemb * sz) div unat sz = unat nmemb"
        by (metis unat_div)
      then have "unat nmemb * unat sz \<le> unat (nmemb * sz)"
        by (metis div_times_less_eq_dividend)
      also have "\<dots> < 2 ^ 64" by (rule unat64_less)
      finally show False using False by simp
    qed
    ultimately show ?thesis
      using False by (simp add: xreallocarray_def Let_def)
  qed
qed

text \<open>
  The guard of \<open>xallocarray\<close> and \<open>xreallocarray\<close> is exact: the call ends the process exactly
  when the product of the two sizes does not fit \<open>size_t\<close>, and otherwise asks for that many
  bytes.
\<close>

lemma xreallocarray_exact:
  "xreallocarray nmemb sz =
     (if unat nmemb * unat sz < 2 ^ 64 then Inr (of_nat (unat nmemb * unat sz))
      else Inl Out_of_memory)"
  by (rule xreallocarray_eq)


lemma xgrowarray_step:
  assumes "xgrowarray False nmemb memb_size = Inr nmemb'"
  shows "unat nmemb' = unat nmemb + unat nmemb div 2 + 1
    \<and> unat nmemb' * unat memb_size < 2 ^ 64"
proof -
  let ?g = "drop_bit 1 nmemb + 1"
  from assms have n': "nmemb' = nmemb + ?g" and ok: "\<not> nmemb + ?g < nmemb"
    and re: "unat nmemb' * unat memb_size < 2 ^ 64"
    by (auto simp: xgrowarray_def Let_def obind_eq_Inr xreallocarray_eq split: if_splits)
  have h: "unat (drop_bit (Suc 0) nmemb) = unat nmemb div 2"
    by (simp add: drop_bit_Suc unat_div)
  have lt: "unat nmemb < 2 ^ 64" by (rule unat64_less)
  then have g: "unat ?g = unat nmemb div 2 + 1"
    by (simp add: unat_word_ariths h)
  have "unat nmemb \<le> unat (nmemb + ?g)" using ok by (simp add: word_le_nat_alt not_less)
  then have "unat (nmemb + ?g) = unat nmemb + unat ?g"
    by (simp add: word_le_nat_alt [symmetric] unat_plus_simple)
  with n' g re show ?thesis by simp
qed

text \<open>
  A successful \<open>xgrowarray\<close> of an allocated array adds at least one member and at least half
  of the old ones, never wraps around, and the byte size of the new array fits \<open>size_t\<close>.
\<close>

lemma xgrowarray_grows:
  assumes "xgrowarray False nmemb memb_size = Inr nmemb'"
  shows "unat nmemb' = unat nmemb + unat nmemb div 2 + 1
    \<and> unat nmemb' * unat memb_size < 2 ^ 64"
  using assms by (rule xgrowarray_step)

lemma xgrowarray_grows_witness:
  "xgrowarray False 8 16 = Inr 13 \<and> unat (13 :: u64) = unat (8 :: u64) + unat (8 :: u64) div 2 + 1"
proof -
  have "xgrowarray False 8 16 = Inr 13"
    by (simp add: xgrowarray_def Let_def xreallocarray_eq drop_bit_Suc)
  with xgrowarray_grows [of 8 16 13] show ?thesis by simp
qed

end
