(* ===== verification/Inject_Data.thy ===== *)
theory Inject_Data
  imports Xmalloc Timespec
begin

text \<open>
  The tables behind \<open>-e inject\<close>: injected return values (\<^verbatim>\<open>retval.c\<close>), delays
  (\<^verbatim>\<open>delay.c\<close>) and memory payloads (\<^verbatim>\<open>poke.c\<close>).  Each is a static vector with a
  capacity and a used size, addressed by a 16-bit index that \<open>struct inject_data\<close> stores.
  The parts of \<^verbatim>\<open>delay.c\<close> and \<^verbatim>\<open>poke.c\<close> that act on a traced process are in \<open>Tamper\<close>.
\<close>

section \<open>Vectors with a capacity\<close>

text \<open>The length of \<open>avec\<close> is the capacity, \<open>asize\<close> the used size.\<close>

record 'e arena =
  avec :: "'e list"
  asize :: nat

definition empty_arena :: "'e arena" where
  "empty_arena = \<lparr>avec = [], asize = 0\<rparr>"

text \<open>
  The common body of \<open>expand_retval_vec\<close>, \<open>expand_delay_data_vec\<close> and
  \<open>expand_poke_data_vec\<close>: grow the vector and zero the new members.
\<close>

definition expand_vec :: "u64 \<Rightarrow> 'e \<Rightarrow> 'e arena \<Rightarrow> 'e arena outcome" where
  "expand_vec memb_size zero a =
     (let old_capacity = length (avec a)
      in obind (xgrowarray (avec a = []) (of_nat old_capacity) memb_size)
           (\<lambda>capacity. Inr (a\<lparr>avec := avec a @ replicate (unat capacity - old_capacity) zero\<rparr>)))"

section \<open>retval.c\<close>

definition expand_retval_vec :: "u64 arena \<Rightarrow> u64 arena outcome" where
  "expand_retval_vec = expand_vec 8 0"

definition retval_new :: "u64 \<Rightarrow> u64 arena \<Rightarrow> (u16 \<times> u64 arena) outcome" where
  "retval_new rval a =
     (let idx = of_nat (asize a) :: u16
      in if unat idx < asize a then Inl (Error_msg_and_die ''retval_new: retval index overflow'')
         else obind (if asize a = length (avec a) then expand_retval_vec a else Inr a)
           (\<lambda>a. Inr (idx, a\<lparr>avec := (avec a)[unat idx := rval], asize := asize a + 1\<rparr>)))"

definition retval_get :: "u64 arena \<Rightarrow> u16 \<Rightarrow> u64 outcome" where
  "retval_get a rval_idx =
     (if unat rval_idx \<ge> asize a
      then Inl (Error_msg_and_die ''retval_get: rval_idx >= retval_vec_size'')
      else Inr (avec a ! unat rval_idx))"

section \<open>delay.c\<close>

record inject_delay_data =
  ts_enter :: timespec
  ts_exit :: timespec

definition zero_ts :: timespec where
  "zero_ts = \<lparr>tv_sec = 0, tv_nsec = 0\<rparr>"

definition expand_delay_data_vec :: "inject_delay_data arena \<Rightarrow> inject_delay_data arena outcome" where
  "expand_delay_data_vec = expand_vec 32 \<lparr>ts_enter = zero_ts, ts_exit = zero_ts\<rparr>"

definition alloc_delay_data ::
  "inject_delay_data arena \<Rightarrow> (u16 \<times> inject_delay_data arena) outcome" where
  "alloc_delay_data a =
     (let rval = of_nat (asize a) :: u16
      in if unat rval < asize a then Inl (Error_msg_and_die ''alloc_delay_data: delay index overflow'')
         else obind (if asize a = length (avec a) then expand_delay_data_vec a else Inr a)
           (\<lambda>a. Inr (rval, a\<lparr>asize := asize a + 1\<rparr>)))"

definition fill_delay_data ::
  "u16 \<Rightarrow> timespec \<Rightarrow> bool \<Rightarrow> inject_delay_data arena \<Rightarrow> inject_delay_data arena outcome" where
  "fill_delay_data delay_idx val isenter a =
     (if unat delay_idx \<ge> asize a
      then Inl (Error_msg_and_die ''fill_delay_data: delay_idx >= delay_data_vec_size'')
      else let d = avec a ! unat delay_idx
           in Inr (a\<lparr>avec := (avec a)[unat delay_idx :=
                       (if isenter then d\<lparr>ts_enter := val\<rparr> else d\<lparr>ts_exit := val\<rparr>)]\<rparr>))"

section \<open>poke.c\<close>

text \<open>
  The payloads of one index are a doubly linked list that \<open>list_insert\<close> extends at its head;
  the model keeps them in the order \<open>list_foreach\<close> visits them.  (The list heads live in the
  vector itself; see the findings of the development for what a move of the vector does.)
\<close>

record poke_payload =
  poke_data :: "u8 list"
  arg_no :: nat
  is_enter :: bool

definition expand_poke_data_vec :: "poke_payload list arena \<Rightarrow> poke_payload list arena outcome" where
  "expand_poke_data_vec = expand_vec 16 []"

definition alloc_poke_data :: "poke_payload list arena \<Rightarrow> (u16 \<times> poke_payload list arena) outcome" where
  "alloc_poke_data a =
     (let rval = of_nat (asize a) :: u16
      in if unat rval < asize a then Inl (Error_msg_and_die ''alloc_poke_data: poke index overflow'')
         else obind (if asize a = length (avec a) then expand_poke_data_vec a else Inr a)
           (\<lambda>a. Inr (rval, a\<lparr>avec := (avec a)[unat rval := []], asize := asize a + 1\<rparr>)))"

text \<open>\<open>True\<close> for a duplicate, in which case nothing is inserted.\<close>

definition poke_add ::
  "u16 \<Rightarrow> poke_payload \<Rightarrow> poke_payload list arena \<Rightarrow> bool \<times> poke_payload list arena" where
  "poke_add poke_idx poke a =
     (let l = avec a ! unat poke_idx
      in if list_ex (\<lambda>i. is_enter i = is_enter poke \<and> arg_no i = arg_no poke) l then (True, a)
         else (False, a\<lparr>avec := (avec a)[unat poke_idx := poke # l]\<rparr>))"

section \<open>The contract of an index table\<close>

text \<open>
  What the users of the three tables rely on: a fresh index is below \<open>2 ^ 16\<close>, refers to the
  entry just made, and every index handed out before still refers to the same entry.
\<close>

definition arena_wf :: "'e arena \<Rightarrow> bool" where
  "arena_wf a \<longleftrightarrow> asize a \<le> length (avec a) \<and> asize a \<le> 2 ^ 16"

definition entries :: "'e arena \<Rightarrow> 'e list" where
  "entries a = take (asize a) (avec a)"

locale index_table =
  fixes fresh :: "'p \<Rightarrow> 's \<Rightarrow> (u16 \<times> 's) outcome"
    and contents :: "'s \<Rightarrow> 'e list"
    and wf :: "'s \<Rightarrow> bool"
    and entry :: "'p \<Rightarrow> 'e \<Rightarrow> bool"
  assumes fresh_contents:
    "wf s \<Longrightarrow> fresh p s = Inr (i, s') \<Longrightarrow>
       \<exists>e. entry p e \<and> contents s' = contents s @ [e] \<and> unat i = length (contents s)"
    and fresh_wf: "wf s \<Longrightarrow> fresh p s = Inr (i, s') \<Longrightarrow> wf s'"
begin

fun fresh_all :: "'p list \<Rightarrow> 's \<Rightarrow> (u16 list \<times> 's) outcome" where
  "fresh_all [] s = Inr ([], s)"
| "fresh_all (p # ps) s =
     obind (fresh p s) (\<lambda>(i, s). obind (fresh_all ps s) (\<lambda>(is, s). Inr (i # is, s)))"

lemma fresh_all_contents:
  "wf s \<Longrightarrow> fresh_all ps s = Inr (is, s') \<Longrightarrow>
     wf s' \<and> length is = length ps \<and> take (length (contents s)) (contents s') = contents s
     \<and> length (contents s') = length (contents s) + length ps
     \<and> (\<forall>k < length ps. unat (is ! k) = length (contents s) + k
          \<and> entry (ps ! k) (contents s' ! unat (is ! k)))"
proof (induction ps arbitrary: s "is")
  case Nil
  then show ?case by simp
next
  case (Cons p ps)
  from Cons.prems(2) obtain i s1 is1 where f: "fresh p s = Inr (i, s1)"
    and r: "fresh_all ps s1 = Inr (is1, s')" and isq: "is = i # is1"
    by (auto simp: obind_eq_Inr)
  obtain e where e: "entry p e" "contents s1 = contents s @ [e]" "unat i = length (contents s)"
    using fresh_contents [OF Cons.prems(1) f] by blast
  note IH = Cons.IH [OF fresh_wf [OF Cons.prems(1) f] r]
  have t: "take (Suc (length (contents s))) (contents s') = contents s @ [e]"
    and l: "length (contents s') = Suc (length (contents s)) + length ps"
    using IH e by auto
  then have A: "take (length (contents s)) (contents s') = contents s"
    by (metis append_eq_conv_conj lessI less_imp_le_nat min.absorb1 take_take)
  have E: "contents s' ! length (contents s) = e"
    using t by (metis lessI nth_append_length nth_take)
  have K: "unat (is ! k) = length (contents s) + k \<and> entry ((p # ps) ! k) (contents s' ! unat (is ! k))"
    if "k < Suc (length ps)" for k
    using that IH e isq E by (cases k) auto
  have "wf s'" "length is = Suc (length ps)"
    "length (contents s') = length (contents s) + Suc (length ps)"
    using IH l isq by auto
  then show ?case
    using A K unfolding length_Cons by blast
qed

end

lemma xgrowarray_bigger:
  assumes "xgrowarray (n = 0) (of_nat n) memb_size = Inr m" "n < 2 ^ 64" "memb_size \<noteq> 0"
    "memb_size \<le> 128"
  shows "n < unat m"
proof (cases "n = 0")
  case True
  have "0 < unat (ROUNDUP_DIV DEFAULT_ALLOC_SIZE memb_size)"
  proof -
    have u: "unat memb_size \<le> 128" "0 < unat memb_size"
      using assms(3,4) by (simp_all add: word_le_nat_alt unat_gt_0)
    have "128 + memb_size - 1 = 127 + memb_size" by simp
    moreover have "unat (127 + memb_size) = 127 + unat memb_size"
      using u by (simp add: unat_word_ariths)
    ultimately have "unat (128 + memb_size - 1) = 127 + unat memb_size" by metis
    then have "unat (ROUNDUP_DIV DEFAULT_ALLOC_SIZE memb_size) = (127 + unat memb_size) div unat memb_size"
      by (simp add: ROUNDUP_DIV_def DEFAULT_ALLOC_SIZE_def unat_div)
    then show ?thesis using u by (simp add: div_greater_zero_iff)
  qed
  then show ?thesis
    using assms(1) True by (auto simp: xgrowarray_def Let_def obind_eq_Inr split: if_splits)
next
  case False
  then have "unat m = unat (of_nat n :: u64) + unat (of_nat n :: u64) div 2 + 1"
    using xgrowarray_step [of "of_nat n" memb_size m] assms(1) by simp
  moreover have "unat (of_nat n :: u64) = n"
    using assms(2) by (simp add: unat_of_nat)
  ultimately show ?thesis by simp
qed

lemma expand_vec_grows:
  assumes "expand_vec memb_size zero a = Inr a'" "length (avec a) < 2 ^ 64"
    "memb_size \<noteq> 0" "memb_size \<le> 128"
  shows "\<exists>k. avec a' = avec a @ replicate (Suc k) zero \<and> asize a' = asize a"
proof -
  from assms(1) obtain m where m: "xgrowarray (length (avec a) = 0) (of_nat (length (avec a))) memb_size = Inr m"
    and a': "a' = a\<lparr>avec := avec a @ replicate (unat m - length (avec a)) zero\<rparr>"
    by (auto simp: expand_vec_def Let_def obind_eq_Inr)
  have "length (avec a) < unat m"
    using xgrowarray_bigger [OF m assms(2,3,4)] .
  then show ?thesis
    using a' by (intro exI [of _ "unat m - length (avec a) - 1"]) (simp add: Suc_diff_Suc)
qed

text \<open>The vector before the new entry is stored has room for it.\<close>

lemma make_room:
  assumes "(if asize a = length (avec a) then expand_vec memb_size zero a else Inr a) = Inr a'"
    "asize a \<le> length (avec a)" "asize a < 2 ^ 16" "memb_size \<noteq> 0" "memb_size \<le> 128"
  shows "asize a' = asize a \<and> asize a < length (avec a') \<and> entries a' = entries a"
proof (cases "asize a = length (avec a)")
  case True
  have "length (avec a) < 2 ^ 64" using True assms(3) by simp
  then obtain k where "avec a' = avec a @ replicate (Suc k) zero" "asize a' = asize a"
    using expand_vec_grows [of memb_size zero a a'] assms True by auto
  with True show ?thesis by (simp add: entries_def)
next
  case False
  with assms show ?thesis by (simp add: entries_def)
qed

lemma index_no_overflow: "unat (of_nat n :: u16) < n \<longleftrightarrow> 2 ^ 16 \<le> n"
proof (cases "n < 2 ^ 16")
  case True
  then show ?thesis by (simp add: unat_of_nat)
next
  case False
  have "unat (of_nat n :: u16) < 2 ^ 16"
    using unsigned_less [where 'a = nat, of "of_nat n :: u16"] by simp
  with False show ?thesis by linarith
qed

lemma unat_index: "n < 2 ^ 16 \<Longrightarrow> unat (of_nat n :: u16) = n"
  by (simp add: unat_of_nat)

lemma take_list_update_Suc:
  "n < length xs \<Longrightarrow> take (Suc n) (xs[n := x]) = take n xs @ [x]"
  by (simp add: take_Suc_conv_app_nth)

lemma store_entry:
  assumes "asize b = asize a" "asize a < length (avec b)" "entries b = entries a" "asize a < 2 ^ 16"
  shows "entries (b\<lparr>avec := (avec b)[asize a := x], asize := Suc (asize b)\<rparr>) = entries a @ [x]"
    and "entries (b\<lparr>asize := Suc (asize b)\<rparr>) = entries a @ [avec b ! asize a]"
    and "arena_wf (b\<lparr>avec := (avec b)[asize a := x], asize := Suc (asize b)\<rparr>)"
    and "arena_wf (b\<lparr>asize := Suc (asize b)\<rparr>)"
    and "length (entries a) = asize a"
proof -
  show "length (entries a) = asize a"
    using assms by (metis entries_def length_take min.absorb2 less_imp_le)
qed (use assms in \<open>simp_all add: entries_def arena_wf_def take_list_update_Suc take_Suc_conv_app_nth\<close>)

interpretation retval: index_table retval_new entries arena_wf "\<lambda>rval e. e = rval"
proof unfold_locales
  fix a a' :: "u64 arena" and rval i
  assume wf: "arena_wf a" and new: "retval_new rval a = Inr (i, a')"
  then have sz: "asize a < 2 ^ 16" "asize a \<le> length (avec a)"
    by (auto simp: retval_new_def Let_def index_no_overflow arena_wf_def split: if_splits)
  with new obtain b where b: "(if asize a = length (avec a) then expand_vec 8 0 a else Inr a) = Inr b"
    and i: "i = of_nat (asize a)"
    and a': "a' = b\<lparr>avec := (avec b)[asize a := rval], asize := Suc (asize b)\<rparr>"
    by (auto simp: retval_new_def Let_def obind_eq_Inr unat_index expand_retval_vec_def
        split: if_splits)
  note room = make_room [OF b sz(2,1)]
  then show "\<exists>e. e = rval \<and> entries a' = entries a @ [e] \<and> unat i = length (entries a)"
    using a' i sz store_entry(1,3) [of b a rval] store_entry(5) [of b a] by (simp add: unat_index)
  show "arena_wf a'"
    using room a' sz store_entry(1,3) [of b a rval] store_entry(5) [of b a] by simp
qed

interpretation delay: index_table "\<lambda>(_ :: unit). alloc_delay_data" entries arena_wf "\<lambda>_ _. True"
proof unfold_locales
  fix a a' :: "inject_delay_data arena" and i
  assume wf: "arena_wf a" and new: "alloc_delay_data a = Inr (i, a')"
  then have sz: "asize a < 2 ^ 16" "asize a \<le> length (avec a)"
    by (auto simp: alloc_delay_data_def Let_def index_no_overflow arena_wf_def split: if_splits)
  with new obtain b zero where b: "(if asize a = length (avec a) then expand_vec 32 zero a else Inr a) = Inr b"
    and i: "i = of_nat (asize a)" and a': "a' = b\<lparr>asize := Suc (asize b)\<rparr>"
    by (auto simp: alloc_delay_data_def Let_def obind_eq_Inr unat_index expand_delay_data_vec_def
        split: if_splits)
  note room = make_room [OF b sz(2,1)]
  then show "\<exists>e. True \<and> entries a' = entries a @ [e] \<and> unat i = length (entries a)"
    using a' i sz store_entry(2,4,5) [of b a] by (simp add: unat_index)
  show "arena_wf a'"
    using room a' sz store_entry(2,4,5) [of b a] by simp
qed

interpretation poke: index_table "\<lambda>(_ :: unit). alloc_poke_data" entries arena_wf "\<lambda>_ e. e = []"
proof unfold_locales
  fix a a' :: "poke_payload list arena" and i
  assume wf: "arena_wf a" and new: "alloc_poke_data a = Inr (i, a')"
  then have sz: "asize a < 2 ^ 16" "asize a \<le> length (avec a)"
    by (auto simp: alloc_poke_data_def Let_def index_no_overflow arena_wf_def split: if_splits)
  with new obtain b where b: "(if asize a = length (avec a) then expand_vec 16 [] a else Inr a) = Inr b"
    and i: "i = of_nat (asize a)"
    and a': "a' = b\<lparr>avec := (avec b)[asize a := []], asize := Suc (asize b)\<rparr>"
    by (auto simp: alloc_poke_data_def Let_def obind_eq_Inr unat_index expand_poke_data_vec_def
        split: if_splits)
  note room = make_room [OF b sz(2,1)]
  then show "\<exists>e. e = [] \<and> entries a' = entries a @ [e] \<and> unat i = length (entries a)"
    using a' i sz store_entry(1,3) [of b a "[]"] store_entry(5) [of b a] by (simp add: unat_index)
  show "arena_wf a'"
    using room a' sz store_entry(1,3) [of b a "[]"] store_entry(5) [of b a] by simp
qed

section \<open>Properties\<close>

lemma entries_nth: "i < asize a \<Longrightarrow> entries a ! i = avec a ! i"
  by (simp add: entries_def)

lemma length_entries: "arena_wf a \<Longrightarrow> length (entries a) = asize a"
  by (simp add: entries_def arena_wf_def)

text \<open>
  The indices that successive calls of \<open>retval_new\<close> return all stay valid: after any number of
  calls, however often the vector has been reallocated, \<open>retval_get\<close> of the \<open>k\<close>-th index
  returns the \<open>k\<close>-th stored value, and the values stored before are unchanged.
\<close>

lemma retval_get_new_all:
  assumes "arena_wf a" "retval.fresh_all rvals a = Inr (idxs, a')" "k < length rvals"
  shows "retval_get a' (idxs ! k) = Inr (rvals ! k)
    \<and> (\<forall>i. unat i < asize a \<longrightarrow> retval_get a' i = retval_get a i)"
proof -
  have all: "arena_wf a'" "length (entries a') = length (entries a) + length rvals"
    "take (length (entries a)) (entries a') = entries a"
    "unat (idxs ! k) = length (entries a) + k" "rvals ! k = entries a' ! unat (idxs ! k)"
    using retval.fresh_all_contents [OF assms(1,2)] assms(3) by auto
  then have sz: "asize a' = asize a + length rvals"
    using assms(1) by (simp add: length_entries)
  then have "unat (idxs ! k) < asize a'"
    using all(4) assms(1,3) by (simp add: length_entries)
  then have new: "retval_get a' (idxs ! k) = Inr (rvals ! k)"
    using all(5) by (simp add: retval_get_def entries_nth)
  have "retval_get a' i = retval_get a i" if i: "unat i < asize a" for i
  proof -
    have "avec a' ! unat i = entries a' ! unat i" using i sz by (simp add: entries_nth)
    also have "\<dots> = entries a ! unat i"
      using all(3) i assms(1) by (metis length_entries nth_take)
    finally show ?thesis using i sz by (simp add: retval_get_def entries_nth)
  qed
  with new show ?thesis by blast
qed

lemma retval_get_new_all_witness:
  "retval.fresh_all [11, 22] \<lparr>avec = [0, 0, 0], asize = 0\<rparr> =
     Inr ([0, 1], \<lparr>avec = [11, 22, 0], asize = 2\<rparr>)
   \<and> retval_get \<lparr>avec = [11, 22, 0], asize = 2\<rparr> 1 = Inr 22"
proof -
  have wf: "arena_wf \<lparr>avec = [0, 0, 0 :: u64], asize = 0\<rparr>"
    by (simp add: arena_wf_def)
  have ev: "retval.fresh_all [11, 22] \<lparr>avec = [0, 0, 0], asize = 0\<rparr> =
      Inr ([0, 1], \<lparr>avec = [11, 22, 0], asize = 2\<rparr>)"
    by (simp add: retval_new_def)
  with retval_get_new_all [OF wf ev, of 1] show ?thesis by simp
qed

text \<open>
  \<open>retval_new\<close> ends strace with its overflow message exactly when all \<open>2 ^ 16\<close> indices are
  in use; the comparison of the truncated index with the size detects the wrap-around.
\<close>

lemma retval_new_overflow:
  "retval_new rval a = Inl (Error_msg_and_die ''retval_new: retval index overflow'')
     \<longleftrightarrow> 2 ^ 16 \<le> asize a"
proof -
  have "expand_retval_vec a \<noteq> Inl (Error_msg_and_die m)" for m
    by (auto simp: expand_retval_vec_def expand_vec_def Let_def xgrowarray_def xreallocarray_eq
        obind_def split: sum.splits if_splits)
  then show ?thesis
    by (auto simp: retval_new_def Let_def index_no_overflow obind_def split: sum.splits)
qed

end
