(* ===== verification/Qualify.thy ===== *)
theory Qualify
  imports Basic_Filters Inject_Data
begin

text \<open>
  \<^verbatim>\<open>filter_qualify.c\<close>: the \<open>-e\<close> option.  The qualifiers fill the filter sets and the table
  of injections, which the tracing loop reads.  The static variables of the file (with the
  tables of \<open>Inject_Data\<close>) are the fields of a record that every qualifier returns updated.
\<close>

section \<open>Names to numbers\<close>

definition sigstr_to_uint :: "'d config \<Rightarrow> string \<Rightarrow> int" where
  "sigstr_to_uint cfg s =
     (if s \<noteq> [] \<and> isdigit (hd s) then string_to_uint_upto s 255
      else
        (let s = (if strncaseeq s ''SIG'' 3 then drop 3 s else s)
         in case find (\<lambda>i. case signame cfg (int i) of
                None \<Rightarrow> False
              | Some name \<Rightarrow> strncaseeq name ''SIG'' 3 \<and> strcaseeq (drop 3 name) s) [1..<256] of
              Some i \<Rightarrow> int i | None \<Rightarrow> -1))"

text \<open>\<open>(int) find_arg_val(str, strs, -1ULL, -1ULL)\<close>.\<close>

definition arg_val_int :: "xlat_data list \<Rightarrow> string \<Rightarrow> int" where
  "arg_val_int strs str = sint (ucast (find_arg_val (Some str) strs (-1) (-1)) :: u32)"

definition statusstr_to_uint :: "string \<Rightarrow> int" where
  "statusstr_to_uint =
     arg_val_int [(0, ''successful''), (1, ''failed''), (2, ''unfinished''), (3, ''unavailable''),
                  (4, ''detached'')]"

definition quietstr_to_uint :: "string \<Rightarrow> int" where
  "quietstr_to_uint =
     arg_val_int [(0, ''attach''), (1, ''exit''), (1, ''exits''), (2, ''path-resolution''),
                  (3, ''personality''), (4, ''superseded''), (4, ''thread-execve'')]"

definition decode_fd_str_to_uint :: "string \<Rightarrow> int" where
  "decode_fd_str_to_uint =
     arg_val_int [(0, ''path''), (1, ''socket''), (2, ''dev''), (3, ''pidfd''), (4, ''signalfd'')]"

definition decode_pid_str_to_uint :: "string \<Rightarrow> int" where
  "decode_pid_str_to_uint = arg_val_int [(0, ''pidns''), (1, ''comm'')]"

definition secontextstr_to_uint :: "string \<Rightarrow> int" where
  "secontextstr_to_uint = arg_val_int [(0, ''full''), (1, ''mismatch'')]"

definition find_errno_by_name :: "'d config \<Rightarrow> string \<Rightarrow> int" where
  "find_errno_by_name cfg name =
     (case find (\<lambda>i. case errnoent cfg ! i of None \<Rightarrow> False | Some e \<Rightarrow> strcaseeq name e)
             [1..<length (errnoent cfg)] of
        Some i \<Rightarrow> int i | None \<Rightarrow> -1)"

section \<open>Injection options\<close>

definition INJECT_F_SIGNAL :: u8 where "INJECT_F_SIGNAL = 0x01"
definition INJECT_F_ERROR :: u8 where "INJECT_F_ERROR = 0x02"
definition INJECT_F_RETVAL :: u8 where "INJECT_F_RETVAL = 0x04"
definition INJECT_F_DELAY_ENTER :: u8 where "INJECT_F_DELAY_ENTER = 0x08"
definition INJECT_F_DELAY_EXIT :: u8 where "INJECT_F_DELAY_EXIT = 0x10"
definition INJECT_F_SYSCALL :: u8 where "INJECT_F_SYSCALL = 0x20"
definition INJECT_F_POKE_ENTER :: u8 where "INJECT_F_POKE_ENTER = 0x40"
definition INJECT_F_POKE_EXIT :: u8 where "INJECT_F_POKE_EXIT = 0x80"

definition INJECT_ACTION_FLAGS :: u8 where
  "INJECT_ACTION_FLAGS =
     INJECT_F_SIGNAL OR INJECT_F_ERROR OR INJECT_F_RETVAL OR INJECT_F_DELAY_ENTER
     OR INJECT_F_DELAY_EXIT OR INJECT_F_POKE_ENTER OR INJECT_F_POKE_EXIT"

record inject_data =
  inj_flags :: u8
  inj_signo :: u8
  rval_idx :: u16
  delay_idx :: u16
  poke_idx :: u16
  inj_scno :: u16

record inject_opts =
  inj_first :: u16
  inj_last :: u16
  inj_step :: u16
  inj_data :: inject_data

definition DECODE_PID_COMM :: nat where "DECODE_PID_COMM = 1"
definition INJECT_LAST_INF :: u16 where "INJECT_LAST_INF = 0xffff"
definition MAX_ERRNO_VALUE :: int where "MAX_ERRNO_VALUE = 4095"

text \<open>The tables of \<^verbatim>\<open>retval.c\<close>, \<^verbatim>\<open>delay.c\<close> and \<^verbatim>\<open>poke.c\<close>.\<close>

record inject_tables =
  retvals :: "u64 arena"
  delays :: "inject_delay_data arena"
  pokes :: "poke_payload list arena"

text \<open>
  What the parser of one injection expression works on: the options, the replacement system
  call of each personality, the tables, and the warnings printed with \<open>error_msg\<close>.
\<close>

datatype warning =
    Inadvertent_error int u64
  | Inadvertent_error_compat int u64
  | Clipped u64 u32
  | Kvm_needs_4_16
  | Kvm_not_implemented

record inject_ctx =
  fopts :: inject_opts
  pdata :: "u16 list"
  tables :: inject_tables
  warnings :: "warning list"

definition has_flag :: "inject_ctx \<Rightarrow> u8 \<Rightarrow> bool" where
  "has_flag c fl \<longleftrightarrow> inj_flags (inj_data (fopts c)) AND fl \<noteq> 0"

definition upd_opts :: "(inject_opts \<Rightarrow> inject_opts) \<Rightarrow> inject_ctx \<Rightarrow> inject_ctx" where
  "upd_opts f c = c\<lparr>fopts := f (fopts c)\<rparr>"

definition upd_data :: "(inject_data \<Rightarrow> inject_data) \<Rightarrow> inject_ctx \<Rightarrow> inject_ctx" where
  "upd_data f = upd_opts (\<lambda>o'. o'\<lparr>inj_data := f (inj_data o')\<rparr>)"

definition set_flag :: "u8 \<Rightarrow> inject_ctx \<Rightarrow> inject_ctx" where
  "set_flag fl = upd_data (\<lambda>d. d\<lparr>inj_flags := inj_flags d OR fl\<rparr>)"

text \<open>
  The token parsers return \<open>Inr None\<close> where the code returns \<open>false\<close>; the caller then
  ends strace, so the partly updated state is of no consequence.
\<close>

definition parse_delay_token ::
  "'d config \<Rightarrow> string \<Rightarrow> bool \<Rightarrow> inject_ctx \<Rightarrow> inject_ctx option outcome" where
  "parse_delay_token cfg input isenter c =
     (let fl = (if isenter then INJECT_F_DELAY_ENTER else INJECT_F_DELAY_EXIT)
      in if has_flag c fl then Inr None
         else case parse_ts (float_ops cfg) input of None \<Rightarrow> Inr None
           | Some tsval \<Rightarrow>
               obind (if delay_idx (inj_data (fopts c)) = -1
                      then obind (alloc_delay_data (delays (tables c)))
                        (\<lambda>(idx, ds). Inr (upd_data (\<lambda>d. d\<lparr>delay_idx := idx\<rparr>)
                                          (c\<lparr>tables := (tables c)\<lparr>delays := ds\<rparr>\<rparr>)))
                      else Inr c)
                 (\<lambda>c. obind (fill_delay_data (delay_idx (inj_data (fopts c))) tsval isenter (delays (tables c)))
                   (\<lambda>ds. Inr (Some (set_flag fl (c\<lparr>tables := (tables c)\<lparr>delays := ds\<rparr>\<rparr>))))))"

text \<open>
  \<open>sscanf(s, "%2hhx", &b)\<close>: white space is skipped, then a number of at most two
  characters is read, the sign included.  \<open>None\<close> where the conversion fails.
\<close>

definition scan_2hhx :: "string \<Rightarrow> u8 option" where
  "scan_2hhx str =
     (case dropWhile isspace str of
        [] \<Rightarrow> None
      | c # r \<Rightarrow>
          let next_hex = (case r of [] \<Rightarrow> None | d # _ \<Rightarrow> hex_val d)
          in if c = CHR ''+'' then map_option of_nat next_hex
             else if c = CHR ''-'' then map_option (\<lambda>v. - of_nat v) next_hex
             else case hex_val c of None \<Rightarrow> None
               | Some h \<Rightarrow>
                   (case next_hex of Some l \<Rightarrow> Some (of_nat (16 * h + l))
                    | None \<Rightarrow> if h = 0 \<and> r \<noteq> [] \<and> tolower (hd r) = CHR ''x'' then None
                              else Some (of_nat h)))"

fun scan_bytes :: "nat \<Rightarrow> string \<Rightarrow> u8 list option" where
  "scan_bytes 0 val = Some []"
| "scan_bytes (Suc n) val =
     (case scan_2hhx val of None \<Rightarrow> None
      | Some b \<Rightarrow> map_option ((#) b) (scan_bytes n (drop 2 val)))"

definition parse_poke_payload :: "string \<Rightarrow> bool \<Rightarrow> poke_payload option" where
  "parse_poke_payload token isenter =
     (case str_strip_prefix_len token ''@arg'' of
        Some (a # e # val) \<Rightarrow>
          if isdigit a \<and> 1 \<le> digit_val a \<and> digit_val a \<le> 7 \<and> e = CHR ''='' then
            (let data_len = length val
             in if data_len = 0 \<or> data_len mod 2 \<noteq> 0 \<or> data_len > 2048 then None
                else map_option (\<lambda>d. \<lparr>poke_data = d, arg_no = digit_val a, is_enter = isenter\<rparr>)
                       (scan_bytes (data_len div 2) val))
          else None
      | _ \<Rightarrow> None)"

fun poke_token_loop ::
  "string list \<Rightarrow> bool \<Rightarrow> u16 \<Rightarrow> poke_payload list arena \<Rightarrow> poke_payload list arena option" where
  "poke_token_loop [] isenter idx ps = Some ps"
| "poke_token_loop (token # ts) isenter idx ps =
     (case parse_poke_payload token isenter of None \<Rightarrow> None
      | Some poke \<Rightarrow>
          (case poke_add idx poke ps of
             (True, _) \<Rightarrow> None
           | (False, ps) \<Rightarrow> poke_token_loop ts isenter idx ps))"

definition parse_poke_token :: "string \<Rightarrow> bool \<Rightarrow> inject_ctx \<Rightarrow> inject_ctx option outcome" where
  "parse_poke_token input isenter c =
     (let fl = (if isenter then INJECT_F_POKE_ENTER else INJECT_F_POKE_EXIT)
      in if has_flag c fl then Inr None
         else if input = [] then Inr None
         else obind (if poke_idx (inj_data (fopts c)) = -1
                     then obind (alloc_poke_data (pokes (tables c)))
                       (\<lambda>(idx, ps). Inr (upd_data (\<lambda>d. d\<lparr>poke_idx := idx\<rparr>)
                                         (c\<lparr>tables := (tables c)\<lparr>pokes := ps\<rparr>\<rparr>)))
                     else Inr c)
           (\<lambda>c. Inr (case poke_token_loop (tokens (CHR '','') input) isenter
                           (poke_idx (inj_data (fopts c))) (pokes (tables c)) of
                       None \<Rightarrow> None
                     | Some ps \<Rightarrow> Some (set_flag fl (c\<lparr>tables := (tables c)\<lparr>pokes := ps\<rparr>\<rparr>)))))"

text \<open>The warnings about a return value that looks like an error number.\<close>

definition check_inadvertent_fault_injection :: "'d config \<Rightarrow> u64 \<Rightarrow> warning list" where
  "check_inadvertent_fault_injection cfg ullval =
     (let k = sint ullval;
          i = sint (ucast ullval :: u32);
          any = any_wordsize_less_than_kernel_long cfg;
          ws = (if have_arch_dedicated_err_reg cfg then []
                else if k < 0 \<and> k \<ge> - MAX_ERRNO_VALUE then [Inadvertent_error (- k) ullval]
                else if any \<and> i < 0 \<and> i \<ge> - MAX_ERRNO_VALUE then [Inadvertent_error_compat (- i) ullval]
                else [])
      in if any \<and> ws = [] \<and> ucast (ucast ullval :: u32) \<noteq> ullval
         then [Clipped ullval (ucast ullval)] else ws)"

text \<open>
  \<open>strtoull(str, &end, 0)\<close>: the value, the suffix \<open>end\<close> points at, and whether \<open>errno\<close>
  is set.
\<close>

definition strtoull0 :: "string \<Rightarrow> u64 \<times> string \<times> bool" where
  "strtoull0 str =
     (let s = dropWhile isspace str;
          neg = (s \<noteq> [] \<and> hd s = CHR ''-'');
          body = (if s \<noteq> [] \<and> (hd s = CHR ''-'' \<or> hd s = CHR ''+'') then tl s else s);
          is_hex = (case body of z # x # h # _ \<Rightarrow> z = CHR ''0'' \<and> tolower x = CHR ''x'' \<and> hex_val h \<noteq> None
                      | _ \<Rightarrow> False);
          base = (if is_hex then 16 else if body \<noteq> [] \<and> hd body = CHR ''0'' then 8 else 10);
          body = (if is_hex then drop 2 body else body);
          ok = (\<lambda>c. case hex_val c of None \<Rightarrow> False | Some v \<Rightarrow> v < base);
          ds = takeWhile ok body;
          v = base_val base ds
      in if ds = [] then (0, str, False)
         else if v \<ge> 2 ^ 64 then (- 1, dropWhile ok body, True)
         else (if neg then - of_nat v else of_nat v, dropWhile ok body, False))"

text \<open>
  The argument of \<open>when=\<close>: the first and last invocation and the step.  \<open>end\<close> after the first
  number is one of the accepted endings or empty.
\<close>

definition parse_when :: "string \<Rightarrow> (u16 \<times> u16 \<times> u16) option" where
  "parse_when val =
     (let (intval, endp) = string_to_uint_ex val 0xffff (Some ''+.'')
      in if intval < 1 then None
         else let first = of_int intval :: u16;
                  e = the endp;
                  range = (if e \<noteq> [] \<and> hd e = CHR ''.'' then
                             (if \<not> (tl e \<noteq> [] \<and> hd (tl e) = CHR ''.'') then None
                              else let (l, endp) = string_to_uint_ex (drop 2 e) 0xffff (Some ''+'')
                                   in if l < uint first \<or> l = uint INJECT_LAST_INF then None
                                      else Some (of_int l :: u16, the endp))
                           else Some (INJECT_LAST_INF, e))
              in case range of None \<Rightarrow> None
                 | Some (l, e) \<Rightarrow>
                     if e \<noteq> [] then
                       (if tl e \<noteq> [] then
                          (let s = string_to_uint_upto (tl e) 0xffff
                           in if s < 1 then None else Some (first, l, of_int s))
                        else Some (first, l, 1))
                     else if l = INJECT_LAST_INF then Some (first, l, 0)
                     else Some (first, l, 1))"

text \<open>The loop of \<open>syscall=\<close> over the personalities.\<close>

definition pure_scno :: "'d config \<Rightarrow> string \<Rightarrow> nat \<Rightarrow> u16 option" where
  "pure_scno cfg val p =
     (let scno = scno_by_name cfg val p 0
      in if scno < 0 then None
         else if sys_flags (sysent_vec cfg ! p ! nat scno) AND TRACE_PURE = 0 then None
         else Some (of_int scno))"

fun syscall_token_pdata :: "'d config \<Rightarrow> string \<Rightarrow> nat list \<Rightarrow> u16 list \<Rightarrow> u16 list option" where
  "syscall_token_pdata cfg val [] pd = Some pd"
| "syscall_token_pdata cfg val (p # ps) pd =
     (case pure_scno cfg val p of None \<Rightarrow> None
      | Some sc \<Rightarrow> syscall_token_pdata cfg val ps (pd[p := sc]))"

definition new_retval :: "u64 \<Rightarrow> u8 \<Rightarrow> inject_ctx \<Rightarrow> inject_ctx outcome" where
  "new_retval v fl c =
     obind (retval_new v (retvals (tables c)))
       (\<lambda>(idx, rs). Inr (set_flag fl (upd_data (\<lambda>d. d\<lparr>rval_idx := idx\<rparr>)
                         (c\<lparr>tables := (tables c)\<lparr>retvals := rs\<rparr>\<rparr>))))"

definition parse_inject_when :: "string \<Rightarrow> inject_ctx \<Rightarrow> inject_ctx option outcome" where
  "parse_inject_when val c =
     (case parse_when val of None \<Rightarrow> Inr None
      | Some (f, l, s) \<Rightarrow> Inr (Some (upd_opts (\<lambda>o'. o'\<lparr>inj_first := f, inj_last := l, inj_step := s\<rparr>) c)))"

definition parse_inject_syscall :: "'d config \<Rightarrow> string \<Rightarrow> inject_ctx \<Rightarrow> inject_ctx option outcome" where
  "parse_inject_syscall cfg val c =
     (if has_flag c INJECT_F_SYSCALL then Inr None
      else case syscall_token_pdata cfg val [0..<SUPPORTED_PERSONALITIES cfg] (pdata c) of
          None \<Rightarrow> Inr None
        | Some pd \<Rightarrow> Inr (Some (set_flag INJECT_F_SYSCALL (c\<lparr>pdata := pd\<rparr>))))"

definition parse_inject_error :: "'d config \<Rightarrow> string \<Rightarrow> inject_ctx \<Rightarrow> inject_ctx option outcome" where
  "parse_inject_error cfg val c =
     (if has_flag c (INJECT_F_ERROR OR INJECT_F_RETVAL) then Inr None
      else let n = string_to_uint_upto val MAX_ERRNO_VALUE;
               intval = (if n < 0 then find_errno_by_name cfg val else n)
           in if intval < 1 then Inr None
              else obind (new_retval (of_int intval) INJECT_F_ERROR c) (\<lambda>c. Inr (Some c)))"

definition parse_inject_retval :: "'d config \<Rightarrow> string \<Rightarrow> inject_ctx \<Rightarrow> inject_ctx option outcome" where
  "parse_inject_retval cfg val c =
     (if has_flag c (INJECT_F_ERROR OR INJECT_F_RETVAL) then Inr None
      else case strtoull0 val of (ullval, endp, err) \<Rightarrow>
        if endp = val \<or> endp \<noteq> [] \<or> (ullval = 0 \<or> ullval = -1) \<and> err then Inr None
        else obind (new_retval ullval INJECT_F_RETVAL
                     (c\<lparr>warnings := warnings c @ check_inadvertent_fault_injection cfg ullval\<rparr>))
               (\<lambda>c. Inr (Some c)))"

definition parse_inject_signal :: "'d config \<Rightarrow> string \<Rightarrow> inject_ctx \<Rightarrow> inject_ctx option outcome" where
  "parse_inject_signal cfg val c =
     (if has_flag c INJECT_F_SIGNAL then Inr None
      else let intval = sigstr_to_uint cfg val
           in if intval < 1 \<or> intval > int (nsig_bytes cfg) * 8 then Inr None
              else Inr (Some (set_flag INJECT_F_SIGNAL
                     (upd_data (\<lambda>d. d\<lparr>inj_signo := of_int intval\<rparr>) c))))"

text \<open>
  The chain of prefix tests of \<open>parse_inject_token\<close>: the first prefix that matches decides.
  The tests after the third one are guarded by \<open>!fault_tokens_only\<close>.
\<close>

fun first_prefix :: "(string \<times> 'h) list \<Rightarrow> string \<Rightarrow> (string \<times> 'h) option" where
  "first_prefix [] token = None"
| "first_prefix ((pfx, h) # hs) token =
     (case str_strip_prefix_len token pfx of
        Some val \<Rightarrow> Some (val, h) | None \<Rightarrow> first_prefix hs token)"

definition fault_handlers ::
  "'d config \<Rightarrow> (string \<times> (string \<Rightarrow> inject_ctx \<Rightarrow> inject_ctx option outcome)) list" where
  "fault_handlers cfg =
     [(''when='', parse_inject_when), (''syscall='', parse_inject_syscall cfg),
      (''error='', parse_inject_error cfg)]"

definition inject_handlers ::
  "'d config \<Rightarrow> (string \<times> (string \<Rightarrow> inject_ctx \<Rightarrow> inject_ctx option outcome)) list" where
  "inject_handlers cfg =
     [(''retval='', parse_inject_retval cfg), (''signal='', parse_inject_signal cfg),
      (''poke_enter='', \<lambda>val. parse_poke_token val True),
      (''poke_exit='', \<lambda>val. parse_poke_token val False),
      (''delay_enter='', \<lambda>val. parse_delay_token cfg val True),
      (''delay_exit='', \<lambda>val. parse_delay_token cfg val False)]"

definition parse_inject_token ::
  "'d config \<Rightarrow> string \<Rightarrow> bool \<Rightarrow> inject_ctx \<Rightarrow> inject_ctx option outcome" where
  "parse_inject_token cfg token fault_tokens_only c =
     (case first_prefix (fault_handlers cfg @ (if fault_tokens_only then [] else inject_handlers cfg)) token of
        Some (val, h) \<Rightarrow> h val c
      | None \<Rightarrow> Inr None)"

fun inject_token_loop ::
  "'d config \<Rightarrow> string list \<Rightarrow> bool \<Rightarrow> inject_ctx \<Rightarrow> inject_ctx option outcome" where
  "inject_token_loop cfg [] fto c = Inr (Some c)"
| "inject_token_loop cfg (token # ts) fto c =
     obind (parse_inject_token cfg token fto c)
       (\<lambda>r. case r of None \<Rightarrow> Inr None | Some c \<Rightarrow> inject_token_loop cfg ts fto c)"

text \<open>The name part of the expression and the context, or \<open>None\<close> for a \<open>NULL\<close> return.\<close>

definition parse_inject_expression ::
  "'d config \<Rightarrow> string \<Rightarrow> bool \<Rightarrow> inject_ctx \<Rightarrow> (string \<times> inject_ctx) option outcome" where
  "parse_inject_expression cfg str fto c =
     (if str = [] \<or> hd str = CHR '':'' then Inr (Some ([], c))
      else case tokens (CHR '':'') str of
          [] \<Rightarrow> Inr (Some ([], c))
        | name # ts \<Rightarrow> obind (inject_token_loop cfg ts fto c) (\<lambda>r. Inr (map_option (Pair name) r)))"

section \<open>The qualifiers\<close>

text \<open>
  The static variables the qualifiers fill.  A set pointer that is still \<open>NULL\<close> is \<open>None\<close>; a
  set made with \<open>alloc_number_set_array(1)\<close> is a single set.
\<close>

record globals =
  read_set :: "number_set option"
  write_set :: "number_set option"
  signal_set :: "number_set option"
  status_set :: "number_set option"
  quiet_set :: "number_set option"
  decode_fd_set :: "number_set option"
  decode_pid_set :: "number_set option"
  trace_fd_set :: "number_set option"
  secontext_set :: "number_set option"
  trace_set :: "number_set list option"
  abbrev_set :: "number_set list option"
  verbose_set :: "number_set list option"
  raw_set :: "number_set list option"
  inject_set :: "number_set list option"
  quiet_set_updated :: bool
  decode_fd_set_updated :: bool
  tracing_fds :: bool
  kvm_decoder_initialized :: bool
  inject_vec :: "inject_opts list option list"
  g_tables :: inject_tables
  messages :: "warning list"

definition set_or_alloc :: "number_set option \<Rightarrow> number_set" where
  "set_or_alloc sp = (case sp of None \<Rightarrow> hd (alloc_number_set_array 1) | Some s \<Rightarrow> s)"

definition sets_or_alloc :: "'d config \<Rightarrow> number_set list option \<Rightarrow> number_set list" where
  "sets_or_alloc cfg sp =
     (case sp of None \<Rightarrow> alloc_number_set_array (SUPPORTED_PERSONALITIES cfg) | Some a \<Rightarrow> a)"

definition qualify_read :: "string \<Rightarrow> globals \<Rightarrow> globals outcome" where
  "qualify_read str g =
     obind (qualify_tokens str (set_or_alloc (read_set g)) string_to_uint ''descriptor'')
       (\<lambda>s. Inr (g\<lparr>read_set := Some s\<rparr>))"

definition qualify_write :: "string \<Rightarrow> globals \<Rightarrow> globals outcome" where
  "qualify_write str g =
     obind (qualify_tokens str (set_or_alloc (write_set g)) string_to_uint ''descriptor'')
       (\<lambda>s. Inr (g\<lparr>write_set := Some s\<rparr>))"

definition qualify_signals :: "'d config \<Rightarrow> string \<Rightarrow> globals \<Rightarrow> globals outcome" where
  "qualify_signals cfg str g =
     obind (qualify_tokens str (set_or_alloc (signal_set g)) (sigstr_to_uint cfg) ''signal'')
       (\<lambda>s. Inr (g\<lparr>signal_set := Some s\<rparr>))"

definition qualify_status :: "string \<Rightarrow> globals \<Rightarrow> globals outcome" where
  "qualify_status str g =
     obind (qualify_tokens str (set_or_alloc (status_set g)) statusstr_to_uint ''status'')
       (\<lambda>s. Inr (g\<lparr>status_set := Some s\<rparr>))"

definition qualify_quiet :: "string \<Rightarrow> globals \<Rightarrow> globals outcome" where
  "qualify_quiet str g =
     obind (qualify_tokens str (set_or_alloc (quiet_set g)) quietstr_to_uint ''quiet'')
       (\<lambda>s. Inr (g\<lparr>quiet_set := Some s,
                  quiet_set_updated := (quiet_set g \<noteq> None \<or> quiet_set_updated g)\<rparr>))"

definition qualify_decode_fd :: "string \<Rightarrow> globals \<Rightarrow> globals outcome" where
  "qualify_decode_fd str g =
     obind (qualify_tokens str (set_or_alloc (decode_fd_set g)) decode_fd_str_to_uint ''decode-fds'')
       (\<lambda>s. Inr (g\<lparr>decode_fd_set := Some s,
                  decode_fd_set_updated := (decode_fd_set g \<noteq> None \<or> decode_fd_set_updated g)\<rparr>))"

definition qualify_decode_pid :: "string \<Rightarrow> globals \<Rightarrow> globals outcome" where
  "qualify_decode_pid str g =
     obind (qualify_tokens str (set_or_alloc (decode_pid_set g)) decode_pid_str_to_uint ''decode-pids'')
       (\<lambda>s. Inr (g\<lparr>decode_pid_set := Some s\<rparr>))"

definition qualify_trace :: "'d config \<Rightarrow> string \<Rightarrow> globals \<Rightarrow> globals outcome" where
  "qualify_trace cfg str g =
     obind (qualify_syscall_tokens cfg str (sets_or_alloc cfg (trace_set g)))
       (\<lambda>a. Inr (g\<lparr>trace_set := Some a\<rparr>))"

definition qualify_trace_fd :: "string \<Rightarrow> globals \<Rightarrow> globals outcome" where
  "qualify_trace_fd str g =
     obind (qualify_tokens str (set_or_alloc (trace_fd_set g)) string_to_uint ''descriptor'')
       (\<lambda>s. Inr (g\<lparr>trace_fd_set := Some s, tracing_fds := True\<rparr>))"

definition qualify_abbrev :: "'d config \<Rightarrow> string \<Rightarrow> globals \<Rightarrow> globals outcome" where
  "qualify_abbrev cfg str g =
     obind (qualify_syscall_tokens cfg str (sets_or_alloc cfg (abbrev_set g)))
       (\<lambda>a. Inr (g\<lparr>abbrev_set := Some a\<rparr>))"

definition qualify_verbose :: "'d config \<Rightarrow> string \<Rightarrow> globals \<Rightarrow> globals outcome" where
  "qualify_verbose cfg str g =
     obind (qualify_syscall_tokens cfg str (sets_or_alloc cfg (verbose_set g)))
       (\<lambda>a. Inr (g\<lparr>verbose_set := Some a\<rparr>))"

definition qualify_raw :: "'d config \<Rightarrow> string \<Rightarrow> globals \<Rightarrow> globals outcome" where
  "qualify_raw cfg str g =
     obind (qualify_syscall_tokens cfg str (sets_or_alloc cfg (raw_set g)))
       (\<lambda>a. Inr (g\<lparr>raw_set := Some a\<rparr>))"

text \<open>The inner loop of \<open>qualify_inject_common\<close> over the system calls of personality \<open>p\<close>.\<close>

fun merge_loop ::
  "inject_opts \<Rightarrow> number_set list \<Rightarrow> nat \<Rightarrow> nat list \<Rightarrow> number_set list \<times> inject_opts list
     \<Rightarrow> number_set list \<times> inject_opts list" where
  "merge_loop opts tmp p [] st = st"
| "merge_loop opts tmp p (i # is) (iset, iv) =
     merge_loop opts tmp p is
       (if is_number_in_set_array i (Some tmp) p
        then (add_number_to_set_array i iset p, iv[i := opts]) else (iset, iv))"

definition zero_data :: inject_data where
  "zero_data = \<lparr>inj_flags = 0, inj_signo = 0, rval_idx = 0, delay_idx = 0, poke_idx = 0, inj_scno = 0\<rparr>"

definition zero_opts :: inject_opts where
  "zero_opts = \<lparr>inj_first = 0, inj_last = 0, inj_step = 0, inj_data = zero_data\<rparr>"

definition merge_pers ::
  "'d config \<Rightarrow> inject_opts \<Rightarrow> u16 list \<Rightarrow> number_set list \<Rightarrow> nat \<Rightarrow> globals \<Rightarrow> globals" where
  "merge_pers cfg opts pd tmp p g =
     (if number_set_array_is_empty (Some tmp) p then g
      else let iset = sets_or_alloc cfg (inject_set g);
               iv = (case inject_vec g ! p of None \<Rightarrow> replicate (nsyscall_vec cfg p) zero_opts | Some v \<Rightarrow> v);
               opts = opts\<lparr>inj_data := (inj_data opts)\<lparr>inj_scno := pd ! p\<rparr>\<rparr>;
               (iset, iv) = merge_loop opts tmp p [0..<nsyscall_vec cfg p] (iset, iv)
           in g\<lparr>inject_set := Some iset, inject_vec := (inject_vec g)[p := Some iv]\<rparr>)"

definition initial_opts :: inject_opts where
  "initial_opts =
     \<lparr>inj_first = 1, inj_last = INJECT_LAST_INF, inj_step = 1,
      inj_data = zero_data\<lparr>delay_idx := -1, poke_idx := -1\<rparr>\<rparr>"

text \<open>
  The part of \<open>qualify_inject_common\<close> before the merge: the options, the replacement system
  calls, the selected system calls and the updated tables.
\<close>

definition inject_prepare ::
  "'d config \<Rightarrow> string \<Rightarrow> bool \<Rightarrow> string \<Rightarrow> globals \<Rightarrow> (inject_ctx \<times> number_set list) outcome" where
  "inject_prepare cfg str fto description g =
     (let invalid = Inl (Error_msg_and_die (''invalid '' @ description @ '' '' @ squote str));
          c = \<lparr>fopts = initial_opts, pdata = replicate (SUPPORTED_PERSONALITIES cfg) 0,
               tables = g_tables g, warnings = messages g\<rparr>
      in obind (parse_inject_expression cfg str fto c)
           (\<lambda>r. case r of None \<Rightarrow> invalid
              | Some (name, c) \<Rightarrow>
                  obind (qualify_syscall_tokens cfg name
                          (alloc_number_set_array (SUPPORTED_PERSONALITIES cfg)))
                    (\<lambda>tmp. if \<not> has_flag c INJECT_ACTION_FLAGS then
                             (if fto then obind (new_retval (ENOSYS cfg) INJECT_F_ERROR c)
                                            (\<lambda>c. Inr (c, tmp))
                              else invalid)
                           else Inr (c, tmp))))"

definition qualify_inject_common ::
  "'d config \<Rightarrow> string \<Rightarrow> bool \<Rightarrow> string \<Rightarrow> globals \<Rightarrow> globals outcome" where
  "qualify_inject_common cfg str fto description g =
     obind (inject_prepare cfg str fto description g)
       (\<lambda>(c, tmp). Inr (fold (merge_pers cfg (fopts c) (pdata c) tmp) [0..<SUPPORTED_PERSONALITIES cfg]
                         (g\<lparr>g_tables := tables c, messages := warnings c\<rparr>)))"

definition qualify_fault :: "'d config \<Rightarrow> string \<Rightarrow> globals \<Rightarrow> globals outcome" where
  "qualify_fault cfg str g = qualify_inject_common cfg str True ''fault argument'' g"

definition qualify_inject :: "'d config \<Rightarrow> string \<Rightarrow> globals \<Rightarrow> globals outcome" where
  "qualify_inject cfg str g = qualify_inject_common cfg str False ''inject argument'' g"

text \<open>\<open>KERNEL_VERSION(4, 16, 0)\<close> is \<open>0x041000\<close>.\<close>

definition qualify_kvm :: "'d config \<Rightarrow> string \<Rightarrow> globals \<Rightarrow> globals outcome" where
  "qualify_kvm cfg str g =
     (if str = ''vcpu'' then
        (if have_linux_kvm_h cfg then
           (if os_release cfg \<ge> 0x041000 then Inr (g\<lparr>kvm_decoder_initialized := True\<rparr>)
            else Inr (g\<lparr>messages := messages g @ [Kvm_needs_4_16]\<rparr>))
         else Inr (g\<lparr>messages := messages g @ [Kvm_not_implemented]\<rparr>))
      else Inl (Error_msg_and_die (''invalid -e kvm= argument: '' @ squote str)))"

definition qualify_secontext :: "'d config \<Rightarrow> string \<Rightarrow> globals \<Rightarrow> globals outcome" where
  "qualify_secontext cfg str g =
     (if enable_secontext cfg then
        obind (qualify_tokens str (set_or_alloc (secontext_set g)) secontextstr_to_uint ''secontext'')
          (\<lambda>s. Inr (g\<lparr>secontext_set := Some s\<rparr>))
      else Inl (Error_msg_and_die (''SELinux context printing (--secontext option) ''
                  @ ''is not supported by this build of strace'')))"

definition qual_options :: "'d config \<Rightarrow> (string \<times> (string \<Rightarrow> globals \<Rightarrow> globals outcome)) list" where
  "qual_options cfg =
     [(''trace'', qualify_trace cfg), (''t'', qualify_trace cfg),
      (''trace-fd'', qualify_trace_fd), (''trace-fds'', qualify_trace_fd),
      (''fd'', qualify_trace_fd), (''fds'', qualify_trace_fd),
      (''abbrev'', qualify_abbrev cfg), (''a'', qualify_abbrev cfg),
      (''verbose'', qualify_verbose cfg), (''v'', qualify_verbose cfg),
      (''raw'', qualify_raw cfg), (''x'', qualify_raw cfg),
      (''signal'', qualify_signals cfg), (''signals'', qualify_signals cfg),
      (''s'', qualify_signals cfg), (''status'', qualify_status),
      (''quiet'', qualify_quiet), (''silent'', qualify_quiet),
      (''silence'', qualify_quiet), (''q'', qualify_quiet),
      (''read'', qualify_read), (''reads'', qualify_read), (''r'', qualify_read),
      (''write'', qualify_write), (''writes'', qualify_write), (''w'', qualify_write),
      (''fault'', qualify_fault cfg), (''inject'', qualify_inject cfg), (''kvm'', qualify_kvm cfg),
      (''decode-fd'', qualify_decode_fd), (''decode-fds'', qualify_decode_fd),
      (''decode-pid'', qualify_decode_pid), (''decode-pids'', qualify_decode_pid),
      (''secontext'', qualify_secontext cfg)]"

fun qualify_loop ::
  "(string \<times> (string \<Rightarrow> globals \<Rightarrow> globals outcome)) list \<Rightarrow> string
     \<Rightarrow> (string \<times> (string \<Rightarrow> globals \<Rightarrow> globals outcome)) option" where
  "qualify_loop [] str = None"
| "qualify_loop ((name, f) # opts) str =
     (case str_strip_prefix_len str name of
        Some (c # val) \<Rightarrow> if c = CHR ''='' then Some (val, f) else qualify_loop opts str
      | _ \<Rightarrow> qualify_loop opts str)"

text \<open>Without a known prefix the whole string qualifies \<open>trace\<close>, the first option.\<close>

definition qualify :: "'d config \<Rightarrow> string \<Rightarrow> globals \<Rightarrow> globals outcome" where
  "qualify cfg str g =
     (case qualify_loop (qual_options cfg) str of
        Some (val, f) \<Rightarrow> f val g
      | None \<Rightarrow> qualify_trace cfg str g)"

definition QUAL_TRACE :: u32 where "QUAL_TRACE = 0x001"
definition QUAL_ABBREV :: u32 where "QUAL_ABBREV = 0x002"
definition QUAL_VERBOSE :: u32 where "QUAL_VERBOSE = 0x004"
definition QUAL_RAW :: u32 where "QUAL_RAW = 0x008"
definition QUAL_INJECT :: u32 where "QUAL_INJECT = 0x010"
definition DEFAULT_QUAL_FLAGS :: u32 where
  "DEFAULT_QUAL_FLAGS = QUAL_TRACE OR QUAL_ABBREV OR QUAL_VERBOSE"

definition qual_flags :: "globals \<Rightarrow> nat \<Rightarrow> nat \<Rightarrow> u32" where
  "qual_flags g current_personality scno =
     (if is_number_in_set_array scno (trace_set g) current_personality then QUAL_TRACE else 0)
     OR (if is_number_in_set_array scno (abbrev_set g) current_personality then QUAL_ABBREV else 0)
     OR (if is_number_in_set_array scno (verbose_set g) current_personality then QUAL_VERBOSE else 0)
     OR (if is_number_in_set_array scno (raw_set g) current_personality then QUAL_RAW else 0)
     OR (if is_number_in_set_array scno (inject_set g) current_personality then QUAL_INJECT else 0)"

section \<open>Valid table indices\<close>

text \<open>
  The invariant of an injection: the tables are well-formed and whatever action the flags
  announce has a valid index, so that \<open>retval_get\<close>, \<open>delay_tcb\<close> and \<open>poke_tcb\<close> find their
  entry when the injection fires.
\<close>

definition tables_ok :: "inject_tables \<Rightarrow> bool" where
  "tables_ok t \<longleftrightarrow> arena_wf (retvals t) \<and> arena_wf (delays t) \<and> arena_wf (pokes t)"

definition tables_le :: "inject_tables \<Rightarrow> inject_tables \<Rightarrow> bool" where
  "tables_le t t' \<longleftrightarrow> asize (retvals t) \<le> asize (retvals t') \<and> asize (delays t) \<le> asize (delays t')
     \<and> asize (pokes t) \<le> asize (pokes t')"

definition data_ok :: "inject_tables \<Rightarrow> inject_data \<Rightarrow> bool" where
  "data_ok t d \<longleftrightarrow>
     (inj_flags d AND (INJECT_F_ERROR OR INJECT_F_RETVAL) \<noteq> 0 \<longrightarrow> unat (rval_idx d) < asize (retvals t))
     \<and> (inj_flags d AND (INJECT_F_DELAY_ENTER OR INJECT_F_DELAY_EXIT) \<noteq> 0 \<longrightarrow>
          unat (delay_idx d) < asize (delays t))
     \<and> (inj_flags d AND (INJECT_F_POKE_ENTER OR INJECT_F_POKE_EXIT) \<noteq> 0 \<longrightarrow>
          unat (poke_idx d) < asize (pokes t))"

definition ctx_ok :: "inject_ctx \<Rightarrow> bool" where
  "ctx_ok c \<longleftrightarrow> tables_ok (tables c) \<and> data_ok (tables c) (inj_data (fopts c))
     \<and> (poke_idx (inj_data (fopts c)) = -1 \<or> unat (poke_idx (inj_data (fopts c))) < asize (pokes (tables c)))"

lemmas inject_flag_defs =
  INJECT_F_SIGNAL_def INJECT_F_ERROR_def INJECT_F_RETVAL_def INJECT_F_DELAY_ENTER_def
  INJECT_F_DELAY_EXIT_def INJECT_F_SYSCALL_def INJECT_F_POKE_ENTER_def INJECT_F_POKE_EXIT_def

lemmas ctx_simps = has_flag_def upd_opts_def upd_data_def set_flag_def

lemma or_and_distrib: "(f OR a) AND b = (f AND b) OR (a AND b :: u8)"
  by (simp add: bit.conj_disj_distrib2)

lemma tables_le_refl [simp]: "tables_le t t"
  by (simp add: tables_le_def)

lemma tables_le_trans: "tables_le a b \<Longrightarrow> tables_le b c \<Longrightarrow> tables_le a c"
  by (simp add: tables_le_def)

lemma data_ok_mono: "data_ok t d \<Longrightarrow> tables_le t t' \<Longrightarrow> data_ok t' d"
  unfolding data_ok_def tables_le_def by (meson order_less_le_trans)

text \<open>What a fresh index of any of the three tables gives.\<close>

lemma fresh_index:
  assumes "arena_wf a" "arena_wf a'" "\<exists>e. P e \<and> entries a' = entries a @ [e] \<and> unat i = length (entries a)"
  shows "arena_wf a' \<and> unat i < asize a' \<and> asize a \<le> asize a'"
proof -
  have "asize a' = Suc (asize a)" "unat i = asize a"
    using assms by (auto simp: length_entries dest: arg_cong [where f = length])
  with assms(2) show ?thesis by simp
qed

lemma fresh_retval:
  "arena_wf a \<Longrightarrow> retval_new v a = Inr (i, a') \<Longrightarrow> arena_wf a' \<and> unat i < asize a' \<and> asize a \<le> asize a'"
  by (rule fresh_index [OF _ retval.fresh_wf retval.fresh_contents])

lemma fresh_delay:
  "arena_wf a \<Longrightarrow> alloc_delay_data a = Inr (i, a') \<Longrightarrow> arena_wf a' \<and> unat i < asize a' \<and> asize a \<le> asize a'"
  by (rule fresh_index [OF _ delay.fresh_wf delay.fresh_contents])

lemma fresh_poke:
  "arena_wf a \<Longrightarrow> alloc_poke_data a = Inr (i, a') \<Longrightarrow> arena_wf a' \<and> unat i < asize a' \<and> asize a \<le> asize a'"
  by (rule fresh_index [OF _ poke.fresh_wf poke.fresh_contents])

lemma new_retval_ok:
  assumes "ctx_ok c" "new_retval v fl c = Inr c'" "fl = INJECT_F_ERROR \<or> fl = INJECT_F_RETVAL"
  shows "ctx_ok c' \<and> tables_le (tables c) (tables c')"
proof -
  from assms(2) obtain i rs where rs: "retval_new v (retvals (tables c)) = Inr (i, rs)"
    and c': "c' = set_flag fl (upd_data (\<lambda>d. d\<lparr>rval_idx := i\<rparr>) (c\<lparr>tables := (tables c)\<lparr>retvals := rs\<rparr>\<rparr>))"
    by (auto simp: new_retval_def obind_eq_Inr)
  have wf: "arena_wf (retvals (tables c))" using assms(1) by (simp add: ctx_ok_def tables_ok_def)
  from assms(1,3) fresh_retval [OF wf rs] show ?thesis
    by (auto simp: c' ctx_simps ctx_ok_def tables_ok_def tables_le_def data_ok_def or_and_distrib
        inject_flag_defs)
qed

lemma fill_delay_data_ok:
  "fill_delay_data i v e a = Inr a' \<Longrightarrow>
     unat i < asize a \<and> asize a' = asize a \<and> arena_wf a' = arena_wf a"
  by (auto simp: fill_delay_data_def Let_def arena_wf_def split: if_splits)

lemma parse_delay_token_ok:
  assumes "ctx_ok c" "parse_delay_token cfg input e c = Inr (Some c')"
  shows "ctx_ok c' \<and> tables_le (tables c) (tables c')"
proof -
  let ?fl = "if e then INJECT_F_DELAY_ENTER else INJECT_F_DELAY_EXIT"
  from assms(2) obtain v c1 ds where
    c1: "(if delay_idx (inj_data (fopts c)) = -1
          then obind (alloc_delay_data (delays (tables c)))
            (\<lambda>(idx, ds). Inr (upd_data (\<lambda>d. d\<lparr>delay_idx := idx\<rparr>) (c\<lparr>tables := (tables c)\<lparr>delays := ds\<rparr>\<rparr>)))
          else Inr c) = Inr c1"
    and fill: "fill_delay_data (delay_idx (inj_data (fopts c1))) v e (delays (tables c1)) = Inr ds"
    and c': "c' = set_flag ?fl (c1\<lparr>tables := (tables c1)\<lparr>delays := ds\<rparr>\<rparr>)"
    by (simp add: parse_delay_token_def Let_def obind_eq_Inr split: if_splits option.splits) blast+
  have wf: "arena_wf (delays (tables c))" using assms(1) by (simp add: ctx_ok_def tables_ok_def)
  have "tables_ok (tables c1) \<and> tables_le (tables c) (tables c1) \<and>
      retvals (tables c1) = retvals (tables c) \<and> pokes (tables c1) = pokes (tables c) \<and>
      (\<exists>i. fopts c1 = (fopts c)\<lparr>inj_data := (inj_data (fopts c))\<lparr>delay_idx := i\<rparr>\<rparr>)"
  proof (cases "delay_idx (inj_data (fopts c)) = -1")
    case True
    with c1 obtain i ds1 where a: "alloc_delay_data (delays (tables c)) = Inr (i, ds1)"
      and e: "c1 = upd_data (\<lambda>d. d\<lparr>delay_idx := i\<rparr>) (c\<lparr>tables := (tables c)\<lparr>delays := ds1\<rparr>\<rparr>)"
      by (auto simp: obind_eq_Inr)
    from assms(1) fresh_delay [OF wf a] show ?thesis
      by (auto simp: e ctx_simps ctx_ok_def tables_ok_def tables_le_def)
  next
    case False
    with c1 assms(1) show ?thesis
      by (auto simp: ctx_ok_def intro!: exI [of _ "delay_idx (inj_data (fopts c))"])
  qed
  with assms(1) fill_delay_data_ok [OF fill] show ?thesis
    by (auto simp: c' ctx_simps ctx_ok_def tables_ok_def tables_le_def data_ok_def or_and_distrib
        inject_flag_defs)
qed

lemma poke_add_ok:
  "poke_add i pk a = (False, a') \<Longrightarrow> asize a' = asize a \<and> arena_wf a' = arena_wf a"
  by (auto simp: poke_add_def Let_def arena_wf_def split: if_splits)

lemma poke_token_loop_ok:
  "poke_token_loop ts e i a = Some a' \<Longrightarrow> asize a' = asize a \<and> arena_wf a' = arena_wf a"
  by (induction ts arbitrary: a)
    (auto split: option.splits bool.splits prod.splits dest!: poke_add_ok)

lemma parse_poke_token_ok:
  assumes "ctx_ok c" "parse_poke_token input e c = Inr (Some c')"
  shows "ctx_ok c' \<and> tables_le (tables c) (tables c')"
proof -
  let ?fl = "if e then INJECT_F_POKE_ENTER else INJECT_F_POKE_EXIT"
  from assms(2) obtain c1 ps where
    c1: "(if poke_idx (inj_data (fopts c)) = -1
          then obind (alloc_poke_data (pokes (tables c)))
            (\<lambda>(idx, ps). Inr (upd_data (\<lambda>d. d\<lparr>poke_idx := idx\<rparr>) (c\<lparr>tables := (tables c)\<lparr>pokes := ps\<rparr>\<rparr>)))
          else Inr c) = Inr c1"
    and loop: "poke_token_loop (tokens (CHR '','') input) e (poke_idx (inj_data (fopts c1)))
       (pokes (tables c1)) = Some ps"
    and c': "c' = set_flag ?fl (c1\<lparr>tables := (tables c1)\<lparr>pokes := ps\<rparr>\<rparr>)"
    by (simp add: parse_poke_token_def Let_def obind_eq_Inr split: if_splits option.splits) blast+
  have wf: "arena_wf (pokes (tables c))" using assms(1) by (simp add: ctx_ok_def tables_ok_def)
  have "tables_ok (tables c1) \<and> tables_le (tables c) (tables c1) \<and>
      retvals (tables c1) = retvals (tables c) \<and> delays (tables c1) = delays (tables c) \<and>
      (\<exists>i. unat i < asize (pokes (tables c1)) \<and>
           fopts c1 = (fopts c)\<lparr>inj_data := (inj_data (fopts c))\<lparr>poke_idx := i\<rparr>\<rparr>)"
  proof (cases "poke_idx (inj_data (fopts c)) = -1")
    case True
    with c1 obtain i ps1 where a: "alloc_poke_data (pokes (tables c)) = Inr (i, ps1)"
      and e: "c1 = upd_data (\<lambda>d. d\<lparr>poke_idx := i\<rparr>) (c\<lparr>tables := (tables c)\<lparr>pokes := ps1\<rparr>\<rparr>)"
      by (auto simp: obind_eq_Inr)
    from assms(1) fresh_poke [OF wf a] show ?thesis
      by (auto simp: e ctx_simps ctx_ok_def tables_ok_def tables_le_def)
  next
    case False
    with c1 assms(1) show ?thesis
      by (auto simp: ctx_ok_def intro!: exI [of _ "poke_idx (inj_data (fopts c))"])
  qed
  with assms(1) poke_token_loop_ok [OF loop] show ?thesis
    by (auto simp: c' ctx_simps ctx_ok_def tables_ok_def tables_le_def data_ok_def or_and_distrib
        inject_flag_defs)
qed

lemma other_token_ok:
  assumes "ctx_ok c"
  shows "parse_inject_when v c = Inr (Some c') \<Longrightarrow> ctx_ok c' \<and> tables_le (tables c) (tables c')"
    and "parse_inject_syscall cfg v c = Inr (Some c') \<Longrightarrow> ctx_ok c' \<and> tables_le (tables c) (tables c')"
    and "parse_inject_signal cfg v c = Inr (Some c') \<Longrightarrow> ctx_ok c' \<and> tables_le (tables c) (tables c')"
    and "parse_inject_error cfg v c = Inr (Some c') \<Longrightarrow> ctx_ok c' \<and> tables_le (tables c) (tables c')"
    and "parse_inject_retval cfg v c = Inr (Some c') \<Longrightarrow> ctx_ok c' \<and> tables_le (tables c) (tables c')"
proof -
  show "parse_inject_when v c = Inr (Some c') \<Longrightarrow> ctx_ok c' \<and> tables_le (tables c) (tables c')"
    using assms by (auto simp: parse_inject_when_def ctx_simps ctx_ok_def split: option.splits)
  show "parse_inject_syscall cfg v c = Inr (Some c') \<Longrightarrow> ctx_ok c' \<and> tables_le (tables c) (tables c')"
    using assms
    by (auto simp: parse_inject_syscall_def ctx_ok_def ctx_simps data_ok_def or_and_distrib
        inject_flag_defs split: option.splits if_splits)
  show "parse_inject_signal cfg v c = Inr (Some c') \<Longrightarrow> ctx_ok c' \<and> tables_le (tables c) (tables c')"
    using assms
    by (auto simp: parse_inject_signal_def Let_def ctx_ok_def ctx_simps data_ok_def or_and_distrib
        inject_flag_defs split: if_splits)
  show "parse_inject_error cfg v c = Inr (Some c') \<Longrightarrow> ctx_ok c' \<and> tables_le (tables c) (tables c')"
    by (auto simp: parse_inject_error_def Let_def obind_eq_Inr new_retval_ok [OF assms] split: if_splits)
  assume "parse_inject_retval cfg v c = Inr (Some c')"
  then obtain u where "new_retval u INJECT_F_RETVAL
      (c\<lparr>warnings := warnings c @ check_inadvertent_fault_injection cfg u\<rparr>) = Inr c'"
    by (auto simp: parse_inject_retval_def obind_eq_Inr split: if_splits prod.splits)
  moreover have "ctx_ok (c\<lparr>warnings := w\<rparr>)" for w using assms by (simp add: ctx_ok_def)
  ultimately show "ctx_ok c' \<and> tables_le (tables c) (tables c')"
    using new_retval_ok [of "c\<lparr>warnings := _\<rparr>"] by fastforce
qed

lemma first_prefix_mem: "first_prefix hs t = Some (v, h) \<Longrightarrow> h \<in> snd ` set hs"
  by (induction hs t rule: first_prefix.induct) (auto split: option.splits)

lemma parse_inject_token_ok:
  assumes "ctx_ok c" "parse_inject_token cfg t fto c = Inr (Some c')"
  shows "ctx_ok c' \<and> tables_le (tables c) (tables c')"
proof -
  from assms(2) obtain v h where
    f: "first_prefix (fault_handlers cfg @ (if fto then [] else inject_handlers cfg)) t = Some (v, h)"
    and h: "h v c = Inr (Some c')"
    by (auto simp: parse_inject_token_def split: option.splits)
  from first_prefix_mem [OF f] have "h \<in> snd ` set (fault_handlers cfg @ inject_handlers cfg)"
    by (auto split: if_splits)
  with h show ?thesis
    unfolding fault_handlers_def inject_handlers_def
    by (auto dest: other_token_ok [OF assms(1)] parse_poke_token_ok [OF assms(1)]
        parse_delay_token_ok [OF assms(1)])
qed

lemma inject_token_loop_ok:
  "ctx_ok c \<Longrightarrow> inject_token_loop cfg ts fto c = Inr (Some c') \<Longrightarrow>
     ctx_ok c' \<and> tables_le (tables c) (tables c')"
proof (induction ts arbitrary: c)
  case (Cons t ts)
  then obtain c1 where "parse_inject_token cfg t fto c = Inr (Some c1)"
    "inject_token_loop cfg ts fto c1 = Inr (Some c')"
    by (auto simp: obind_eq_Inr split: option.splits)
  with Cons parse_inject_token_ok [of c] show ?case
    using tables_le_trans by blast
qed simp

section \<open>The invariant of the filter state\<close>

definition single_sets :: "globals \<Rightarrow> number_set option list" where
  "single_sets g = [read_set g, write_set g, signal_set g, status_set g, quiet_set g, decode_fd_set g,
     decode_pid_set g, trace_fd_set g, secontext_set g]"

definition syscall_sets :: "globals \<Rightarrow> number_set list option list" where
  "syscall_sets g = [trace_set g, abbrev_set g, verbose_set g, raw_set g, inject_set g]"

definition array_ok :: "'d config \<Rightarrow> number_set list option \<Rightarrow> bool" where
  "array_ok cfg sp \<longleftrightarrow> (\<forall>a. sp = Some a \<longrightarrow> length a = SUPPORTED_PERSONALITIES cfg \<and> sets_wf a)"

lemma alloc_one_wf: "number_set_wf (hd (alloc_number_set_array 1))"
  by (simp add: alloc_number_set_array_def number_set_wf_def)

lemma set_or_alloc_wf: "(\<And>s. sp = Some s \<Longrightarrow> number_set_wf s) \<Longrightarrow> number_set_wf (set_or_alloc sp)"
  using alloc_one_wf by (simp add: set_or_alloc_def split: option.splits)

lemma sets_or_alloc_ok:
  "array_ok cfg sp \<Longrightarrow>
     length (sets_or_alloc cfg sp) = SUPPORTED_PERSONALITIES cfg \<and> sets_wf (sets_or_alloc cfg sp)"
  using alloc_number_set_wf
  by (auto simp: sets_or_alloc_def array_ok_def alloc_number_set_array_def split: option.splits)

lemma bang_loop_keeps:
  "(\<And>x. P x \<Longrightarrow> P (neg x)) \<Longrightarrow> P x \<Longrightarrow> bang_loop neg str x = (s, y) \<Longrightarrow> P y"
  by (induction neg str x rule: bang_loop.induct) (auto split: if_splits)

lemma number_token_loop_keeps:
  "number_set_wf s \<Longrightarrow> number_token_loop f n ts k s = Inr (k', s') \<Longrightarrow> number_set_wf s'"
  by (induction f n ts k s rule: number_token_loop.induct) (auto simp: Let_def split: if_splits)

lemma qualify_tokens_wf:
  assumes "number_set_wf st" "qualify_tokens str st func name = Inr st'"
  shows "number_set_wf st'"
proof -
  obtain s y where b: "bang_loop invert_number_set str (clear_number_set st) = (s, y)" by fastforce
  have "number_set_wf y"
    by (rule bang_loop_keeps [where P = number_set_wf, OF _ _ b]) (simp_all add: assms(1))
  with assms(2) b show ?thesis
    by (auto simp: qualify_tokens_def obind_eq_Inr split: if_splits dest: number_token_loop_keeps)
qed

section \<open>Merging an injection\<close>

text \<open>The inner loop adds the selected system calls and stores the options for them.\<close>

lemma merge_loop_spec:
  "sets_wf iset \<Longrightarrow> p < length iset \<Longrightarrow> merge_loop opts tmp p is (iset, iv) = (iset', iv') \<Longrightarrow>
     length iset' = length iset \<and> sets_wf iset' \<and> length iv' = length iv
     \<and> (\<forall>q < length iset. q \<noteq> p \<longrightarrow> iset' ! q = iset ! q) \<and> not (iset' ! p) = not (iset ! p)
     \<and> slots_set (vec (iset' ! p)) =
          slots_set (vec (iset ! p)) \<union> {i \<in> set is. is_number_in_set_array i (Some tmp) p}
     \<and> (\<forall>i < length iv. iv' ! i =
          (if i \<in> set is \<and> is_number_in_set_array i (Some tmp) p then opts else iv ! i))"
proof (induction "is" arbitrary: iset iv)
  case Nil
  then show ?case by simp
next
  case (Cons i "is")
  let ?hit = "is_number_in_set_array i (Some tmp) p"
  let ?s = "if ?hit then add_number_to_set_array i iset p else iset"
  let ?v = "if ?hit then iv[i := opts] else iv"
  have wfp: "number_set_wf (iset ! p)" using Cons.prems(1,2) by (simp add: list_all_length)
  then have "number_set_wf (add_number_to_set i (iset ! p))" by simp
  then have s: "sets_wf ?s" "p < length ?s"
    using Cons.prems(1,2)
    by (auto simp: add_number_to_set_array_def list_all_length nth_list_update)
  have loop: "merge_loop opts tmp p is (?s, ?v) = (iset', iv')"
    using Cons.prems(3) by (auto split: if_splits)
  from Cons.IH [OF s loop] wfp Cons.prems(2) show ?case
    by (auto simp: add_number_to_set_array_def add_number_slots_set nth_list_update
        simp del: is_number_in_set_array_Some split: if_splits) (metis nth_list_update_neq)+
qed

text \<open>
  What \<open>merge_pers\<close> does to personality \<open>q\<close>: nothing unless \<open>q = p\<close>, where the
  selected system calls join \<open>inject_set\<close> and get the new options.
\<close>

definition injected :: "globals \<Rightarrow> nat \<Rightarrow> nat \<Rightarrow> bool" where
  "injected g p i \<longleftrightarrow> is_number_in_set_array i (inject_set g) p"

definition with_scno :: "inject_opts \<Rightarrow> u16 \<Rightarrow> inject_opts" where
  "with_scno opts sc = opts\<lparr>inj_data := (inj_data opts)\<lparr>inj_scno := sc\<rparr>\<rparr>"

definition inject_entry :: "globals \<Rightarrow> nat \<Rightarrow> nat \<Rightarrow> inject_opts option" where
  "inject_entry g p i = map_option (\<lambda>v. v ! i) (inject_vec g ! p)"

lemma empty_selects_nothing:
  "number_set_array_is_empty (Some tmp) p \<Longrightarrow> \<not> is_number_in_set_array i (Some tmp) p"
  by (simp add: number_set_array_is_empty_def is_number_in_set_def)

text \<open>The invariant without what it says of the injection options.\<close>

definition inject_shape :: "'d config \<Rightarrow> globals \<Rightarrow> bool" where
  "inject_shape cfg g \<longleftrightarrow> array_ok cfg (inject_set g) \<and> length (inject_vec g) = SUPPORTED_PERSONALITIES cfg
     \<and> (\<forall>p v. p < length (inject_vec g) \<and> inject_vec g ! p = Some v \<longrightarrow> length v = nsyscall_vec cfg p)
     \<and> (\<forall>a. inject_set g = Some a \<longrightarrow> (\<forall>p < length a. \<not> not (a ! p)))"

lemma injected_fresh: "p < SUPPORTED_PERSONALITIES cfg \<Longrightarrow> array_ok cfg (inject_set g) \<Longrightarrow>
   \<forall>a. inject_set g = Some a \<longrightarrow> (\<forall>p < length a. \<not> not (a ! p)) \<Longrightarrow>
   (injected g p i \<longleftrightarrow> i \<in> slots_set (vec (sets_or_alloc cfg (inject_set g) ! p)))
   \<and> \<not> not (sets_or_alloc cfg (inject_set g) ! p)"
  by (cases "inject_set g")
    (auto simp: injected_def sets_or_alloc_def alloc_number_set_array_def is_number_in_set_array_def
      array_ok_def list_all_length number_set_wf_def slots_set_def number_isset_iff)

text \<open>
  \<open>merged\<close> relates the state before and after the merge of the personalities \<open>P\<close>: the selected
  system calls of \<open>P\<close> join \<open>inject_set\<close> and get the new options; everything else is kept.
\<close>

definition merged ::
  "'d config \<Rightarrow> inject_opts \<Rightarrow> u16 list \<Rightarrow> number_set list \<Rightarrow> nat set \<Rightarrow> globals \<Rightarrow> globals \<Rightarrow> bool" where
  "merged cfg opts pd tmp P g g' \<longleftrightarrow> inject_shape cfg g' \<and>
     (\<forall>q < SUPPORTED_PERSONALITIES cfg. \<forall>i.
        let hit = (q \<in> P \<and> i < nsyscall_vec cfg q \<and> is_number_in_set_array i (Some tmp) q)
        in (injected g' q i \<longleftrightarrow> injected g q i \<or> hit)
           \<and> (i < nsyscall_vec cfg q \<longrightarrow>
                inject_entry g' q i = (if hit then Some (with_scno opts (pd ! q)) else inject_entry g q i)
                \<or> \<not> hit \<and> inject_entry g q i = None \<and> inject_entry g' q i = Some zero_opts))"

lemma merge_pers_merged:
  assumes "inject_shape cfg g" "p < SUPPORTED_PERSONALITIES cfg"
  shows "merged cfg opts pd tmp {p} g (merge_pers cfg opts pd tmp p g)"
proof (cases "number_set_array_is_empty (Some tmp) p")
  case True
  with assms(1) empty_selects_nothing show ?thesis
    by (auto simp: merge_pers_def merged_def simp del: is_number_in_set_array_Some)
next
  case False
  let ?iset = "sets_or_alloc cfg (inject_set g)"
  let ?iv = "case inject_vec g ! p of None \<Rightarrow> replicate (nsyscall_vec cfg p) zero_opts | Some v \<Rightarrow> v"
  let ?hit = "\<lambda>q i. q = p \<and> i < nsyscall_vec cfg q \<and> is_number_in_set_array i (Some tmp) q"
  obtain iset' iv' where ml: "merge_loop (with_scno opts (pd ! p)) tmp p [0..<nsyscall_vec cfg p] (?iset, ?iv)
      = (iset', iv')" by fastforce
  have g': "merge_pers cfg opts pd tmp p g
      = g\<lparr>inject_set := Some iset', inject_vec := (inject_vec g)[p := Some iv']\<rparr>"
    using False ml by (simp add: merge_pers_def Let_def with_scno_def)
  have shape: "array_ok cfg (inject_set g)" "length (inject_vec g) = SUPPORTED_PERSONALITIES cfg"
    "\<forall>a. inject_set g = Some a \<longrightarrow> (\<forall>p < length a. \<not> not (a ! p))"
    using assms(1) by (simp_all add: inject_shape_def)
  note f = injected_fresh [OF _ shape(1,3)]
  have s: "length ?iset = SUPPORTED_PERSONALITIES cfg" "sets_wf ?iset"
    using sets_or_alloc_ok [OF shape(1)] by simp_all
  have iv: "length ?iv = nsyscall_vec cfg p"
    using assms(1,2) by (auto simp: inject_shape_def split: option.splits)
  note m = merge_loop_spec [OF s(2) _ ml, unfolded s(1), OF assms(2)]
  have len: "length iset' = SUPPORTED_PERSONALITIES cfg" "sets_wf iset'" "length iv' = nsyscall_vec cfg p"
    using m iv by auto
  have neg: "\<not> not (iset' ! q)" and slots: "slots_set (vec (iset' ! q)) =
      slots_set (vec (?iset ! q)) \<union> {i. ?hit q i}" if "q < SUPPORTED_PERSONALITIES cfg" for q
    using m f [OF that] that
    by (cases "q = p"; auto simp del: is_number_in_set_array_Some)+
  have "number_set_wf (iset' ! q)" if "q < SUPPORTED_PERSONALITIES cfg" for q
    using len that by (simp add: list_all_length)
  then have inj: "injected (merge_pers cfg opts pd tmp p g) q i \<longleftrightarrow> injected g q i \<or> ?hit q i"
    if "q < SUPPORTED_PERSONALITIES cfg" for q i
    using that neg [OF that] slots [OF that] f [OF that]
    by (auto simp: g' injected_def is_number_in_set_Some)
  have entry: "inject_entry (merge_pers cfg opts pd tmp p g) q i
      = (if ?hit q i then Some (with_scno opts (pd ! q)) else inject_entry g q i)
      \<or> \<not> ?hit q i \<and> inject_entry g q i = None
          \<and> inject_entry (merge_pers cfg opts pd tmp p g) q i = Some zero_opts"
    if "q < SUPPORTED_PERSONALITIES cfg" "i < nsyscall_vec cfg q" for q i
  proof (cases "q = p")
    case True
    have "iv' ! i = (if is_number_in_set_array i (Some tmp) p then with_scno opts (pd ! p) else ?iv ! i)"
      using m iv that True by (simp del: is_number_in_set_array_Some)
    with True that shape(2) show ?thesis
      by (cases "inject_vec g ! p") (simp_all add: g' inject_entry_def del: is_number_in_set_array_Some)
  qed (use shape(2) that in \<open>simp add: g' inject_entry_def\<close>)
  have "inject_shape cfg (merge_pers cfg opts pd tmp p g)"
    using len neg assms by (auto simp: g' inject_shape_def array_ok_def nth_list_update split: if_splits)
  with inj entry show ?thesis
    by (simp add: merged_def Let_def del: is_number_in_set_array_Some)
qed

lemma merged_trans:
  "merged cfg opts pd tmp P a b \<Longrightarrow> merged cfg opts pd tmp Q b c \<Longrightarrow> merged cfg opts pd tmp (P \<union> Q) a c"
proof -
  assume ab: "merged cfg opts pd tmp P a b" and bc: "merged cfg opts pd tmp Q b c"
  let ?hit = "\<lambda>P q i. q \<in> P \<and> i < nsyscall_vec cfg q \<and> is_number_in_set_array i (Some tmp) q"
  let ?at = "\<lambda>P g g' q i. (injected g' q i \<longleftrightarrow> injected g q i \<or> ?hit P q i)
     \<and> (i < nsyscall_vec cfg q \<longrightarrow>
          inject_entry g' q i = (if ?hit P q i then Some (with_scno opts (pd ! q)) else inject_entry g q i)
          \<or> \<not> ?hit P q i \<and> inject_entry g q i = None \<and> inject_entry g' q i = Some zero_opts)"
  have "?at (P \<union> Q) a c q i" if q: "q < SUPPORTED_PERSONALITIES cfg" for q i
  proof -
    have "?at P a b q i" "?at Q b c q i"
      using ab bc q unfolding merged_def Let_def by blast+
    then show ?thesis by (cases "?hit Q q i"; cases "?hit P q i") auto
  qed
  moreover have "inject_shape cfg c" using bc by (simp add: merged_def)
  ultimately show ?thesis unfolding merged_def Let_def by blast
qed

lemma merge_all_merged:
  "inject_shape cfg g \<Longrightarrow> set ps \<subseteq> {..<SUPPORTED_PERSONALITIES cfg} \<Longrightarrow>
     merged cfg opts pd tmp (set ps) g (fold (merge_pers cfg opts pd tmp) ps g)"
proof (induction ps arbitrary: g)
  case Nil
  then show ?case by (simp add: merged_def)
next
  case (Cons p ps)
  then have one: "merged cfg opts pd tmp {p} g (merge_pers cfg opts pd tmp p g)"
    by (intro merge_pers_merged) auto
  then have "inject_shape cfg (merge_pers cfg opts pd tmp p g)" by (simp add: merged_def)
  from merged_trans [OF one Cons.IH [OF this]] Cons.prems(2) show ?case by simp
qed

section \<open>Every qualifier keeps the invariant\<close>

text \<open>
  Every system call in \<open>inject_set\<close> is within its table and has options, and the options of
  every system call refer to existing table entries.
\<close>

definition injections_ok :: "'d config \<Rightarrow> globals \<Rightarrow> bool" where
  "injections_ok cfg g \<longleftrightarrow> inject_shape cfg g \<and>
     (\<forall>q < SUPPORTED_PERSONALITIES cfg. \<forall>i.
        (injected g q i \<longrightarrow> i < nsyscall_vec cfg q \<and> inject_entry g q i \<noteq> None)
        \<and> (i < nsyscall_vec cfg q \<longrightarrow>
             (\<forall>op. inject_entry g q i = Some op \<longrightarrow> data_ok (g_tables g) (inj_data op))))"

definition globals_ok :: "'d config \<Rightarrow> globals \<Rightarrow> bool" where
  "globals_ok cfg g \<longleftrightarrow>
     list_all (\<lambda>sp. \<forall>s. sp = Some s \<longrightarrow> number_set_wf s) (single_sets g)
     \<and> list_all (array_ok cfg) (syscall_sets g)
     \<and> tables_ok (g_tables g) \<and> injections_ok cfg g"

lemma initial_ctx_ok:
  "tables_ok t \<Longrightarrow> ctx_ok \<lparr>fopts = initial_opts, pdata = pd, tables = t, warnings = w\<rparr>"
  by (simp add: ctx_ok_def initial_opts_def zero_data_def data_ok_def)

lemma inject_prepare_ok:
  assumes "tables_ok (g_tables g)" "inject_prepare cfg str fto d g = Inr (c, tmp)"
  shows "ctx_ok c \<and> tables_le (g_tables g) (tables c)"
proof -
  let ?c = "\<lparr>fopts = initial_opts, pdata = replicate (SUPPORTED_PERSONALITIES cfg) 0,
               tables = g_tables g, warnings = messages g\<rparr>"
  from assms(2) obtain name c1 where p: "parse_inject_expression cfg str fto ?c = Inr (Some (name, c1))"
    and e: "c = c1 \<or> new_retval (ENOSYS cfg) INJECT_F_ERROR c1 = Inr c"
    by (auto simp: inject_prepare_def Let_def obind_eq_Inr split: option.splits if_splits)
  have ok: "ctx_ok ?c" by (rule initial_ctx_ok [OF assms(1)])
  have "c1 = ?c \<or> (\<exists>ts. inject_token_loop cfg ts fto ?c = Inr (Some c1))"
    using p by (auto simp: parse_inject_expression_def obind_eq_Inr split: if_splits list.splits)
  then have "ctx_ok c1 \<and> tables_le (g_tables g) (tables c1)"
    using ok inject_token_loop_ok [OF ok] by fastforce
  with e show ?thesis
    using new_retval_ok tables_le_trans by blast
qed

lemma data_ok_zero: "data_ok t (inj_data zero_opts)"
  by (simp add: data_ok_def zero_opts_def zero_data_def)

lemma data_ok_with_scno: "data_ok t (inj_data (with_scno op sc)) = data_ok t (inj_data op)"
  by (simp add: data_ok_def with_scno_def)

lemma merge_pers_keeps:
  "single_sets (merge_pers cfg opts pd tmp p g) = single_sets g"
  "trace_set (merge_pers cfg opts pd tmp p g) = trace_set g"
  "abbrev_set (merge_pers cfg opts pd tmp p g) = abbrev_set g"
  "verbose_set (merge_pers cfg opts pd tmp p g) = verbose_set g"
  "raw_set (merge_pers cfg opts pd tmp p g) = raw_set g"
  "g_tables (merge_pers cfg opts pd tmp p g) = g_tables g"
  by (simp_all add: merge_pers_def Let_def single_sets_def split: prod.splits)

lemma merge_all_keeps:
  "single_sets (fold (merge_pers cfg opts pd tmp) ps g) = single_sets g"
  "trace_set (fold (merge_pers cfg opts pd tmp) ps g) = trace_set g"
  "abbrev_set (fold (merge_pers cfg opts pd tmp) ps g) = abbrev_set g"
  "verbose_set (fold (merge_pers cfg opts pd tmp) ps g) = verbose_set g"
  "raw_set (fold (merge_pers cfg opts pd tmp) ps g) = raw_set g"
  "g_tables (fold (merge_pers cfg opts pd tmp) ps g) = g_tables g"
  by (induction ps arbitrary: g) (simp_all add: merge_pers_keeps)

lemma merged_injections_ok:
  assumes "injections_ok cfg g" "merged cfg opts pd tmp P (g\<lparr>g_tables := t, messages := w\<rparr>) g'"
    and "g_tables g' = t" "tables_le (g_tables g) t" "data_ok t (inj_data opts)"
  shows "injections_ok cfg g'"
proof -
  have inj: "injected (g\<lparr>g_tables := t, messages := w\<rparr>) = injected g"
    "inject_entry (g\<lparr>g_tables := t, messages := w\<rparr>) = inject_entry g"
    by (auto simp: injected_def inject_entry_def fun_eq_iff)
  have "(injected g' q i \<longrightarrow> i < nsyscall_vec cfg q \<and> inject_entry g' q i \<noteq> None)
      \<and> (i < nsyscall_vec cfg q \<longrightarrow> (\<forall>op. inject_entry g' q i = Some op \<longrightarrow> data_ok t (inj_data op)))"
    if q: "q < SUPPORTED_PERSONALITIES cfg" for q i
  proof -
    let ?hit = "q \<in> P \<and> i < nsyscall_vec cfg q \<and> is_number_in_set_array i (Some tmp) q"
    have m: "injected g' q i \<longleftrightarrow> injected g q i \<or> ?hit"
      "i < nsyscall_vec cfg q \<Longrightarrow>
         inject_entry g' q i = (if ?hit then Some (with_scno opts (pd ! q)) else inject_entry g q i)
         \<or> \<not> ?hit \<and> inject_entry g q i = None \<and> inject_entry g' q i = Some zero_opts"
      using assms(2) q unfolding merged_def inj Let_def by blast+
    have old: "injected g q i \<Longrightarrow> i < nsyscall_vec cfg q \<and> inject_entry g q i \<noteq> None"
      "i < nsyscall_vec cfg q \<Longrightarrow> inject_entry g q i = Some op \<Longrightarrow> data_ok t (inj_data op)" for op
      using assms(1,4) q data_ok_mono unfolding injections_ok_def by blast+
    show ?thesis
    proof (cases ?hit)
      case True
      with m assms(5) show ?thesis by (auto simp: data_ok_with_scno)
    next
      case False
      with m old show ?thesis by (auto simp: data_ok_zero)
    qed
  qed
  moreover have "inject_shape cfg g'" using assms(2) by (simp add: merged_def)
  ultimately show ?thesis
    using assms(3) by (simp add: injections_ok_def)
qed

lemma qualify_inject_common_ok:
  assumes "globals_ok cfg g" "qualify_inject_common cfg str fto d g = Inr g'"
  shows "globals_ok cfg g'"
proof -
  from assms(2) obtain c tmp where p: "inject_prepare cfg str fto d g = Inr (c, tmp)"
    and g': "g' = fold (merge_pers cfg (fopts c) (pdata c) tmp) [0..<SUPPORTED_PERSONALITIES cfg]
                         (g\<lparr>g_tables := tables c, messages := warnings c\<rparr>)"
    by (auto simp: qualify_inject_common_def obind_eq_Inr)
  have ok: "tables_ok (g_tables g)" "injections_ok cfg g" "inject_shape cfg g"
    using assms(1) by (simp_all add: globals_ok_def injections_ok_def)
  note prep = inject_prepare_ok [OF ok(1) p]
  have "inject_shape cfg (g\<lparr>g_tables := tables c, messages := warnings c\<rparr>)"
    using ok(3) by (simp add: inject_shape_def)
  then have "merged cfg (fopts c) (pdata c) tmp (set [0..<SUPPORTED_PERSONALITIES cfg])
      (g\<lparr>g_tables := tables c, messages := warnings c\<rparr>) g'"
    unfolding g' by (rule merge_all_merged) auto
  then have inj: "injections_ok cfg g'"
    by (rule merged_injections_ok [OF ok(2)])
      (use prep in \<open>auto simp: g' merge_all_keeps ctx_ok_def\<close>)
  then have "array_ok cfg (inject_set g')" by (simp add: injections_ok_def inject_shape_def)
  with inj prep assms(1) show ?thesis
    by (simp add: globals_ok_def syscall_sets_def g' merge_all_keeps ctx_ok_def)
       (simp add: single_sets_def)
qed

text \<open>Storing a qualified set in one of the fields keeps the invariant.\<close>

lemma qualified_single_wf:
  assumes "globals_ok cfg g" "sp \<in> set (single_sets g)"
    "qualify_tokens str (set_or_alloc sp) func name = Inr s"
  shows "number_set_wf s"
proof -
  have "number_set_wf (set_or_alloc sp)"
    using assms(1,2) by (intro set_or_alloc_wf) (auto simp: globals_ok_def list_all_iff)
  then show ?thesis using assms(3) by (rule qualify_tokens_wf)
qed

lemma globals_ok_store_single:
  assumes "globals_ok cfg g" "set (single_sets g') \<subseteq> insert (Some s) (set (single_sets g))"
    "number_set_wf s" "syscall_sets g' = syscall_sets g" "inject_vec g' = inject_vec g"
    "g_tables g' = g_tables g"
  shows "globals_ok cfg g'"
proof -
  have "injections_ok cfg g' = injections_ok cfg g"
    using assms(4-6)
    by (simp add: injections_ok_def inject_shape_def injected_def inject_entry_def syscall_sets_def)
  moreover have "list_all (\<lambda>sp. \<forall>s. sp = Some s \<longrightarrow> number_set_wf s) (single_sets g')"
    using assms(1-3) unfolding globals_ok_def list_all_iff by blast
  ultimately show ?thesis using assms by (simp add: globals_ok_def)
qed

text \<open>The list of sets after one of its members was replaced.\<close>

lemma single_sets_store:
  "set (single_sets (g\<lparr>read_set := sp\<rparr>)) \<subseteq> insert sp (set (single_sets g))"
  "set (single_sets (g\<lparr>write_set := sp\<rparr>)) \<subseteq> insert sp (set (single_sets g))"
  "set (single_sets (g\<lparr>signal_set := sp\<rparr>)) \<subseteq> insert sp (set (single_sets g))"
  "set (single_sets (g\<lparr>status_set := sp\<rparr>)) \<subseteq> insert sp (set (single_sets g))"
  "set (single_sets (g\<lparr>quiet_set := sp\<rparr>)) \<subseteq> insert sp (set (single_sets g))"
  "set (single_sets (g\<lparr>decode_fd_set := sp\<rparr>)) \<subseteq> insert sp (set (single_sets g))"
  "set (single_sets (g\<lparr>decode_pid_set := sp\<rparr>)) \<subseteq> insert sp (set (single_sets g))"
  "set (single_sets (g\<lparr>trace_fd_set := sp\<rparr>)) \<subseteq> insert sp (set (single_sets g))"
  "set (single_sets (g\<lparr>secontext_set := sp\<rparr>)) \<subseteq> insert sp (set (single_sets g))"
  by (auto simp: single_sets_def)

lemma single_sets_flags [simp]:
  "single_sets (g\<lparr>quiet_set_updated := b\<rparr>) = single_sets g"
  "single_sets (g\<lparr>decode_fd_set_updated := b\<rparr>) = single_sets g"
  "single_sets (g\<lparr>tracing_fds := b\<rparr>) = single_sets g"
  by (simp_all add: single_sets_def)

lemma single_sets_mem:
  "read_set g \<in> set (single_sets g)"
  "write_set g \<in> set (single_sets g)"
  "signal_set g \<in> set (single_sets g)"
  "status_set g \<in> set (single_sets g)"
  "quiet_set g \<in> set (single_sets g)"
  "decode_fd_set g \<in> set (single_sets g)"
  "decode_pid_set g \<in> set (single_sets g)"
  "trace_fd_set g \<in> set (single_sets g)"
  "secontext_set g \<in> set (single_sets g)"
  by (simp_all add: single_sets_def)

lemma set_qualifier_ok:
  assumes "globals_ok cfg g"
  shows "qualify_read str g = Inr g' \<Longrightarrow> globals_ok cfg g'"
    and "qualify_write str g = Inr g' \<Longrightarrow> globals_ok cfg g'"
    and "qualify_signals cfg str g = Inr g' \<Longrightarrow> globals_ok cfg g'"
    and "qualify_status str g = Inr g' \<Longrightarrow> globals_ok cfg g'"
    and "qualify_quiet str g = Inr g' \<Longrightarrow> globals_ok cfg g'"
    and "qualify_decode_fd str g = Inr g' \<Longrightarrow> globals_ok cfg g'"
    and "qualify_decode_pid str g = Inr g' \<Longrightarrow> globals_ok cfg g'"
    and "qualify_trace_fd str g = Inr g' \<Longrightarrow> globals_ok cfg g'"
    and "qualify_secontext cfg str g = Inr g' \<Longrightarrow> globals_ok cfg g'"
proof -
  show "qualify_read str g = Inr g' \<Longrightarrow> globals_ok cfg g'"
    unfolding qualify_read_def obind_eq_Inr
    by (elim exE conjE, clarsimp, rule globals_ok_store_single [OF assms _ qualified_single_wf [OF assms single_sets_mem(1)]])
      (simp_all add: syscall_sets_def single_sets_store)
  show "qualify_write str g = Inr g' \<Longrightarrow> globals_ok cfg g'"
    unfolding qualify_write_def obind_eq_Inr
    by (elim exE conjE, clarsimp, rule globals_ok_store_single [OF assms _ qualified_single_wf [OF assms single_sets_mem(2)]])
      (simp_all add: syscall_sets_def single_sets_store)
  show "qualify_signals cfg str g = Inr g' \<Longrightarrow> globals_ok cfg g'"
    unfolding qualify_signals_def obind_eq_Inr
    by (elim exE conjE, clarsimp, rule globals_ok_store_single [OF assms _ qualified_single_wf [OF assms single_sets_mem(3)]])
      (simp_all add: syscall_sets_def single_sets_store)
  show "qualify_status str g = Inr g' \<Longrightarrow> globals_ok cfg g'"
    unfolding qualify_status_def obind_eq_Inr
    by (elim exE conjE, clarsimp, rule globals_ok_store_single [OF assms _ qualified_single_wf [OF assms single_sets_mem(4)]])
      (simp_all add: syscall_sets_def single_sets_store)
  show "qualify_quiet str g = Inr g' \<Longrightarrow> globals_ok cfg g'"
    unfolding qualify_quiet_def obind_eq_Inr
    by (elim exE conjE, clarsimp, rule globals_ok_store_single [OF assms _ qualified_single_wf [OF assms single_sets_mem(5)]])
      (simp_all add: syscall_sets_def single_sets_store)
  show "qualify_decode_fd str g = Inr g' \<Longrightarrow> globals_ok cfg g'"
    unfolding qualify_decode_fd_def obind_eq_Inr
    by (elim exE conjE, clarsimp, rule globals_ok_store_single [OF assms _ qualified_single_wf [OF assms single_sets_mem(6)]])
      (simp_all add: syscall_sets_def single_sets_store)
  show "qualify_decode_pid str g = Inr g' \<Longrightarrow> globals_ok cfg g'"
    unfolding qualify_decode_pid_def obind_eq_Inr
    by (elim exE conjE, clarsimp, rule globals_ok_store_single [OF assms _ qualified_single_wf [OF assms single_sets_mem(7)]])
      (simp_all add: syscall_sets_def single_sets_store)
  show "qualify_trace_fd str g = Inr g' \<Longrightarrow> globals_ok cfg g'"
    unfolding qualify_trace_fd_def obind_eq_Inr
    by (elim exE conjE, clarsimp, rule globals_ok_store_single [OF assms _ qualified_single_wf [OF assms single_sets_mem(8)]])
      (simp_all add: syscall_sets_def single_sets_store)
  show "qualify_secontext cfg str g = Inr g' \<Longrightarrow> globals_ok cfg g'"
    unfolding qualify_secontext_def obind_eq_Inr
    by (auto split: if_splits simp: obind_eq_Inr, rule globals_ok_store_single [OF assms _ qualified_single_wf [OF assms single_sets_mem(9)]])
      (simp_all add: syscall_sets_def single_sets_store)
qed

lemma qualified_array_ok:
  assumes "globals_ok cfg g" "sp \<in> set (syscall_sets g)"
    "qualify_syscall_tokens cfg str (sets_or_alloc cfg sp) = Inr a"
  shows "array_ok cfg (Some a)"
proof -
  have "array_ok cfg sp" using assms(1,2) by (auto simp: globals_ok_def list_all_iff)
  then have "length (sets_or_alloc cfg sp) = SUPPORTED_PERSONALITIES cfg" "sets_wf (sets_or_alloc cfg sp)"
    using sets_or_alloc_ok by blast+
  from qualify_syscall_tokens_wf [OF this(2,1) assms(3)] show ?thesis by (simp add: array_ok_def)
qed

lemma globals_ok_store_array:
  assumes "globals_ok cfg g" "set (syscall_sets g') \<subseteq> insert (Some a) (set (syscall_sets g))"
    "array_ok cfg (Some a)" "single_sets g' = single_sets g" "inject_vec g' = inject_vec g"
    "g_tables g' = g_tables g" "inject_set g' = inject_set g"
  shows "globals_ok cfg g'"
proof -
  have "injections_ok cfg g' = injections_ok cfg g"
    using assms(5-7)
    by (simp add: injections_ok_def inject_shape_def injected_def inject_entry_def)
  moreover have "list_all (array_ok cfg) (syscall_sets g')"
    using assms(1-3) unfolding globals_ok_def list_all_iff by blast
  ultimately show ?thesis using assms by (simp add: globals_ok_def)
qed

lemma syscall_qualifier_ok:
  assumes "globals_ok cfg g"
  shows "qualify_trace cfg str g = Inr g' \<Longrightarrow> globals_ok cfg g'"
    and "qualify_abbrev cfg str g = Inr g' \<Longrightarrow> globals_ok cfg g'"
    and "qualify_verbose cfg str g = Inr g' \<Longrightarrow> globals_ok cfg g'"
    and "qualify_raw cfg str g = Inr g' \<Longrightarrow> globals_ok cfg g'"
proof -
  have mem: "trace_set g \<in> set (syscall_sets g)" "abbrev_set g \<in> set (syscall_sets g)"
    "verbose_set g \<in> set (syscall_sets g)" "raw_set g \<in> set (syscall_sets g)"
    by (simp_all add: syscall_sets_def)
  note store = globals_ok_store_array [OF assms _ qualified_array_ok [OF assms]]
  show "qualify_trace cfg str g = Inr g' \<Longrightarrow> globals_ok cfg g'"
    unfolding qualify_trace_def obind_eq_Inr
    by (elim exE conjE, clarsimp, rule store [OF _ mem(1)]) (auto simp: syscall_sets_def single_sets_def)
  show "qualify_abbrev cfg str g = Inr g' \<Longrightarrow> globals_ok cfg g'"
    unfolding qualify_abbrev_def obind_eq_Inr
    by (elim exE conjE, clarsimp, rule store [OF _ mem(2)]) (auto simp: syscall_sets_def single_sets_def)
  show "qualify_verbose cfg str g = Inr g' \<Longrightarrow> globals_ok cfg g'"
    unfolding qualify_verbose_def obind_eq_Inr
    by (elim exE conjE, clarsimp, rule store [OF _ mem(3)]) (auto simp: syscall_sets_def single_sets_def)
  show "qualify_raw cfg str g = Inr g' \<Longrightarrow> globals_ok cfg g'"
    unfolding qualify_raw_def obind_eq_Inr
    by (elim exE conjE, clarsimp, rule store [OF _ mem(4)]) (auto simp: syscall_sets_def single_sets_def)
qed

lemma qualify_kvm_ok:
  assumes "globals_ok cfg g" "qualify_kvm cfg str g = Inr g'"
  shows "globals_ok cfg g'"
proof -
  have "syscall_sets g' = syscall_sets g" "inject_vec g' = inject_vec g" "g_tables g' = g_tables g"
    "single_sets g' = single_sets g" "inject_set g' = inject_set g"
    using assms(2) by (auto simp: qualify_kvm_def syscall_sets_def single_sets_def split: if_splits)
  then show ?thesis
    using assms(1)
    by (simp add: globals_ok_def injections_ok_def inject_shape_def injected_def inject_entry_def)
qed

lemma qualify_loop_mem: "qualify_loop opts str = Some (v, f) \<Longrightarrow> f \<in> snd ` set opts"
  by (induction opts str rule: qualify_loop.induct) (auto split: option.splits list.splits if_splits)

lemma qualify_option_ok:
  assumes "globals_ok cfg g" "f \<in> snd ` set (qual_options cfg)" "f val g = Inr g'"
  shows "globals_ok cfg g'"
  using assms(2,3) unfolding qual_options_def
  by (auto dest: set_qualifier_ok [OF assms(1)] syscall_qualifier_ok [OF assms(1)]
      qualify_kvm_ok [OF assms(1)] simp: qualify_fault_def qualify_inject_def
      intro: qualify_inject_common_ok [OF assms(1)])

section \<open>Properties\<close>

text \<open>
  C3: Every \<open>-e\<close> option keeps the filter state consistent: all sets stay well-formed with one set
  per personality, every system call that is to be tampered with is inside its table and has
  injection options, and the options never refer to a return value, delay or memory payload
  that is not in its table, so the lookups at injection time cannot fail.
\<close>

theorem qualify_keeps_globals_ok:
  assumes "globals_ok cfg g" "qualify cfg str g = Inr g'"
  shows "globals_ok cfg g'"
proof (cases "qualify_loop (qual_options cfg) str")
  case None
  then show ?thesis
    using assms syscall_qualifier_ok(1) by (auto simp: qualify_def)
next
  case (Some r)
  obtain val f where r: "r = (val, f)" by fastforce
  from qualify_loop_mem [OF Some [unfolded r]] qualify_option_ok [OF assms(1)] show ?thesis
    using assms(2) Some r by (auto simp: qualify_def)
qed

text \<open>The state strace starts with.\<close>

definition initial_globals :: "'d config \<Rightarrow> globals" where
  "initial_globals cfg = \<lparr>
     read_set = None, write_set = None, signal_set = None, status_set = None, quiet_set = None,
     decode_fd_set = None, decode_pid_set = None, trace_fd_set = None, secontext_set = None,
     trace_set = None, abbrev_set = None, verbose_set = None, raw_set = None, inject_set = None,
     quiet_set_updated = False, decode_fd_set_updated = False, tracing_fds = False,
     kvm_decoder_initialized = False,
     inject_vec = replicate (SUPPORTED_PERSONALITIES cfg) None,
     g_tables = \<lparr>retvals = empty_arena, delays = empty_arena, pokes = empty_arena\<rparr>,
     messages = []\<rparr>"

lemma initial_globals_ok: "globals_ok cfg (initial_globals cfg)"
  by (auto simp: globals_ok_def single_sets_def syscall_sets_def array_ok_def tables_ok_def arena_wf_def
      empty_arena_def injections_ok_def inject_shape_def injected_def inject_entry_def initial_globals_def
      is_number_in_set_array_def)

lemma sample_fault: "\<exists>g'. qualify sample_config ''fault=getpid'' (initial_globals sample_config) = Inr g'"
proof -
  have o: "qualify_loop (qual_options sample_config) ''fault=getpid'' = Some (''getpid'', qualify_fault sample_config)"
    by (simp add: qual_options_def str_strip_prefix_len_def)
  have t: "tokens (CHR '':'') ''getpid'' = [''getpid'']"
    by (rule tokens_append_delim(2)) simp_all
  have n: "SUPPORTED_PERSONALITIES sample_config = 2"
    by (simp add: SUPPORTED_PERSONALITIES_def sample_config_def)
  obtain sets' where q: "qualify_syscall_tokens sample_config ''getpid'' (alloc_number_set_array 2) = Inr sets'"
    using sample_expression(2) by blast
  have "\<exists>r. retval_new (ENOSYS sample_config) empty_arena = Inr r"
    by (simp add: retval_new_def empty_arena_def Let_def expand_retval_vec_def expand_vec_def
        xgrowarray_def xreallocarray_eq ROUNDUP_DIV_def DEFAULT_ALLOC_SIZE_def)
  then obtain r where r: "retval_new (ENOSYS sample_config) empty_arena = Inr r" by blast
  have "\<exists>g'. qualify_fault sample_config ''getpid'' (initial_globals sample_config) = Inr g'"
    by (cases r) (simp add: qualify_fault_def qualify_inject_common_def inject_prepare_def n q Let_def
        parse_inject_expression_def t has_flag_def initial_opts_def zero_data_def new_retval_def r
        initial_globals_def)
  with o show ?thesis by (simp add: qualify_def)
qed

theorem qualify_keeps_globals_ok_witness:
  "\<exists>g'. qualify sample_config ''fault=getpid'' (initial_globals sample_config) = Inr g'
     \<and> globals_ok sample_config g'"
  using sample_fault qualify_keeps_globals_ok [OF initial_globals_ok, of sample_config "''fault=getpid''"]
  by blast

text \<open>
  C10: A later \<open>-e inject\<close> or \<open>-e fault\<close> option is merged into the earlier ones: once its
  expression is accepted, exactly the selected system calls join \<open>inject_set\<close>, each selected call
  gets the new options with the replacement system call of its personality, and a call that was
  already tampered with and is not selected keeps its options.
\<close>

theorem qualify_inject_merges:
  assumes "globals_ok cfg g" "inject_prepare cfg str fto d g = Inr (c, tmp)"
    and "q < SUPPORTED_PERSONALITIES cfg" "i < nsyscall_vec cfg q"
  shows "\<exists>g'. qualify_inject_common cfg str fto d g = Inr g'
     \<and> (injected g' q i \<longleftrightarrow> injected g q i \<or> is_number_in_set_array i (Some tmp) q)
     \<and> (is_number_in_set_array i (Some tmp) q \<longrightarrow>
          inject_entry g' q i = Some (with_scno (fopts c) (pdata c ! q)))
     \<and> (injected g q i \<and> \<not> is_number_in_set_array i (Some tmp) q \<longrightarrow>
          inject_entry g' q i = inject_entry g q i)"
proof -
  let ?g = "g\<lparr>g_tables := tables c, messages := warnings c\<rparr>"
  let ?g' = "fold (merge_pers cfg (fopts c) (pdata c) tmp) [0..<SUPPORTED_PERSONALITIES cfg] ?g"
  have q: "qualify_inject_common cfg str fto d g = Inr ?g'"
    using assms(2) by (simp add: qualify_inject_common_def)
  have "inject_shape cfg ?g"
    using assms(1) by (simp add: globals_ok_def injections_ok_def inject_shape_def)
  then have "merged cfg (fopts c) (pdata c) tmp (set [0..<SUPPORTED_PERSONALITIES cfg]) ?g ?g'"
    by (rule merge_all_merged) auto
  then have "let hit = (q \<in> set [0..<SUPPORTED_PERSONALITIES cfg] \<and> i < nsyscall_vec cfg q
        \<and> is_number_in_set_array i (Some tmp) q)
    in (injected ?g' q i \<longleftrightarrow> injected ?g q i \<or> hit)
       \<and> (i < nsyscall_vec cfg q \<longrightarrow>
            inject_entry ?g' q i = (if hit then Some (with_scno (fopts c) (pdata c ! q)) else inject_entry ?g q i)
            \<or> \<not> hit \<and> inject_entry ?g q i = None \<and> inject_entry ?g' q i = Some zero_opts)"
    using assms(3) unfolding merged_def by blast
  moreover have "injected ?g q i = injected g q i" "inject_entry ?g q i = inject_entry g q i"
    by (auto simp: injected_def inject_entry_def)
  moreover have "injected g q i \<Longrightarrow> inject_entry g q i \<noteq> None"
    using assms(1,3) by (auto simp: globals_ok_def injections_ok_def)
  ultimately have "(injected ?g' q i \<longleftrightarrow> injected g q i \<or> is_number_in_set_array i (Some tmp) q)
     \<and> (is_number_in_set_array i (Some tmp) q \<longrightarrow>
          inject_entry ?g' q i = Some (with_scno (fopts c) (pdata c ! q)))
     \<and> (injected g q i \<and> \<not> is_number_in_set_array i (Some tmp) q \<longrightarrow>
          inject_entry ?g' q i = inject_entry g q i)"
    using assms(3,4) by (simp add: Let_def del: is_number_in_set_array_Some split: if_splits) auto
  with q show ?thesis by blast
qed

theorem qualify_inject_merges_witness:
  "\<exists>c tmp g'. inject_prepare sample_config ''getpid'' True ''fault argument'' (initial_globals sample_config)
        = Inr (c, tmp)
     \<and> qualify_inject_common sample_config ''getpid'' True ''fault argument'' (initial_globals sample_config)
        = Inr g'
     \<and> (injected g' 0 3 \<longleftrightarrow> injected (initial_globals sample_config) 0 3
           \<or> is_number_in_set_array 3 (Some tmp) 0)"
proof -
  have "qualify_loop (qual_options sample_config) ''fault=getpid'' = Some (''getpid'', qualify_fault sample_config)"
    by (simp add: qual_options_def str_strip_prefix_len_def)
  then obtain g1 where "qualify_inject_common sample_config ''getpid'' True ''fault argument''
      (initial_globals sample_config) = Inr g1"
    using sample_fault by (auto simp: qualify_def qualify_fault_def)
  then obtain c tmp where p: "inject_prepare sample_config ''getpid'' True ''fault argument''
      (initial_globals sample_config) = Inr (c, tmp)"
    by (auto simp: qualify_inject_common_def obind_eq_Inr)
  have "0 < SUPPORTED_PERSONALITIES sample_config" "3 < nsyscall_vec sample_config 0"
    by (simp_all add: SUPPORTED_PERSONALITIES_def nsyscall_vec_def sample_config_def)
  from qualify_inject_merges [OF initial_globals_ok p this] p show ?thesis by blast
qed

lemma u16_of_int: "1 \<le> n \<Longrightarrow> n \<le> 0xffff \<Longrightarrow> uint (of_nat n :: u16) = int n"
  by (simp add: uint_nat unat_of_nat)

lemma u16_not_inf: "n < 0xffff \<Longrightarrow> (of_nat n :: u16) \<noteq> 65535"
  using of_nat_word_inj [where 'a = 16, of n 65535] by simp

lemma isdigit_plus_dot: "\<not> isdigit (CHR ''+'')" "\<not> isdigit (CHR ''.'')"
  by (simp_all add: isdigit_def)

text \<open>The numbers of a \<open>when=\<close> argument as the parser reads them.\<close>

lemma string_to_uint_ex_when:
  assumes "n \<le> 0xffff"
  shows "string_to_uint_ex (dec n) 0xffff acc = (int n, Some [])"
    and "CHR ''+'' \<in> set acc' \<Longrightarrow> string_to_uint_ex (dec n @ CHR ''+'' # r) 0xffff (Some acc') = (int n, Some (CHR ''+'' # r))"
    and "string_to_uint_ex (dec n @ CHR ''.'' # r) 0xffff (Some ''+.'') = (int n, Some (CHR ''.'' # r))"
  using string_to_uint_ex_dec [where n = n and max_val = "0xffff" and rest = "[]" and accepted = acc]
    string_to_uint_ex_dec [where n = n and max_val = "0xffff" and rest = "CHR ''+'' # r" and accepted = "Some acc'"]
    string_to_uint_ex_dec [where n = n and max_val = "0xffff" and rest = "CHR ''.'' # r" and accepted = "Some ''+.''"]
    assms
  by (simp_all add: LLONG_MAX_def isdigit_plus_dot)

lemma string_to_uint_upto_when: "n \<le> 0xffff \<Longrightarrow> string_to_uint_upto (dec n) 0xffff = int n"
  by (simp add: string_to_uint_upto_def string_to_uint_ex_when)

text \<open>
  The argument of \<open>when=\<close> is read as the comment in the code documents it: \<open>F\<close> selects the
  invocation \<open>F\<close> only (step 0), \<open>F+\<close> all from \<open>F\<close> on, \<open>F+S\<close> every \<open>S\<close>-th from \<open>F\<close> on,
  \<open>F..L\<close> and \<open>F..L+\<close> all from \<open>F\<close> to \<open>L\<close>, and \<open>F..L+S\<close> every \<open>S\<close>-th of these.
\<close>

lemma parse_when_forms:
  assumes "1 \<le> F" "F \<le> 0xffff" "F \<le> L" "L < 0xffff" "1 \<le> S" "S \<le> 0xffff"
  shows "parse_when (dec F) = Some (of_nat F, INJECT_LAST_INF, 0)
    \<and> parse_when (dec F @ ''+'') = Some (of_nat F, INJECT_LAST_INF, 1)
    \<and> parse_when (dec F @ ''+'' @ dec S) = Some (of_nat F, INJECT_LAST_INF, of_nat S)
    \<and> parse_when (dec F @ ''..'' @ dec L) = Some (of_nat F, of_nat L, 1)
    \<and> parse_when (dec F @ ''..'' @ dec L @ ''+'') = Some (of_nat F, of_nat L, 1)
    \<and> parse_when (dec F @ ''..'' @ dec L @ ''+'' @ dec S) = Some (of_nat F, of_nat L, of_nat S)"
  using assms
  by (simp add: parse_when_def string_to_uint_ex_when string_to_uint_upto_when Let_def u16_of_int
      u16_not_inf INJECT_LAST_INF_def)

lemma parse_when_forms_witness:
  "parse_when (dec 2 @ ''..'' @ dec 9 @ ''+'' @ dec 3) = Some (2, 9, 3)"
  using parse_when_forms [of 2 9 3] by simp

lemma string_to_uint_ex_le: "1 \<le> fst (string_to_uint_ex str m acc) \<Longrightarrow> fst (string_to_uint_ex str m acc) \<le> m"
  by (auto simp: string_to_uint_ex_def split: if_splits prod.splits)

lemma u16_le_iff:
  "1 \<le> v \<Longrightarrow> v \<le> 0xffff \<Longrightarrow> uint (of_int v :: u16) = v"
  by (simp add: word_uint_eq_iff uint_word_of_int)

lemma step_nonzero:
  assumes "\<not> string_to_uint_upto str 0xffff < 1"
  shows "(of_int (string_to_uint_upto str 0xffff) :: u16) \<noteq> 0"
proof -
  have "uint (of_int (string_to_uint_upto str 0xffff) :: u16) = string_to_uint_upto str 0xffff"
    using assms string_to_uint_ex_le [of str "0xffff" None]
    by (intro u16_le_iff) (simp_all add: string_to_uint_upto_def)
  with assms show ?thesis by auto
qed

text \<open>
  Whatever \<open>when=\<close> argument is accepted, the first invocation is at least 1 and not after
  the last one, and the step is 0 only for a single invocation (an unbounded last one).
\<close>

lemma parse_when_bounds:
  assumes "parse_when val = Some (first, l, s)"
  shows "1 \<le> first \<and> first \<le> l \<and> (s = 0 \<longrightarrow> l = INJECT_LAST_INF)"
proof -
  let ?f = "fst (string_to_uint_ex val 0xffff (Some ''+.''))"
  let ?e = "the (snd (string_to_uint_ex val 0xffff (Some ''+.'')))"
  let ?l = "fst (string_to_uint_ex (drop 2 ?e) 0xffff (Some ''+''))"
  from assms have f1: "1 \<le> ?f" and first: "first = of_int ?f"
    by (auto simp: parse_when_def Let_def split: prod.splits if_splits option.splits)
  have f: "uint first = ?f"
    using f1 string_to_uint_ex_le [OF f1] unfolding first by (rule u16_le_iff)
  have st: "s = 0 \<Longrightarrow> l = INJECT_LAST_INF"
    using assms
    by (auto simp: parse_when_def Let_def step_nonzero split: prod.splits if_splits option.splits)
  have "uint first \<le> uint l"
  proof (cases "l = INJECT_LAST_INF")
    case True
    then show ?thesis using f1 f string_to_uint_ex_le [OF f1] by (simp add: INJECT_LAST_INF_def)
  next
    case False
    with assms f f1 have l: "?f \<le> ?l" "l = of_int ?l"
      by (auto simp: parse_when_def Let_def u16_le_iff split: prod.splits if_splits option.splits)
    then have "1 \<le> ?l" using f1 by simp
    then have "uint l = ?l" using string_to_uint_ex_le unfolding l(2) by (intro u16_le_iff) auto
    with l f show ?thesis by simp
  qed
  with st f f1 show ?thesis by (simp add: word_le_def)
qed

lemma parse_when_bounds_witness:
  "parse_when (dec 5) = Some (5, INJECT_LAST_INF, 0) \<and> (1 :: u16) \<le> 5 \<and> 5 \<le> INJECT_LAST_INF"
proof -
  have "parse_when (dec 5) = Some (5, INJECT_LAST_INF, 0)"
    by (simp add: parse_when_def string_to_uint_ex_when Let_def)
  with parse_when_bounds [OF this] show ?thesis by simp
qed

text \<open>
  What \<open>is_complete_set\<close> does with an inverted set: after \<open>-e status=!\<close> followed by all
  five statuses, no status is a member of \<open>status_set\<close> and yet the set counts as complete,
  so that every system call is published.
\<close>

lemma status_none_is_complete:
  "\<exists>g' s. qualify_status ''!successful,failed,unfinished,unavailable,detached'' (initial_globals cfg) = Inr g'
     \<and> status_set g' = Some s \<and> is_complete_set (Some s) 5
     \<and> {n. n < 5 \<and> is_number_in_set n (Some s)} = {}"
proof -
  let ?e = "hd (alloc_number_set_array 1)"
  let ?c = "(invert_number_set ^^ 1) (clear_number_set ?e)"
  let ?ts = "[''successful'', ''failed'', ''unfinished'', ''unavailable'', ''detached'']"
  define s where "s = fold add_number_to_set [0, 1, 2, 3, 4] ?c"
  have "tokens (CHR '','') (join (CHR '','') ?ts) = ?ts"
    by (rule tokens_join) simp
  then have t: "tokens (CHR '','') ''successful,failed,unfinished,unavailable,detached'' = ?ts"
    by simp
  have v: "map statusstr_to_uint ?ts = [0, 1, 2, 3, 4]"
    by (simp add: statusstr_to_uint_def arg_val_int_def find_arg_val_def strcaseeq_def tolower_def)
  have q: "qualify_tokens ''!successful,failed,unfinished,unavailable,detached'' ?e statusstr_to_uint ''status''
      = Inr s"
    using v by (simp add: qualify_tokens_def t s_def)
  have wf: "number_set_wf ?e" by (rule alloc_one_wf)
  have mem: "is_number_in_set n (Some s) \<longleftrightarrow> n \<notin> {0, 1, 2, 3, 4}" for n
    using ns.mem_qualified [OF wf, of n "[0, 1, 2, 3, 4]" 1] by (simp add: s_def)
  have swf: "number_set_wf s" using ns.wf_qualified [OF wf] by (simp only: s_def)
  have "not s" by (simp add: s_def)
  with mem have "slots_set (vec s) = {0, 1, 2, 3, 4}"
    by (auto simp: is_number_in_set_Some [OF swf])
  then have "is_complete_set (Some s) 5"
    by (simp add: is_complete_set_def get_number_setbit_eq [OF swf])
  moreover have "{n. n < 5 \<and> is_number_in_set n (Some s)} = {}"
    unfolding mem by (auto simp: less_Suc_eq numeral_eq_Suc)
  moreover have "qualify_status ''!successful,failed,unfinished,unavailable,detached'' (initial_globals cfg)
      = Inr ((initial_globals cfg)\<lparr>status_set := Some s\<rparr>)"
    using q by (simp add: qualify_status_def set_or_alloc_def initial_globals_def)
  ultimately show ?thesis by (intro exI [of _ "(initial_globals cfg)\<lparr>status_set := Some s\<rparr>"]) simp
qed

lemmas qual_flag_defs = QUAL_TRACE_def QUAL_ABBREV_def QUAL_VERBOSE_def QUAL_RAW_def QUAL_INJECT_def

text \<open>
  The flag word of a system call has exactly the bits of the sets it is in: it is traced,
  abbreviated, decoded, printed raw and tampered with exactly when it is a member of the
  corresponding set of the current personality.
\<close>

lemma qual_flags_bits:
  "(qual_flags g p scno AND QUAL_TRACE \<noteq> 0 \<longleftrightarrow> is_number_in_set_array scno (trace_set g) p)
   \<and> (qual_flags g p scno AND QUAL_ABBREV \<noteq> 0 \<longleftrightarrow> is_number_in_set_array scno (abbrev_set g) p)
   \<and> (qual_flags g p scno AND QUAL_VERBOSE \<noteq> 0 \<longleftrightarrow> is_number_in_set_array scno (verbose_set g) p)
   \<and> (qual_flags g p scno AND QUAL_RAW \<noteq> 0 \<longleftrightarrow> is_number_in_set_array scno (raw_set g) p)
   \<and> (qual_flags g p scno AND QUAL_INJECT \<noteq> 0 \<longleftrightarrow> is_number_in_set_array scno (inject_set g) p)"
  by (simp add: qual_flags_def qual_flag_defs)

end
