(* ===== verification/Seccomp_Filter.thy ===== *)
theory Seccomp_Filter
  imports Seccomp_Gen Qualify
begin

text \<open>
  \<^verbatim>\<open>filter_seccomp.c\<close>: strace installs a seccomp filter so that only the interesting system
  calls stop the tracee.  The theory models the two generators of BPF programs, the choice
  between them and the check of the kernel's stop order, and proves that a generated program
  answers \<open>SECCOMP_RET_TRACE\<close> for exactly the system calls strace wants to see.
\<close>

section \<open>Which system calls are traced\<close>

definition always_trace_flags :: "globals \<Rightarrow> bool \<Rightarrow> u32" where
  "always_trace_flags g stack_trace_enabled =
     TRACE_INDIRECT_SUBCALL OR TRACE_SECCOMP_DEFAULT
     OR (if stack_trace_enabled then MEMORY_MAPPING_CHANGE else 0)
     OR (if is_number_in_set DECODE_PID_COMM (decode_pid_set g) then COMM_CHANGE else 0)"

definition traced_by_seccomp :: "'d config \<Rightarrow> globals \<Rightarrow> bool \<Rightarrow> nat \<Rightarrow> nat \<Rightarrow> bool" where
  "traced_by_seccomp cfg g stack_trace_enabled scno p \<longleftrightarrow>
     sys_flags (sysent_vec cfg ! p ! scno) AND always_trace_flags g stack_trace_enabled \<noteq> 0
     \<or> is_number_in_set_array scno (trace_set g) p"

section \<open>The choice of the program\<close>

text \<open>
  \<open>bpf_prog\<close> is \<open>None\<close> while its length is \<open>USHRT_MAX\<close>; a generator's program replaces it
  when it is shorter and did not overflow.
\<close>

definition choose_prog :: "sock_filter list option \<Rightarrow> sock_filter list \<times> bool \<Rightarrow> sock_filter list option" where
  "choose_prog best r =
     (case r of (prog, overflow) \<Rightarrow>
        if length prog < (case best of None \<Rightarrow> 65535 | Some b \<Rightarrow> length b) \<and> \<not> overflow
        then Some prog else best)"

definition filter_generators :: "('d config \<Rightarrow> (nat \<Rightarrow> nat \<Rightarrow> bool) \<Rightarrow> sock_filter list \<times> bool) list" where
  "filter_generators = [linear_filter_generator, binary_match_filter_generator]"

definition select_prog :: "'d config \<Rightarrow> (nat \<Rightarrow> nat \<Rightarrow> bool) \<Rightarrow> sock_filter list option" where
  "select_prog cfg traced = fold (\<lambda>gen best. choose_prog best (gen cfg traced)) filter_generators None"

section \<open>The order of the kernel's stops\<close>

text \<open>
  What \<open>waitpid\<close> reports of the child that \<open>check_seccomp_order\<close> forked: an interrupted call,
  another failure, an exit status, a fatal signal, a stop, or anything else.  A stop is the one
  by \<open>SIGSTOP\<close>, a trap with its event number, a system call stop (\<open>SIGTRAP | 0x80\<close>), or
  one by another signal.
\<close>

datatype stop = Stop_SIGSTOP | Stop_SIGTRAP nat | Stop_syscall | Stop_signal nat

datatype wait_event = Wait_eintr | Wait_failed | W_exited nat | W_signaled nat | W_stopped stop | W_other

definition PTRACE_EVENT_SECCOMP :: nat where "PTRACE_EVENT_SECCOMP = 7"

record seccomp_state =
  seccomp_filtering :: bool
  seccomp_before_sysentry :: bool
  bpf_prog :: "sock_filter list option"

text \<open>The results of the \<open>ptrace\<close> calls of the tracer, the second one by step.\<close>

record tracer_env =
  setoptions_ok :: bool
  resume_ok :: "nat \<Rightarrow> bool"

text \<open>
  The tracer returns whether the tracee is still there (a non-zero \<open>pid\<close>), or still waits.
\<close>

datatype tracer_result = Waiting seccomp_state | Returned bool seccomp_state

text \<open>
  The \<open>switch\<close> on the stop signal: \<open>None\<close> where the code returns \<open>pid\<close>.
\<close>

definition order_stop :: "tracer_env \<Rightarrow> nat \<Rightarrow> stop \<Rightarrow> seccomp_state \<Rightarrow> seccomp_state option" where
  "order_stop env step s st =
     (case s of
        Stop_SIGSTOP \<Rightarrow> if step \<noteq> 0 then None else if \<not> setoptions_ok env then None else Some st
      | Stop_SIGTRAP event \<Rightarrow>
          if event \<noteq> PTRACE_EVENT_SECCOMP then None
          else if step = 1 then Some (st\<lparr>seccomp_before_sysentry := True\<rparr>)
          else if step = 2 \<and> \<not> seccomp_before_sysentry st then Some st
          else None
      | Stop_syscall \<Rightarrow>
          if step = 3 \<or> step = 4 then Some st
          else if step = 1 then Some (st\<lparr>seccomp_before_sysentry := False\<rparr>)
          else if step = 2 \<and> seccomp_before_sysentry st then Some st
          else None
      | Stop_signal _ \<Rightarrow> None)"

fun check_seccomp_order_tracer :: "tracer_env \<Rightarrow> nat \<Rightarrow> wait_event list \<Rightarrow> seccomp_state \<Rightarrow> tracer_result" where
  "check_seccomp_order_tracer env step [] st = Waiting st"
| "check_seccomp_order_tracer env step (e # es) st =
     (case e of
        Wait_eintr \<Rightarrow> check_seccomp_order_tracer env step es st
      | Wait_failed \<Rightarrow> Returned True st
      | W_exited status \<Rightarrow>
          Returned False (if step = 5 \<and> status = 0 then st\<lparr>seccomp_filtering := True\<rparr> else st)
      | W_signaled _ \<Rightarrow> Returned False st
      | W_other \<Rightarrow> Returned True st
      | W_stopped s \<Rightarrow>
          (case order_stop env step s st of
             None \<Rightarrow> Returned True st
           | Some st \<Rightarrow> if \<not> resume_ok env step then Returned True st
                        else check_seccomp_order_tracer env (Suc step) es st))"

text \<open>
  The state after the check, with the events the child will cause; \<open>None\<close> while it waits.  A
  tracee that is left is killed and reaped.  \<open>fork_ok\<close> is the success of \<open>fork\<close>.
\<close>

definition check_seccomp_order ::
  "bool \<Rightarrow> tracer_env \<Rightarrow> wait_event list \<Rightarrow> seccomp_state \<Rightarrow> seccomp_state option" where
  "check_seccomp_order fork_ok env events st =
     (let st = st\<lparr>seccomp_filtering := False\<rparr>
      in if \<not> fork_ok then Some st
         else case check_seccomp_order_tracer env 0 events st of
                Waiting _ \<Rightarrow> None
              | Returned _ st \<Rightarrow> Some st)"

section \<open>The decision to use the filter\<close>

text \<open>
  \<open>probe_ok\<close>: the probing \<open>prctl\<close> failed with another error than \<open>EINVAL\<close>.
\<close>

definition check_seccomp_filter_properties ::
  "'d config \<Rightarrow> globals \<Rightarrow> bool \<Rightarrow> bool \<Rightarrow> bool \<Rightarrow> tracer_env \<Rightarrow> wait_event list \<Rightarrow> seccomp_state
     \<Rightarrow> seccomp_state option" where
  "check_seccomp_filter_properties cfg g stack_trace probe_ok fork_ok env events st =
     (let st = st\<lparr>seccomp_filtering := probe_ok\<rparr>
      in if \<not> probe_ok then Some st
         else let prog = select_prog cfg (traced_by_seccomp cfg g stack_trace);
                  st = st\<lparr>bpf_prog := prog\<rparr>
              in case prog of
                   None \<Rightarrow> Some (st\<lparr>seccomp_filtering := False\<rparr>)
                 | Some f \<Rightarrow>
                     if length f > BPF_MAXINSNS then Some (st\<lparr>seccomp_filtering := False\<rparr>)
                     else check_seccomp_order fork_ok env events st)"

definition check_seccomp_filter ::
  "'d config \<Rightarrow> globals \<Rightarrow> bool \<Rightarrow> bool \<Rightarrow> bool \<Rightarrow> tracer_env \<Rightarrow> wait_event list \<Rightarrow> seccomp_state
     \<Rightarrow> seccomp_state option" where
  "check_seccomp_filter cfg g stack_trace probe_ok fork_ok env events st =
     (let complete = (case trace_set g of None \<Rightarrow> False
                      | Some a \<Rightarrow> is_complete_set_array a
                          (map (of_nat \<circ> nsyscall_vec cfg) [0..<SUPPORTED_PERSONALITIES cfg])
                          (SUPPORTED_PERSONALITIES cfg));
          st = st\<lparr>seccomp_filtering := \<not> complete\<rparr>
      in if complete then Some st
         else check_seccomp_filter_properties cfg g stack_trace probe_ok fork_ok env events st)"

datatype prctl_result = Prctl_ok | Prctl_EACCES | Prctl_error

text \<open>The results of installing the filter, of \<open>PR_SET_NO_NEW_PRIVS\<close>, and of the second try.\<close>

definition init_seccomp_filter :: "prctl_result \<Rightarrow> bool \<Rightarrow> prctl_result \<Rightarrow> unit outcome" where
  "init_seccomp_filter install no_new_privs_ok install_again =
     (let fail = Inl (Error_msg_and_die ''prctl(PR_SET_SECCOMP, SECCOMP_MODE_FILTER)'')
      in case install of
           Prctl_ok \<Rightarrow> Inr ()
         | Prctl_EACCES \<Rightarrow>
             if \<not> no_new_privs_ok then Inl (Error_msg_and_die ''prctl(PR_SET_NO_NEW_PRIVS)'')
             else if install_again = Prctl_ok then Inr () else fail
         | Prctl_error \<Rightarrow> fail)"

datatype ptrace_op = PTRACE_SYSCALL | PTRACE_CONT

definition seccomp_filter_restart_operator ::
  "'d config \<Rightarrow> globals \<Rightarrow> bool \<Rightarrow> nat \<Rightarrow> bool \<Rightarrow> nat \<Rightarrow> ptrace_op" where
  "seccomp_filter_restart_operator cfg g stack_trace current_personality is_exiting scno =
     (if is_exiting \<and> scno < nsyscall_vec cfg current_personality
         \<and> traced_by_seccomp cfg g stack_trace scno current_personality
      then PTRACE_SYSCALL else PTRACE_CONT)"

section \<open>Properties\<close>

text \<open>The personality a system call is taken for.\<close>

lemma decide_fits:
  assumes "p < n" "SUPPORTED_PERSONALITIES cfg > 1 \<Longrightarrow> fits cfg d p"
    and "\<And>q. p < q \<Longrightarrow> q < n \<Longrightarrow> SUPPORTED_PERSONALITIES cfg > 1 \<and> \<not> fits cfg d q"
  shows "decide cfg d sec n = sec p"
  using assms(1,3)
proof (induction n)
  case (Suc n)
  show ?case
  proof (cases "p = n")
    case True
    with assms(2) show ?thesis by auto
  next
    case False
    with Suc.prems have "p < n" by simp
    moreover from this have "SUPPORTED_PERSONALITIES cfg > 1 \<and> \<not> fits cfg d n" using Suc.prems(2) by blast
    ultimately show ?thesis using Suc by simp
  qed
qed simp

lemma choose_prog_cases:
  "choose_prog best r = Some prog \<Longrightarrow> best = Some prog \<or> r = (prog, False)"
  by (auto simp: choose_prog_def split: prod.splits if_splits)

lemma select_prog_cases:
  "select_prog cfg traced = Some prog \<Longrightarrow>
     linear_filter_generator cfg traced = (prog, False) \<or> binary_match_filter_generator cfg traced = (prog, False)"
  by (auto simp: select_prog_def filter_generators_def dest!: choose_prog_cases)

text \<open>Both decisions on a system call of the table.\<close>

lemma decisions_known:
  assumes "flags_ok cfg" "p < SUPPORTED_PERSONALITIES cfg" "i < nsyscall_vec cfg p"
  shows "linear_decision cfg traced p (nr_word cfg p i) =
      (if traced i p then SECCOMP_RET_TRACE else SECCOMP_RET_ALLOW)"
    and "binary_decision cfg traced p (nr_word cfg p i) =
      (if traced i p then SECCOMP_RET_TRACE else SECCOMP_RET_ALLOW)"
proof -
  note mono = nr_word_mono [OF assms(1,2) order_refl]
  have inj: "nr_word cfg p i = nr_word cfg p j \<Longrightarrow> i = j" if "j < nsyscall_vec cfg p" for j
    using mono(2) [OF less_imp_le [OF assms(3)]] mono(2) [OF less_imp_le [OF that]]
    by (metis add_left_cancel)
  have "\<not> nr_word cfg p (nsyscall_vec cfg p) \<le> nr_word cfg p i"
    using mono(1) [OF assms(3)] by simp
  then show "linear_decision cfg traced p (nr_word cfg p i) =
      (if traced i p then SECCOMP_RET_TRACE else SECCOMP_RET_ALLOW)"
    using inj assms(3) by (auto simp: linear_decision_def)
  have fa: "flag_above (nsyscall_vec cfg p) (flag (audit_arch_vec cfg ! p))"
    using assms(1,2) by (simp add: flags_ok_def)
  have "of_nat i AND flag (audit_arch_vec cfg ! p) = 0"
    using assms(3) by (intro flag_above_add(1) [OF fa]) simp
  then have "nr_word cfg p i AND NOT (flag (audit_arch_vec cfg ! p)) = of_nat i"
    unfolding nr_word_def by (rule or_and_not)
  moreover have "i < 2 ^ 32"
  proof -
    obtain c where "c \<le> 31" "nsyscall_vec cfg p < 2 ^ c" using fa by (auto simp: flag_above_def)
    moreover from this have "(2 :: nat) ^ c \<le> 2 ^ 31" by (intro power_increasing) simp_all
    ultimately show ?thesis using assms(3) by simp
  qed
  ultimately show "binary_decision cfg traced p (nr_word cfg p i) =
      (if traced i p then SECCOMP_RET_TRACE else SECCOMP_RET_ALLOW)"
    using assms(3) by (simp add: binary_decision_def unat_of_nat)
qed

text \<open>
  C2: The seccomp program strace installs is right for every known system call: on any machine
  that obeys the laws of classic BPF, whichever generator's program was chosen, a call \<open>i\<close> of
  personality \<open>p\<close> returns \<open>SECCOMP_RET_TRACE\<close> when strace traces it and \<open>SECCOMP_RET_ALLOW\<close>
  when it does not, provided no later personality has the same architecture and a flag that
  fits.
\<close>

theorem select_prog_correct:
  assumes "cbpf exec" "flags_ok cfg" "SUPPORTED_PERSONALITIES cfg \<le> 16"
    and "select_prog cfg traced = Some prog"
    and "p < SUPPORTED_PERSONALITIES cfg" "i < nsyscall_vec cfg p"
    and "sd_arch d = arch (audit_arch_vec cfg ! p)" "sd_nr d = nr_word cfg p i"
    and "\<And>q. p < q \<Longrightarrow> q < SUPPORTED_PERSONALITIES cfg \<Longrightarrow> \<not> fits cfg d q"
  shows "exec prog d 0 a x = (if traced i p then SECCOMP_RET_TRACE else SECCOMP_RET_ALLOW)"
proof -
  have n: "0 < SUPPORTED_PERSONALITIES cfg" using assms(5) by simp
  have f: "fits cfg d p"
    using nr_word_mono(3) [OF assms(2,5) order_refl] assms(6-8) by (auto simp: fits_def)
  have dec: "decide cfg d sec (SUPPORTED_PERSONALITIES cfg) = sec p" for sec
    using assms(5,9) f by (intro decide_fits) auto
  from select_prog_cases [OF assms(4)] show ?thesis
  proof
    assume "linear_filter_generator cfg traced = (prog, False)"
    from cbpf.linear_filter_exec [OF assms(1,2) n this] show ?thesis
      by (simp add: dec assms(8) decisions_known(1) [OF assms(2,5,6)])
  next
    assume "binary_match_filter_generator cfg traced = (prog, False)"
    from cbpf.binary_filter_exec [OF assms(1,2) n assms(3) this] show ?thesis
      by (simp add: dec assms(8) decisions_known(2) [OF assms(2,5,6)])
  qed
qed

text \<open>The sample build with \<open>read\<close> traced: both programs fit in one byte offsets.\<close>

abbreviation sample_traced :: "nat \<Rightarrow> nat \<Rightarrow> bool" where
  "sample_traced \<equiv> \<lambda>i p. i = 0"

lemma sample_sizes:
  "SUPPORTED_PERSONALITIES sample_config = 2" "nsyscall_vec sample_config 0 = 4"
  "nsyscall_vec sample_config (Suc 0) = 2"
  by (simp_all add: SUPPORTED_PERSONALITIES_def nsyscall_vec_def sample_config_def)

lemma sample_linear: "\<exists>prog. linear_filter_generator sample_config sample_traced = (prog, False) \<and> length prog < 65535"
proof -
  have len: "length (linear_section sample_config sample_traced p) \<le> 20" if "p = 0 \<or> p = 1" for p
    using that
    by (auto simp: linear_section_def sample_sizes arch_check_def flag_check_def bpf_syscalls_cmp_def
        eval_nat_numeral simp del: of_nat_Suc)
  from len [of 0] len [of 1] show ?thesis
    by (simp add: linear_filter_generator_def sample_sizes numeral_2_eq_2 Let_def)
qed

lemma sample_binary: "\<exists>prog. binary_match_filter_generator sample_config sample_traced = (prog, False)"
proof -
  have m: "length (bpf_syscalls_match b n) \<le> 3" for b n by (simp add: bpf_syscalls_match_def)
  have short: "i + left < 32 \<Longrightarrow> length (match_loop t i left b pos) \<le> 3" for t i left b pos
    by (induction left arbitrary: i b) (use m in \<open>simp_all add: Let_def\<close>)
  have l: "length (match_loop (\<lambda>i. i = 0) 0 4 0 pos) \<le> 3" "length (match_loop (\<lambda>i. i = 0) 0 2 0 pos) \<le> 3" for pos
    by (simp_all add: short)
  have len: "length (binary_section sample_config sample_traced p pos) \<le> 30" if "p = 0 \<or> p = 1" for p pos
    using that l [of "pos + length (binary_header sample_config 0)"] l [of "pos + length (binary_header sample_config 1)"]
    by (auto simp: binary_section_def Let_def sample_sizes)
       (auto simp: binary_header_def Let_def arch_check_def flag_check_def)
  from len [of 1 1] len [of 0] show ?thesis
    by (simp add: binary_match_filter_generator_def sample_sizes numeral_2_eq_2 Let_def BPF_MAXINSNS_def
        not_less order_trans [of _ 30])
qed

lemma sample_prog: "\<exists>prog. select_prog sample_config sample_traced = Some prog"
  using sample_linear
  by (auto simp: select_prog_def filter_generators_def choose_prog_def split: prod.splits)

lemma sample_flags: "flags_ok sample_config" "SUPPORTED_PERSONALITIES sample_config = 2"
  by (auto simp: flags_ok_def flag_above_def SUPPORTED_PERSONALITIES_def nsyscall_vec_def sample_config_def
      nth_Cons' intro!: exI [of _ 31])

theorem select_prog_correct_witness:
  "\<exists>prog. select_prog sample_config (\<lambda>i p. i = 0) = Some prog
     \<and> run_bpf prog \<lparr>sd_nr = 0, sd_arch = 0xc000003e\<rparr> 0 0 0 = SECCOMP_RET_TRACE
     \<and> run_bpf prog \<lparr>sd_nr = 1, sd_arch = 0xc000003e\<rparr> 0 0 0 = SECCOMP_RET_ALLOW"
proof -
  obtain prog where p: "select_prog sample_config (\<lambda>i p. i = 0) = Some prog"
    using sample_prog by blast
  have c: "nsyscall_vec sample_config 0 = 4" "arch (audit_arch_vec sample_config ! 0) = 0xc000003e"
    "flag (audit_arch_vec sample_config ! 0) = 0" "arch (audit_arch_vec sample_config ! 1) = 0x40000003"
    by (simp_all add: nsyscall_vec_def sample_config_def)
  have f: "\<not> fits sample_config \<lparr>sd_nr = n, sd_arch = 0xc000003e\<rparr> q"
    if "0 < q" "q < SUPPORTED_PERSONALITIES sample_config" for n q
    using that c by (cases "q = 1") (auto simp: fits_def sample_flags)
  have "run_bpf prog \<lparr>sd_nr = nr_word sample_config 0 i, sd_arch = 0xc000003e\<rparr> 0 0 0
      = (if i = 0 then SECCOMP_RET_TRACE else SECCOMP_RET_ALLOW)" if "i < 4" for i
    using that f
    by (intro select_prog_correct [OF run.cbpf_axioms sample_flags(1) _ p, where p = 0])
      (auto simp: c sample_flags)
  from this [of 0] this [of 1] p show ?thesis by (simp add: nr_word_def c)
qed

text \<open>
  C40: The two generators disagree on system call numbers beyond the table of a personality: the
  linear program traces such a call, the binary match program allows it, so that whether strace
  sees it depends on which program is shorter.
\<close>

theorem generators_unknown_syscall:
  assumes "cbpf exec" "flags_ok cfg" "SUPPORTED_PERSONALITIES cfg \<le> 16"
    and "linear_filter_generator cfg traced = (lin, False)"
    and "binary_match_filter_generator cfg traced = (bin, False)"
    and "p < SUPPORTED_PERSONALITIES cfg" "fits cfg d p"
    and "\<And>q. p < q \<Longrightarrow> q < SUPPORTED_PERSONALITIES cfg \<Longrightarrow> \<not> fits cfg d q"
    and "nr_word cfg p (nsyscall_vec cfg p) \<le> sd_nr d"
    and "nsyscall_vec cfg p \<le> unat (sd_nr d AND NOT (flag (audit_arch_vec cfg ! p)))"
  shows "exec lin d 0 a x = SECCOMP_RET_TRACE \<and> exec bin d 0 a x = SECCOMP_RET_ALLOW"
proof -
  have n: "0 < SUPPORTED_PERSONALITIES cfg" using assms(6) by simp
  have dec: "decide cfg d sec (SUPPORTED_PERSONALITIES cfg) = sec p" for sec
    using assms(6-8) by (intro decide_fits) auto
  have "exec lin d 0 a x = linear_decision cfg traced p (sd_nr d)"
    using cbpf.linear_filter_exec [OF assms(1,2) n assms(4)] by (simp only: dec)
  moreover have "exec bin d 0 a x = binary_decision cfg traced p (sd_nr d)"
    using cbpf.binary_filter_exec [OF assms(1,2) n assms(3,5)] by (simp only: dec)
  ultimately show ?thesis
    using assms(9,10) by (simp add: linear_decision_def binary_decision_def Let_def)
qed

theorem generators_unknown_syscall_witness:
  "\<exists>lin bin. linear_filter_generator sample_config sample_traced = (lin, False)
     \<and> binary_match_filter_generator sample_config sample_traced = (bin, False)
     \<and> run_bpf lin \<lparr>sd_nr = 100, sd_arch = 0xc000003e\<rparr> 0 0 0 = SECCOMP_RET_TRACE
     \<and> run_bpf bin \<lparr>sd_nr = 100, sd_arch = 0xc000003e\<rparr> 0 0 0 = SECCOMP_RET_ALLOW"
proof -
  let ?d = "\<lparr>sd_nr = 100, sd_arch = 0xc000003e\<rparr>"
  obtain lin bin where g: "linear_filter_generator sample_config sample_traced = (lin, False)"
    "binary_match_filter_generator sample_config sample_traced = (bin, False)"
    using sample_linear sample_binary by blast
  have c: "arch (audit_arch_vec sample_config ! 0) = 0xc000003e" "flag (audit_arch_vec sample_config ! 0) = 0"
    "arch (audit_arch_vec sample_config ! 1) = 0x40000003"
    by (simp_all add: sample_config_def)
  have "\<not> fits sample_config ?d q" if "0 < q" "q < SUPPORTED_PERSONALITIES sample_config" for q
    using that c by (cases "q = 1") (auto simp: fits_def sample_sizes)
  then have "run_bpf lin ?d 0 0 0 = SECCOMP_RET_TRACE \<and> run_bpf bin ?d 0 0 0 = SECCOMP_RET_ALLOW"
    by (intro generators_unknown_syscall [OF run.cbpf_axioms sample_flags(1) _ g, where p = 0])
      (auto simp: c sample_sizes fits_def nr_word_def)
  with g show ?thesis by blast
qed

text \<open>The reports of the two kernel behaviours that the check accepts.\<close>

definition accepted_order :: "bool \<Rightarrow> wait_event list" where
  "accepted_order before =
     [W_stopped Stop_SIGSTOP]
     @ (if before then [W_stopped (Stop_SIGTRAP PTRACE_EVENT_SECCOMP), W_stopped Stop_syscall]
        else [W_stopped Stop_syscall, W_stopped (Stop_SIGTRAP PTRACE_EVENT_SECCOMP)])
     @ [W_stopped Stop_syscall, W_stopped Stop_syscall, W_exited 0]"

lemma tracer_skips_eintr:
  "check_seccomp_order_tracer env step events st =
     check_seccomp_order_tracer env step (filter (\<lambda>e. e \<noteq> Wait_eintr) events) st"
  by (induction env step events st rule: check_seccomp_order_tracer.induct)
    (auto split: wait_event.splits option.splits)

text \<open>The tracer returns with filtering enabled, and how one report contributes to that.\<close>

definition enables ::
  "tracer_env \<Rightarrow> nat \<Rightarrow> wait_event list \<Rightarrow> seccomp_state \<Rightarrow> seccomp_state \<Rightarrow> bool" where
  "enables env step es st st' \<longleftrightarrow>
     (\<exists>alive. check_seccomp_order_tracer env step es st = Returned alive st') \<and> seccomp_filtering st'"

lemma order_stop_filtering:
  "order_stop env step s st = Some st1 \<Longrightarrow> seccomp_filtering st1 = seccomp_filtering st"
  by (auto simp: order_stop_def split: stop.splits if_splits)

lemma enables_step:
  assumes "Wait_eintr \<notin> set es" "\<not> seccomp_filtering st"
  shows "enables env step es st st' \<longleftrightarrow>
     step = 5 \<and> (\<exists>r. es = W_exited 0 # r) \<and> st' = st\<lparr>seccomp_filtering := True\<rparr>
     \<or> (\<exists>s r st1. es = W_stopped s # r \<and> order_stop env step s st = Some st1 \<and> resume_ok env step
          \<and> enables env (Suc step) r st1 st')"
proof (cases es)
  case (Cons e r)
  with assms show ?thesis
    by (cases e) (auto simp: enables_def dest: order_stop_filtering split: option.splits if_splits)
qed (simp add: enables_def)

lemma order_stop_cases:
  "order_stop env 0 s st = Some st1 \<longleftrightarrow> s = Stop_SIGSTOP \<and> setoptions_ok env \<and> st1 = st"
  "order_stop env 1 s st = Some st1 \<longleftrightarrow>
     s = Stop_SIGTRAP PTRACE_EVENT_SECCOMP \<and> st1 = st\<lparr>seccomp_before_sysentry := True\<rparr>
     \<or> s = Stop_syscall \<and> st1 = st\<lparr>seccomp_before_sysentry := False\<rparr>"
  "order_stop env 2 s st = Some st1 \<longleftrightarrow>
     (s = Stop_SIGTRAP PTRACE_EVENT_SECCOMP \<and> \<not> seccomp_before_sysentry st
      \<or> s = Stop_syscall \<and> seccomp_before_sysentry st) \<and> st1 = st"
  "order_stop env 3 s st = Some st1 \<longleftrightarrow> s = Stop_syscall \<and> st1 = st"
  "order_stop env 4 s st = Some st1 \<longleftrightarrow> s = Stop_syscall \<and> st1 = st"
  "order_stop env 5 s st \<noteq> Some st1"
  by (cases s; auto simp: order_stop_def)+

lemma enables_from_3:
  assumes "Wait_eintr \<notin> set es" "\<not> seccomp_filtering st"
  shows "enables env 3 es st st' \<longleftrightarrow>
     (\<exists>r. es = [W_stopped Stop_syscall, W_stopped Stop_syscall, W_exited 0] @ r)
     \<and> resume_ok env 3 \<and> resume_ok env 4 \<and> st' = st\<lparr>seccomp_filtering := True\<rparr>"
proof -
  have n: "Suc 3 = 4" "Suc 4 = 5" by simp_all
  have t5: "enables env 5 r st st' \<longleftrightarrow>
      (\<exists>q. r = W_exited 0 # q) \<and> st' = st\<lparr>seccomp_filtering := True\<rparr>" if "Wait_eintr \<notin> set r" for r
    using enables_step [OF that assms(2), of env 5 st'] by (simp add: order_stop_cases)
  have t4: "enables env 4 r st st' \<longleftrightarrow>
      (\<exists>q. r = W_stopped Stop_syscall # W_exited 0 # q) \<and> resume_ok env 4 \<and> st' = st\<lparr>seccomp_filtering := True\<rparr>"
    if "Wait_eintr \<notin> set r" for r
    unfolding enables_step [OF that assms(2), of env 4 st'] n order_stop_cases using that t5 by auto
  show ?thesis
    unfolding enables_step [OF assms, of env 3 st'] n order_stop_cases using assms(1) t4 by auto
qed

lemma enables_from_0:
  assumes "Wait_eintr \<notin> set es" "\<not> seccomp_filtering st"
  shows "enables env 0 es st st' \<longleftrightarrow>
     (\<exists>before r. es = accepted_order before @ r
        \<and> st' = st\<lparr>seccomp_before_sysentry := before, seccomp_filtering := True\<rparr>)
     \<and> setoptions_ok env \<and> (\<forall>n < 5. resume_ok env n)"
proof -
  have n: "Suc 0 = 1" "Suc 1 = 2" "Suc 2 = 3" by simp_all
  let ?three = "[W_stopped Stop_syscall, W_stopped Stop_syscall, W_exited 0]"
  have t2: "enables env 2 r u v \<longleftrightarrow>
      (\<exists>q. r = (if seccomp_before_sysentry u then W_stopped Stop_syscall
                else W_stopped (Stop_SIGTRAP PTRACE_EVENT_SECCOMP)) # ?three @ q)
      \<and> resume_ok env 2 \<and> resume_ok env 3 \<and> resume_ok env 4 \<and> v = u\<lparr>seccomp_filtering := True\<rparr>"
    if "Wait_eintr \<notin> set r" "\<not> seccomp_filtering u" for r u v
    unfolding enables_step [OF that, of env 2 v] n order_stop_cases using that
    by (auto simp: enables_from_3)
  have t1: "enables env 1 r st v \<longleftrightarrow>
      (\<exists>before q. W_stopped Stop_SIGSTOP # r = accepted_order before @ q
         \<and> v = st\<lparr>seccomp_before_sysentry := before, seccomp_filtering := True\<rparr>)
      \<and> resume_ok env 1 \<and> resume_ok env 2 \<and> resume_ok env 3 \<and> resume_ok env 4"
    if "Wait_eintr \<notin> set r" for r v
  proof -
    have "enables env 1 r st v \<longleftrightarrow> resume_ok env 1 \<and>
       ((\<exists>q. r = W_stopped (Stop_SIGTRAP PTRACE_EVENT_SECCOMP) # q
           \<and> enables env 2 q (st\<lparr>seccomp_before_sysentry := True\<rparr>) v)
        \<or> (\<exists>q. r = W_stopped Stop_syscall # q \<and> enables env 2 q (st\<lparr>seccomp_before_sysentry := False\<rparr>) v))"
      unfolding enables_step [OF that assms(2), of env 1 v] n(2) order_stop_cases by auto
    also have "\<dots> \<longleftrightarrow> resume_ok env 1 \<and>
       ((\<exists>q. r = [W_stopped (Stop_SIGTRAP PTRACE_EVENT_SECCOMP), W_stopped Stop_syscall] @ ?three @ q)
            \<and> v = st\<lparr>seccomp_before_sysentry := True, seccomp_filtering := True\<rparr>
        \<or> (\<exists>q. r = [W_stopped Stop_syscall, W_stopped (Stop_SIGTRAP PTRACE_EVENT_SECCOMP)] @ ?three @ q)
            \<and> v = st\<lparr>seccomp_before_sysentry := False, seccomp_filtering := True\<rparr>)
       \<and> resume_ok env 2 \<and> resume_ok env 3 \<and> resume_ok env 4"
      using that assms(2) by (auto simp: t2)
    finally show ?thesis by (auto simp: ex_bool_eq accepted_order_def)
  qed
  have five: "(\<forall>n < 5. P n) \<longleftrightarrow> P 0 \<and> P 1 \<and> P 2 \<and> P 3 \<and> P (4 :: nat)" for P
    by (auto simp: less_Suc_eq numeral_eq_Suc)
  have t0: "enables env 0 es st st' \<longleftrightarrow>
      (\<exists>r. es = W_stopped Stop_SIGSTOP # r \<and> setoptions_ok env \<and> resume_ok env 0 \<and> enables env 1 r st st')"
    unfolding enables_step [OF assms, of env 0 st'] n(1) order_stop_cases by auto
  show ?thesis
  proof (cases "\<exists>r. es = W_stopped Stop_SIGSTOP # r")
    case True
    then obtain r where r: "es = W_stopped Stop_SIGSTOP # r" by blast
    then have "Wait_eintr \<notin> set r" using assms(1) by simp
    note t1 = t1 [OF this, of st']
    have t0': "enables env 0 es st st' \<longleftrightarrow> setoptions_ok env \<and> resume_ok env 0 \<and> enables env 1 r st st'"
      unfolding t0 using r by auto
    show ?thesis unfolding t0' five t1 unfolding r by blast
  next
    case False
    then show ?thesis unfolding t0 by (auto simp: accepted_order_def)
  qed
qed

text \<open>
  C31: The order check accepts exactly two behaviours of the kernel.  When the tracer returns,
  seccomp filtering is enabled if and only if the reports (interrupted waits aside) begin with
  the stop by \<open>SIGSTOP\<close>, a seccomp stop and a system call stop in either order, two further
  system call stops and a normal exit, with all \<open>ptrace\<close> calls successful; and then
  \<open>seccomp_before_sysentry\<close> tells which order it was.
\<close>

theorem order_check_exact:
  assumes "\<not> seccomp_filtering st"
  shows "(\<exists>alive. check_seccomp_order_tracer env 0 events st = Returned alive st') \<and> seccomp_filtering st' \<longleftrightarrow>
     (\<exists>before r. filter (\<lambda>e. e \<noteq> Wait_eintr) events = accepted_order before @ r
        \<and> st' = st\<lparr>seccomp_before_sysentry := before, seccomp_filtering := True\<rparr>)
     \<and> setoptions_ok env \<and> (\<forall>n < 5. resume_ok env n)"
  using enables_from_0 [of "filter (\<lambda>e. e \<noteq> Wait_eintr) events" st env st'] assms
  unfolding enables_def tracer_skips_eintr [of env 0 events st] by simp

theorem order_check_exact_witness:
  "check_seccomp_order_tracer \<lparr>setoptions_ok = True, resume_ok = (\<lambda>_. True)\<rparr> 0
      (Wait_eintr # accepted_order True)
      \<lparr>seccomp_filtering = False, seccomp_before_sysentry = False, bpf_prog = None\<rparr>
   = Returned False \<lparr>seccomp_filtering = True, seccomp_before_sysentry = True, bpf_prog = None\<rparr>"
proof -
  let ?env = "\<lparr>setoptions_ok = True, resume_ok = (\<lambda>_. True)\<rparr>"
  let ?st = "\<lparr>seccomp_filtering = False, seccomp_before_sysentry = False, bpf_prog = None\<rparr>"
  let ?st' = "\<lparr>seccomp_filtering = True, seccomp_before_sysentry = True, bpf_prog = None\<rparr>"
  have "filter (\<lambda>e. e \<noteq> Wait_eintr) (Wait_eintr # accepted_order True) = accepted_order True @ []"
    by (simp add: accepted_order_def)
  then obtain alive where "check_seccomp_order_tracer ?env 0 (Wait_eintr # accepted_order True) ?st = Returned alive ?st'"
    using order_check_exact [of ?st ?env "Wait_eintr # accepted_order True" ?st']
    by (auto simp: ex_bool_eq)
  then show ?thesis by (simp add: accepted_order_def order_stop_def)
qed

end
