(* ===== verification/Trie.thy ===== *)
theory Trie
  imports Prelude
begin

text \<open>
  The multi-level bit trie of \<^verbatim>\<open>trie.c\<close> that maps keys of up to 64 bits to values of 1 to 64
  bits, on a target with 64-bit pointers.  A C pointer to a node is the subtree, with \<open>Null\<close>
  for the null pointer; the pointer to a data block that \<open>trie_get_node\<close> returns is the path to
  it from the root.  Members of type \<open>uint8_t\<close> are natural numbers, and the truncation to 8
  bits is written where the code stores the result of an \<open>int\<close> expression in one.  The theorem:
  a trie is a total function on its keys, updated by \<open>trie_set\<close> at one key only.
\<close>

section \<open>Data\<close>

datatype node = Null | Node "node list" | Block "u64 list"

record trie =
  empty_value :: u64
  fill_value :: u64
  data :: node
  key_size :: nat
  item_size_lg :: nat
  node_key_bits :: nat
  data_block_key_bits :: nat
  max_depth :: nat

definition uint8 :: "nat \<Rightarrow> nat" where
  "uint8 n = n mod 256"

text \<open>Shifts by at least the width are undefined in C and give zero here.\<close>

definition BIT32 :: "nat \<Rightarrow> nat" where
  "BIT32 x = unat (push_bit x (1 :: u32))"

definition BIT64 :: "nat \<Rightarrow> u64" where
  "BIT64 x = push_bit x 1"

definition MASK64 :: "nat \<Rightarrow> u64" where
  "MASK64 x = BIT64 x - 1"

definition BIT64_SAFE :: "nat \<Rightarrow> u64" where
  "BIT64_SAFE x = (if x < 64 then BIT64 x else 0)"

definition MASK64_SAFE :: "nat \<Rightarrow> u64" where
  "MASK64_SAFE x = BIT64_SAFE x - 1"

definition ptr_sz_lg :: nat where
  "ptr_sz_lg = 6"

section \<open>Geometry\<close>

definition trie_get_node_size :: "trie \<Rightarrow> nat \<Rightarrow> nat" where
  "trie_get_node_size t depth =
     uint8 (if depth = max_depth t then data_block_key_bits t + item_size_lg t
            else if depth + 1 = max_depth t
            then (key_size t - data_block_key_bits t - 1) mod node_key_bits t + 1 + ptr_sz_lg
            else node_key_bits t + ptr_sz_lg)"

definition trie_get_node_bit_offs :: "trie \<Rightarrow> nat \<Rightarrow> nat" where
  "trie_get_node_bit_offs t depth =
     (if depth = max_depth t then 0
      else let offs = data_block_key_bits t
           in if depth + 1 = max_depth t then offs
              else let offs = uint8 (offs + (trie_get_node_size t (max_depth t - 1) - ptr_sz_lg))
                   in uint8 (offs + (max_depth t - depth - 2) * node_key_bits t))"

section \<open>Creation\<close>

fun fill_loop :: "nat \<Rightarrow> nat \<Rightarrow> u64 \<Rightarrow> u64" where
  "fill_loop 0 lg v = v"
| "fill_loop (Suc n) lg v = fill_loop n (Suc lg) (v OR push_bit (BIT32 lg) v)"

definition trie_create :: "nat \<Rightarrow> nat \<Rightarrow> nat \<Rightarrow> nat \<Rightarrow> u64 \<Rightarrow> trie option" where
  "trie_create ks item nkb dbk empty_val =
     (if item > 6 then None
      else if ks > 64 then None
      else if nkb < 1 then None
      else if dbk < 1 \<or> dbk > ks then None
      else let e = empty_val AND MASK64_SAFE (BIT32 item)
           in Some \<lparr>empty_value = e, fill_value = fill_loop (6 - item) item e, data = Null,
                    key_size = ks, item_size_lg = item, node_key_bits = nkb,
                    data_block_key_bits = dbk,
                    max_depth = uint8 ((ks - dbk + nkb - 1) div nkb)\<rparr>)"

definition trie_create_data_block :: "trie \<Rightarrow> node" where
  "trie_create_data_block t =
     (let sz = uint8 (data_block_key_bits t + item_size_lg t);
          sz = (if sz < 6 then 6 else sz);
          count = BIT32 (sz - 6)
      in Block (replicate count (fill_value t)))"

text \<open>An inner node: \<open>BIT64(sz)\<close> bytes of zeroes, eight bytes to a pointer.\<close>

definition create_node :: "nat \<Rightarrow> node" where
  "create_node sz = Node (replicate (unat (BIT64 sz) div 8) Null)"

section \<open>Access\<close>

definition node_pos :: "trie \<Rightarrow> u64 \<Rightarrow> nat \<Rightarrow> nat" where
  "node_pos t key depth =
     unat (drop_bit (trie_get_node_bit_offs t depth) key
           AND MASK64 (trie_get_node_size t depth - ptr_sz_lg))"

text \<open>
  The slot of a node, and the node with that slot replaced.  A slot outside the allocation, or
  of something that is no inner node, does not occur in a trie that the code built.
\<close>

definition child :: "node \<Rightarrow> nat \<Rightarrow> node" where
  "child nd pos = (case nd of Node xs \<Rightarrow> xs ! pos | _ \<Rightarrow> Null)"

definition set_child :: "node \<Rightarrow> nat \<Rightarrow> node \<Rightarrow> node" where
  "set_child nd pos c = (case nd of Node xs \<Rightarrow> Node (xs[pos := c]) | _ \<Rightarrow> nd)"

text \<open>
  The loop of \<open>trie_get_node\<close> from \<open>depth\<close> on: the subtree with the nodes that were created on
  the way, and the path to the data block.
\<close>

function get_node_loop :: "trie \<Rightarrow> u64 \<Rightarrow> bool \<Rightarrow> nat \<Rightarrow> node \<Rightarrow> (node \<times> nat list) option" where
  "get_node_loop t key auto_create depth cur =
     (let sz = trie_get_node_size t depth
      in if cur = Null \<and> \<not> auto_create then None
         else let cur = (if cur = Null
                         then (if depth = max_depth t then trie_create_data_block t else create_node sz)
                         else cur)
              in if depth \<ge> max_depth t then Some (cur, [])
                 else let pos = node_pos t key depth
                      in case get_node_loop t key auto_create (Suc depth) (child cur pos) of
                           None \<Rightarrow> None
                         | Some (c, path) \<Rightarrow> Some (set_child cur pos c, pos # path))"
  by pat_completeness auto
termination
  by (relation "measure (\<lambda>(t, key, ac, depth, cur). max_depth t - depth)") auto

declare get_node_loop.simps [simp del]

definition trie_get_node :: "trie \<Rightarrow> u64 \<Rightarrow> bool \<Rightarrow> (node \<times> nat list) option" where
  "trie_get_node t key auto_create =
     (if key_size t < 64 \<and> key > MASK64 (key_size t) then None
      else get_node_loop t key auto_create 0 (data t))"

fun block_at :: "node \<Rightarrow> nat list \<Rightarrow> u64 list" where
  "block_at nd [] = (case nd of Block ws \<Rightarrow> ws | _ \<Rightarrow> [])"
| "block_at nd (pos # path) = block_at (child nd pos) path"

fun block_update :: "node \<Rightarrow> nat list \<Rightarrow> (u64 list \<Rightarrow> u64 list) \<Rightarrow> node" where
  "block_update nd [] f = (case nd of Block ws \<Rightarrow> Block (f ws) | _ \<Rightarrow> nd)"
| "block_update nd (pos # path) f = set_child nd pos (block_update (child nd pos) path f)"

text \<open>The word of the block, the mask and the bit offset of a key's item.\<close>

definition trie_data_block_calc_pos :: "trie \<Rightarrow> u64 \<Rightarrow> nat \<times> u64 \<times> nat" where
  "trie_data_block_calc_pos t key =
     (let key_mask = MASK64 (data_block_key_bits t);
          pos = unat (drop_bit (6 - item_size_lg t) (key AND key_mask))
      in if item_size_lg t = 6 then (pos, -1, 0)
         else let key_mask = MASK64 (6 - item_size_lg t);
                  offs = unat (push_bit (item_size_lg t) (key AND key_mask))
              in (pos, push_bit offs (MASK64_SAFE (BIT32 (item_size_lg t))), offs))"

definition block_set :: "trie \<Rightarrow> u64 \<Rightarrow> u64 \<Rightarrow> u64 list \<Rightarrow> u64 list" where
  "block_set t key val ws =
     (case trie_data_block_calc_pos t key of (pos, msk, offs) \<Rightarrow>
        ws[pos := (ws ! pos AND NOT msk) OR (push_bit offs val AND msk)])"

definition trie_set :: "trie \<Rightarrow> u64 \<Rightarrow> u64 \<Rightarrow> bool \<times> trie" where
  "trie_set t key val =
     (case trie_get_node t key True of
        None \<Rightarrow> (False, t)
      | Some (root, path) \<Rightarrow> (True, t\<lparr>data := block_update root path (block_set t key val)\<rparr>))"

definition trie_data_block_get :: "trie \<Rightarrow> u64 list option \<Rightarrow> u64 \<Rightarrow> u64" where
  "trie_data_block_get t ws key =
     (case ws of None \<Rightarrow> empty_value t
      | Some ws \<Rightarrow> case trie_data_block_calc_pos t key of (pos, msk, offs) \<Rightarrow>
          drop_bit offs (ws ! pos AND msk))"

definition trie_get :: "trie \<Rightarrow> u64 \<Rightarrow> u64" where
  "trie_get t key =
     trie_data_block_get t (map_option (\<lambda>(root, path). block_at root path) (trie_get_node t key False)) key"

section \<open>Iteration and deletion\<close>

text \<open>
  The iteration returns the calls of \<open>fn\<close>, key and value, in their order, and the count.  The
  loop over the keys of a data block compares with \<open><=\<close>, so it does not end when \<open>end\<close> is the
  largest \<open>uint64_t\<close>: that is the result \<open>None\<close>.
\<close>

definition keys_upto :: "u64 \<Rightarrow> u64 \<Rightarrow> u64 list option" where
  "keys_upto a b = (if a \<le> b \<and> b = -1 then None else Some (map of_nat [unat a..<Suc (unat b)]))"

definition join_calls ::
    "((u64 \<times> u64) list \<times> u64) option \<Rightarrow> ((u64 \<times> u64) list \<times> u64) option \<Rightarrow> ((u64 \<times> u64) list \<times> u64) option" where
  "join_calls a b =
     (case a of None \<Rightarrow> None
      | Some (xs, m) \<Rightarrow> map_option (\<lambda>(ys, n). (xs @ ys, m + n)) b)"

function trie_iterate_keys_node ::
    "trie \<Rightarrow> node \<Rightarrow> u64 \<Rightarrow> u64 \<Rightarrow> nat \<Rightarrow> ((u64 \<times> u64) list \<times> u64) option" where
  "trie_iterate_keys_node t nd start ende depth =
     (if start > ende \<or> nd = Null then Some ([], 0)
      else let ende = (if key_size t < 64 \<and> ende > MASK64 (key_size t) then MASK64 (key_size t) else ende)
           in if depth \<ge> max_depth t then
                map_option (\<lambda>ks. (map (\<lambda>i. (i, trie_data_block_get t (Some (block_at nd [])) i)) ks,
                                  ende - start + 1))
                  (keys_upto start ende)
              else
                let parent_node_bit_off = (if depth = 0 then key_size t
                                           else trie_get_node_bit_offs t (depth - 1));
                    first_key_in_node = start AND NOT (MASK64_SAFE parent_node_bit_off);
                    node_bit_off = trie_get_node_bit_offs t depth;
                    nkb = uint8 (parent_node_bit_off - node_bit_off);
                    msk = MASK64_SAFE nkb;
                    start_index = drop_bit node_bit_off start AND msk;
                    end_index = drop_bit node_bit_off ende AND msk;
                    child_key_count = BIT64 node_bit_off
                in foldr join_calls
                     (map (\<lambda>i. let child_start = first_key_in_node + of_nat i * child_key_count;
                                   child_end = first_key_in_node + of_nat (i + 1) * child_key_count - 1
                               in trie_iterate_keys_node t (child nd i)
                                    (if child_start < start then start else child_start)
                                    (if child_end > ende then ende else child_end) (Suc depth))
                       [unat start_index..<Suc (unat end_index)])
                     (Some ([], 0)))"
  by pat_completeness auto
termination
  by (relation "measure (\<lambda>(t, nd, s, e, depth). max_depth t - depth)") auto

declare trie_iterate_keys_node.simps [simp del]

definition trie_iterate_keys :: "trie \<Rightarrow> u64 \<Rightarrow> u64 \<Rightarrow> ((u64 \<times> u64) list \<times> u64) option" where
  "trie_iterate_keys t start ende = trie_iterate_keys_node t (data t) start ende 0"

text \<open>\<open>trie_free_node\<close> as the number of allocations it frees.\<close>

function trie_free_node :: "trie \<Rightarrow> node \<Rightarrow> nat \<Rightarrow> nat" where
  "trie_free_node t nd depth =
     (if nd = Null then 0
      else if depth \<ge> max_depth t then 1
      else 1 + sum_list (map (\<lambda>i. trie_free_node t (child nd i) (Suc depth))
                          [0..<unat (BIT64 (trie_get_node_size t depth - ptr_sz_lg))]))"
  by pat_completeness auto
termination
  by (relation "measure (\<lambda>(t, nd, depth). max_depth t - depth)") auto

declare trie_free_node.simps [simp del]

definition trie_free :: "trie \<Rightarrow> nat" where
  "trie_free t = trie_free_node t (data t) 0 + 1"

section \<open>Geometry of a trie the code can use\<close>

text \<open>
  The parameters that \<open>trie_create\<close> accepts, restricted to those where no shift of the code is
  by the width or more: \<open>BIT32(sz - 6)\<close> words in a data block and \<open>BIT64(sz)\<close> bytes in a node.
  The tries of strace use \<open>node_key_bits = data_block_key_bits = 4\<close>.
\<close>

definition geometry_ok :: "trie \<Rightarrow> bool" where
  "geometry_ok t \<longleftrightarrow>
     item_size_lg t \<le> 6 \<and> key_size t \<le> 64 \<and> 1 \<le> node_key_bits t \<and> node_key_bits t \<le> 57
     \<and> 1 \<le> data_block_key_bits t \<and> data_block_key_bits t \<le> key_size t
     \<and> data_block_key_bits t + item_size_lg t \<le> 37
     \<and> max_depth t = (key_size t - data_block_key_bits t + node_key_bits t - 1) div node_key_bits t"

text \<open>The key bits of a level and the lowest of them.\<close>

definition last_bits :: "trie \<Rightarrow> nat" where
  "last_bits t = (key_size t - data_block_key_bits t - 1) mod node_key_bits t + 1"

definition level_bits :: "trie \<Rightarrow> nat \<Rightarrow> nat" where
  "level_bits t d = (if d + 1 = max_depth t then last_bits t else node_key_bits t)"

definition level_lo :: "trie \<Rightarrow> nat \<Rightarrow> nat" where
  "level_lo t d = data_block_key_bits t
     + (if d + 1 = max_depth t then 0 else last_bits t + (max_depth t - d - 2) * node_key_bits t)"

lemma last_bits_bounds: "geometry_ok t \<Longrightarrow> 1 \<le> last_bits t \<and> last_bits t \<le> node_key_bits t"
  using mod_less_divisor [of "node_key_bits t"] by (auto simp: geometry_ok_def last_bits_def Suc_le_eq)

lemma geometry_bounds:
  assumes "geometry_ok t"
  shows "item_size_lg t \<le> 6" "key_size t \<le> 64" "1 \<le> node_key_bits t" "node_key_bits t \<le> 57"
    "1 \<le> data_block_key_bits t" "data_block_key_bits t \<le> key_size t"
    "data_block_key_bits t + item_size_lg t \<le> 37"
  using assms unfolding geometry_ok_def by blast+

lemma ceiling_div: "0 < n \<Longrightarrow> 0 < b \<Longrightarrow> (n + b - 1) div b = Suc ((n - 1) div (b :: nat))"
  by (cases n) (simp_all add: div_add_self2)

lemma key_bits_split:
  assumes "geometry_ok t" "0 < max_depth t"
  shows "key_size t = data_block_key_bits t + last_bits t + (max_depth t - 1) * node_key_bits t"
proof -
  let ?n = "key_size t - data_block_key_bits t" and ?b = "node_key_bits t"
  have b: "0 < ?b" and le: "data_block_key_bits t \<le> key_size t"
    using geometry_bounds [OF assms(1)] by simp_all
  have m: "max_depth t = (?n + ?b - 1) div ?b" using assms(1) unfolding geometry_ok_def by blast
  have n: "0 < ?n"
    using assms(2) b unfolding m by (cases "?n = 0") auto
  have "(max_depth t - 1) * ?b + last_bits t = (?n - 1) div ?b * ?b + (?n - 1) mod ?b + 1"
    unfolding m ceiling_div [OF n b] by (simp add: last_bits_def)
  also have "\<dots> = ?n" using n by simp
  finally show ?thesis using le by simp
qed

lemma max_depth_bound: "geometry_ok t \<Longrightarrow> max_depth t \<le> 64"
proof (cases "max_depth t")
  case (Suc m)
  assume g: "geometry_ok t"
  have "key_size t = data_block_key_bits t + last_bits t + m * node_key_bits t"
    using key_bits_split [OF g] Suc by simp
  moreover have "m * 1 \<le> m * node_key_bits t"
    using geometry_bounds(3) [OF g] by (rule mult_le_mono2)
  ultimately show ?thesis using Suc geometry_bounds [OF g] by linarith
qed simp

lemma level_le_key_size:
  assumes "geometry_ok t" "d < max_depth t"
  shows "level_lo t d + level_bits t d \<le> key_size t"
proof -
  have k: "key_size t = data_block_key_bits t + last_bits t + (max_depth t - 1) * node_key_bits t"
    using assms by (intro key_bits_split) auto
  have "Suc (max_depth t - d - 2) * node_key_bits t \<le> (max_depth t - 1) * node_key_bits t" if "d + 1 \<noteq> max_depth t"
    using that assms(2) by (intro mult_le_mono1) simp
  then show ?thesis by (auto simp: k level_lo_def level_bits_def)
qed

lemma node_size_eq:
  assumes "geometry_ok t" "d < max_depth t"
  shows "trie_get_node_size t d = level_bits t d + ptr_sz_lg" "level_bits t d \<le> 57"
  using assms last_bits_bounds [OF assms(1)]
  by (auto simp: trie_get_node_size_def level_bits_def last_bits_def uint8_def ptr_sz_lg_def geometry_ok_def)

lemma bit_offs_eq:
  assumes "geometry_ok t" "d < max_depth t"
  shows "trie_get_node_bit_offs t d = level_lo t d"
proof -
  have "level_lo t d \<le> 64"
    using level_le_key_size [OF assms] assms(1) by (auto simp: geometry_ok_def)
  moreover have "trie_get_node_size t (max_depth t - 1) - ptr_sz_lg = last_bits t"
    using assms by (subst node_size_eq) (auto simp: level_bits_def)
  ultimately show ?thesis
    using assms(2) by (auto simp: trie_get_node_bit_offs_def level_lo_def uint8_def Let_def)
qed

section \<open>Keys\<close>

lemma MASK64_eq: "MASK64 n = mask n"
  by (simp add: MASK64_def BIT64_def mask_eq_exp_minus_1)

lemma MASK64_SAFE_eq: "MASK64_SAFE n = mask n"
proof (cases "n < 64")
  case False
  then have "mask n = (- 1 :: u64)" by (intro bit_word_eqI) (simp add: bit_simps)
  with False show ?thesis by (simp add: MASK64_SAFE_def BIT64_SAFE_def)
qed (simp add: MASK64_SAFE_def BIT64_SAFE_def BIT64_def mask_eq_exp_minus_1)

lemma BIT32_eq: "n < 32 \<Longrightarrow> BIT32 n = 2 ^ n"
  by (simp add: BIT32_def unat_exp)

lemma BIT64_eq: "n < 64 \<Longrightarrow> unat (BIT64 n) = 2 ^ n"
  by (simp add: BIT64_def unat_exp)

definition valid_key :: "trie \<Rightarrow> u64 \<Rightarrow> bool" where
  "valid_key t key \<longleftrightarrow> \<not> (key_size t < 64 \<and> key > MASK64 (key_size t))"

lemma not_bit_ge:
  assumes "unat (k :: u64) < 2 ^ n" "n \<le> i"
  shows "\<not> bit k i"
proof -
  have "take_bit n (unat k) = unat k" using assms(1) by (simp add: take_bit_nat_eq_self)
  then have "bit (unat k) i \<longleftrightarrow> bit (take_bit n (unat k)) i" by simp
  then have "\<not> bit (unat k) i" using assms(2) by (simp add: bit_take_bit_iff)
  then show ?thesis by (auto simp: bit_unsigned_iff dest: bit_imp_le_length)
qed

lemma valid_key_unat:
  assumes "geometry_ok t"
  shows "valid_key t k \<longleftrightarrow> unat k < 2 ^ key_size t"
proof (cases "key_size t < 64")
  case True
  have "unat (MASK64 (key_size t)) = 2 ^ key_size t - 1"
    using True by (simp add: MASK64_eq mask_eq_exp_minus_1 unat_minus_one unat_exp)
  then have "k \<le> MASK64 (key_size t) \<longleftrightarrow> unat k \<le> 2 ^ key_size t - 1"
    by (simp add: word_le_nat_alt)
  also have "\<dots> \<longleftrightarrow> unat k < 2 ^ key_size t"
    using less_eq_Suc_le [of "unat k" "2 ^ key_size t"] by (cases "2 ^ key_size t :: nat") auto
  finally show ?thesis using True by (simp add: valid_key_def not_less)
next
  case False
  then have "key_size t = 64" using geometry_bounds [OF assms] by simp
  with unat64_less [of k] show ?thesis by (simp add: valid_key_def)
qed

lemma node_pos_eq:
  assumes "geometry_ok t" "d < max_depth t"
  shows "node_pos t k d = unat (take_bit (level_bits t d) (drop_bit (level_lo t d) k))"
  using node_size_eq [OF assms] bit_offs_eq [OF assms]
  by (simp add: node_pos_def MASK64_eq take_bit_eq_mask)

lemma node_pos_less:
  assumes "geometry_ok t" "d < max_depth t"
  shows "node_pos t k d < 2 ^ level_bits t d"
  using node_size_eq [OF assms] unfolding node_pos_eq [OF assms]
  by (simp add: unsigned_take_bit_eq take_bit_nat_less_exp)

lemma node_pos_eq_bit:
  assumes "geometry_ok t" "d < max_depth t" "node_pos t k d = node_pos t k' d"
    and "level_lo t d \<le> i" "i < level_lo t d + level_bits t d"
  shows "bit k i \<longleftrightarrow> bit k' i"
proof -
  have "take_bit (level_bits t d) (drop_bit (level_lo t d) k)
      = take_bit (level_bits t d) (drop_bit (level_lo t d) k')"
    using assms(3) unfolding node_pos_eq [OF assms(1,2)] by (rule unsigned_word_eqI)
  then have "bit (take_bit (level_bits t d) (drop_bit (level_lo t d) k)) (i - level_lo t d)
      \<longleftrightarrow> bit (take_bit (level_bits t d) (drop_bit (level_lo t d) k')) (i - level_lo t d)"
    by simp
  moreover have "i - level_lo t d < level_bits t d" using assms(4,5) by linarith
  ultimately show ?thesis using assms(4) by (simp add: bit_take_bit_iff bit_drop_bit_eq)
qed

text \<open>Every bit of a key above the data block bits belongs to a level.\<close>

lemma bit_has_level:
  assumes "geometry_ok t" "data_block_key_bits t \<le> i" "i < key_size t"
  shows "\<exists>d < max_depth t. level_lo t d \<le> i \<and> i < level_lo t d + level_bits t d"
proof -
  have pos: "0 < max_depth t"
  proof (rule ccontr)
    assume "\<not> 0 < max_depth t"
    then have "(key_size t - data_block_key_bits t + node_key_bits t - 1) div node_key_bits t = 0"
      using assms(1) unfolding geometry_ok_def by auto
    with ceiling_div [of "key_size t - data_block_key_bits t" "node_key_bits t"] assms
      geometry_bounds(3) [OF assms(1)] show False by simp
  qed
  note k = key_bits_split [OF assms(1) pos]
  show ?thesis
  proof (cases "i < data_block_key_bits t + last_bits t")
    case True
    with pos assms(2) show ?thesis
      by (intro exI [of _ "max_depth t - 1"]) (simp add: level_lo_def level_bits_def)
  next
    case False
    define j where "j = i - (data_block_key_bits t + last_bits t)"
    define q where "q = j div node_key_bits t"
    have b: "0 < node_key_bits t" using geometry_bounds(3) [OF assms(1)] by simp
    have i: "i = data_block_key_bits t + last_bits t + j" using False by (simp add: j_def)
    have "j < (max_depth t - 1) * node_key_bits t" using i k assms(3) by linarith
    then have q: "q < max_depth t - 1" using b by (simp add: q_def less_mult_imp_div_less)
    have qj: "q * node_key_bits t \<le> j" "j < q * node_key_bits t + node_key_bits t"
      using b dividend_less_div_times [of "node_key_bits t" j]
      by (simp_all add: q_def div_times_less_eq_dividend add.commute)
    define d where "d = max_depth t - 2 - q"
    have "max_depth t - d - 2 = q" "d + 1 \<noteq> max_depth t" "d < max_depth t"
      using q unfolding d_def by linarith+
    then have "level_lo t d = data_block_key_bits t + last_bits t + q * node_key_bits t"
      "level_bits t d = node_key_bits t" "d < max_depth t"
      by (simp_all add: level_lo_def level_bits_def)
    with qj show ?thesis by (intro exI [of _ d]) (simp add: i)
  qed
qed

lemma keys_eqI:
  assumes "geometry_ok t" "valid_key t k" "valid_key t k'"
    and "\<And>d. d < max_depth t \<Longrightarrow> node_pos t k d = node_pos t k' d"
    and "\<And>i. i < data_block_key_bits t \<Longrightarrow> bit k i \<longleftrightarrow> bit k' i"
  shows "k = k'"
proof (rule bit_word_eqI)
  fix i
  consider "i < data_block_key_bits t" | "data_block_key_bits t \<le> i" "i < key_size t" | "key_size t \<le> i"
    by linarith
  then show "bit k i \<longleftrightarrow> bit k' i"
  proof cases
    case 2
    with bit_has_level [OF assms(1)] obtain d where "d < max_depth t" "level_lo t d \<le> i"
      "i < level_lo t d + level_bits t d" by blast
    with node_pos_eq_bit [OF assms(1)] assms(4) show ?thesis by blast
  next
    case 3
    with assms(1-3) not_bit_ge show ?thesis by (auto simp: valid_key_unat)
  qed (use assms(5) in auto)
qed

section \<open>Well-formed tries\<close>

definition block_words :: "trie \<Rightarrow> nat" where
  "block_words t = 2 ^ (max (data_block_key_bits t + item_size_lg t) 6 - 6)"

text \<open>
  The shape of the subtree of a level: nodes above \<open>max_depth\<close>, data blocks at it, and the
  slots that no key selects are null pointers.
\<close>

fun node_ok :: "trie \<Rightarrow> nat \<Rightarrow> node \<Rightarrow> bool" where
  "node_ok t d Null \<longleftrightarrow> d \<le> max_depth t"
| "node_ok t d (Block ws) \<longleftrightarrow> d = max_depth t \<and> length ws = block_words t"
| "node_ok t d (Node xs) \<longleftrightarrow> d < max_depth t \<and> length xs = 2 ^ (level_bits t d + 3)
     \<and> (\<forall>x \<in> set xs. node_ok t (Suc d) x) \<and> (\<forall>x \<in> set (drop (2 ^ level_bits t d) xs). x = Null)"

lemma node_ok_depth: "node_ok t d nd \<Longrightarrow> d \<le> max_depth t"
  by (cases nd) auto

text \<open>What the descent without creation reaches.\<close>

function find_block :: "trie \<Rightarrow> u64 \<Rightarrow> nat \<Rightarrow> node \<Rightarrow> u64 list option" where
  "find_block t key d nd =
     (if nd = Null then None
      else if d \<ge> max_depth t then Some (block_at nd [])
      else find_block t key (Suc d) (child nd (node_pos t key d)))"
  by pat_completeness auto
termination
  by (relation "measure (\<lambda>(t, key, d, nd). max_depth t - d)") auto

declare find_block.simps [simp del]

lemma find_block_Null [simp]: "find_block t key d Null = None"
  by (simp add: find_block.simps)

lemma node_cases_ok:
  assumes "geometry_ok t" "node_ok t d nd" "d < max_depth t" "nd \<noteq> Null"
  obtains xs where "nd = Node xs" "\<And>key. node_pos t key d < length xs"
    "\<And>key. node_ok t (Suc d) (child nd (node_pos t key d))"
proof (cases nd)
  case (Node xs)
  have less: "node_pos t key d < length xs" for key
  proof -
    have "node_pos t key d < 2 ^ level_bits t d" using assms by (intro node_pos_less) auto
    also have "(2 :: nat) ^ level_bits t d \<le> 2 ^ (level_bits t d + 3)" by (intro power_increasing) auto
    finally show ?thesis using assms(2) Node by simp
  qed
  with assms(2) Node show ?thesis by (intro that) (auto simp: child_def)
qed (use assms in auto)

lemma get_node_False:
  assumes "geometry_ok t" "node_ok t d nd"
  shows "map_option (\<lambda>(root, path). block_at root path) (get_node_loop t key False d nd) = find_block t key d nd"
  using assms
proof (induction t key False d nd rule: get_node_loop.induct)
  case (1 t key d nd)
  show ?case
  proof (cases "nd = Null \<or> d \<ge> max_depth t")
    case True
    then show ?thesis
      by (subst get_node_loop.simps, subst find_block.simps) (auto simp: Let_def)
  next
    case False
    then obtain xs where nd: "nd = Node xs" "node_pos t key d < length xs"
      "node_ok t (Suc d) (child nd (node_pos t key d))"
      using "1.prems" node_cases_ok [of t d nd] by (metis linorder_not_le)
    have "map_option (\<lambda>(root, path). block_at root path)
        (get_node_loop t key False (Suc d) (child nd (node_pos t key d)))
      = find_block t key (Suc d) (child nd (node_pos t key d))"
      using False nd "1.prems" by (intro "1.hyps") auto
    with nd False show ?thesis
      by (subst get_node_loop.simps, subst find_block.simps)
        (auto simp: Let_def child_def set_child_def split: option.splits)
  qed
qed

lemma fresh_nodes_ok:
  assumes "geometry_ok t"
  shows "node_ok t (max_depth t) (trie_create_data_block t)"
    and "d < max_depth t \<Longrightarrow> node_ok t d (create_node (trie_get_node_size t d))"
proof -
  have "uint8 (data_block_key_bits t + item_size_lg t) = data_block_key_bits t + item_size_lg t"
    using geometry_bounds [OF assms] by (simp add: uint8_def)
  then show "node_ok t (max_depth t) (trie_create_data_block t)"
    using geometry_bounds [OF assms] by (auto simp: trie_create_data_block_def Let_def BIT32_eq block_words_def max_def)
  assume d: "d < max_depth t"
  then have "unat (BIT64 (level_bits t d + 6)) = 2 ^ (level_bits t d + 6)"
    using node_size_eq [OF assms d] by (intro BIT64_eq) simp
  also have "\<dots> = 2 ^ (level_bits t d + 3) * 8" by (simp add: power_add)
  finally show "node_ok t d (create_node (trie_get_node_size t d))"
    using d node_size_eq [OF assms d] by (simp add: create_node_def ptr_sz_lg_def)
qed

text \<open>The data block that a key would get.\<close>

definition block_or_fresh :: "trie \<Rightarrow> u64 list option \<Rightarrow> u64 list" where
  "block_or_fresh t b = (case b of Some ws \<Rightarrow> ws | None \<Rightarrow> replicate (block_words t) (fill_value t))"

lemma fresh_block:
  assumes "geometry_ok t"
  shows "trie_create_data_block t = Block (replicate (block_words t) (fill_value t))"
  using fresh_nodes_ok(1) [OF assms] by (simp add: trie_create_data_block_def Let_def)

lemma find_block_cong:
  assumes "\<And>e. d \<le> e \<Longrightarrow> e < max_depth t \<Longrightarrow> node_pos t k e = node_pos t k' e"
  shows "find_block t k d nd = find_block t k' d nd"
  using assms
proof (induction t k d nd rule: find_block.induct)
  case (1 t k d nd)
  then show ?case
    by (subst find_block.simps, subst (2) find_block.simps) auto
qed

lemma find_block_leaf: "nd \<noteq> Null \<Longrightarrow> max_depth t \<le> d \<Longrightarrow> find_block t k d nd = Some (block_at nd [])"
  by (simp add: find_block.simps)

lemma find_block_step:
  "nd \<noteq> Null \<Longrightarrow> d < max_depth t \<Longrightarrow> find_block t k d nd = find_block t k (Suc d) (child nd (node_pos t k d))"
  by (simp add: find_block.simps)

text \<open>Opening a null pointer: the new node or block, from which no other block can be reached.\<close>

definition opened :: "trie \<Rightarrow> nat \<Rightarrow> node \<Rightarrow> node" where
  "opened t d nd = (if nd \<noteq> Null then nd
     else if d = max_depth t then trie_create_data_block t else create_node (trie_get_node_size t d))"

lemma opened_facts:
  assumes "geometry_ok t" "node_ok t d nd"
  shows "node_ok t d (opened t d nd)" "opened t d nd \<noteq> Null"
    and "d < max_depth t \<Longrightarrow> find_block t k d (opened t d nd) = find_block t k d nd"
    and "d = max_depth t \<Longrightarrow> block_at (opened t d nd) [] = block_or_fresh t (find_block t k d nd)"
proof -
  have "d \<le> max_depth t" using assms(2) by (rule node_ok_depth)
  with assms fresh_nodes_ok [OF assms(1)] show ok: "node_ok t d (opened t d nd)"
    by (auto simp: opened_def)
  show ne: "opened t d nd \<noteq> Null" by (simp add: opened_def trie_create_data_block_def create_node_def Let_def)
  show "find_block t k d (opened t d nd) = find_block t k d nd" if d: "d < max_depth t"
  proof (cases "nd = Null")
    case True
    obtain xs where xs: "opened t d nd = Node xs" "node_pos t k d < length xs"
      using node_cases_ok [OF assms(1) ok d ne] by metis
    with True d have "child (opened t d nd) (node_pos t k d) = Null"
      by (auto simp: opened_def create_node_def child_def)
    with ne d True show ?thesis by (simp add: find_block_step)
  qed (simp add: opened_def)
  show "block_at (opened t d nd) [] = block_or_fresh t (find_block t k d nd)" if "d = max_depth t"
    using that by (auto simp: opened_def block_or_fresh_def fresh_block [OF assms(1)] find_block_leaf)
qed

lemma get_node_True_step:
  assumes "geometry_ok t" "node_ok t d nd"
  shows "get_node_loop t k True d nd =
     (if d \<ge> max_depth t then Some (opened t d nd, [])
      else case get_node_loop t k True (Suc d) (child (opened t d nd) (node_pos t k d)) of
             None \<Rightarrow> None
           | Some (c, path) \<Rightarrow> Some (set_child (opened t d nd) (node_pos t k d) c, node_pos t k d # path))"
  by (subst get_node_loop.simps) (auto simp: opened_def Let_def split: option.splits)

text \<open>Replacing one child that stays well-formed.\<close>

lemma set_child_ok:
  assumes "geometry_ok t" "node_ok t d nd" "d < max_depth t" "nd \<noteq> Null" "node_ok t (Suc d) c"
  shows "node_ok t d (set_child nd (node_pos t k d) c)" "set_child nd (node_pos t k d) c \<noteq> Null"
    and "child (set_child nd (node_pos t k d) c) (node_pos t k' d)
           = (if node_pos t k' d = node_pos t k d then c else child nd (node_pos t k' d))"
proof -
  obtain xs where xs: "nd = Node xs" "\<And>key. node_pos t key d < length xs"
    using node_cases_ok [OF assms(1-4)] by metis
  have p: "node_pos t k d < 2 ^ level_bits t d" using assms by (intro node_pos_less) auto
  have "drop (2 ^ level_bits t d) (xs[node_pos t k d := c]) = drop (2 ^ level_bits t d) xs"
    using p by (rule drop_update_cancel)
  with xs assms show "node_ok t d (set_child nd (node_pos t k d) c)"
    by (auto simp: set_child_def dest: set_update_subset_insert [THEN subsetD])
  show "set_child nd (node_pos t k d) c \<noteq> Null" using xs by (simp add: set_child_def)
  show "child (set_child nd (node_pos t k d) c) (node_pos t k' d)
      = (if node_pos t k' d = node_pos t k d then c else child nd (node_pos t k' d))"
    using xs by (simp add: set_child_def child_def)
qed

lemma put_block:
  assumes "geometry_ok t" "node_ok t d nd" "\<And>ws. length (f ws) = length ws"
  shows "\<exists>root path nd'. get_node_loop t k True d nd = Some (root, path) \<and> nd' = block_update root path f
     \<and> nd' \<noteq> Null \<and> node_ok t d nd'
     \<and> find_block t k d nd' = Some (f (block_or_fresh t (find_block t k d nd)))
     \<and> (\<forall>k'. (\<exists>e \<ge> d. e < max_depth t \<and> node_pos t k' e \<noteq> node_pos t k e)
           \<longrightarrow> find_block t k' d nd' = find_block t k' d nd)"
  using assms(2)
proof (induction "max_depth t - d" arbitrary: d nd)
  case 0
  then have d: "d = max_depth t" using node_ok_depth by fastforce
  note o = opened_facts [OF assms(1) "0.prems"]
  obtain ws where ws: "opened t d nd = Block ws" using o(1,2) d by (cases "opened t d nd") auto
  with o(1,4) d have "length ws = block_words t" "ws = block_or_fresh t (find_block t k d nd)" by auto
  with d ws show ?case
    by (subst get_node_True_step [OF assms(1) "0.prems"]) (auto simp: assms(3) find_block_leaf)
next
  case (Suc n)
  then have d: "d < max_depth t" by simp
  note o = opened_facts [OF assms(1) Suc.prems]
  let ?o = "opened t d nd" and ?p = "node_pos t k d"
  obtain xs where xs: "?o = Node xs" "?p < length xs" and cok: "node_ok t (Suc d) (child ?o ?p)"
    using node_cases_ok [OF assms(1) o(1) d o(2)] by metis
  have "n = max_depth t - Suc d" using Suc.hyps(2) by simp
  from Suc.hyps(1) [OF this cok] obtain root path nd' where
    IH: "get_node_loop t k True (Suc d) (child ?o ?p) = Some (root, path)"
      "nd' = block_update root path f" "nd' \<noteq> Null" "node_ok t (Suc d) nd'"
      "find_block t k (Suc d) nd' = Some (f (block_or_fresh t (find_block t k (Suc d) (child ?o ?p))))"
      "\<And>k'. \<exists>e \<ge> Suc d. e < max_depth t \<and> node_pos t k' e \<noteq> node_pos t k e \<Longrightarrow>
        find_block t k' (Suc d) nd' = find_block t k' (Suc d) (child ?o ?p)"
    by blast
  let ?nd' = "set_child ?o ?p nd'"
  have g: "get_node_loop t k True d nd = Some (set_child ?o ?p root, ?p # path)"
    using d IH(1) by (subst get_node_True_step [OF assms(1) Suc.prems]) simp
  have u: "block_update (set_child ?o ?p root) (?p # path) f = ?nd'"
    using xs IH(2) by (simp add: set_child_def child_def)
  note c = set_child_ok [OF assms(1) o(1) d o(2) IH(4)]
  have other: "find_block t k' d ?nd' = find_block t k' d nd"
    if "\<exists>e \<ge> d. e < max_depth t \<and> node_pos t k' e \<noteq> node_pos t k e" for k'
  proof -
    have "find_block t k' (Suc d) nd' = find_block t k' (Suc d) (child ?o ?p)" if "node_pos t k' d = ?p"
      using IH(6) [of k'] \<open>\<exists>e \<ge> d. _ e\<close> that by (metis Suc_leI le_neq_implies_less)
    then have "find_block t k' d ?nd' = find_block t k' d ?o"
      using c o(2) d by (simp add: find_block_step)
    with o(3) [OF d] show ?thesis by simp
  qed
  have this_key: "find_block t k d ?nd' = Some (f (block_or_fresh t (find_block t k d nd)))"
    using c o(2) d IH(5) o(3) [OF d, of k] by (simp add: find_block_step)
  show ?case
    by (intro exI [of _ "set_child ?o ?p root"] exI [of _ "?p # path"] exI [of _ ?nd'] conjI allI impI
        g u [symmetric] c(1,2) this_key other)
qed

lemma find_block_length:
  assumes "geometry_ok t" "node_ok t d nd" "find_block t k d nd = Some ws"
  shows "length ws = block_words t"
  using assms
proof (induction t k d nd rule: find_block.induct)
  case (1 t k d nd)
  then have ne: "nd \<noteq> Null" by auto
  show ?case
  proof (cases "d < max_depth t")
    case True
    moreover have "node_ok t (Suc d) (child nd (node_pos t k d))"
      using node_cases_ok [OF 1(2,3) True ne] by metis
    ultimately show ?thesis using 1 ne by (simp add: find_block_step)
  next
    case False
    then have "d = max_depth t" using node_ok_depth [OF 1(3)] by simp
    with ne 1(3,4) show ?thesis by (cases nd) (auto simp: find_block_leaf)
  qed
qed

section \<open>Items in a data block\<close>

definition item_pos :: "trie \<Rightarrow> u64 \<Rightarrow> nat" where
  "item_pos t k = unat k mod 2 ^ data_block_key_bits t div 2 ^ (6 - item_size_lg t)"

definition item_offs :: "trie \<Rightarrow> u64 \<Rightarrow> nat" where
  "item_offs t k = unat k mod 2 ^ (6 - item_size_lg t) * 2 ^ item_size_lg t"

definition item_mask :: "trie \<Rightarrow> u64" where
  "item_mask t = mask (2 ^ item_size_lg t)"

lemma exp_item: "i \<le> 6 \<Longrightarrow> (2 :: nat) ^ (6 - i) * 2 ^ i = 64"
  by (simp flip: power_add)

lemma item_offs_bound:
  assumes "geometry_ok t"
  shows "item_offs t k + 2 ^ item_size_lg t \<le> 64"
proof -
  have "item_offs t k + 2 ^ item_size_lg t = Suc (unat k mod 2 ^ (6 - item_size_lg t)) * 2 ^ item_size_lg t"
    by (simp add: item_offs_def)
  also have "\<dots> \<le> 2 ^ (6 - item_size_lg t) * 2 ^ item_size_lg t"
    by (intro mult_le_mono1) (simp add: Suc_leI)
  finally show ?thesis using exp_item geometry_bounds(1) [OF assms] by simp
qed

lemma unat_and_mask: "unat (k AND mask n :: u64) = unat k mod 2 ^ n"
  by (simp only: take_bit_eq_mask [symmetric] unsigned_take_bit_eq) (simp add: take_bit_eq_mod)

lemma calc_pos_eq:
  assumes "geometry_ok t"
  shows "trie_data_block_calc_pos t k = (item_pos t k, push_bit (item_offs t k) (item_mask t), item_offs t k)"
proof -
  have i: "item_size_lg t \<le> 6" using geometry_bounds [OF assms] by simp
  have pos: "unat (drop_bit (6 - item_size_lg t) (k AND mask (data_block_key_bits t))) = item_pos t k"
    using unat64_less [THEN order.strict_trans1 [OF mod_less_eq_dividend], of k "2 ^ data_block_key_bits t"]
    by (simp only: item_pos_def unsigned_drop_bit_eq unat_and_mask)
      (simp add: drop_bit_eq_div take_bit_nat_eq_self)
  show ?thesis
  proof (cases "item_size_lg t = 6")
    case True
    have "mask 64 = (- 1 :: u64)" by (intro bit_word_eqI) (simp add: bit_simps)
    with True pos show ?thesis
      by (simp add: trie_data_block_calc_pos_def MASK64_eq item_offs_def item_mask_def)
  next
    case False
    have "unat (push_bit (item_size_lg t) (k AND mask (6 - item_size_lg t))) = item_offs t k"
    proof -
      have "item_offs t k < 2 ^ 64" using item_offs_bound [OF assms, of k] by simp
      then show ?thesis
        by (simp only: unsigned_push_bit_eq unat_and_mask item_offs_def)
          (simp add: push_bit_eq_mult take_bit_nat_eq_self)
    qed
    with False pos i show ?thesis
      by (simp add: trie_data_block_calc_pos_def MASK64_eq MASK64_SAFE_eq item_mask_def BIT32_eq Let_def)
  qed
qed

definition get_item :: "trie \<Rightarrow> u64 list \<Rightarrow> u64 \<Rightarrow> u64" where
  "get_item t ws k = drop_bit (item_offs t k) (ws ! item_pos t k AND push_bit (item_offs t k) (item_mask t))"

lemma bit_get_item:
  assumes "geometry_ok t"
  shows "bit (get_item t ws k) j \<longleftrightarrow> j < 2 ^ item_size_lg t \<and> bit (ws ! item_pos t k) (item_offs t k + j)"
  using item_offs_bound [OF assms, of k]
  by (auto simp: get_item_def item_mask_def bit_simps)

lemma item_pos_bound:
  assumes "geometry_ok t"
  shows "item_pos t k < block_words t"
proof (cases "6 - item_size_lg t \<le> data_block_key_bits t")
  case True
  have "unat k mod 2 ^ data_block_key_bits t < 2 ^ data_block_key_bits t" by simp
  also have "\<dots> = 2 ^ (data_block_key_bits t + item_size_lg t - 6) * 2 ^ (6 - item_size_lg t)"
    using True geometry_bounds(1) [OF assms] by (simp flip: power_add)
  finally have "item_pos t k < 2 ^ (data_block_key_bits t + item_size_lg t - 6)"
    unfolding item_pos_def by (rule less_mult_imp_div_less)
  moreover have "max (data_block_key_bits t + item_size_lg t) 6 = data_block_key_bits t + item_size_lg t"
    using True by simp
  ultimately show ?thesis by (simp add: block_words_def)
next
  case False
  have "unat k mod 2 ^ data_block_key_bits t < 2 ^ data_block_key_bits t" by simp
  also have "(2 :: nat) ^ data_block_key_bits t \<le> 2 ^ (6 - item_size_lg t)"
    using False by (intro power_increasing) auto
  finally show ?thesis using False by (simp add: item_pos_def block_words_def max_def)
qed

text \<open>Keys of one data block that share the item are the same below \<open>data_block_key_bits\<close>.\<close>

lemma same_item:
  assumes "geometry_ok t" "item_pos t k = item_pos t k'" "item_offs t k = item_offs t k'"
  shows "unat k mod 2 ^ data_block_key_bits t = unat k' mod 2 ^ data_block_key_bits t"
proof -
  let ?m = "2 ^ (6 - item_size_lg t) :: nat" and ?n = "2 ^ data_block_key_bits t :: nat"
  have low: "unat k mod ?m = unat k' mod ?m" using assms(3) by (simp add: item_offs_def)
  show ?thesis
  proof (cases "6 - item_size_lg t \<le> data_block_key_bits t")
    case True
    then have "?m dvd ?n" by (rule le_imp_power_dvd)
    then have "unat k mod ?n mod ?m = unat k' mod ?n mod ?m" using low by (simp add: mod_mod_cancel)
    moreover have "unat k mod ?n div ?m = unat k' mod ?n div ?m" using assms(2) by (simp add: item_pos_def)
    ultimately show ?thesis by (metis mult_div_mod_eq)
  next
    case False
    then have "?n dvd ?m" by (intro le_imp_power_dvd) simp
    then have "unat k mod ?m mod ?n = unat k mod ?n" "unat k' mod ?m mod ?n = unat k' mod ?n"
      by (simp_all only: mod_mod_cancel)
    with low show ?thesis by simp
  qed
qed

lemma length_block_set [simp]: "length (block_set t k v ws) = length ws"
  by (simp add: block_set_def split: prod.splits)

lemma get_set_same:
  assumes "geometry_ok t" "length ws = block_words t"
  shows "get_item t (block_set t k v ws) k = v AND item_mask t"
  using item_pos_bound [OF assms(1), of k] assms item_offs_bound [OF assms(1), of k]
  by (intro bit_word_eqI) (auto simp: bit_get_item block_set_def calc_pos_eq item_mask_def bit_simps)

lemma item_offs_apart:
  assumes "item_offs t k \<noteq> item_offs t k'" "i < 2 ^ item_size_lg t" "item_offs t k \<le> item_offs t k' + i"
  shows "item_offs t k + 2 ^ item_size_lg t \<le> item_offs t k' + i"
proof -
  let ?m = "2 ^ item_size_lg t :: nat"
  obtain a b where ab: "item_offs t k = a * ?m" "item_offs t k' = b * ?m" unfolding item_offs_def by blast
  have "a * ?m < Suc b * ?m" using assms(2,3) by (simp add: ab)
  then have "a < Suc b" by (rule mult_less_cancel2 [THEN iffD1, THEN conjunct2])
  with assms(1) ab have "Suc a \<le> b" by (cases "a = b") auto
  then have "Suc a * ?m \<le> b * ?m" by (rule mult_le_mono1)
  then show ?thesis by (simp add: ab)
qed

lemma get_set_other:
  assumes "geometry_ok t" "item_pos t k \<noteq> item_pos t k' \<or> item_offs t k \<noteq> item_offs t k'"
  shows "get_item t (block_set t k v ws) k' = get_item t ws k'"
proof (cases "item_pos t k = item_pos t k' \<and> item_pos t k < length ws")
  case True
  with assms(2) have "item_offs t k \<noteq> item_offs t k'" by simp
  note apart = item_offs_apart [OF this]
  show ?thesis
  proof (rule bit_word_eqI)
    fix j
    have "\<not> (j < 2 ^ item_size_lg t \<and> item_offs t k \<le> item_offs t k' + j
            \<and> item_offs t k' + j < item_offs t k + 2 ^ item_size_lg t)"
      using apart by force
    then show "bit (get_item t (block_set t k v ws) k') j \<longleftrightarrow> bit (get_item t ws k') j"
      using True assms(1) item_offs_bound [OF assms(1), of k']
      by (auto simp: bit_get_item block_set_def calc_pos_eq item_mask_def bit_simps)
  qed
next
  case False
  then have "block_set t k v ws ! item_pos t k' = ws ! item_pos t k'"
    by (cases "item_pos t k = item_pos t k'")
      (simp_all add: block_set_def calc_pos_eq [OF assms(1)] list_update_beyond)
  then show ?thesis by (simp add: get_item_def)
qed

section \<open>The trie as a function\<close>

text \<open>
  \<open>fill_value\<close> repeats \<open>empty_value\<close>, so that the items of a fresh data block are empty.
\<close>

definition fill_ok :: "trie \<Rightarrow> bool" where
  "fill_ok t \<longleftrightarrow> (\<forall>i < 64. bit (fill_value t) i \<longleftrightarrow> bit (empty_value t) (i mod 2 ^ item_size_lg t))
     \<and> (\<forall>i \<ge> 2 ^ item_size_lg t. \<not> bit (empty_value t) i)"

definition trie_ok :: "trie \<Rightarrow> bool" where
  "trie_ok t \<longleftrightarrow> geometry_ok t \<and> node_ok t 0 (data t) \<and> fill_ok t"

lemma get_item_fresh:
  assumes "geometry_ok t" "fill_ok t"
  shows "get_item t (replicate (block_words t) (fill_value t)) k = empty_value t"
proof (rule bit_word_eqI)
  fix j
  show "bit (get_item t (replicate (block_words t) (fill_value t)) k) j \<longleftrightarrow> bit (empty_value t) j"
  proof (cases "j < 2 ^ item_size_lg t")
    case True
    then have "(item_offs t k + j) mod 2 ^ item_size_lg t = j" by (simp add: item_offs_def)
    with True assms item_offs_bound [OF assms(1), of k] item_pos_bound [OF assms(1), of k] show ?thesis
      by (simp add: bit_get_item fill_ok_def)
  next
    case False
    with assms show ?thesis by (simp add: bit_get_item fill_ok_def)
  qed
qed

lemma trie_get_eq:
  assumes "trie_ok t" "valid_key t k"
  shows "trie_get t k = get_item t (block_or_fresh t (find_block t k 0 (data t))) k"
proof -
  have ok: "geometry_ok t" "node_ok t 0 (data t)" "fill_ok t" using assms(1) by (auto simp: trie_ok_def)
  have "trie_get_node t k False = get_node_loop t k False 0 (data t)"
    using assms(2) by (auto simp: trie_get_node_def valid_key_def)
  then show ?thesis
    using get_node_False [OF ok(1,2), of k] get_item_fresh [OF ok(1,3), of k]
    by (simp add: trie_get_def trie_data_block_get_def calc_pos_eq [OF ok(1)] block_or_fresh_def
        get_item_def split: option.splits)
qed

lemma trie_get_invalid: "\<not> valid_key t k \<Longrightarrow> trie_get t k = empty_value t"
  by (simp add: trie_get_def trie_get_node_def valid_key_def trie_data_block_get_def)

text \<open>Nothing but the data changes.\<close>

lemma update_data_geometry [simp]:
  "trie_get_node_size (t\<lparr>data := x\<rparr>) = trie_get_node_size t"
  "trie_get_node_bit_offs (t\<lparr>data := x\<rparr>) = trie_get_node_bit_offs t"
  "node_pos (t\<lparr>data := x\<rparr>) = node_pos t" "level_bits (t\<lparr>data := x\<rparr>) = level_bits t"
  "block_words (t\<lparr>data := x\<rparr>) = block_words t" "geometry_ok (t\<lparr>data := x\<rparr>) = geometry_ok t"
  "fill_ok (t\<lparr>data := x\<rparr>) = fill_ok t" "valid_key (t\<lparr>data := x\<rparr>) = valid_key t"
  "get_item (t\<lparr>data := x\<rparr>) = get_item t" "block_or_fresh (t\<lparr>data := x\<rparr>) = block_or_fresh t"
  "item_mask (t\<lparr>data := x\<rparr>) = item_mask t"
  by (auto simp: fun_eq_iff trie_get_node_size_def trie_get_node_bit_offs_def node_pos_def level_bits_def
      last_bits_def block_words_def geometry_ok_def fill_ok_def valid_key_def get_item_def item_offs_def
      item_pos_def item_mask_def block_or_fresh_def Let_def split: option.splits)

lemma update_data_node_ok [simp]: "node_ok (t\<lparr>data := x\<rparr>) d nd = node_ok t d nd"
  by (induction t d nd rule: node_ok.induct) auto

lemma update_data_find_block [simp]: "find_block (t\<lparr>data := x\<rparr>) k d nd = find_block t k d nd"
proof (induction t k d nd rule: find_block.induct)
  case (1 t k d nd)
  then show ?case by (subst find_block.simps, subst (2) find_block.simps) simp
qed

lemma trie_set_effect:
  assumes "trie_ok t" "valid_key t k"
  obtains t' where "trie_set t k v = (True, t')" "trie_ok t'" "valid_key t' = valid_key t"
    "item_mask t' = item_mask t" "empty_value t' = empty_value t"
    "trie_get t' k = v AND item_mask t"
    "\<And>k'. valid_key t k' \<Longrightarrow> k' \<noteq> k \<Longrightarrow> trie_get t' k' = trie_get t k'"
proof -
  have ok: "geometry_ok t" "node_ok t 0 (data t)" "fill_ok t" using assms(1) by (auto simp: trie_ok_def)
  let ?f = "block_set t k v" and ?b = "block_or_fresh t (find_block t k 0 (data t))"
  obtain root path nd' where put: "get_node_loop t k True 0 (data t) = Some (root, path)"
      "nd' = block_update root path ?f" "node_ok t 0 nd'" "find_block t k 0 nd' = Some (?f ?b)"
    and other: "\<And>k'. \<exists>e. e < max_depth t \<and> node_pos t k' e \<noteq> node_pos t k e \<Longrightarrow>
      find_block t k' 0 nd' = find_block t k' 0 (data t)"
    using put_block [OF ok(1,2), of ?f k] by auto
  let ?t = "t\<lparr>data := nd'\<rparr>"
  have set: "trie_set t k v = (True, ?t)"
    using assms(2) put by (simp add: trie_set_def trie_get_node_def valid_key_def)
  have tok: "trie_ok ?t" using ok put by (simp add: trie_ok_def)
  have len: "length ?b = block_words t"
    using find_block_length [OF ok(1,2)] by (auto simp: block_or_fresh_def split: option.splits)
  have "trie_get ?t k = v AND item_mask t"
    using tok assms(2) put(4) len
    by (simp add: trie_get_eq block_or_fresh_def [of _ "Some _"] get_set_same [OF ok(1)])
  moreover have "trie_get ?t k' = trie_get t k'" if k': "valid_key t k'" "k' \<noteq> k" for k'
  proof (cases "\<exists>e. e < max_depth t \<and> node_pos t k' e \<noteq> node_pos t k e")
    case True
    with other tok k' assms(1) show ?thesis by (simp add: trie_get_eq)
  next
    case False
    then have same: "find_block t k' 0 nd = find_block t k 0 nd" for nd
      by (intro find_block_cong) auto
    have "\<not> (item_pos t k = item_pos t k' \<and> item_offs t k = item_offs t k')"
    proof
      assume "item_pos t k = item_pos t k' \<and> item_offs t k = item_offs t k'"
      then have "unat k' mod 2 ^ data_block_key_bits t = unat k mod 2 ^ data_block_key_bits t"
        using same_item [OF ok(1)] by metis
      then have "take_bit (data_block_key_bits t) k' = take_bit (data_block_key_bits t) k"
        by (intro unsigned_word_eqI [where 'a = nat])
          (simp only: unsigned_take_bit_eq, simp add: take_bit_eq_mod)
      then have "bit k' i \<longleftrightarrow> bit k i" if "i < data_block_key_bits t" for i
        using that by (metis bit_take_bit_iff)
      with False k' assms(2) have "k' = k" by (intro keys_eqI [OF ok(1)]) auto
      with k'(2) show False by simp
    qed
    with same tok k' assms(1) put(4) show ?thesis
      by (simp add: trie_get_eq block_or_fresh_def [of _ "Some _"] get_set_other [OF ok(1)])
  qed
  ultimately show ?thesis using that [of ?t] set tok by simp
qed

section \<open>Creation\<close>

lemma fill_loop_bits:
  assumes "item \<le> 6" "lg + n = 6" "item \<le> lg" "\<And>i. bit v i \<longleftrightarrow> i < 2 ^ lg \<and> bit e (i mod 2 ^ item)"
  shows "bit (fill_loop n lg v) i \<longleftrightarrow> i < 64 \<and> bit e (i mod 2 ^ item)"
  using assms(2-4)
proof (induction n arbitrary: lg v)
  case 0
  then have "lg = 6" by simp
  with 0 show ?case by simp
next
  case (Suc n)
  have lg: "lg < 6" "(2 :: nat) ^ item dvd 2 ^ lg" "BIT32 lg = 2 ^ lg"
    using Suc.prems by (auto intro: le_imp_power_dvd simp: BIT32_eq)
  have le: "(2 :: nat) ^ Suc lg \<le> 2 ^ 6" using lg(1) by (intro power_increasing) auto
  have "bit (v OR push_bit (BIT32 lg) v) i \<longleftrightarrow> i < 2 ^ Suc lg \<and> bit e (i mod 2 ^ item)" for i
  proof (cases "i < 2 ^ lg")
    case True
    then show ?thesis using Suc.prems(3) lg by (simp add: bit_simps)
  next
    case False
    then obtain j where j: "i = 2 ^ lg + j" by (metis le_Suc_ex not_less)
    have m: "i mod 2 ^ item = j mod 2 ^ item"
      using lg(2) by (auto simp: j elim!: dvdE)
    have "bit (v OR push_bit (BIT32 lg) v) i \<longleftrightarrow> i < 64 \<and> bit v j"
      using Suc.prems(3) [of i] False by (simp add: lg(3) j bit_or_iff bit_push_bit_iff)
    also have "\<dots> \<longleftrightarrow> i < 64 \<and> j < 2 ^ lg \<and> bit e (i mod 2 ^ item)"
      using Suc.prems(3) [of j] m by simp
    also have "\<dots> \<longleftrightarrow> i < 2 ^ Suc lg \<and> bit e (i mod 2 ^ item)"
      using le unfolding j by auto
    finally show ?thesis .
  qed
  then show ?case
    using Suc.IH [of "Suc lg"] Suc.prems lg by simp
qed

lemma trie_create_ok:
  assumes "trie_create ks item nkb dbk e = Some t" "nkb \<le> 57" "dbk + item \<le> 37"
  shows "trie_ok t" "item_mask t = mask (2 ^ item)" "\<And>k. trie_get t k = e AND item_mask t"
    "\<And>k. valid_key t k \<longleftrightarrow> unat k < 2 ^ ks"
proof -
  let ?e = "e AND mask (2 ^ item) :: u64"
  have b: "item \<le> 6" "ks \<le> 64" "1 \<le> nkb" "1 \<le> dbk" "dbk \<le> ks"
    and t: "t = \<lparr>empty_value = ?e, fill_value = fill_loop (6 - item) item ?e, data = Null, key_size = ks,
      item_size_lg = item, node_key_bits = nkb, data_block_key_bits = dbk,
      max_depth = uint8 ((ks - dbk + nkb - 1) div nkb)\<rparr>"
    using assms(1) by (auto simp: trie_create_def Let_def MASK64_SAFE_eq BIT32_eq split: if_splits)
  have "(ks - dbk + nkb - 1) div nkb \<le> 121"
    using b assms(2) by (intro order_trans [OF div_le_dividend]) auto
  then have m: "uint8 ((ks - dbk + nkb - 1) div nkb) = (ks - dbk + nkb - 1) div nkb"
    by (simp add: uint8_def)
  have geo: "geometry_ok t" using b assms(2,3) m by (simp add: t geometry_ok_def)
  define w where "w = ?e"
  have w: "bit w i \<longleftrightarrow> i < 2 ^ item \<and> bit w (i mod 2 ^ item)" for i
    by (cases "i < 2 ^ item") (simp_all add: w_def bit_and_iff bit_mask_iff)
  have "bit (fill_loop (6 - item) item w) i \<longleftrightarrow> i < 64 \<and> bit w (i mod 2 ^ item)" for i
    by (rule fill_loop_bits [OF b(1) _ order_refl w]) (use b(1) in simp)
  moreover have "empty_value t = w" "fill_value t = fill_loop (6 - item) item w" "item_size_lg t = item"
    by (simp_all add: t w_def)
  ultimately have fill: "fill_ok t"
    unfolding fill_ok_def using w not_less by metis
  show ok: "trie_ok t" using geo fill by (simp add: trie_ok_def, simp add: t)
  show im: "item_mask t = mask (2 ^ item)" by (simp add: t item_mask_def)
  show "valid_key t k \<longleftrightarrow> unat k < 2 ^ ks" for k
    using valid_key_unat [OF geo] by (simp add: t)
  show "trie_get t k = e AND item_mask t" for k
  proof (cases "valid_key t k")
    case True
    have "find_block t k 0 (data t) = None" by (simp add: t)
    with True ok get_item_fresh [OF geo fill] show ?thesis
      by (simp add: trie_get_eq block_or_fresh_def im) (simp add: t)
  next
    case False
    then show ?thesis by (simp add: trie_get_invalid im) (simp add: t)
  qed
qed

section \<open>The interface\<close>

text \<open>
  What the users of a trie rely on: a store of masked values, total on the valid keys.
\<close>

locale key_store =
  fixes store_ok :: "'s \<Rightarrow> bool"
    and valid :: "'s \<Rightarrow> u64 \<Rightarrow> bool"
    and width_mask :: "'s \<Rightarrow> u64"
    and lookup :: "'s \<Rightarrow> u64 \<Rightarrow> u64"
    and assign :: "'s \<Rightarrow> u64 \<Rightarrow> u64 \<Rightarrow> 's"
  assumes assign_ok: "store_ok s \<Longrightarrow> valid s k \<Longrightarrow>
      store_ok (assign s k v) \<and> valid (assign s k v) = valid s \<and> width_mask (assign s k v) = width_mask s"
    and lookup_assign: "store_ok s \<Longrightarrow> valid s k \<Longrightarrow> valid s k' \<Longrightarrow>
      lookup (assign s k v) k' = (if k' = k then v AND width_mask s else lookup s k')"
begin

definition assign_all :: "(u64 \<times> u64) list \<Rightarrow> 's \<Rightarrow> 's" where
  "assign_all kvs s = fold (\<lambda>(k, v) s. assign s k v) kvs s"

lemma assign_all_ok:
  "store_ok s \<Longrightarrow> list_all (\<lambda>(k, v). valid s k) kvs \<Longrightarrow>
     store_ok (assign_all kvs s) \<and> valid (assign_all kvs s) = valid s
     \<and> width_mask (assign_all kvs s) = width_mask s"
proof (induction kvs arbitrary: s)
  case (Cons kv kvs)
  then show ?case
    using assign_ok [of s "fst kv" "snd kv"] by (cases kv) (simp add: assign_all_def)
qed (simp add: assign_all_def)

lemma lookup_assign_all:
  "store_ok s \<Longrightarrow> list_all (\<lambda>(k, v). valid s k) kvs \<Longrightarrow> valid s k \<Longrightarrow>
     lookup (assign_all kvs s) k = (case map_of (rev kvs) k of Some v \<Rightarrow> v AND width_mask s | None \<Rightarrow> lookup s k)"
proof (induction kvs rule: rev_induct)
  case (snoc kv kvs)
  then have ok: "store_ok (assign_all kvs s)" "valid (assign_all kvs s) = valid s"
    "width_mask (assign_all kvs s) = width_mask s"
    using assign_all_ok [of s kvs] by simp_all
  have "assign_all (kvs @ [kv]) s = assign (assign_all kvs s) (fst kv) (snd kv)"
    by (simp add: assign_all_def case_prod_unfold)
  with snoc ok lookup_assign [OF ok(1), of "fst kv" k "snd kv"] show ?case
    by (cases kv) auto
qed (simp add: assign_all_def)

end

interpretation tr: key_store trie_ok valid_key item_mask trie_get "\<lambda>t k v. snd (trie_set t k v)"
proof
  fix t k k' v
  assume t: "trie_ok t" "valid_key t k"
  obtain t' where t': "trie_set t k v = (True, t')" "trie_ok t'" "valid_key t' = valid_key t"
    "item_mask t' = item_mask t" "trie_get t' k = v AND item_mask t"
    "\<And>k'. valid_key t k' \<Longrightarrow> k' \<noteq> k \<Longrightarrow> trie_get t' k' = trie_get t k'"
    using trie_set_effect [OF t] by metis
  then show "trie_ok (snd (trie_set t k v)) \<and> valid_key (snd (trie_set t k v)) = valid_key t
      \<and> item_mask (snd (trie_set t k v)) = item_mask t"
    by simp
  show "trie_get (snd (trie_set t k v)) k' = (if k' = k then v AND item_mask t else trie_get t k')"
    if "valid_key t k'"
    using t' that by simp
qed

section \<open>Properties\<close>

definition set_all :: "(u64 \<times> u64) list \<Rightarrow> trie \<Rightarrow> trie" where
  "set_all kvs t = fold (\<lambda>(k, v) t. snd (trie_set t k v)) kvs t"

lemma set_all_eq: "set_all kvs t = tr.assign_all kvs t"
  by (simp add: set_all_def tr.assign_all_def)

text \<open>
  C6: A trie is a function from keys to values: after creation and any sequence of \<open>trie_set\<close>
  calls with keys of \<open>key_size\<close> bits, \<open>trie_get\<close> returns for every key the low
  \<open>2 ^ item_size_lg\<close> bits of the value last stored for it, and those of \<open>empty_value\<close> when
  nothing was stored.  The keys and items of one node or data block do not disturb each other.
\<close>

theorem trie_last_write:
  assumes "trie_create ks item nkb dbk e = Some t" "nkb \<le> 57" "dbk + item \<le> 37"
    and "list_all (\<lambda>(k, v). unat k < 2 ^ ks) kvs" "unat k < 2 ^ ks"
  shows "trie_get (set_all kvs t) k
     = (case map_of (rev kvs) k of Some v \<Rightarrow> v | None \<Rightarrow> e) AND mask (2 ^ item)"
proof -
  note c = trie_create_ok [OF assms(1-3)]
  have "trie_get (set_all kvs t) k
      = (case map_of (rev kvs) k of Some v \<Rightarrow> v AND item_mask t | None \<Rightarrow> trie_get t k)"
    unfolding set_all_eq using assms(4,5) c by (intro tr.lookup_assign_all) auto
  with c show ?thesis by (auto split: option.splits)
qed

text \<open>A trie of the geometry that strace uses for process ids.\<close>

theorem trie_last_write_witness:
  "\<exists>t. trie_create 15 5 4 4 0 = Some t \<and> trie_get (set_all [(100, 7), (101, 8), (100, 9)] t) 100 = 9
     \<and> trie_get (set_all [(100, 7), (101, 8), (100, 9)] t) 4196 = 0"
proof -
  obtain t where t: "trie_create 15 5 4 4 0 = Some t" by (simp add: trie_create_def Let_def)
  have m: "mask 32 = (4294967295 :: u64)" by (simp add: mask_eq_exp_minus_1)
  show ?thesis
    using t trie_last_write [OF t, of "[(100, 7), (101, 8), (100, 9)]" 100]
      trie_last_write [OF t, of "[(100, 7), (101, 8), (100, 9)]" 4196]
    by (auto simp: m)
qed

text \<open>
  A key of more than \<open>key_size\<close> bits is rejected: \<open>trie_set\<close> returns false and changes
  nothing, and \<open>trie_get\<close> returns the empty value.
\<close>

lemma trie_long_key:
  assumes "trie_ok t" "2 ^ key_size t \<le> unat k"
  shows "trie_set t k v = (False, t) \<and> trie_get t k = empty_value t"
proof -
  have "\<not> valid_key t k" using assms valid_key_unat [of t k] by (simp add: trie_ok_def)
  then show ?thesis
    by (simp add: trie_get_invalid) (simp add: trie_set_def trie_get_node_def valid_key_def)
qed

lemma trie_long_key_witness:
  "\<exists>t. trie_create 15 5 4 4 3 = Some t \<and> trie_set t 32768 1 = (False, t)"
proof -
  obtain t where t: "trie_create 15 5 4 4 3 = Some t" by (simp add: trie_create_def Let_def)
  then have "key_size t = 15" by (auto simp: trie_create_def Let_def)
  with t trie_create_ok(1) [OF t] trie_long_key [of t 32768 1] show ?thesis by auto
qed

text \<open>The allocations of a subtree.\<close>

fun node_count :: "node \<Rightarrow> nat" where
  "node_count Null = 0"
| "node_count (Block ws) = 1"
| "node_count (Node xs) = 1 + sum_list (map node_count xs)"

lemma sum_node_count_Null: "\<forall>x \<in> set xs. x = Null \<Longrightarrow> sum_list (map node_count xs) = 0"
  by (induction xs) auto

lemma free_node_count:
  assumes "geometry_ok t" "node_ok t d nd"
  shows "trie_free_node t nd d = node_count nd"
  using assms
proof (induction t nd d rule: trie_free_node.induct)
  case (1 t nd d)
  show ?case
  proof (cases nd)
    case (Node xs)
    let ?n = "2 ^ level_bits t d :: nat"
    have d: "d < max_depth t" and len: "?n \<le> length xs"
      and ch: "\<And>x. x \<in> set xs \<Longrightarrow> node_ok t (Suc d) x"
      and rest: "\<forall>x \<in> set (drop ?n xs). x = Null"
      using "1.prems"(2) Node by (auto intro: power_increasing)
    have n: "unat (BIT64 (trie_get_node_size t d - ptr_sz_lg)) = ?n"
      using node_size_eq [OF "1.prems"(1) d] by (simp add: BIT64_eq)
    have "trie_free_node t (child nd i) (Suc d) = node_count (xs ! i)" if "i < ?n" for i
      using "1.IH" [of i] ch "1.prems"(1) that len d Node n by (auto simp: child_def)
    then have "map (\<lambda>i. trie_free_node t (child nd i) (Suc d)) [0..<?n] = map node_count (take ?n xs)"
      using len by (intro nth_equalityI) auto
    moreover have "sum_list (map node_count xs)
        = sum_list (map node_count (take ?n xs)) + sum_list (map node_count (drop ?n xs))"
      by (simp flip: sum_list_append map_append)
    ultimately show ?thesis
      using d Node n sum_node_count_Null [OF rest] by (subst trie_free_node.simps) simp
  next
    case (Block ws)
    with "1.prems" show ?thesis by (subst trie_free_node.simps) simp
  qed (simp add: trie_free_node.simps)
qed

text \<open>
  \<open>trie_free\<close> frees everything: it visits only the slots that keys select, and in a trie
  that the operations built it still frees every node, every data block and the trie itself.
\<close>

lemma trie_free_all:
  assumes "trie_ok t"
  shows "trie_free t = node_count (data t) + 1"
  using assms by (simp add: trie_free_def trie_ok_def free_node_count)

lemma trie_free_all_witness:
  "\<exists>t. trie_create 15 5 4 4 0 = Some t
     \<and> trie_free (snd (trie_set t 100 7)) = node_count (data (snd (trie_set t 100 7))) + 1"
proof -
  obtain t where t: "trie_create 15 5 4 4 0 = Some t" by (simp add: trie_create_def Let_def)
  have "trie_ok t" "valid_key t 100" using trie_create_ok [OF t] by simp_all
  then have "trie_ok (snd (trie_set t 100 7))" using tr.assign_ok by blast
  with t trie_free_all show ?thesis by blast
qed

end
