(* ===== verification/Mmap_Cache.thy ===== *)
theory Mmap_Cache
  imports Xmalloc Cstring "HOL-Library.Monad_Syntax"
begin

text \<open>
  The cache of a process's memory mappings, \<^verbatim>\<open>mmap_cache.c\<close>, and the notification of mapping
  changes, \<^verbatim>\<open>mmap_notify.c\<close>, that invalidates it.  The contents of \<^verbatim>\<open>/proc/PID/maps\<close> is the
  argument of the rebuild, which parses it with the \<open>fgets\<close> and \<open>sscanf\<close> of the C library.
  The theorems: a rebuilt cache is sorted and free of overlaps, the binary search finds
  exactly the mapping that contains an address, and an invalidated cache is never used.
\<close>

section \<open>The C library functions the sources call\<close>

text \<open>
  \<open>fgets(buffer, size, fp)\<close> on the remaining contents of a file: at most \<open>size - 1\<close>
  characters, up to and including the first newline.  The contents has no NUL.
\<close>

definition fgets :: "nat \<Rightarrow> string \<Rightarrow> (string \<times> string) option" where
  "fgets sz s =
     (if s = [] then None
      else let t = take (sz - 1) s;
               n = length (takeWhile (\<lambda>c. c \<noteq> CHR 0x0A) t)
           in if n < length t then Some (take (Suc n) s, drop (Suc n) s)
              else Some (t, drop (sz - 1) s))"

lemma fgets_shorter: "fgets sz s = Some (line, rest) \<Longrightarrow> 2 \<le> sz \<Longrightarrow> length rest < length s"
  by (cases s) (auto simp: fgets_def Let_def split: if_splits)

function fgets_all :: "nat \<Rightarrow> string \<Rightarrow> string list" where
  "fgets_all sz s =
     (if sz < 2 then []
      else case fgets sz s of None \<Rightarrow> [] | Some (line, rest) \<Rightarrow> line # fgets_all sz rest)"
  by pat_completeness auto
termination
  by (relation "measure (\<lambda>(sz, s). length s)") (auto dest: fgets_shorter)

declare fgets_all.simps [simp del]

text \<open>
  The conversions of \<open>sscanf\<close>, each with what it stores and the rest of the input; \<open>None\<close> is a
  matching or input failure.  \<open>%lx\<close> is \<open>strtoul\<close> in base 16, \<open>%*d\<close> skips a decimal integer, a
  space in the format skips white space.
\<close>

definition scan_sign :: "string \<Rightarrow> bool \<times> string" where
  "scan_sign s =
     (case s of [] \<Rightarrow> (False, [])
      | c # r \<Rightarrow> if c = CHR ''-'' then (True, r) else if c = CHR ''+'' then (False, r) else (False, s))"

definition ishex :: "char \<Rightarrow> bool" where
  "ishex c \<longleftrightarrow> hex_val c \<noteq> None"

definition scan_lx :: "string \<Rightarrow> (u64 \<times> string) option" where
  "scan_lx str =
     (let (neg, body) = scan_sign (dropWhile isspace str);
          body = (case body of z # x # r \<Rightarrow> if z = CHR ''0'' \<and> tolower x = CHR ''x'' then r else body
                  | _ \<Rightarrow> body);
          ds = takeWhile ishex body;
          v = base_val 16 ds
      in if ds = [] then None
         else Some (if v \<ge> 2 ^ 64 then -1 else if neg then - of_nat v else of_nat v,
                    dropWhile ishex body))"

definition scan_char :: "string \<Rightarrow> (char \<times> string) option" where
  "scan_char s = (case s of [] \<Rightarrow> None | c # r \<Rightarrow> Some (c, r))"

definition scan_lit :: "char \<Rightarrow> string \<Rightarrow> string option" where
  "scan_lit c s = (case s of [] \<Rightarrow> None | d # r \<Rightarrow> if c = d then Some r else None)"

definition scan_space :: "string \<Rightarrow> string" where
  "scan_space s = dropWhile isspace s"

definition scan_skip_d :: "string \<Rightarrow> string option" where
  "scan_skip_d str =
     (let body = snd (scan_sign (dropWhile isspace str))
      in if takeWhile isdigit body = [] then None else Some (dropWhile isdigit body))"

definition scan_line :: "string \<Rightarrow> string option" where
  "scan_line s = (let t = takeWhile (\<lambda>c. c \<noteq> CHR 0x0A) s in if t = [] then None else Some t)"

section \<open>State\<close>

record mmap_cache_entry_t =
  start_addr :: u64
  end_addr :: u64
  mmap_offset :: u64
  protections :: u8
  major :: u64
  minor :: u64
  binary_filename :: string

text \<open>
  \<open>entry\<close> holds the initialised slots of the array, \<open>csize\<close> (the C member \<open>size\<close>) how many
  of them are in use.
\<close>

record mmap_cache_t =
  entry :: "mmap_cache_entry_t list"
  csize :: u32
  generation :: u32

text \<open>
  The functions that the sources register with \<open>mmap_notify_register_client\<close>, and the static
  variables they and their registration use.
\<close>

datatype mmap_client = Mmap_cache_invalidate | Update_mapping_generation

record mmap_state =
  mmap_cache_generation :: u32
  use_mmap_cache :: bool
  mapping_generation :: u64
  clients :: "mmap_client list"

definition MMAP_CACHE_PROT_READABLE :: u8 where "MMAP_CACHE_PROT_READABLE = push_bit 0 1"
definition MMAP_CACHE_PROT_WRITABLE :: u8 where "MMAP_CACHE_PROT_WRITABLE = push_bit 1 1"
definition MMAP_CACHE_PROT_EXECUTABLE :: u8 where "MMAP_CACHE_PROT_EXECUTABLE = push_bit 2 1"
definition MMAP_CACHE_PROT_SHARED :: u8 where "MMAP_CACHE_PROT_SHARED = push_bit 3 1"

datatype mmap_cache_rebuild_result =
    MMAP_CACHE_REBUILD_NOCACHE
  | MMAP_CACHE_REBUILD_READY
  | MMAP_CACHE_REBUILD_RENEWED

section \<open>Notification\<close>

definition mmap_notify_register_client :: "mmap_client \<Rightarrow> mmap_state \<Rightarrow> mmap_state" where
  "mmap_notify_register_client fn st = st\<lparr>clients := fn # clients st\<rparr>"

definition mmap_cache_invalidate :: "mmap_state \<Rightarrow> mmap_state" where
  "mmap_cache_invalidate st = st\<lparr>mmap_cache_generation := mmap_cache_generation st + 1\<rparr>"

definition update_mapping_generation :: "mmap_state \<Rightarrow> mmap_state" where
  "update_mapping_generation st = st\<lparr>mapping_generation := mapping_generation st + 1\<rparr>"

fun call_client :: "mmap_client \<Rightarrow> mmap_state \<Rightarrow> mmap_state" where
  "call_client Mmap_cache_invalidate st = mmap_cache_invalidate st"
| "call_client Update_mapping_generation st = update_mapping_generation st"

definition mmap_notify_report :: "mmap_state \<Rightarrow> mmap_state" where
  "mmap_notify_report st = fold call_client (clients st) st"

definition mmap_cache_enable :: "mmap_state \<Rightarrow> mmap_state" where
  "mmap_cache_enable st =
     (if use_mmap_cache st then st
      else (mmap_notify_register_client Mmap_cache_invalidate st)\<lparr>use_mmap_cache := True\<rparr>)"

section \<open>Rebuilding\<close>

text \<open>The ten fields of \<open>"%lx-%lx %c%c%c%c %lx %lx:%lx %*d %[^\n]"\<close>.\<close>

record maps_line =
  ml_start :: u64
  ml_end :: u64
  ml_read :: char
  ml_write :: char
  ml_exec :: char
  ml_shared :: char
  ml_offset :: u64
  ml_major :: u64
  ml_minor :: u64
  ml_path :: string

definition scan_maps_line :: "string \<Rightarrow> maps_line option" where
  "scan_maps_line buffer =
     do {
       (s, b) \<leftarrow> scan_lx buffer;
       b \<leftarrow> scan_lit (CHR ''-'') b;
       (e, b) \<leftarrow> scan_lx b;
       (r, b) \<leftarrow> scan_char (scan_space b);
       (w, b) \<leftarrow> scan_char b;
       (x, b) \<leftarrow> scan_char b;
       (p, b) \<leftarrow> scan_char b;
       (off, b) \<leftarrow> scan_lx (scan_space b);
       (maj, b) \<leftarrow> scan_lx (scan_space b);
       b \<leftarrow> scan_lit (CHR '':'') b;
       (min, b) \<leftarrow> scan_lx b;
       b \<leftarrow> scan_skip_d (scan_space b);
       path \<leftarrow> scan_line (scan_space b);
       Some \<lparr>ml_start = s, ml_end = e, ml_read = r, ml_write = w, ml_exec = x, ml_shared = p,
             ml_offset = off, ml_major = maj, ml_minor = min, ml_path = path\<rparr>
     }"

definition known_protection :: "maps_line \<Rightarrow> bool" where
  "known_protection l \<longleftrightarrow>
     (ml_read l = CHR ''-'' \<or> ml_read l = CHR ''r'') \<and> (ml_write l = CHR ''-'' \<or> ml_write l = CHR ''w'') \<and>
     (ml_exec l = CHR ''-'' \<or> ml_exec l = CHR ''x'') \<and> (ml_shared l = CHR ''p'' \<or> ml_shared l = CHR ''s'')"

definition line_entry :: "maps_line \<Rightarrow> mmap_cache_entry_t" where
  "line_entry l =
     \<lparr>start_addr = ml_start l, end_addr = ml_end l, mmap_offset = ml_offset l,
      protections = (if ml_read l = CHR ''r'' then MMAP_CACHE_PROT_READABLE else 0)
        OR (if ml_write l = CHR ''w'' then MMAP_CACHE_PROT_WRITABLE else 0)
        OR (if ml_exec l = CHR ''x'' then MMAP_CACHE_PROT_EXECUTABLE else 0)
        OR (if ml_shared l = CHR ''s'' then MMAP_CACHE_PROT_SHARED else 0),
      major = ml_major l, minor = ml_minor l, binary_filename = ml_path l\<rparr>"

text \<open>\<open>sizeof(*cache.entry)\<close>, and the write of one slot of the array.\<close>

definition sizeof_entry :: u64 where
  "sizeof_entry = 56"

definition write_slot :: "mmap_cache_entry_t list \<Rightarrow> nat \<Rightarrow> mmap_cache_entry_t \<Rightarrow> mmap_cache_entry_t list" where
  "write_slot es i e = (if i < length es then es[i := e] else es @ [e])"

text \<open>What one line of the file does to the cache under construction.\<close>

datatype line_outcome = Line_skip | Line_stop | Line_store mmap_cache_entry_t

definition line_action :: "mmap_cache_t \<Rightarrow> string \<Rightarrow> line_outcome" where
  "line_action cache buffer =
     (case scan_maps_line buffer of None \<Rightarrow> Line_skip
      | Some l \<Rightarrow>
          if \<not> known_protection l then Line_skip
          else if ml_end l < ml_start l then Line_stop
          else if csize cache > 0 \<and>
              (let e = entry cache ! unat (csize cache - 1)
               in start_addr e = ml_start l \<and> end_addr e = ml_end l \<or>
                  ml_start l \<le> start_addr e \<or> ml_start l < end_addr e) then Line_skip
          else Line_store (line_entry l))"

text \<open>The loop over the lines, with \<open>allocated\<close>, the capacity of the array.\<close>

fun rebuild_loop :: "string list \<Rightarrow> u64 \<Rightarrow> mmap_cache_t \<Rightarrow> mmap_cache_t outcome" where
  "rebuild_loop [] allocated cache = Inr cache"
| "rebuild_loop (buffer # lines) allocated cache =
     (case line_action cache buffer of
        Line_skip \<Rightarrow> rebuild_loop lines allocated cache
      | Line_stop \<Rightarrow> Inr cache
      | Line_store e \<Rightarrow>
          obind (if ucast (csize cache) \<ge> allocated
                 then xgrowarray (allocated = 0) allocated sizeof_entry else Inr allocated)
            (\<lambda>allocated. rebuild_loop lines allocated
               (cache\<lparr>entry := write_slot (entry cache) (unat (csize cache)) e,
                      csize := csize cache + 1\<rparr>)))"

definition maps_buffer_size :: nat where
  "maps_buffer_size = 4096 + 80"

text \<open>Deleting frees the file names, the array and the cache; what remains is a null pointer.\<close>

definition delete_mmap_cache :: "mmap_cache_t option \<Rightarrow> mmap_cache_t option" where
  "delete_mmap_cache c = None"

text \<open>
  \<open>maps\<close> is what \<open>/proc/PID/maps\<close> holds, \<open>None\<close> when the file cannot be opened.  The cache of
  the process is passed and returned.
\<close>

definition mmap_cache_rebuild_if_invalid ::
    "mmap_state \<Rightarrow> string option \<Rightarrow> mmap_cache_t option
     \<Rightarrow> (mmap_cache_rebuild_result \<times> mmap_cache_t option) outcome" where
  "mmap_cache_rebuild_if_invalid st maps tcp_cache =
     (let tcp_cache = (case tcp_cache of None \<Rightarrow> None
                       | Some c \<Rightarrow> if generation c \<noteq> mmap_cache_generation st
                                   then delete_mmap_cache tcp_cache else Some c)
      in if tcp_cache \<noteq> None then Inr (MMAP_CACHE_REBUILD_READY, tcp_cache)
         else case maps of None \<Rightarrow> Inr (MMAP_CACHE_REBUILD_NOCACHE, None)
           | Some contents \<Rightarrow>
               obind (rebuild_loop (fgets_all maps_buffer_size contents) 0
                        \<lparr>entry = [], csize = 0, generation = mmap_cache_generation st\<rparr>)
                 (\<lambda>cache. Inr (if csize cache = 0 then (MMAP_CACHE_REBUILD_NOCACHE, None)
                               else (MMAP_CACHE_REBUILD_RENEWED, Some cache))))"

section \<open>Searching\<close>

text \<open>
  The binary search works on \<open>int\<close> bounds.  The model adds them exactly and returns \<open>None\<close>
  where the addition would overflow \<open>int\<close>, which is undefined behaviour; the inner option is
  the returned pointer.
\<close>

function search_loop :: "mmap_cache_entry_t list \<Rightarrow> u64 \<Rightarrow> int \<Rightarrow> int \<Rightarrow> mmap_cache_entry_t option option" where
  "search_loop es ip lower upper =
     (if lower \<le> upper then
        if upper + lower > INT_MAX then None
        else let mid = (upper + lower) div 2;
                 e = es ! nat mid
             in if ip \<ge> start_addr e \<and> ip < end_addr e then Some (Some e)
                else if ip < start_addr e then search_loop es ip lower (mid - 1)
                else search_loop es ip (mid + 1) upper
      else Some None)"
  by pat_completeness auto
termination
  by (relation "measure (\<lambda>(es, ip, lower, upper). nat (upper - lower + 1))") auto

declare search_loop.simps [simp del]

definition mmap_cache_search :: "mmap_cache_t option \<Rightarrow> u64 \<Rightarrow> mmap_cache_entry_t option option" where
  "mmap_cache_search tcp_cache ip =
     (case tcp_cache of None \<Rightarrow> Some None
      | Some c \<Rightarrow> search_loop (entry c) ip 0 (sint (csize c) - 1))"

text \<open>The linear search; the caller has a cache.\<close>

definition mmap_cache_search_custom :: "mmap_cache_t \<Rightarrow> (mmap_cache_entry_t \<Rightarrow> bool) \<Rightarrow> mmap_cache_entry_t option" where
  "mmap_cache_search_custom c fn = find fn (take (unat (csize c)) (entry c))"

section \<open>The invariant\<close>

text \<open>
  The entries in use: start addresses strictly ascend, a mapping starts at or after the end
  of the one before.
\<close>

definition contains :: "u64 \<Rightarrow> mmap_cache_entry_t \<Rightarrow> bool" where
  "contains ip e \<longleftrightarrow> start_addr e \<le> ip \<and> ip < end_addr e"

definition before :: "mmap_cache_entry_t \<Rightarrow> mmap_cache_entry_t \<Rightarrow> bool" where
  "before a b \<longleftrightarrow> start_addr a < start_addr b \<and> end_addr a \<le> start_addr b"

definition entries_ok :: "mmap_cache_entry_t list \<Rightarrow> bool" where
  "entries_ok es \<longleftrightarrow> sorted_wrt before es \<and> list_all (\<lambda>e. start_addr e \<le> end_addr e) es"

definition mmap_cache_ok :: "mmap_cache_t \<Rightarrow> bool" where
  "mmap_cache_ok c \<longleftrightarrow> length (entry c) = unat (csize c) \<and> entries_ok (entry c)"

lemma before_trans: "before a b \<Longrightarrow> before b c \<Longrightarrow> before a c"
  unfolding before_def by (meson less_trans order_trans order.strict_implies_order)

lemma entries_ok_snoc:
  assumes "entries_ok es" "start_addr e \<le> end_addr e" "es \<noteq> [] \<Longrightarrow> before (last es) e"
  shows "entries_ok (es @ [e])"
proof -
  have "before x e" if "x \<in> set es" for x
  proof (cases es rule: rev_cases)
    case Nil
    with that show ?thesis by simp
  next
    case (snoc ys y)
    with assms(1,3) that show ?thesis
      by (auto simp: entries_ok_def sorted_wrt_append intro: before_trans)
  qed
  with assms show ?thesis by (auto simp: entries_ok_def sorted_wrt_append)
qed

lemma line_action_store:
  assumes "mmap_cache_ok c" "line_action c buffer = Line_store e"
  shows "start_addr e \<le> end_addr e" "entry c \<noteq> [] \<Longrightarrow> before (last (entry c)) e"
proof -
  from assms(2) obtain l where l: "scan_maps_line buffer = Some l" "e = line_entry l" "\<not> ml_end l < ml_start l"
    and ord: "0 < csize c \<Longrightarrow> \<not> ml_start l \<le> start_addr (entry c ! unat (csize c - 1))
        \<and> \<not> ml_start l < end_addr (entry c ! unat (csize c - 1))"
    by (auto simp: line_action_def Let_def split: option.splits if_splits)
  from l show "start_addr e \<le> end_addr e" by (simp add: line_entry_def)
  assume ne: "entry c \<noteq> []"
  with assms(1) have pos: "0 < csize c"
    by (auto simp: mmap_cache_ok_def word_gt_0)
  then have "unat (csize c - 1) = unat (csize c) - 1"
    by (simp add: unat_minus_one word_gt_0)
  with assms(1) ne have "entry c ! unat (csize c - 1) = last (entry c)"
    by (simp add: mmap_cache_ok_def last_conv_nth)
  with ord [OF pos] l show "before (last (entry c)) e"
    by (auto simp: before_def line_entry_def)
qed

text \<open>The loop keeps the invariant while fewer than \<open>2 ^ 32\<close> entries are stored.\<close>

lemma rebuild_loop_ok:
  assumes "mmap_cache_ok c" "length (entry c) + length ls < 2 ^ 32"
    and "rebuild_loop ls allocated c = Inr c'"
  shows "mmap_cache_ok c' \<and> generation c' = generation c"
  using assms
proof (induction ls allocated c rule: rebuild_loop.induct)
  case (1 allocated c)
  then show ?case by simp
next
  case (2 buffer ls allocated c)
  show ?case
  proof (cases "line_action c buffer")
    case (Line_store e)
    let ?c = "c\<lparr>entry := entry c @ [e], csize := csize c + 1\<rparr>"
    have len: "length (entry c) = unat (csize c)" "length (entry c) < 2 ^ 32 - 1"
      using "2.prems" by (auto simp: mmap_cache_ok_def)
    then have "unat (csize c + 1) = Suc (unat (csize c))"
      by (subst unat_word_ariths) (simp add: unat32_less)
    with len "2.prems"(1) line_action_store [OF "2.prems"(1) Line_store]
    have ok: "mmap_cache_ok ?c"
      by (simp add: mmap_cache_ok_def entries_ok_snoc)
    have w: "write_slot (entry c) (unat (csize c)) e = entry c @ [e]"
      using len by (simp add: write_slot_def)
    from "2.prems"(3) Line_store w obtain a where
      a: "(if ucast (csize c) \<ge> allocated then xgrowarray (allocated = 0) allocated sizeof_entry
           else Inr allocated) = Inr a" and "rebuild_loop ls a ?c = Inr c'"
      by (auto simp: obind_eq_Inr simp del: if_split)
    with "2.IH"(2) [OF Line_store, of a] w ok "2.prems"(2) show ?thesis by simp
  next
    case Line_skip
    with 2 show ?thesis by simp
  next
    case Line_stop
    with 2 show ?thesis by simp
  qed
qed

lemma length_fgets_all: "length (fgets_all sz s) \<le> length s"
proof (induction sz s rule: fgets_all.induct)
  case (1 sz s)
  show ?case
  proof (cases "sz < 2 \<or> fgets sz s = None")
    case True
    then show ?thesis by (subst fgets_all.simps) auto
  next
    case False
    then obtain line rest where f: "fgets sz s = Some (line, rest)" "2 \<le> sz" by auto
    with 1 have "length (fgets_all sz rest) \<le> length rest" by auto
    with f fgets_shorter [OF f] show ?thesis by (subst fgets_all.simps) simp
  qed
qed

lemma rebuild_cases:
  assumes "mmap_cache_rebuild_if_invalid st maps old = Inr (res, new)"
  obtains (ready) c where "res = MMAP_CACHE_REBUILD_READY" "old = Some c" "new = old"
      "generation c = mmap_cache_generation st"
  | (nocache) "res = MMAP_CACHE_REBUILD_NOCACHE" "new = None"
  | (renewed) c contents where "res = MMAP_CACHE_REBUILD_RENEWED" "maps = Some contents" "new = Some c"
      "csize c \<noteq> 0" "rebuild_loop (fgets_all maps_buffer_size contents) 0
         \<lparr>entry = [], csize = 0, generation = mmap_cache_generation st\<rparr> = Inr c"
      "\<And>c. old = Some c \<Longrightarrow> generation c \<noteq> mmap_cache_generation st"
  using assms
  by (auto simp: mmap_cache_rebuild_if_invalid_def Let_def delete_mmap_cache_def obind_eq_Inr
      split: option.splits if_splits)

lemma rebuild_ok:
  assumes "mmap_cache_rebuild_if_invalid st maps old = Inr (res, Some c)"
    and "\<And>contents. maps = Some contents \<Longrightarrow> length contents < 2 ^ 32"
    and "\<And>c. old = Some c \<Longrightarrow> mmap_cache_ok c"
  shows "mmap_cache_ok c \<and> generation c = mmap_cache_generation st"
  using assms(1)
proof (cases rule: rebuild_cases)
  case (ready c')
  with assms(3) show ?thesis by auto
next
  case (renewed c' contents)
  have "length (fgets_all maps_buffer_size contents) < 2 ^ 32"
    using length_fgets_all [of maps_buffer_size contents] assms(2) renewed(2) by fastforce
  then have "mmap_cache_ok c' \<and> generation c' = mmap_cache_generation st"
    using rebuild_loop_ok [OF _ _ renewed(5)] by (simp add: mmap_cache_ok_def entries_ok_def)
  with renewed(3) show ?thesis by simp
qed simp

section \<open>The search\<close>

lemma before_nth: "entries_ok es \<Longrightarrow> i < j \<Longrightarrow> j < length es \<Longrightarrow> before (es ! i) (es ! j)"
  by (simp add: entries_ok_def sorted_wrt_iff_nth_less)

lemma not_contains_below:
  assumes "entries_ok es" "i \<le> m" "m < length es" "start_addr (es ! m) \<le> ip" "\<not> contains ip (es ! m)"
  shows "\<not> contains ip (es ! i)"
proof (cases "i = m")
  case False
  with assms before_nth [of es i m] show ?thesis
    by (auto simp: before_def contains_def)
qed (use assms in simp)

lemma not_contains_above:
  assumes "entries_ok es" "m \<le> i" "i < length es" "ip < start_addr (es ! m)"
  shows "\<not> contains ip (es ! i)"
proof (cases "i = m")
  case False
  with assms before_nth [of es m i] show ?thesis
    by (auto simp: before_def contains_def)
qed (use assms in \<open>auto simp: contains_def\<close>)

text \<open>What the search is to return.\<close>

definition found :: "mmap_cache_entry_t list \<Rightarrow> u64 \<Rightarrow> mmap_cache_entry_t option option \<Rightarrow> bool" where
  "found es ip r \<longleftrightarrow>
     (case r of None \<Rightarrow> False
      | Some None \<Rightarrow> \<forall>e \<in> set es. \<not> contains ip e
      | Some (Some e) \<Rightarrow> e \<in> set es \<and> contains ip e)"

text \<open>The loop invariant: no entry outside \<open>lower..upper\<close> contains \<open>ip\<close>.\<close>

lemma search_loop_correct:
  assumes "entries_ok es" "int (length es) \<le> 2 ^ 30" "0 \<le> lower" "upper < int (length es)"
    and "\<And>i. i < length es \<Longrightarrow> int i < lower \<or> upper < int i \<Longrightarrow> \<not> contains ip (es ! i)"
  shows "found es ip (search_loop es ip lower upper)"
  using assms
proof (induction es ip lower upper rule: search_loop.induct)
  case (1 es ip lower upper)
  let ?mid = "(upper + lower) div 2"
  show ?case
  proof (cases "lower \<le> upper")
    case False
    then have "\<forall>e \<in> set es. \<not> contains ip e"
      using "1.prems"(5) by (metis in_set_conv_nth linorder_not_le order.strict_trans1 linorder_le_cases)
    with False show ?thesis by (subst search_loop.simps) (simp add: found_def)
  next
    case True
    have no: "\<not> upper + lower > INT_MAX"
      using "1.prems"(2-4) True by (simp add: INT_MAX_def)
    have mid: "lower \<le> ?mid" "?mid \<le> upper" "0 \<le> ?mid" "nat ?mid < length es"
      using True "1.prems"(3,4) by auto
    consider (hit) "contains ip (es ! nat ?mid)"
      | (below) "\<not> contains ip (es ! nat ?mid)" "ip < start_addr (es ! nat ?mid)"
      | (above) "\<not> contains ip (es ! nat ?mid)" "start_addr (es ! nat ?mid) \<le> ip"
      by force
    then show ?thesis
    proof cases
      case hit
      with True no mid show ?thesis
        by (subst search_loop.simps) (auto simp: Let_def contains_def found_def)
    next
      case below
      have "found es ip (search_loop es ip lower (?mid - 1))"
      proof (rule "1.IH"(1) [OF True no refl refl])
        show "\<not> (start_addr (es ! nat ?mid) \<le> ip \<and> ip < end_addr (es ! nat ?mid))"
          using below by (simp add: contains_def)
        show "\<not> contains ip (es ! i)" if "i < length es" "int i < lower \<or> ?mid - 1 < int i" for i
          using that "1.prems"(1,5) below(2) mid not_contains_above [of es "nat ?mid" i ip] by force
      qed (use below mid "1.prems" in auto)
      with below True no show ?thesis
        by (subst search_loop.simps) (auto simp: Let_def contains_def)
    next
      case above
      have "found es ip (search_loop es ip (?mid + 1) upper)"
      proof (rule "1.IH"(2) [OF True no refl refl])
        show "\<not> (start_addr (es ! nat ?mid) \<le> ip \<and> ip < end_addr (es ! nat ?mid))"
          using above by (simp add: contains_def)
        show "\<not> contains ip (es ! i)" if "i < length es" "int i < ?mid + 1 \<or> upper < int i" for i
          using that "1.prems"(1,5) above mid not_contains_below [of es i "nat ?mid" ip] by force
      qed (use above mid "1.prems" in auto)
      with above True no show ?thesis
        by (subst search_loop.simps) (auto simp: Let_def contains_def)
    qed
  qed
qed

text \<open>Entries that do not overlap: at most one contains \<open>ip\<close>.\<close>

lemma contains_unique:
  assumes "entries_ok es" "e \<in> set es" "e' \<in> set es" "contains ip e" "contains ip e'"
  shows "e = e'"
proof -
  from assms obtain i j where "e = es ! i" "e' = es ! j" "i < length es" "j < length es"
    by (auto simp: in_set_conv_nth)
  moreover have "\<not> before e e'" "\<not> before e' e"
    using assms by (auto simp: before_def contains_def)
  ultimately show ?thesis
    using before_nth [OF assms(1)] by (metis nat_neq_iff)
qed

lemma found_eq_find:
  assumes "entries_ok es" "found es ip r"
  shows "r = Some (find (contains ip) es)"
proof (cases "find (contains ip) es")
  case None
  with assms show ?thesis
    by (cases r) (auto simp: found_def find_None_iff find_None_iff2 split: option.splits)
next
  case (Some e)
  then have "e \<in> set es" "contains ip e" by (auto simp: find_Some_iff)
  with assms Some show ?thesis
    by (auto simp: found_def split: option.splits dest: contains_unique)
qed

lemma mmap_cache_search_eq:
  assumes "mmap_cache_ok c" "unat (csize c) \<le> 2 ^ 30"
  shows "mmap_cache_search (Some c) ip = Some (find (contains ip) (entry c))"
proof (rule found_eq_find)
  show "entries_ok (entry c)" using assms by (simp add: mmap_cache_ok_def)
  have n: "length (entry c) = unat (csize c)" using assms by (simp add: mmap_cache_ok_def)
  have "unat (csize c) < 2 ^ 31" using assms(2) by simp
  then have len: "sint (csize c) = int (length (entry c))" "int (length (entry c)) \<le> 2 ^ 30"
    using of_nat_le_iff [where 'a = int, THEN iffD2, OF assms(2)] unfolding n
    by (simp_all add: sint_eq_unat_small)
  show "found (entry c) ip (mmap_cache_search (Some c) ip)"
    unfolding mmap_cache_search_def option.case len(1)
    using assms len(2) by (intro search_loop_correct) (auto simp only: mmap_cache_ok_def)
qed

section \<open>Properties\<close>

text \<open>A line that fits the buffer is read as a whole.\<close>

lemma fgets_line:
  assumes "CHR 0x0A \<notin> set l" "Suc (length l) < sz"
  shows "fgets sz (l @ CHR 0x0A # r) = Some (l @ [CHR 0x0A], r)"
proof -
  have "sz - 1 = length l + Suc (sz - length l - 2)" using assms(2) by simp
  then have "take (sz - 1) (l @ CHR 0x0A # r) = l @ CHR 0x0A # take (sz - length l - 2) r"
    by (simp add: take_Cons')
  then show ?thesis using assms(1) by (simp add: fgets_def Let_def)
qed

lemma fgets_all_line:
  assumes "CHR 0x0A \<notin> set l" "Suc (length l) < sz"
  shows "fgets_all sz (l @ CHR 0x0A # r) = (l @ [CHR 0x0A]) # fgets_all sz r"
  using assms fgets_line [OF assms, of r] by (subst fgets_all.simps) simp

lemma fgets_all_Nil [simp]: "fgets_all sz [] = []"
  by (subst fgets_all.simps) (simp add: fgets_def)

text \<open>Two mappings of a file, as \<^verbatim>\<open>/proc/PID/maps\<close> shows them.\<close>

definition sample_maps :: string where
  "sample_maps = ''1000-2000 r-xp 00000000 08:01 7 /a'' @ [CHR 0x0A] @
                 ''2000-2800 rw-p 00001000 08:01 7 /a'' @ [CHR 0x0A]"

definition sample_state :: mmap_state where
  "sample_state = \<lparr>mmap_cache_generation = 3, use_mmap_cache = True, mapping_generation = 1,
                   clients = [Mmap_cache_invalidate]\<rparr>"

definition sample_cache :: mmap_cache_t where
  "sample_cache = \<lparr>entry =
     [\<lparr>start_addr = 0x1000, end_addr = 0x2000, mmap_offset = 0, protections = 5, major = 8, minor = 1,
       binary_filename = ''/a''\<rparr>,
      \<lparr>start_addr = 0x2000, end_addr = 0x2800, mmap_offset = 0x1000, protections = 3, major = 8, minor = 1,
       binary_filename = ''/a''\<rparr>],
     csize = 2, generation = 3\<rparr>"

lemmas scan_defs = scan_maps_line_def scan_lx_def scan_sign_def ishex_def scan_char_def scan_lit_def
  scan_space_def scan_skip_d_def scan_line_def isspace_def isdigit_def hex_val_def tolower_def
  digit_val_def base_val_def

lemma sample_scan:
  "scan_maps_line (''1000-2000 r-xp 00000000 08:01 7 /a'' @ [CHR 0x0A]) =
     Some \<lparr>ml_start = 0x1000, ml_end = 0x2000, ml_read = CHR ''r'', ml_write = CHR ''-'', ml_exec = CHR ''x'',
       ml_shared = CHR ''p'', ml_offset = 0, ml_major = 8, ml_minor = 1, ml_path = ''/a''\<rparr>"
  "scan_maps_line (''2000-2800 rw-p 00001000 08:01 7 /a'' @ [CHR 0x0A]) =
     Some \<lparr>ml_start = 0x2000, ml_end = 0x2800, ml_read = CHR ''r'', ml_write = CHR ''w'', ml_exec = CHR ''-'',
       ml_shared = CHR ''p'', ml_offset = 0x1000, ml_major = 8, ml_minor = 1, ml_path = ''/a''\<rparr>"
  by (simp_all add: scan_defs)

lemma sample_rebuild:
  "mmap_cache_rebuild_if_invalid sample_state (Some sample_maps) None
     = Inr (MMAP_CACHE_REBUILD_RENEWED, Some sample_cache)"
proof -
  let ?l1 = "''1000-2000 r-xp 00000000 08:01 7 /a''" and ?l2 = "''2000-2800 rw-p 00001000 08:01 7 /a''"
  have "fgets_all maps_buffer_size sample_maps = [?l1 @ [CHR 0x0A], ?l2 @ [CHR 0x0A]]"
    using fgets_all_line [of ?l1 maps_buffer_size "?l2 @ [CHR 0x0A]"] fgets_all_line [of ?l2 maps_buffer_size "[]"]
    by (simp add: sample_maps_def maps_buffer_size_def)
  moreover have "xgrowarray True 0 sizeof_entry = Inr 3"
    by (simp add: xgrowarray_def Let_def sizeof_entry_def xreallocarray_eq ROUNDUP_DIV_def DEFAULT_ALLOC_SIZE_def)
  moreover have "\<not> (3 :: u64) \<le> 1" by (simp add: word_le_nat_alt)
  ultimately show ?thesis
    by (simp add: mmap_cache_rebuild_if_invalid_def line_action_def sample_scan [simplified] known_protection_def
        line_entry_def write_slot_def sample_cache_def sample_state_def MMAP_CACHE_PROT_READABLE_def
        MMAP_CACHE_PROT_WRITABLE_def MMAP_CACHE_PROT_EXECUTABLE_def MMAP_CACHE_PROT_SHARED_def)
qed

text \<open>
  Whatever \<^verbatim>\<open>/proc/PID/maps\<close> holds, duplicate, overlapping, unordered and malformed lines
  included, a cache that the rebuild returns has non-overlapping entries in strictly ascending
  order, its size is the number of entries, and it carries the current generation.
\<close>

lemma rebuild_sorted:
  assumes "mmap_cache_rebuild_if_invalid st (Some contents) old = Inr (res, Some c)"
    and "length contents < 2 ^ 32" "pred_option mmap_cache_ok old"
  shows "mmap_cache_ok c \<and> generation c = mmap_cache_generation st"
  using assms(2,3) by (intro rebuild_ok [OF assms(1)]) auto

lemma rebuild_sorted_witness:
  "mmap_cache_rebuild_if_invalid sample_state (Some sample_maps) None
     = Inr (MMAP_CACHE_REBUILD_RENEWED, Some sample_cache) \<and> mmap_cache_ok sample_cache"
  using rebuild_sorted [OF sample_rebuild] sample_rebuild by (simp add: sample_maps_def)

text \<open>
  C7: The binary search returns the mapping that contains the address, or \<open>NULL\<close> when there is
  none, the answer of a linear search; it ends, and its \<open>int\<close> arithmetic does not overflow for
  a cache of up to \<open>2 ^ 30\<close> entries.
\<close>

theorem mmap_search_exact:
  assumes "mmap_cache_ok c" "unat (csize c) \<le> 2 ^ 30"
  shows "mmap_cache_search (Some c) ip = Some (mmap_cache_search_custom c (contains ip))"
  using assms by (simp add: mmap_cache_search_eq mmap_cache_search_custom_def mmap_cache_ok_def)

theorem mmap_search_exact_witness:
  "mmap_cache_search (Some sample_cache) 0x2000 = Some (Some (entry sample_cache ! 1))"
proof -
  have "mmap_cache_ok sample_cache"
    by (simp add: mmap_cache_ok_def entries_ok_def before_def sample_cache_def)
  from mmap_search_exact [OF this, of "0x2000"] show ?thesis
    by (simp add: sample_cache_def mmap_cache_search_custom_def contains_def)
qed

text \<open>The invalidation is registered once, by the first \<open>mmap_cache_enable\<close>.\<close>

definition clients_ok :: "mmap_state \<Rightarrow> bool" where
  "clients_ok st \<longleftrightarrow> count_list (clients st) Mmap_cache_invalidate = (if use_mmap_cache st then 1 else 0)"

lemma call_client_facts [simp]:
  "mmap_cache_generation (call_client cl st)
     = mmap_cache_generation st + (if cl = Mmap_cache_invalidate then 1 else 0)"
  "clients (call_client cl st) = clients st" "use_mmap_cache (call_client cl st) = use_mmap_cache st"
  by (cases cl; simp add: mmap_cache_invalidate_def update_mapping_generation_def)+

lemma fold_call_client:
  "mmap_cache_generation (fold call_client cs st)
     = mmap_cache_generation st + of_nat (count_list cs Mmap_cache_invalidate)"
  "clients (fold call_client cs st) = clients st"
  "use_mmap_cache (fold call_client cs st) = use_mmap_cache st"
  by (induction cs arbitrary: st) simp_all

text \<open>
  A mapping change invalidates every cache: with the cache enabled, a cache that was valid
  before \<open>mmap_notify_report\<close> has no influence on the next rebuild, which acts as if there were
  none.  The invalidation stays registered exactly once.
\<close>

lemma stale_cache_unused:
  assumes "clients_ok st0" "st = mmap_cache_enable st0" "generation c = mmap_cache_generation st"
  shows "clients_ok (mmap_notify_report st)
    \<and> mmap_cache_rebuild_if_invalid (mmap_notify_report st) maps (Some c)
        = mmap_cache_rebuild_if_invalid (mmap_notify_report st) maps None"
proof -
  from assms have "clients_ok st" "use_mmap_cache st"
    by (auto simp: clients_ok_def mmap_cache_enable_def mmap_notify_register_client_def)
  then have "clients_ok (mmap_notify_report st)" "mmap_cache_generation (mmap_notify_report st) \<noteq> generation c"
    using assms(3) by (simp_all add: clients_ok_def mmap_notify_report_def fold_call_client)
  then show ?thesis
    by (simp add: mmap_cache_rebuild_if_invalid_def delete_mmap_cache_def)
qed

lemma stale_cache_unused_witness:
  "mmap_cache_rebuild_if_invalid (mmap_notify_report sample_state) None (Some sample_cache)
     = Inr (MMAP_CACHE_REBUILD_NOCACHE, None)"
proof -
  have "clients_ok sample_state" "sample_state = mmap_cache_enable sample_state"
    "generation sample_cache = mmap_cache_generation sample_state"
    by (simp_all add: clients_ok_def sample_state_def mmap_cache_enable_def sample_cache_def)
  from stale_cache_unused [OF this, of None] show ?thesis
    by (simp add: mmap_cache_rebuild_if_invalid_def)
qed

end
