(* ===== verification/Tcb.thy ===== *)
theory Tcb
  imports Qualify
begin

text \<open>
  The trace control block of \<^verbatim>\<open>defs.h\<close> with its flags, what a traced process prints, and the
  staging of its output in \<^verbatim>\<open>stage_output.c\<close>.  Of \<open>struct tcb\<close> the members that the modelled
  functions use are kept.
\<close>

section \<open>Flags\<close>

definition TCB_STARTUP :: u32 where "TCB_STARTUP = 0x01"
definition TCB_IGNORE_ONE_SIGSTOP :: u32 where "TCB_IGNORE_ONE_SIGSTOP = 0x02"
definition TCB_INSYSCALL :: u32 where "TCB_INSYSCALL = 0x04"
definition TCB_ATTACHED :: u32 where "TCB_ATTACHED = 0x08"
definition TCB_REPRINT :: u32 where "TCB_REPRINT = 0x10"
definition TCB_FILTERED :: u32 where "TCB_FILTERED = 0x20"
definition TCB_TAMPERED :: u32 where "TCB_TAMPERED = 0x40"
definition TCB_HIDE_LOG :: u32 where "TCB_HIDE_LOG = 0x80"
definition TCB_CHECK_EXEC_SYSCALL :: u32 where "TCB_CHECK_EXEC_SYSCALL = 0x100"
definition TCB_SKIP_DETACH_ON_FIRST_EXEC :: u32 where "TCB_SKIP_DETACH_ON_FIRST_EXEC = 0x200"
definition TCB_GRABBED :: u32 where "TCB_GRABBED = 0x400"
definition TCB_RECOVERING :: u32 where "TCB_RECOVERING = 0x800"
definition TCB_INJECT_DELAY_EXIT :: u32 where "TCB_INJECT_DELAY_EXIT = 0x1000"
definition TCB_INJECT_POKE_EXIT :: u32 where "TCB_INJECT_POKE_EXIT = 0x2000"
definition TCB_DELAYED :: u32 where "TCB_DELAYED = 0x4000"
definition TCB_TAMPERED_DELAYED :: u32 where "TCB_TAMPERED_DELAYED = 0x8000"
definition TCB_TAMPERED_POKED :: u32 where "TCB_TAMPERED_POKED = 0x10000"
definition TCB_TAMPERED_NO_FAIL :: u32 where "TCB_TAMPERED_NO_FAIL = 0x20000"
definition TCB_SECCOMP_FILTER :: u32 where "TCB_SECCOMP_FILTER = 0x40000"

lemmas tcb_flag_defs = TCB_STARTUP_def TCB_IGNORE_ONE_SIGSTOP_def TCB_INSYSCALL_def TCB_ATTACHED_def
  TCB_REPRINT_def TCB_FILTERED_def TCB_TAMPERED_def TCB_HIDE_LOG_def TCB_CHECK_EXEC_SYSCALL_def
  TCB_SKIP_DETACH_ON_FIRST_EXEC_def TCB_GRABBED_def TCB_RECOVERING_def TCB_INJECT_DELAY_EXIT_def
  TCB_INJECT_POKE_EXIT_def TCB_DELAYED_def TCB_TAMPERED_DELAYED_def TCB_TAMPERED_POKED_def
  TCB_TAMPERED_NO_FAIL_def TCB_SECCOMP_FILTER_def

section \<open>Output\<close>

text \<open>
  What the modelled functions print, by its parts.  The arguments of a system call are printed
  by its decoder; only that this happened is recorded.
\<close>

datatype out =
    Out_leader
  | Out_syscall string
  | Out_args
  | Out_resumed string
  | Out_unavailable
  | Out_error u64 u64
  | Out_erestart string
  | Out_pseudo_rval
  | Out_hex u64
  | Out_octal u64
  | Out_udecimal u64
  | Out_decimal u64
  | Out_fd u64
  | Out_pid nat u64
  | Out_retstr string
  | Out_note string
  | Out_time timespec
  | Out_dump string "u64 list"
  | Out_newline

text \<open>A stdio stream: the log file, or a memory stream while the output is staged.\<close>

datatype stream = Log (contents: "out list") | Memstream (contents: "out list")

fun stream_append :: "stream \<Rightarrow> out list \<Rightarrow> stream" where
  "stream_append (Log s) xs = Log (s @ xs)"
| "stream_append (Memstream s) xs = Memstream (s @ xs)"

section \<open>The control block\<close>

text \<open>
  \<open>tcb_flags\<close> is the member \<open>flags\<close>, \<open>tcb_inject_vec\<close> the member \<open>inject_vec\<close>; \<open>u_rval\<close>, a
  signed \<open>kernel_long_t\<close>, is the word of its two's complement.  \<open>staged_output_data\<close> holds the
  stream that staging replaced; \<open>priv_sysent\<close> says that the private data is the table entry made
  up for an unknown system call.
\<close>

record tcb =
  tcb_flags :: u32
  pid :: int
  qual_flg :: u32
  currpers :: nat
  u_error :: u64
  scno :: u64
  true_scno :: u64
  u_arg :: "u64 list"
  u_rval :: u64
  sys_func_rval :: u32
  outf :: stream
  staged_output_data :: "stream option"
  auxstr :: "string option"
  s_ent :: "sysent option"
  s_prev_ent :: "sysent option"
  priv_sysent :: bool
  tcb_inject_vec :: "inject_opts list option list"
  stime :: timespec
  ltime :: timespec
  etime :: timespec
  delay_expiration_time :: timespec

definition MAX_ARGS :: nat where
  "MAX_ARGS = 6"

definition stub_sysent :: sysent where
  "stub_sysent = \<lparr>nargs = MAX_ARGS, sys_flags = MEMORY_MAPPING_CHANGE, sen = ''printargs'',
                  sys_func = True, sys_name = Some ''???''\<rparr>"

definition tcp_sysent :: "tcb \<Rightarrow> sysent" where
  "tcp_sysent tcp = (case s_ent tcp of None \<Rightarrow> stub_sysent | Some e \<Rightarrow> e)"

definition n_args :: "tcb \<Rightarrow> nat" where
  "n_args tcp = nargs (tcp_sysent tcp)"

definition has :: "tcb \<Rightarrow> u32 \<Rightarrow> bool" where
  "has tcp f \<longleftrightarrow> tcb_flags tcp AND f \<noteq> 0"

definition raise_flag :: "u32 \<Rightarrow> tcb \<Rightarrow> tcb" where
  "raise_flag f tcp = tcp\<lparr>tcb_flags := tcb_flags tcp OR f\<rparr>"

definition drop_flag :: "u32 \<Rightarrow> tcb \<Rightarrow> tcb" where
  "drop_flag f tcp = tcp\<lparr>tcb_flags := tcb_flags tcp AND NOT f\<rparr>"

definition entering :: "tcb \<Rightarrow> bool" where "entering tcp \<longleftrightarrow> \<not> has tcp TCB_INSYSCALL"
definition exiting :: "tcb \<Rightarrow> bool" where "exiting tcp \<longleftrightarrow> has tcp TCB_INSYSCALL"
definition syserror :: "tcb \<Rightarrow> bool" where "syserror tcp \<longleftrightarrow> u_error tcp \<noteq> 0"
definition traced :: "tcb \<Rightarrow> bool" where "traced tcp \<longleftrightarrow> qual_flg tcp AND QUAL_TRACE \<noteq> 0"
definition raw :: "tcb \<Rightarrow> bool" where "raw tcp \<longleftrightarrow> qual_flg tcp AND QUAL_RAW \<noteq> 0"
definition inject :: "tcb \<Rightarrow> bool" where "inject tcp \<longleftrightarrow> qual_flg tcp AND QUAL_INJECT \<noteq> 0"
definition filtered :: "tcb \<Rightarrow> bool" where "filtered tcp \<longleftrightarrow> has tcp TCB_FILTERED"
definition hide_log :: "tcb \<Rightarrow> bool" where "hide_log tcp \<longleftrightarrow> has tcp TCB_HIDE_LOG"
definition check_exec_syscall :: "tcb \<Rightarrow> bool" where "check_exec_syscall tcp \<longleftrightarrow> has tcp TCB_CHECK_EXEC_SYSCALL"
definition syscall_tampered :: "tcb \<Rightarrow> bool" where "syscall_tampered tcp \<longleftrightarrow> has tcp TCB_TAMPERED"
definition recovering :: "tcb \<Rightarrow> bool" where "recovering tcp \<longleftrightarrow> has tcp TCB_RECOVERING"
definition inject_delay_exit :: "tcb \<Rightarrow> bool" where "inject_delay_exit tcp \<longleftrightarrow> has tcp TCB_INJECT_DELAY_EXIT"
definition inject_poke_exit :: "tcb \<Rightarrow> bool" where "inject_poke_exit tcp \<longleftrightarrow> has tcp TCB_INJECT_POKE_EXIT"
definition syscall_tampered_delayed :: "tcb \<Rightarrow> bool" where
  "syscall_tampered_delayed tcp \<longleftrightarrow> has tcp TCB_TAMPERED_DELAYED"
definition syscall_tampered_poked :: "tcb \<Rightarrow> bool" where
  "syscall_tampered_poked tcp \<longleftrightarrow> has tcp TCB_TAMPERED_POKED"
definition syscall_tampered_nofail :: "tcb \<Rightarrow> bool" where
  "syscall_tampered_nofail tcp \<longleftrightarrow> has tcp TCB_TAMPERED_NO_FAIL"

lemmas tcb_tests = entering_def exiting_def filtered_def hide_log_def check_exec_syscall_def
  syscall_tampered_def recovering_def inject_delay_exit_def inject_poke_exit_def
  syscall_tampered_delayed_def syscall_tampered_poked_def syscall_tampered_nofail_def

section \<open>Printing and staging\<close>

definition tprint :: "out list \<Rightarrow> tcb \<Rightarrow> tcb" where
  "tprint xs tcp = tcp\<lparr>outf := stream_append (outf tcp) xs\<rparr>"

definition strace_open_memstream :: "tcb \<Rightarrow> tcb" where
  "strace_open_memstream tcp = tcp\<lparr>staged_output_data := Some (outf tcp), outf := Memstream []\<rparr>"

definition strace_close_memstream :: "bool \<Rightarrow> tcb \<Rightarrow> tcb" where
  "strace_close_memstream publish tcp =
     (case staged_output_data tcp of None \<Rightarrow> tcp
      | Some real_outf \<Rightarrow>
          tcp\<lparr>outf := (if publish then stream_append real_outf (contents (outf tcp)) else real_outf),
              staged_output_data := None\<rparr>)"

lemma contents_append [simp]: "contents (stream_append s xs) = contents s @ xs"
  by (cases s) simp_all

lemma stream_append_append [simp]: "stream_append (stream_append s xs) ys = stream_append s (xs @ ys)"
  by (cases s) simp_all

lemma stream_append_Nil [simp]: "stream_append s [] = s"
  by (cases s) simp_all

text \<open>
  Staged output is all or nothing: it reaches the log in order when it is published, leaves
  no trace when it is not, and printing goes to the log again afterwards.
\<close>

lemma staged_output_atomic:
  "strace_close_memstream publish (tprint ys (tprint xs (strace_open_memstream tcp)))
     = (if publish then tprint (xs @ ys) tcp else tcp)\<lparr>staged_output_data := None\<rparr>"
  by (simp add: strace_close_memstream_def strace_open_memstream_def tprint_def)

end
