(* ===== verification/Count.thy ===== *)
theory Count
  imports Tcb "HOL-Library.Multiset"
begin

text \<open>
  The call summary of \<^verbatim>\<open>count.c\<close>: counting a system call, the counters it reports to the
  metric proxy, the choice and order of the summary's rows and columns.  The client library
  of the metric proxy is not part of strace; the calls strace makes to it are recorded.
  Floating-point formatting and column widths are left out: a cell is the value it shows.
\<close>

section \<open>State\<close>

record call_counts =
  cc_time :: timespec
  time_min :: timespec
  time_max :: timespec
  time_avg :: timespec
  calls :: u64
  errors :: u64

definition max_ts :: timespec where
  "max_ts = \<lparr>tv_sec = 2 ^ 63 - 1, tv_nsec = 999999999\<rparr>"

text \<open>
  The calls of the metric proxy client.  A counter is named by its key; it grows by one, by a
  time, or by a size, all converted to \<open>double\<close>.
\<close>

datatype amount = Amount_one | Amount_time timespec | Amount_size u64

datatype metric_call = Counter_new string string | Counter_inc string amount

text \<open>
  The static variables of the metric handlers: \<open>None\<close> is a null pointer, for an array and for
  a counter in an array.
\<close>

record metrics =
  scall_array_hits :: "string option list option"
  scall_array_time :: "string option list option"
  scall_array_size :: "string option list option"
  metric_calls :: "metric_call list"

record count_state =
  countv :: "call_counts list option list"
  overhead :: timespec
  metrics :: metrics

definition scno_in_range :: "'d config \<Rightarrow> nat \<Rightarrow> u64 \<Rightarrow> bool" where
  "scno_in_range cfg pers nr \<longleftrightarrow> unat nr < nsyscall_vec cfg pers"

section \<open>Reporting to the metric proxy\<close>

text \<open>\<open>snprintf\<close> into a buffer of \<open>n\<close> characters, and \<open>%s\<close> of a name.\<close>

definition snprintf :: "nat \<Rightarrow> string \<Rightarrow> string" where
  "snprintf n s = take (n - 1) s"

definition name_of :: "tcb \<Rightarrow> string" where
  "name_of tcp = (case sys_name (tcp_sysent tcp) of None \<Rightarrow> ''(null)'' | Some s \<Rightarrow> s)"

definition total_read_key :: string where
  "total_read_key = ''total___strace___size___read''"

definition total_write_key :: string where
  "total_write_key = ''total___strace___size___write''"

definition write_sens :: "string list" where
  "write_sens = [''write'', ''pwrite'', ''send'', ''sendto'', ''sendmsg'', ''mq_timedsend_time32'',
     ''mq_timedsend_time64'', ''writev'', ''pwritev'', ''pwritev2'', ''vmsplice'', ''sendmmsg'']"

definition read_sens :: "string list" where
  "read_sens = [''readv'', ''preadv'', ''preadv2'', ''read'', ''pread'', ''recv'', ''recvfrom'',
     ''mq_timedreceive_time32'', ''mq_timedreceive_time64'', ''recvmsg'', ''recvmmsg'',
     ''recvmmsg_time32'', ''recvmmsg_time64'']"

text \<open>
  The handlers return \<open>None\<close> where they would access an array outside its bounds.  \<open>nsys\<close> is
  \<open>nsyscalls\<close>, the size of the current personality's table.
\<close>

definition metric_proxy_metric_handle_ios :: "nat \<Rightarrow> tcb \<Rightarrow> metrics \<Rightarrow> metrics option" where
  "metric_proxy_metric_handle_ios nsys tcp m =
     (if syserror tcp then Some m
      else
        let (arr, news) =
              (case scall_array_size m of
                 Some a \<Rightarrow> (a, [])
               | None \<Rightarrow> (replicate nsys None,
                          [Counter_new (snprintf 128 total_read_key) (snprintf 128 ''Total read size''),
                           Counter_new (snprintf 128 total_write_key) (snprintf 128 ''Total write size'')]));
            m = m\<lparr>scall_array_size := Some arr, metric_calls := metric_calls m @ news\<rparr>;
            write_size = (if sen (tcp_sysent tcp) \<in> set write_sens then u_rval tcp else 0);
            read_size = (if sen (tcp_sysent tcp) \<in> set read_sens then u_rval tcp else 0);
            call_size = write_size + read_size;
            i = unat (scno tcp)
        in if call_size > 0 then
             if i < length arr then
               let (key, news) =
                     (case arr ! i of Some k \<Rightarrow> (k, [])
                      | None \<Rightarrow> (snprintf 128 (''strace___size___'' @ name_of tcp),
                                 [Counter_new (snprintf 128 (''strace___size___'' @ name_of tcp))
                                    (snprintf 128 (''Total bytes size for '' @ name_of tcp))]))
               in Some (m\<lparr>scall_array_size := Some (arr[i := Some key]),
                          metric_calls := metric_calls m @ news
                            @ (if write_size > 0 then [Counter_inc (snprintf 128 total_write_key) (Amount_size write_size)] else [])
                            @ (if read_size > 0 then [Counter_inc (snprintf 128 total_read_key) (Amount_size read_size)] else [])
                            @ (if write_size > 0 \<or> read_size > 0 then [Counter_inc key (Amount_size call_size)] else [])\<rparr>)
             else None
           else Some m)"

definition metric_proxy_metric_proxy_handler :: "nat \<Rightarrow> tcb \<Rightarrow> timespec \<Rightarrow> metrics \<Rightarrow> metrics option" where
  "metric_proxy_metric_proxy_handler nsys tcp wts m =
     (let hits = (case scall_array_hits m of Some a \<Rightarrow> a | None \<Rightarrow> replicate nsys None);
          times = (if scall_array_hits m = None then replicate nsys None
                   else (case scall_array_time m of Some a \<Rightarrow> a | None \<Rightarrow> []));
          i = unat (scno tcp)
      in if i < length hits \<and> i < length times then
           let name = name_of tcp;
               hit_key = snprintf 128 (''strace___hits___'' @ name);
               time_key = snprintf 128 (''strace___time___'' @ name);
               fresh = (hits ! i = None);
               hits = (if fresh then hits[i := Some hit_key] else hits);
               times = (if fresh then times[i := Some time_key] else times);
               news = (if fresh
                       then [Counter_new hit_key (snprintf 128 ''Number of calls for syscall''),
                             Counter_new time_key (snprintf 128 ''Time spent in syscall'')] else [])
           in metric_proxy_metric_handle_ios nsys tcp
                (m\<lparr>scall_array_hits := Some hits, scall_array_time := Some times,
                   metric_calls := metric_calls m @ news
                     @ [Counter_inc (the (hits ! i)) Amount_one, Counter_inc (the (times ! i)) (Amount_time wts)]\<rparr>)
         else None)"

section \<open>Counting\<close>

definition fresh_counts :: call_counts where
  "fresh_counts = \<lparr>cc_time = zero_ts, time_min = max_ts, time_max = zero_ts, time_avg = zero_ts,
                   calls = 0, errors = 0\<rparr>"

text \<open>The time to be accounted for one call.\<close>

definition syscall_time :: "bool \<Rightarrow> timespec \<Rightarrow> timespec \<Rightarrow> tcb \<Rightarrow> timespec" where
  "syscall_time count_wallclock ovh exiting_ts tcp =
     (let wts = (if count_wallclock then ts_sub exiting_ts (etime tcp) else ts_sub (stime tcp) (ltime tcp));
          wts = ts_sub wts ovh
      in ts_max wts zero_ts)"

definition count_syscall ::
    "'d config \<Rightarrow> nat \<Rightarrow> bool \<Rightarrow> tcb \<Rightarrow> timespec \<Rightarrow> count_state \<Rightarrow> count_state option" where
  "count_syscall cfg pers count_wallclock tcp exiting_ts st =
     (if \<not> scno_in_range cfg pers (scno tcp) then Some st
      else
        let counts = (case countv st ! pers of Some c \<Rightarrow> c | None \<Rightarrow> replicate (nsyscall_vec cfg pers) fresh_counts);
            i = unat (scno tcp);
            cc = counts ! i;
            wts = syscall_time count_wallclock (overhead st) exiting_ts tcp;
            cc = cc\<lparr>calls := calls cc + 1, errors := errors cc + (if syserror tcp then 1 else 0),
                    cc_time := ts_add (cc_time cc) wts, time_min := ts_min (time_min cc) wts,
                    time_max := ts_max (time_max cc) wts\<rparr>
        in map_option (\<lambda>m. st\<lparr>countv := (countv st)[pers := Some (counts[i := cc])], metrics := m\<rparr>)
             (metric_proxy_metric_proxy_handler (nsyscall_vec cfg pers) tcp wts (metrics st)))"

definition set_overhead :: "'d float_ops \<Rightarrow> string \<Rightarrow> count_state \<Rightarrow> count_state option" where
  "set_overhead fo str st = map_option (\<lambda>t. st\<lparr>overhead := t\<rparr>) (parse_ts fo str)"

section \<open>Columns\<close>

datatype column = CSC_NONE | CSC_TIME_100S | CSC_TIME_TOTAL | CSC_TIME_MIN | CSC_TIME_MAX
  | CSC_TIME_AVG | CSC_CALLS | CSC_ERRORS | CSC_SC_NAME

definition CSC_MAX :: nat where
  "CSC_MAX = 9"

definition default_columns :: "column list" where
  "default_columns = [CSC_TIME_100S, CSC_TIME_TOTAL, CSC_TIME_AVG, CSC_CALLS, CSC_ERRORS, CSC_SC_NAME]"

definition column_aliases :: "(string \<times> column) list" where
  "column_aliases =
     [(''time'', CSC_TIME_100S), (''time_percent'', CSC_TIME_100S), (''time-percent'', CSC_TIME_100S),
      (''time_total'', CSC_TIME_TOTAL), (''time-total'', CSC_TIME_TOTAL),
      (''total_time'', CSC_TIME_TOTAL), (''total-time'', CSC_TIME_TOTAL),
      (''min_time'', CSC_TIME_MIN), (''min-time'', CSC_TIME_MIN), (''shortest'', CSC_TIME_MIN),
      (''time_min'', CSC_TIME_MIN), (''time-min'', CSC_TIME_MIN),
      (''longest'', CSC_TIME_MAX), (''max_time'', CSC_TIME_MAX), (''max-time'', CSC_TIME_MAX),
      (''time_max'', CSC_TIME_MAX), (''time-max'', CSC_TIME_MAX),
      (''avg_time'', CSC_TIME_AVG), (''avg-time'', CSC_TIME_AVG), (''time_avg'', CSC_TIME_AVG),
      (''time-avg'', CSC_TIME_AVG),
      (''calls'', CSC_CALLS), (''count'', CSC_CALLS),
      (''error'', CSC_ERRORS), (''errors'', CSC_ERRORS),
      (''name'', CSC_SC_NAME), (''syscall'', CSC_SC_NAME), (''syscall_name'', CSC_SC_NAME),
      (''syscall-name'', CSC_SC_NAME),
      (''none'', CSC_NONE), (''nothing'', CSC_NONE)]"

text \<open>
  One name of the \<open>-U\<close> option, looked up by length and contents, then the loop over the comma
  separated names.  The columns chosen so far are also the visible ones.
\<close>

definition find_column :: "string \<Rightarrow> column option" where
  "find_column name = map_option snd (find (\<lambda>(n, c). n = name \<and> c \<noteq> CSC_NONE) column_aliases)"

lemma dropWhile_shorter: "dropWhile P xs = y # ys \<Longrightarrow> length ys < length xs"
  using length_dropWhile_le [of P xs] by simp

function column_loop :: "string \<Rightarrow> column list \<Rightarrow> column list outcome" where
  "column_loop prev cols =
     (let name = takeWhile (\<lambda>c. c \<noteq> CHR '','') prev
      in case find_column name of
           None \<Rightarrow> Inl (Error_msg_and_help (''unknown column name: '' @ squote name))
         | Some c \<Rightarrow>
             if c \<in> set cols
             then Inl (Error_msg_and_help (''call summary column has been provided more than once: ''
                         @ squote name @ '' (-U option residual: '' @ squote prev @ '')''))
             else case dropWhile (\<lambda>c. c \<noteq> CHR '','') prev of
                    [] \<Rightarrow> Inr (cols @ [c])
                  | _ # rest \<Rightarrow> column_loop rest (cols @ [c]))"
  by pat_completeness auto
termination
  by (relation "measure (\<lambda>(prev, cols). length prev)")
    (auto dest!: dropWhile_shorter)

declare column_loop.simps [simp del]

text \<open>The array \<open>columns\<close>, zero-filled to its size.\<close>

definition set_count_summary_columns :: "string \<Rightarrow> column list outcome" where
  "set_count_summary_columns s =
     obind (column_loop s [])
       (\<lambda>cols. let cols = (if CSC_SC_NAME \<in> set cols then cols else cols @ [CSC_SC_NAME])
               in Inr (cols @ replicate (CSC_MAX - length cols) CSC_NONE))"

section \<open>Sorting\<close>

text \<open>\<open>strcmp\<close> compares the characters as \<open>unsigned char\<close>.\<close>

fun strcmp :: "string \<Rightarrow> string \<Rightarrow> int" where
  "strcmp [] [] = 0"
| "strcmp [] (y # ys) = - 1"
| "strcmp (x # xs) [] = 1"
| "strcmp (x # xs) (y # ys) =
     (if x = y then strcmp xs ys else if (of_char x :: nat) < of_char y then - 1 else 1)"

definition time_cmp :: "call_counts list \<Rightarrow> nat \<Rightarrow> nat \<Rightarrow> int" where
  "time_cmp counts a b = - ts_cmp (cc_time (counts ! a)) (cc_time (counts ! b))"

definition min_time_cmp :: "call_counts list \<Rightarrow> nat \<Rightarrow> nat \<Rightarrow> int" where
  "min_time_cmp counts a b = - ts_cmp (time_min (counts ! a)) (time_min (counts ! b))"

definition max_time_cmp :: "call_counts list \<Rightarrow> nat \<Rightarrow> nat \<Rightarrow> int" where
  "max_time_cmp counts a b = - ts_cmp (time_max (counts ! a)) (time_max (counts ! b))"

definition avg_time_cmp :: "call_counts list \<Rightarrow> nat \<Rightarrow> nat \<Rightarrow> int" where
  "avg_time_cmp counts a b = - ts_cmp (time_avg (counts ! a)) (time_avg (counts ! b))"

definition syscall_cmp :: "sysent list \<Rightarrow> nat \<Rightarrow> nat \<Rightarrow> int" where
  "syscall_cmp ents a b =
     strcmp (case sys_name (ents ! a) of None \<Rightarrow> [] | Some s \<Rightarrow> s)
            (case sys_name (ents ! b) of None \<Rightarrow> [] | Some s \<Rightarrow> s)"

text \<open>The counts are narrowed to \<open>unsigned int\<close> before they are compared.\<close>

definition count_cmp :: "call_counts list \<Rightarrow> nat \<Rightarrow> nat \<Rightarrow> int" where
  "count_cmp counts a b =
     (let m = ucast (calls (counts ! a)) :: u32; n = ucast (calls (counts ! b)) :: u32
      in if m < n then 1 else if m > n then - 1 else 0)"

definition error_cmp :: "call_counts list \<Rightarrow> nat \<Rightarrow> nat \<Rightarrow> int" where
  "error_cmp counts a b =
     (let m = ucast (errors (counts ! a)) :: u32; n = ucast (errors (counts ! b)) :: u32
      in if m < n then 1 else if m > n then - 1 else 0)"

text \<open>\<open>set_sortby\<close>: the column that selects the comparison; \<open>CSC_NONE\<close> selects none.\<close>

definition set_sortby :: "string \<Rightarrow> column outcome" where
  "set_sortby sortby =
     (case find (\<lambda>(n, c). n = sortby) column_aliases of
        Some (n, c) \<Rightarrow> Inr c
      | None \<Rightarrow> Inl (Error_msg_and_help (''invalid sortby: '' @ squote sortby)))"

fun sort_fns :: "sysent list \<Rightarrow> call_counts list \<Rightarrow> column \<Rightarrow> (nat \<Rightarrow> nat \<Rightarrow> int) option" where
  "sort_fns ents counts CSC_NONE = None"
| "sort_fns ents counts CSC_TIME_100S = Some (time_cmp counts)"
| "sort_fns ents counts CSC_TIME_TOTAL = Some (time_cmp counts)"
| "sort_fns ents counts CSC_TIME_MIN = Some (min_time_cmp counts)"
| "sort_fns ents counts CSC_TIME_MAX = Some (max_time_cmp counts)"
| "sort_fns ents counts CSC_TIME_AVG = Some (avg_time_cmp counts)"
| "sort_fns ents counts CSC_CALLS = Some (count_cmp counts)"
| "sort_fns ents counts CSC_ERRORS = Some (error_cmp counts)"
| "sort_fns ents counts CSC_SC_NAME = Some (syscall_cmp ents)"

text \<open>\<open>qsort\<close>, as a stable sort (the C library may order equal elements differently).\<close>

fun insort_cmp :: "('a \<Rightarrow> 'a \<Rightarrow> int) \<Rightarrow> 'a \<Rightarrow> 'a list \<Rightarrow> 'a list" where
  "insort_cmp cmp x [] = [x]"
| "insort_cmp cmp x (y # ys) = (if cmp x y \<le> 0 then x # y # ys else y # insort_cmp cmp x ys)"

definition qsort :: "('a \<Rightarrow> 'a \<Rightarrow> int) \<Rightarrow> 'a list \<Rightarrow> 'a list" where
  "qsort cmp xs = foldr (insort_cmp cmp) xs []"

section \<open>The summary\<close>

record summary =
  tv_cum :: timespec
  tv_min :: timespec
  tv_min_max :: timespec
  tv_max :: timespec
  tv_avg_max :: timespec
  call_cum :: u64
  error_cum :: u64
  sc_name_max :: nat

definition zero_summary :: summary where
  "zero_summary = \<lparr>tv_cum = zero_ts, tv_min = max_ts, tv_min_max = zero_ts, tv_max = zero_ts,
                   tv_avg_max = zero_ts, call_cum = 0, error_cum = 0, sc_name_max = 0\<rparr>"

text \<open>The first loop: the totals, and \<open>time_avg\<close> of every system call that was made.\<close>

fun summary_loop :: "sysent list \<Rightarrow> nat \<Rightarrow> call_counts list \<Rightarrow> summary \<Rightarrow> call_counts list \<times> summary" where
  "summary_loop ents i [] s = ([], s)"
| "summary_loop ents i (c # cs) s =
     (if calls c = 0 then
        (let (cs', s') = summary_loop ents (Suc i) cs s in (c # cs', s'))
      else
        let avg = ts_div (cc_time c) (calls c);
            s = s\<lparr>tv_cum := ts_add (tv_cum s) (cc_time c), tv_min := ts_min (tv_min s) (time_min c),
                  tv_min_max := ts_max (tv_min_max s) (time_min c), tv_max := ts_max (tv_max s) (time_max c),
                  tv_avg_max := ts_max (tv_avg_max s) avg, call_cum := call_cum s + calls c,
                  error_cum := error_cum s + errors c,
                  sc_name_max := max (sc_name_max s) (case sys_name (ents ! i) of None \<Rightarrow> 0 | Some n \<Rightarrow> length n)\<rparr>;
            (cs', s') = summary_loop ents (Suc i) cs s
        in (c\<lparr>time_avg := avg\<rparr> # cs', s'))"

text \<open>A cell, by the value it shows: a share of a total time, seconds, microseconds, \<open>\<dots>\<close>\<close>

datatype cell = Cell_percent timespec timespec | Cell_percent_total | Cell_seconds timespec
  | Cell_usecs timespec | Cell_usecs_per_call timespec u64 | Cell_number u64 | Cell_text "string option"

fun data_cell :: "sysent list \<Rightarrow> call_counts list \<Rightarrow> summary \<Rightarrow> nat \<Rightarrow> column \<Rightarrow> cell option" where
  "data_cell ents counts s idx CSC_NONE = None"
| "data_cell ents counts s idx CSC_TIME_100S = Some (Cell_percent (cc_time (counts ! idx)) (tv_cum s))"
| "data_cell ents counts s idx CSC_TIME_TOTAL = Some (Cell_seconds (cc_time (counts ! idx)))"
| "data_cell ents counts s idx CSC_TIME_MIN = Some (Cell_seconds (time_min (counts ! idx)))"
| "data_cell ents counts s idx CSC_TIME_MAX = Some (Cell_seconds (time_max (counts ! idx)))"
| "data_cell ents counts s idx CSC_TIME_AVG = Some (Cell_usecs (time_avg (counts ! idx)))"
| "data_cell ents counts s idx CSC_CALLS = Some (Cell_number (calls (counts ! idx)))"
| "data_cell ents counts s idx CSC_ERRORS = Some (Cell_number (errors (counts ! idx)))"
| "data_cell ents counts s idx CSC_SC_NAME = Some (Cell_text (sys_name (ents ! idx)))"

fun total_cell :: "summary \<Rightarrow> column \<Rightarrow> cell option" where
  "total_cell s CSC_NONE = None"
| "total_cell s CSC_TIME_100S = Some Cell_percent_total"
| "total_cell s CSC_TIME_TOTAL = Some (Cell_seconds (tv_cum s))"
| "total_cell s CSC_TIME_MIN = Some (Cell_seconds (tv_min s))"
| "total_cell s CSC_TIME_MAX = Some (Cell_seconds (tv_max s))"
| "total_cell s CSC_TIME_AVG = Some (Cell_usecs_per_call (tv_cum s) (call_cum s))"
| "total_cell s CSC_CALLS = Some (Cell_number (call_cum s))"
| "total_cell s CSC_ERRORS = Some (Cell_number (error_cum s))"
| "total_cell s CSC_SC_NAME = Some (Cell_text (Some ''total''))"

text \<open>The columns up to \<open>last_column\<close>, the last before a zero (column 0 in any case).\<close>

definition shown_columns :: "column list \<Rightarrow> column list" where
  "shown_columns cols =
     (let n = length (takeWhile (\<lambda>c. c \<noteq> CSC_NONE) cols) in take (max n 1) cols)"

text \<open>
  The rows of the table, the row of the totals, and the counters with their averages.  \<open>sortby\<close>
  is \<open>None\<close> when no sort function was set.
\<close>

definition call_summary_pers ::
    "sysent list \<Rightarrow> column list \<Rightarrow> column option \<Rightarrow> call_counts list
     \<Rightarrow> cell option list list \<times> cell option list \<times> call_counts list" where
  "call_summary_pers ents cols sortby counts =
     (let (counts, s) = summary_loop ents 0 counts zero_summary;
          indices = [0..<length counts];
          indices = (case sortby of None \<Rightarrow> indices
                     | Some c \<Rightarrow> (case sort_fns ents counts c of None \<Rightarrow> indices | Some f \<Rightarrow> qsort f indices));
          shown = filter (\<lambda>idx. calls (counts ! idx) \<noteq> 0) indices
      in (map (\<lambda>idx. map (data_cell ents counts s idx) (shown_columns cols)) shown,
          map (total_cell s) (shown_columns cols), counts))"

text \<open>The tables of all personalities that made a call, with their personality.\<close>

definition call_summary ::
    "'d config \<Rightarrow> column list \<Rightarrow> column option \<Rightarrow> count_state
     \<Rightarrow> (nat \<times> cell option list list \<times> cell option list) list" where
  "call_summary cfg cols sortby st =
     concat (map (\<lambda>i. case countv st ! i of None \<Rightarrow> []
                      | Some counts \<Rightarrow>
                          (case call_summary_pers (sysent_vec cfg ! i) cols sortby counts of
                             (rows, totals, _) \<Rightarrow> [(i, rows, totals)]))
              [0..<SUPPORTED_PERSONALITIES cfg])"

section \<open>What the counters hold\<close>

text \<open>A system call that ended: its personality, control block and exit time.\<close>

type_synonym counted = "nat \<times> tcb \<times> timespec"

fun count_all :: "'d config \<Rightarrow> bool \<Rightarrow> counted list \<Rightarrow> count_state \<Rightarrow> count_state option" where
  "count_all cfg wall [] st = Some st"
| "count_all cfg wall ((p, tcp, ts) # evs) st =
     Option.bind (count_syscall cfg p wall tcp ts st) (count_all cfg wall evs)"

definition counts_of :: "count_state \<Rightarrow> nat \<Rightarrow> nat \<Rightarrow> call_counts" where
  "counts_of st p n = (case countv st ! p of None \<Rightarrow> fresh_counts | Some c \<Rightarrow> c ! n)"

definition counts_wf :: "'d config \<Rightarrow> count_state \<Rightarrow> bool" where
  "counts_wf cfg st \<longleftrightarrow> length (countv st) = SUPPORTED_PERSONALITIES cfg
     \<and> (\<forall>p < SUPPORTED_PERSONALITIES cfg. \<forall>c. countv st ! p = Some c \<longrightarrow> length c = nsyscall_vec cfg p)"

definition bump :: "bool \<Rightarrow> timespec \<Rightarrow> counted \<Rightarrow> call_counts \<Rightarrow> call_counts" where
  "bump wall ovh ev cc =
     (case ev of (_, tcp, ts) \<Rightarrow>
        let wts = syscall_time wall ovh ts tcp
        in cc\<lparr>calls := calls cc + 1, errors := errors cc + (if syserror tcp then 1 else 0),
              cc_time := ts_add (cc_time cc) wts, time_min := ts_min (time_min cc) wts,
              time_max := ts_max (time_max cc) wts\<rparr>)"

definition concerns :: "nat \<Rightarrow> nat \<Rightarrow> counted \<Rightarrow> bool" where
  "concerns p n ev \<longleftrightarrow> (case ev of (q, tcp, _) \<Rightarrow> q = p \<and> unat (scno tcp) = n)"

lemma count_syscall_step:
  assumes "count_syscall cfg q wall tcp ts st = Some st'" "counts_wf cfg st" "q < SUPPORTED_PERSONALITIES cfg"
  shows "counts_wf cfg st' \<and> overhead st' = overhead st
     \<and> (\<forall>p < SUPPORTED_PERSONALITIES cfg. \<forall>n < nsyscall_vec cfg p. counts_of st' p n =
          (if concerns p n (q, tcp, ts) then bump wall (overhead st) (q, tcp, ts) (counts_of st p n)
           else counts_of st p n))"
proof (cases "scno_in_range cfg q (scno tcp)")
  case False
  with assms show ?thesis
    by (auto simp: count_syscall_def concerns_def scno_in_range_def)
next
  case True
  let ?c = "case countv st ! q of Some c \<Rightarrow> c | None \<Rightarrow> replicate (nsyscall_vec cfg q) fresh_counts"
  let ?i = "unat (scno tcp)"
  have q: "q < length (countv st)" and c: "length ?c = nsyscall_vec cfg q" and i: "?i < nsyscall_vec cfg q"
    and old: "?c ! n = counts_of st q n" if "n < nsyscall_vec cfg q" for n
    using assms(2,3) True that by (auto simp: counts_wf_def scno_in_range_def counts_of_def split: option.splits)
  obtain m where st': "st' = st\<lparr>countv := (countv st)[q := Some (?c[?i := bump wall (overhead st) (q, tcp, ts) (?c ! ?i)])],
      metrics := m\<rparr>"
    using assms(1) True by (auto simp: count_syscall_def bump_def Let_def)
  have "?i < nsyscall_vec cfg q" using True by (simp add: scno_in_range_def)
  then have len: "q < length (countv st)" "length ?c = nsyscall_vec cfg q" "?i < nsyscall_vec cfg q"
    using q c by auto
  have "counts_wf cfg st'"
    using assms(2) len by (auto simp: st' counts_wf_def nth_list_update)
  moreover have "counts_of st' p n = (if concerns p n (q, tcp, ts)
      then bump wall (overhead st) (q, tcp, ts) (counts_of st p n) else counts_of st p n)"
    if "n < nsyscall_vec cfg p" for p n
  proof (cases "p = q")
    case True
    then have "counts_of st' p n = ?c[?i := bump wall (overhead st) (q, tcp, ts) (?c ! ?i)] ! n"
      using len by (simp add: counts_of_def st')
    then show ?thesis using True that old len by (auto simp: concerns_def nth_list_update)
  next
    case False
    then show ?thesis by (auto simp: counts_of_def st' concerns_def)
  qed
  ultimately show ?thesis by (auto simp: st')
qed

lemma count_all_counts:
  assumes "count_all cfg wall evs st = Some st'" "counts_wf cfg st"
    and "list_all (\<lambda>(q, _). q < SUPPORTED_PERSONALITIES cfg) evs"
    and "p < SUPPORTED_PERSONALITIES cfg" "n < nsyscall_vec cfg p"
  shows "counts_of st' p n = fold (bump wall (overhead st)) (filter (concerns p n) evs) (counts_of st p n)"
  using assms(1-3)
proof (induction evs arbitrary: st)
  case (Cons ev evs)
  obtain q tcp ts where ev: "ev = (q, tcp, ts)" by (cases ev)
  with Cons.prems obtain st1 where st1: "count_syscall cfg q wall tcp ts st = Some st1"
    "count_all cfg wall evs st1 = Some st'" by (auto simp: bind_eq_Some_conv)
  have step: "counts_wf cfg st1" "overhead st1 = overhead st"
    "counts_of st1 p n = (if concerns p n ev then bump wall (overhead st) ev (counts_of st p n) else counts_of st p n)"
    using count_syscall_step [OF st1(1) Cons.prems(2)] Cons.prems(3) assms(4,5) by (auto simp: ev)
  with Cons.IH [OF st1(2)] Cons.prems(3) show ?case by auto
qed simp

text \<open>The times of a record, all normalised, and what a sequence of updates sums up to.\<close>

definition cc_norm :: "call_counts \<Rightarrow> bool" where
  "cc_norm cc \<longleftrightarrow> ts_norm (cc_time cc) \<and> ts_norm (time_min cc) \<and> ts_norm (time_max cc)"

definition ev_norm :: "counted \<Rightarrow> bool" where
  "ev_norm ev \<longleftrightarrow> (case ev of (_, tcp, ts) \<Rightarrow>
     ts_norm ts \<and> ts_norm (etime tcp) \<and> ts_norm (stime tcp) \<and> ts_norm (ltime tcp))"

definition duration :: "bool \<Rightarrow> timespec \<Rightarrow> counted \<Rightarrow> int" where
  "duration wall ovh ev = (case ev of (_, tcp, ts) \<Rightarrow>
     max 0 ((if wall then ts_ns ts - ts_ns (etime tcp) else ts_ns (stime tcp) - ts_ns (ltime tcp)) - ts_ns ovh))"

definition failed :: "counted \<Rightarrow> bool" where
  "failed ev \<longleftrightarrow> syserror (fst (snd ev))"

lemma zero_ts_norm [simp]: "ts_norm zero_ts" "ts_ns zero_ts = 0"
  by (simp_all add: zero_ts_def ts_unfold)

lemma syscall_time_norm:
  assumes "ev_norm (p, tcp, ts)" "ts_norm ovh"
  shows "ts_norm (syscall_time wall ovh ts tcp)" "ts_ns (syscall_time wall ovh ts tcp) = duration wall ovh (p, tcp, ts)"
  using assms by (auto simp: ev_norm_def syscall_time_def Let_def duration_def ts_ns_max max.commute)

lemma fold_bump:
  assumes "list_all ev_norm evs" "ts_norm ovh" "cc_norm cc"
  shows "cc_norm (fold (bump wall ovh) evs cc)
     \<and> calls (fold (bump wall ovh) evs cc) = calls cc + of_nat (length evs)
     \<and> errors (fold (bump wall ovh) evs cc) = errors cc + of_nat (length (filter failed evs))
     \<and> ts_ns (cc_time (fold (bump wall ovh) evs cc)) = ts_ns (cc_time cc) + sum_list (map (duration wall ovh) evs)
     \<and> ts_ns (time_min (fold (bump wall ovh) evs cc)) = fold min (map (duration wall ovh) evs) (ts_ns (time_min cc))
     \<and> ts_ns (time_max (fold (bump wall ovh) evs cc)) = fold max (map (duration wall ovh) evs) (ts_ns (time_max cc))"
  using assms(1,3)
proof (induction evs arbitrary: cc)
  case (Cons ev evs)
  obtain p tcp ts where ev: "ev = (p, tcp, ts)" by (cases ev)
  note t = syscall_time_norm [of p tcp ts ovh wall, OF _ assms(2)]
  have b: "cc_norm (bump wall ovh ev cc)" "calls (bump wall ovh ev cc) = calls cc + 1"
    "errors (bump wall ovh ev cc) = errors cc + (if failed ev then 1 else 0)"
    "ts_ns (cc_time (bump wall ovh ev cc)) = ts_ns (cc_time cc) + duration wall ovh ev"
    "ts_ns (time_min (bump wall ovh ev cc)) = min (duration wall ovh ev) (ts_ns (time_min cc))"
    "ts_ns (time_max (bump wall ovh ev cc)) = max (duration wall ovh ev) (ts_ns (time_max cc))"
    using Cons.prems t
    by (auto simp: ev bump_def Let_def cc_norm_def ts_ns_max ts_ns_min failed_def min.commute max.commute)
  show ?case using Cons.IH [OF _ b(1)] Cons.prems(1) b(2-6) by (simp add: algebra_simps)
qed simp

text \<open>
  C32: The call summary counts right: after any sequence of counted system calls, over any number
  of personalities, the entry of a system call has grown by the number of its calls and of
  those that failed, its total time by the sum of the calls' durations without overhead
  (never negative), and its shortest and longest times are the minimum and maximum of them.
\<close>

theorem count_all_sums:
  assumes "count_all cfg wall evs st = Some st'" "counts_wf cfg st" "ts_norm (overhead st)"
    and "list_all (\<lambda>(q, _). q < SUPPORTED_PERSONALITIES cfg) evs" "list_all ev_norm evs"
    and "p < SUPPORTED_PERSONALITIES cfg" "n < nsyscall_vec cfg p" "cc_norm (counts_of st p n)"
    and "E = filter (concerns p n) evs" "D = map (duration wall (overhead st)) E"
  shows "calls (counts_of st' p n) = calls (counts_of st p n) + of_nat (length E)
     \<and> errors (counts_of st' p n) = errors (counts_of st p n) + of_nat (length (filter failed E))
     \<and> ts_ns (cc_time (counts_of st' p n)) = ts_ns (cc_time (counts_of st p n)) + sum_list D
     \<and> ts_ns (time_min (counts_of st' p n)) = fold min D (ts_ns (time_min (counts_of st p n)))
     \<and> ts_ns (time_max (counts_of st' p n)) = fold max D (ts_ns (time_max (counts_of st p n)))"
proof -
  have "list_all ev_norm E" using assms(5,9) by (auto simp: list_all_iff)
  with fold_bump [OF _ assms(3,8)] count_all_counts [OF assms(1,2,4,6,7)] assms(9,10) show ?thesis by metis
qed

text \<open>A control block after a system call of \<open>sample_config\<close> that took two seconds.\<close>

definition sample_tcb :: "nat \<Rightarrow> u64 \<Rightarrow> tcb" where
  "sample_tcb p nr = \<lparr>tcb_flags = 0, pid = 1, qual_flg = 0, currpers = p, u_error = 0, scno = nr,
     true_scno = nr, u_arg = [], u_rval = 5, sys_func_rval = 0, outf = Log [], staged_output_data = None,
     auxstr = None, s_ent = Some (sysent_vec sample_config ! p ! unat nr), s_prev_ent = None, priv_sysent = False,
     tcb_inject_vec = [None, None], stime = zero_ts, ltime = zero_ts,
     etime = \<lparr>tv_sec = 1, tv_nsec = 0\<rparr>, delay_expiration_time = zero_ts\<rparr>"

definition sample_ts :: timespec where
  "sample_ts = \<lparr>tv_sec = 3, tv_nsec = 0\<rparr>"

definition initial_counts :: "'d config \<Rightarrow> count_state" where
  "initial_counts cfg = \<lparr>countv = replicate (SUPPORTED_PERSONALITIES cfg) None, overhead = zero_ts,
     metrics = \<lparr>scall_array_hits = None, scall_array_time = None, scall_array_size = None, metric_calls = []\<rparr>\<rparr>"

lemma fresh_counts_norm [simp]: "cc_norm fresh_counts"
  by (simp add: cc_norm_def fresh_counts_def max_ts_def zero_ts_def ts_norm_def NS_IN_S_def)

lemma initial_counts_facts [simp]:
  "counts_wf cfg (initial_counts cfg)" "ts_norm (overhead (initial_counts cfg))"
  "p < SUPPORTED_PERSONALITIES cfg \<Longrightarrow> counts_of (initial_counts cfg) p n = fresh_counts"
  by (simp_all add: counts_wf_def initial_counts_def counts_of_def)

section \<open>The metric proxy arrays\<close>

text \<open>
  As long as all counted calls are of one personality, the arrays have the size of its table
  and every access is within bounds.
\<close>

definition metrics_fit :: "nat \<Rightarrow> metrics \<Rightarrow> bool" where
  "metrics_fit n m \<longleftrightarrow> pred_option (\<lambda>a. length a = n) (scall_array_hits m)
     \<and> pred_option (\<lambda>a. length a = n) (scall_array_size m)
     \<and> (scall_array_hits m \<noteq> None \<longrightarrow> scall_array_time m \<noteq> None \<and> length (the (scall_array_time m)) = n)"

lemma handle_ios_fit:
  assumes "metrics_fit n m" "unat (scno tcp) < n"
  shows "\<exists>m'. metric_proxy_metric_handle_ios n tcp m = Some m' \<and> metrics_fit n m'"
  using assms
  by (cases "scall_array_size m")
    (auto simp: metric_proxy_metric_handle_ios_def Let_def metrics_fit_def split: option.splits)

lemma proxy_handler_fit:
  assumes "metrics_fit n m" "unat (scno tcp) < n"
  shows "\<exists>m'. metric_proxy_metric_proxy_handler n tcp wts m = Some m' \<and> metrics_fit n m'"
proof -
  obtain hits where hits: "(case scall_array_hits m of Some a \<Rightarrow> a | None \<Rightarrow> replicate n None) = hits" "length hits = n"
    using assms(1) by (cases "scall_array_hits m") (auto simp: metrics_fit_def)
  obtain times where times: "(if scall_array_hits m = None then replicate n None
      else (case scall_array_time m of Some a \<Rightarrow> a | None \<Rightarrow> [])) = times" "length times = n"
    using assms(1) by (cases "scall_array_hits m") (auto simp: metrics_fit_def)
  show ?thesis
    unfolding metric_proxy_metric_proxy_handler_def hits(1) times(1) Let_def
    unfolding hits(2) times(2) simp_thms if_P [OF assms(2)]
    using assms hits(2) times(2) by (intro handle_ios_fit) (auto simp: metrics_fit_def)
qed

lemma count_all_one_personality:
  assumes "list_all (\<lambda>(q, _). q = p) evs" "metrics_fit (nsyscall_vec cfg p) (metrics st)"
  shows "\<exists>st'. count_all cfg wall evs st = Some st'"
  using assms
proof (induction evs arbitrary: st)
  case (Cons ev evs)
  obtain tcp ts where ev: "ev = (p, tcp, ts)" using Cons.prems(1) by (cases ev) auto
  have "\<exists>st1. count_syscall cfg p wall tcp ts st = Some st1 \<and> metrics_fit (nsyscall_vec cfg p) (metrics st1)"
  proof (cases "scno_in_range cfg p (scno tcp)")
    case True
    let ?w = "syscall_time wall (overhead st) ts tcp"
    obtain m where "metric_proxy_metric_proxy_handler (nsyscall_vec cfg p) tcp ?w (metrics st) = Some m"
      "metrics_fit (nsyscall_vec cfg p) m"
      using proxy_handler_fit [OF Cons.prems(2)] True by (auto simp: scno_in_range_def)
    with True show ?thesis by (simp add: count_syscall_def Let_def)
  next
    case False
    with Cons.prems(2) show ?thesis by (simp add: count_syscall_def)
  qed
  with Cons.IH Cons.prems(1) ev show ?case by (auto simp: bind_eq_Some_conv)
qed simp

text \<open>
  Counting is safe for a process that stays in one personality: from the initial state the
  handlers of the metric proxy never access their arrays out of bounds, whatever system calls
  are counted, also those with numbers outside the table.
\<close>

lemma count_one_personality_safe:
  assumes "list_all (\<lambda>(q, _). q = p) evs"
  shows "\<exists>st'. count_all cfg wall evs (initial_counts cfg) = Some st'"
  using assms by (rule count_all_one_personality) (simp add: metrics_fit_def initial_counts_def)

lemma count_one_personality_safe_witness:
  "\<exists>st'. count_all sample_config True [(0, sample_tcb 0 1, sample_ts), (0, sample_tcb 0 3, sample_ts)]
     (initial_counts sample_config) = Some st'"
  by (rule count_one_personality_safe [of 0]) simp

lemmas count_eval = count_syscall_def scno_in_range_def sample_tcb_def sample_config_def sample_entry_def
  nsyscall_vec_def SUPPORTED_PERSONALITIES_def initial_counts_def Let_def syscall_time_def
  metric_proxy_metric_proxy_handler_def metric_proxy_metric_handle_ios_def syserror_def tcp_sysent_def
  name_of_def snprintf_def write_sens_def read_sens_def


theorem count_all_sums_witness:
  "\<exists>st'. count_all sample_config True [(0, sample_tcb 0 1, sample_ts), (0, sample_tcb 0 1, sample_ts)]
      (initial_counts sample_config) = Some st'
     \<and> calls (counts_of st' 0 1) = 2 \<and> ts_ns (cc_time (counts_of st' 0 1)) = 4000000000
     \<and> ts_ns (time_max (counts_of st' 0 1)) = 2000000000"
proof -
  let ?evs = "[(0, sample_tcb 0 1, sample_ts), (0, sample_tcb 0 1, sample_ts)]"
  obtain st' where st': "count_all sample_config True ?evs (initial_counts sample_config) = Some st'"
    using count_all_one_personality [of 0 ?evs sample_config "initial_counts sample_config" True]
    by (auto simp: metrics_fit_def initial_counts_def)
  have c: "filter (concerns 0 1) ?evs = ?evs" "0 < SUPPORTED_PERSONALITIES sample_config"
    "1 < nsyscall_vec sample_config 0" "list_all ev_norm ?evs"
    "map (duration True zero_ts) ?evs = [2000000000, 2000000000]"
    by (simp_all add: concerns_def sample_tcb_def SUPPORTED_PERSONALITIES_def sample_config_def nsyscall_vec_def
        ev_norm_def sample_ts_def ts_unfold zero_ts_def duration_def)
  have o: "overhead (initial_counts sample_config) = zero_ts" by (simp add: initial_counts_def)
  have f: "calls fresh_counts = 0" "ts_ns (cc_time fresh_counts) = 0" "ts_ns (time_max fresh_counts) = 0"
    by (simp_all add: fresh_counts_def)
  show ?thesis
    using count_all_sums [OF st' initial_counts_facts(1,2) _ c(4) c(2,3) _ c(1) [symmetric] refl] st' c(2,5) o f
    by auto
qed

section \<open>Columns and rows\<close>

lemma find_column_not_none: "find_column name \<noteq> Some CSC_NONE"
  by (auto simp: find_column_def find_Some_iff)

lemma column_UNIV: "(UNIV :: column set) = {CSC_NONE, CSC_TIME_100S, CSC_TIME_TOTAL, CSC_TIME_MIN, CSC_TIME_MAX,
    CSC_TIME_AVG, CSC_CALLS, CSC_ERRORS, CSC_SC_NAME}"
  using column.exhaust by blast

lemma distinct_columns_bound:
  assumes "distinct cols" "CSC_NONE \<notin> set cols"
  shows "length cols \<le> 8"
proof -
  have "length cols = card (set cols)" using assms(1) by (rule distinct_card [symmetric])
  also have "\<dots> \<le> card (UNIV - {CSC_NONE} :: column set)"
    using assms(2) by (intro card_mono) (simp add: column_UNIV, blast)
  also have "\<dots> = 8" by (simp add: column_UNIV)
  finally show ?thesis .
qed

text \<open>The comma separated names of the option, empty ones included.\<close>

function split_comma :: "string \<Rightarrow> string list" where
  "split_comma s = takeWhile (\<lambda>c. c \<noteq> CHR '','') s #
     (case dropWhile (\<lambda>c. c \<noteq> CHR '','') s of [] \<Rightarrow> [] | _ # rest \<Rightarrow> split_comma rest)"
  by pat_completeness auto
termination
  by (relation "measure length") (auto dest!: dropWhile_shorter)

declare split_comma.simps [simp del]

lemma column_loop_sound:
  assumes "column_loop prev cols = Inr cols'" "distinct cols" "CSC_NONE \<notin> set cols"
  shows "distinct cols' \<and> CSC_NONE \<notin> set cols'
    \<and> map Some cols' = map Some cols @ map find_column (split_comma prev)"
  using assms
proof (induction prev cols rule: column_loop.induct)
  case (1 prev cols)
  let ?name = "takeWhile (\<lambda>c. c \<noteq> CHR '','') prev" and ?r = "dropWhile (\<lambda>c. c \<noteq> CHR '','') prev"
  from "1.prems"(1) obtain c where c: "find_column ?name = Some c" "c \<notin> set cols"
    by (subst (asm) column_loop.simps) (auto simp: Let_def split: option.splits if_splits)
  with "1.prems" have d: "distinct (cols @ [c])" "CSC_NONE \<notin> set (cols @ [c])"
    using find_column_not_none [of ?name] by auto
  show ?case
  proof (cases ?r)
    case Nil
    with "1.prems"(1) c have "cols' = cols @ [c]"
      by (subst (asm) column_loop.simps) (simp add: Let_def)
    with d c show ?thesis by (subst split_comma.simps) (simp del: dropWhile_eq_Nil_conv add: Nil)
  next
    case (Cons x rest)
    with "1.prems"(1) c have "column_loop rest (cols @ [c]) = Inr cols'"
      by (subst (asm) column_loop.simps) (simp add: Let_def)
    with "1.IH" [OF refl c(1,2) Cons] d have "distinct cols' \<and> CSC_NONE \<notin> set cols'
        \<and> map Some cols' = map Some (cols @ [c]) @ map find_column (split_comma rest)"
      by simp
    with c Cons show ?thesis by (subst split_comma.simps) simp
  qed
qed

text \<open>
  When \<open>set_count_summary_columns\<close> accepts the argument of \<open>-U\<close>, the array of columns holds
  the named columns in the order of their names, each once, the name column in any case, and
  then zeroes: at most eight columns, so the array of nine is never overrun and always
  terminated.
\<close>

lemma summary_columns_ok:
  assumes "set_count_summary_columns s = Inr cols"
  shows "\<exists>chosen. cols = chosen @ replicate (CSC_MAX - length chosen) CSC_NONE \<and> length chosen < CSC_MAX
    \<and> distinct chosen \<and> CSC_NONE \<notin> set chosen \<and> CSC_SC_NAME \<in> set chosen
    \<and> (\<exists>extra. map Some chosen = map find_column (split_comma s) @ extra
         \<and> (extra = [] \<or> extra = [Some CSC_SC_NAME]))"
proof -
  obtain cs where cs: "column_loop s [] = Inr cs"
    using assms by (auto simp: set_count_summary_columns_def obind_eq_Inr)
  then have l: "distinct cs" "CSC_NONE \<notin> set cs" "map Some cs = map find_column (split_comma s)"
    using column_loop_sound [OF cs] by auto
  define chosen where "chosen = (if CSC_SC_NAME \<in> set cs then cs else cs @ [CSC_SC_NAME])"
  have "distinct chosen" "CSC_NONE \<notin> set chosen" "CSC_SC_NAME \<in> set chosen"
    using l by (auto simp: chosen_def)
  moreover from this have "length chosen < CSC_MAX"
    using distinct_columns_bound [of chosen] by (simp add: CSC_MAX_def)
  moreover have "cols = chosen @ replicate (CSC_MAX - length chosen) CSC_NONE"
    using assms cs by (simp add: set_count_summary_columns_def chosen_def Let_def)
  ultimately show ?thesis
    using l(3) by (intro exI [of _ chosen]) (auto simp: chosen_def)
qed

lemma summary_columns_ok_witness:
  "set_count_summary_columns ''calls,time_max'' =
     Inr [CSC_CALLS, CSC_TIME_MAX, CSC_SC_NAME, CSC_NONE, CSC_NONE, CSC_NONE, CSC_NONE, CSC_NONE, CSC_NONE]
   \<and> CSC_SC_NAME \<in> set [CSC_CALLS, CSC_TIME_MAX, CSC_SC_NAME, CSC_NONE]"
proof -
  have e: "set_count_summary_columns ''calls,time_max'' =
     Inr [CSC_CALLS, CSC_TIME_MAX, CSC_SC_NAME, CSC_NONE, CSC_NONE, CSC_NONE, CSC_NONE, CSC_NONE, CSC_NONE]"
    by (simp add: set_count_summary_columns_def column_loop.simps find_column_def column_aliases_def
        CSC_MAX_def numeral_eq_Suc)
  from summary_columns_ok [OF e] e show ?thesis by auto
qed

section \<open>Order of the rows\<close>

text \<open>What \<open>qsort\<close> needs of a comparison function.\<close>

locale comparison =
  fixes cmp :: "'a \<Rightarrow> 'a \<Rightarrow> int"
  assumes cmp_total: "cmp a b \<le> 0 \<or> cmp b a \<le> 0"
    and cmp_trans: "cmp a b \<le> 0 \<Longrightarrow> cmp b c \<le> 0 \<Longrightarrow> cmp a c \<le> 0"
begin

lemma set_insort_cmp: "set (insort_cmp cmp x xs) = insert x (set xs)"
  by (induction xs) auto

lemma mset_insort_cmp: "mset (insort_cmp cmp x xs) = add_mset x (mset xs)"
  by (induction xs) auto

lemma sorted_insort_cmp:
  "sorted_wrt (\<lambda>a b. cmp a b \<le> 0) xs \<Longrightarrow> sorted_wrt (\<lambda>a b. cmp a b \<le> 0) (insort_cmp cmp x xs)"
proof (induction xs)
  case (Cons y ys)
  then show ?case
    using cmp_total [of x y] by (auto simp: set_insort_cmp intro: cmp_trans)
qed simp

lemma mset_qsort: "mset (qsort cmp xs) = mset xs"
  by (induction xs) (simp_all add: qsort_def mset_insort_cmp)

lemma sorted_qsort: "sorted_wrt (\<lambda>a b. cmp a b \<le> 0) (qsort cmp xs)"
  by (induction xs) (simp_all add: qsort_def sorted_insort_cmp)

end

lemma ts_cmp_facts:
  "ts_cmp a b \<ge> 0 \<or> ts_cmp b a \<ge> 0" "ts_cmp a b \<ge> 0 \<Longrightarrow> ts_cmp b c \<ge> 0 \<Longrightarrow> ts_cmp a c \<ge> 0"
  by (auto simp: ts_cmp_def split: if_splits)

lemma strcmp_le: "strcmp a b \<le> 0 \<or> strcmp b a \<le> 0"
  by (induction a b rule: strcmp.induct) auto

lemma strcmp_le_trans: "strcmp a b \<le> 0 \<Longrightarrow> strcmp b c \<le> 0 \<Longrightarrow> strcmp a c \<le> 0"
proof (induction a b arbitrary: c rule: strcmp.induct)
  case (2 y ys)
  then show ?case by (cases c) auto
next
  case (4 x xs y ys)
  then show ?case by (cases c) (auto split: if_splits)
qed (auto split: if_splits)

interpretation time: comparison "time_cmp counts" for counts
  by unfold_locales (use ts_cmp_facts in \<open>auto simp: time_cmp_def\<close>)

interpretation min_time: comparison "min_time_cmp counts" for counts
  by unfold_locales (use ts_cmp_facts in \<open>auto simp: min_time_cmp_def\<close>)

interpretation max_time: comparison "max_time_cmp counts" for counts
  by unfold_locales (use ts_cmp_facts in \<open>auto simp: max_time_cmp_def\<close>)

interpretation avg_time: comparison "avg_time_cmp counts" for counts
  by unfold_locales (use ts_cmp_facts in \<open>auto simp: avg_time_cmp_def\<close>)

interpretation count: comparison "count_cmp counts" for counts
  by unfold_locales (auto simp: count_cmp_def Let_def split: if_splits)

interpretation error: comparison "error_cmp counts" for counts
  by unfold_locales (auto simp: error_cmp_def Let_def split: if_splits)

interpretation name: comparison "syscall_cmp ents" for ents
  by unfold_locales (use strcmp_le strcmp_le_trans in \<open>auto simp: syscall_cmp_def\<close>)

lemma sort_fns_comparison: "sort_fns ents counts c = Some cmp \<Longrightarrow> comparison cmp"
  by (cases c) (auto intro: time.comparison_axioms min_time.comparison_axioms max_time.comparison_axioms
      avg_time.comparison_axioms count.comparison_axioms error.comparison_axioms name.comparison_axioms)

text \<open>
  Whatever column the summary is sorted by, sorting only reorders the rows and puts them in
  an order in which no row precedes one that its comparison function ranks strictly before it.
\<close>

lemma summary_rows_sorted:
  assumes "sort_fns ents counts c = Some cmp"
  shows "mset (qsort cmp indices) = mset indices \<and> sorted_wrt (\<lambda>a b. cmp a b \<le> 0) (qsort cmp indices)"
  using comparison.mset_qsort comparison.sorted_qsort sort_fns_comparison [OF assms] by blast

lemma summary_rows_sorted_witness:
  "qsort (count_cmp [fresh_counts, fresh_counts\<lparr>calls := 7\<rparr>]) [0, 1] = [1, 0]
   \<and> sorted_wrt (\<lambda>a b. count_cmp [fresh_counts, fresh_counts\<lparr>calls := 7\<rparr>] a b \<le> 0)
       (qsort (count_cmp [fresh_counts, fresh_counts\<lparr>calls := 7\<rparr>]) [0, 1])"
proof -
  have "sort_fns [] [fresh_counts, fresh_counts\<lparr>calls := 7\<rparr>] CSC_CALLS
      = Some (count_cmp [fresh_counts, fresh_counts\<lparr>calls := 7\<rparr>])" by simp
  from summary_rows_sorted [OF this, of "[0, 1]"] show ?thesis
    by (simp add: qsort_def count_cmp_def fresh_counts_def)
qed

end
