(* ===== verification/Syscall_Regs.thy ===== *)
theory Syscall_Regs
  imports Tcb Mmap_Cache Count
begin

text \<open>
  How strace reads and changes a system call of the tracee: the personality, the system call
  number and arguments, the result, and the injection of an error or a return value.  The
  functions are those of \<^verbatim>\<open>syscall.c\<close> with the x86-64 parts under \<^verbatim>\<open>linux/x86_64\<close>.  What the
  kernel answers to a \<open>ptrace\<close> request during one stop is an argument.
\<close>

section \<open>What the kernel reports\<close>

record ptrace_syscall_info =
  sci_op :: u8
  sci_arch :: u32
  sci_nr :: u64
  sci_args :: "u64 list"
  sci_rval :: u64
  sci_is_error :: bool

definition PTRACE_SYSCALL_INFO_ENTRY :: u8 where "PTRACE_SYSCALL_INFO_ENTRY = 1"
definition PTRACE_SYSCALL_INFO_EXIT :: u8 where "PTRACE_SYSCALL_INFO_EXIT = 2"
definition PTRACE_SYSCALL_INFO_SECCOMP :: u8 where "PTRACE_SYSCALL_INFO_SECCOMP = 3"
definition AUDIT_ARCH_I386 :: u32 where "AUDIT_ARCH_I386 = 0x40000003"
definition X32_SYSCALL_BIT :: u64 where "X32_SYSCALL_BIT = 0x40000000"

text \<open>
  The registers strace uses.  \<open>r_args\<close> are the argument registers in the order of the calling
  convention (\<open>rdi, rsi, rdx, r10, r8, r9\<close>, or \<open>ebx, ecx, edx, esi, edi, ebp\<close>); with the regset of
  an i386 process all registers hold 32-bit values.
\<close>

record user_regs =
  is_i386 :: bool
  orig_ax :: u64
  ax :: u64
  r_args :: "u64 list"

text \<open>
  \<open>PTRACE_GET_SYSCALL_INFO\<close> and \<open>PTRACE_GETREGSET\<close> (with \<open>errno\<close> \<open>EPERM\<close> or \<open>ESRCH\<close> or not when it
  fails), the fallback \<open>PTRACE_GETREGS\<close>, and whether \<open>PTRACE_POKEUSER\<close> succeeds.
\<close>

record kernel =
  k_syscall_info :: "ptrace_syscall_info option"
  k_getregset :: "user_regs option"
  k_errno_fatal :: bool
  k_getregs :: "user_regs option"
  k_pokeuser_ok :: bool

section \<open>State\<close>

text \<open>
  The current process and the static variables of \<^verbatim>\<open>syscall.c\<close>.  \<open>regs\<close> is the register union
  with the size of its contents; \<open>pokes\<close> logs the registers written to the tracee, \<open>diag\<close> the
  messages of \<open>error_msg\<close>.
\<close>

datatype reg = Reg_orig_rax | Reg_rax

record tracer =
  tcp :: tcb
  current_personality :: nat
  ptrace_sci :: ptrace_syscall_info
  get_regs_error :: int
  use_getregs_old :: int
  regs :: user_regs
  pokes :: "(reg \<times> u64) list"
  need_mpers_warning :: "bool list"
  diag :: "string list"

definition upd_tcp :: "(tcb \<Rightarrow> tcb) \<Rightarrow> tracer \<Rightarrow> tracer" where
  "upd_tcp f st = st\<lparr>tcp := f (tcp st)\<rparr>"

definition error_msg :: "string \<Rightarrow> tracer \<Rightarrow> tracer" where
  "error_msg m st = st\<lparr>diag := diag st @ [m]\<rparr>"

section \<open>Personality\<close>

definition personality_klongsize :: "nat \<Rightarrow> nat" where
  "personality_klongsize p = (if p = 1 then 4 else 8)"

definition personality_name :: "nat \<Rightarrow> string" where
  "personality_name p = (if p = 0 then ''64 bit'' else if p = 1 then ''32 bit'' else ''x32'')"

definition set_personality :: "'d config \<Rightarrow> nat \<Rightarrow> tracer \<Rightarrow> tracer outcome" where
  "set_personality cfg p st =
     (if p = current_personality st then Inr st
      else if p \<ge> SUPPORTED_PERSONALITIES cfg
      then Inl (Error_msg_and_die (''Requested switch to unsupported personality '' @ dec p))
      else Inr (st\<lparr>current_personality := p\<rparr>))"

definition QUIET_PERSONALITY :: nat where
  "QUIET_PERSONALITY = 3"

definition update_personality :: "'d config \<Rightarrow> globals \<Rightarrow> nat \<Rightarrow> tracer \<Rightarrow> tracer outcome" where
  "update_personality cfg g p st =
     obind (set_personality cfg p st)
       (\<lambda>st. if p = currpers (tcp st) then Inr st
             else let st = upd_tcp (\<lambda>t. t\<lparr>currpers := p\<rparr>) st;
                      st = (if is_number_in_set QUIET_PERSONALITY (quiet_set g) then st
                            else upd_tcp (tprint [Out_note (''[ Process PID='' @ dec (nat (pid (tcp st))) @ '' runs in ''
                                                    @ personality_name p @ '' mode. ]''),
                                                  Out_newline]) st)
                  in Inr (if need_mpers_warning st ! p
                          then error_msg ''WARNING: Proper structure decoding for this personality is not supported''
                                 (st\<lparr>need_mpers_warning := (need_mpers_warning st)[p := False]\<rparr>)
                          else st))"

text \<open>\<open>-1\<close> when the report says nothing about the personality.\<close>

definition get_personality_from_syscall_info :: "ptrace_syscall_info \<Rightarrow> int" where
  "get_personality_from_syscall_info sci =
     (let pers = (if sci_arch sci = AUDIT_ARCH_I386 then 1 else 0)
      in if sci_op sci = PTRACE_SYSCALL_INFO_ENTRY \<or> sci_op sci = PTRACE_SYSCALL_INFO_SECCOMP
         then if pers = 0 \<and> sci_nr sci AND X32_SYSCALL_BIT \<noteq> 0 \<and> sci_nr sci \<noteq> -1 then 2 else pers
         else -1)"

definition shuffle_x86_64 :: "nat \<Rightarrow> nat \<Rightarrow> nat" where
  "shuffle_x86_64 nr pers = (if pers = 2 then unat (of_nat nr XOR X32_SYSCALL_BIT) else nr)"

section \<open>Reading registers\<close>

definition ptrace_syscall_info_is_valid :: "bool \<Rightarrow> tracer \<Rightarrow> bool" where
  "ptrace_syscall_info_is_valid supported st \<longleftrightarrow>
     supported \<and> sci_op (ptrace_sci st) \<le> PTRACE_SYSCALL_INFO_SECCOMP"

definition clear_regs :: "tracer \<Rightarrow> tracer" where
  "clear_regs st = st\<lparr>ptrace_sci := (ptrace_sci st)\<lparr>sci_op := 0xff\<rparr>, get_regs_error := -1\<rparr>"

definition strace_get_syscall_info ::
    "'d config \<Rightarrow> globals \<Rightarrow> kernel \<Rightarrow> tracer \<Rightarrow> (bool \<times> tracer) outcome" where
  "strace_get_syscall_info cfg g k st =
     obind
       (if sci_op (ptrace_sci st) = 0xff then
          (case k_syscall_info k of None \<Rightarrow> Inr (False, st\<lparr>get_regs_error := -2\<rparr>)
           | Some sci \<Rightarrow>
               let st = st\<lparr>ptrace_sci := sci\<rparr>;
                   newpers = get_personality_from_syscall_info sci
               in if newpers \<ge> 0
                  then obind (update_personality cfg g (nat newpers) st) (\<lambda>st. Inr (True, st))
                  else Inr (True, st))
        else Inr (True, st))
       (\<lambda>(ok, st).
          if \<not> ok then Inr (False, st)
          else Inr (True,
            if entering (tcp st) \<and> sci_op (ptrace_sci st) = PTRACE_SYSCALL_INFO_EXIT
            then error_msg ''entering, ptrace_syscall_info.op == 2'' st
            else if \<not> entering (tcp st) \<and> sci_op (ptrace_sci st) = PTRACE_SYSCALL_INFO_ENTRY
            then error_msg ''exiting, ptrace_syscall_info.op == 1'' st
            else st))"

definition getregset :: "kernel \<Rightarrow> tracer \<Rightarrow> tracer" where
  "getregset k st =
     (case k_getregset k of None \<Rightarrow> st\<lparr>get_regs_error := -1\<rparr>
      | Some r \<Rightarrow> st\<lparr>get_regs_error := 0, regs := r\<rparr>)"

definition getregs_old :: "kernel \<Rightarrow> tracer \<Rightarrow> tracer" where
  "getregs_old k st =
     (case k_getregs k of None \<Rightarrow> st\<lparr>get_regs_error := -1\<rparr>
      | Some r \<Rightarrow> st\<lparr>get_regs_error := 0, regs := r\<rparr>)"

definition get_regs :: "kernel \<Rightarrow> tracer \<Rightarrow> int \<times> tracer" where
  "get_regs k st =
     (if get_regs_error st \<noteq> -1 then (get_regs_error st, st)
      else if use_getregs_old st < 0 then (let st = getregset k st in (get_regs_error st, st))
      else if use_getregs_old st = 0 then
        (let st = getregset k st
         in if get_regs_error st \<ge> 0 then (get_regs_error st, st\<lparr>use_getregs_old := -1\<rparr>)
            else if k_errno_fatal k then (get_regs_error st, st)
            else let st = getregs_old k (st\<lparr>use_getregs_old := 1\<rparr>) in (get_regs_error st, st))
      else (let st = getregs_old k st in (get_regs_error st, st)))"

definition get_syscall_regs ::
    "'d config \<Rightarrow> globals \<Rightarrow> bool \<Rightarrow> kernel \<Rightarrow> tracer \<Rightarrow> (int \<times> tracer) outcome" where
  "get_syscall_regs cfg g supported k st =
     (if get_regs_error st \<noteq> -1 then Inr (get_regs_error st, st)
      else if supported
      then obind (strace_get_syscall_info cfg g k st) (\<lambda>(ok, st). Inr (if ok then 0 else get_regs_error st, st))
      else Inr (get_regs k st))"

section \<open>The system call number and arguments\<close>

text \<open>The personality and number that the registers show.\<close>

definition regs_scno :: "user_regs \<Rightarrow> nat \<times> u64" where
  "regs_scno r =
     (if is_i386 r then (1, orig_ax r)
      else (if orig_ax r AND X32_SYSCALL_BIT \<noteq> 0 \<and> orig_ax r \<noteq> -1 then 2 else 0, orig_ax r))"

definition arch_get_scno :: "'d config \<Rightarrow> globals \<Rightarrow> tracer \<Rightarrow> (int \<times> tracer) outcome" where
  "arch_get_scno cfg g st =
     (case regs_scno (regs st) of (p, nr) \<Rightarrow>
        obind (update_personality cfg g p st) (\<lambda>st. Inr (1, upd_tcp (\<lambda>t. t\<lparr>scno := nr\<rparr>) st)))"

text \<open>\<open>%#lx\<close> of a word.\<close>

definition hex_digit :: "nat \<Rightarrow> char" where
  "hex_digit d = (if d < 10 then char_of (48 + d) else char_of (87 + d))"

fun hexdigs :: "nat \<Rightarrow> nat \<Rightarrow> string" where
  "hexdigs 0 n = []"
| "hexdigs (Suc f) n = (if n < 16 then [hex_digit n] else hexdigs f (n div 16) @ [hex_digit (n mod 16)])"

definition hex0x :: "u64 \<Rightarrow> string" where
  "hex0x w = (if w = 0 then ''0'' else ''0x'' @ hexdigs 16 (unat w))"

definition shuffle_scno :: "'d config \<Rightarrow> tracer \<Rightarrow> u64 \<Rightarrow> u64" where
  "shuffle_scno cfg st nr = of_nat (shuffle_scno_pers cfg (unat nr) (current_personality st))"

text \<open>The table entry and qualifier flags of the number that was read.\<close>

definition select_sysent :: "'d config \<Rightarrow> globals \<Rightarrow> tracer \<Rightarrow> tracer" where
  "select_sysent cfg g st =
     (let nr = shuffle_scno cfg st (scno (tcp st));
          st = upd_tcp (\<lambda>t. t\<lparr>true_scno := scno t, scno := nr\<rparr>) st;
          p = current_personality st;
          st = (if scno_pers_is_valid cfg (unat nr) p
                then upd_tcp (\<lambda>t. t\<lparr>s_ent := Some (sysent_vec cfg ! p ! unat nr),
                                   qual_flg := qual_flags g p (unat nr)\<rparr>) st
                else upd_tcp (\<lambda>t. t\<lparr>s_ent := Some (stub_sysent\<lparr>sys_name :=
                        Some (''syscall_'' @ hex0x (shuffle_scno cfg st nr))\<rparr>),
                                   priv_sysent := True\<rparr>) st)
      in if recovering (tcp st) then upd_tcp (\<lambda>t. t\<lparr>qual_flg := qual_flg t OR QUAL_RAW\<rparr>) st else st)"

definition get_scno :: "'d config \<Rightarrow> globals \<Rightarrow> bool \<Rightarrow> kernel \<Rightarrow> tracer \<Rightarrow> (int \<times> tracer) outcome" where
  "get_scno cfg g supported k st =
     (let st = upd_tcp (\<lambda>t. t\<lparr>scno := -1, s_ent := None, qual_flg := QUAL_RAW OR DEFAULT_QUAL_FLAGS\<rparr>) st
      in obind (get_syscall_regs cfg g supported k st)
        (\<lambda>(r, st).
           if r < 0 then Inr (-1, st)
           else obind
             (if ptrace_syscall_info_is_valid supported st
              then Inr (1, upd_tcp (\<lambda>t. t\<lparr>scno := sci_nr (ptrace_sci st)\<rparr>) st)
              else arch_get_scno cfg g st)
             (\<lambda>(rc, st). if rc \<noteq> 1 then Inr (rc, st) else Inr (1, select_sysent cfg g st))))"

definition low32 :: "u64 \<Rightarrow> u64" where
  "low32 w = ucast (ucast w :: u32)"

definition arch_get_syscall_args :: "tracer \<Rightarrow> tracer" where
  "arch_get_syscall_args st =
     upd_tcp (\<lambda>t. t\<lparr>u_arg :=
        (if \<not> is_i386 (regs st) \<and> sys_flags (tcp_sysent t) AND COMPAT_SYSCALL_TYPES = 0
         then r_args (regs st) else map low32 (r_args (regs st)))\<rparr>) st"

definition get_syscall_args :: "bool \<Rightarrow> tracer \<Rightarrow> int \<times> tracer" where
  "get_syscall_args supported st =
     (1, if ptrace_syscall_info_is_valid supported st
         then upd_tcp (\<lambda>t. t\<lparr>u_arg :=
                (if sys_flags (tcp_sysent t) AND COMPAT_SYSCALL_TYPES \<noteq> 0
                 then map low32 (take MAX_ARGS (sci_args (ptrace_sci st)))
                 else take MAX_ARGS (sci_args (ptrace_sci st)))\<rparr>) st
         else arch_get_syscall_args st)"

section \<open>The result\<close>

definition is_negated_errno :: "nat \<Rightarrow> u64 \<Rightarrow> bool" where
  "is_negated_errno klongsize val =
     (let mx = - word_of_int MAX_ERRNO_VALUE :: u64
      in if klongsize < 8 then low32 val \<ge> low32 mx else val \<ge> mx)"

definition arch_get_error :: "bool \<Rightarrow> tracer \<Rightarrow> tracer" where
  "arch_get_error check_errno st =
     (let rax = (if is_i386 (regs st) then scast (ucast (ax (regs st)) :: u32) else ax (regs st))
      in if check_errno \<and> is_negated_errno (personality_klongsize (current_personality st)) rax
         then upd_tcp (\<lambda>t. t\<lparr>u_rval := -1, u_error := - rax\<rparr>) st
         else upd_tcp (\<lambda>t. t\<lparr>u_rval := (if is_i386 (regs st) then low32 rax else rax)\<rparr>) st)"

definition get_error :: "bool \<Rightarrow> bool \<Rightarrow> tracer \<Rightarrow> tracer" where
  "get_error supported check_errno st =
     (if ptrace_syscall_info_is_valid supported st then
        (if sci_is_error (ptrace_sci st)
         then upd_tcp (\<lambda>t. t\<lparr>u_rval := -1, u_error := - sci_rval (ptrace_sci st)\<rparr>) st
         else upd_tcp (\<lambda>t. t\<lparr>u_error := 0, u_rval := sci_rval (ptrace_sci st)\<rparr>) st)
      else arch_get_error check_errno (upd_tcp (\<lambda>t. t\<lparr>u_error := 0\<rparr>) st))"

definition never_fails :: "tcb \<Rightarrow> bool" where
  "never_fails t \<longleftrightarrow> sys_flags (tcp_sysent t) AND SYSCALL_NEVER_FAILS \<noteq> 0"

definition get_syscall_result ::
    "'d config \<Rightarrow> globals \<Rightarrow> bool \<Rightarrow> kernel \<Rightarrow> tracer \<Rightarrow> (int \<times> tracer) outcome" where
  "get_syscall_result cfg g supported k st =
     obind (get_syscall_regs cfg g supported k st)
       (\<lambda>(r, st).
          if r < 0 then Inr (-1, st)
          else Inr (1, get_error supported
                 ((\<not> never_fails (tcp st) \<or> syscall_tampered (tcp st)) \<and> \<not> syscall_tampered_nofail (tcp st)) st))"

section \<open>Changing the system call\<close>

text \<open>\<open>upoke\<close> returns whether it failed; on success the register of the tracee is written.\<close>

definition upoke :: "kernel \<Rightarrow> reg \<Rightarrow> u64 \<Rightarrow> tracer \<Rightarrow> bool \<times> tracer" where
  "upoke k r v st = (if k_pokeuser_ok k then (False, st\<lparr>pokes := pokes st @ [(r, v)]\<rparr>) else (True, st))"

definition arch_set_scno :: "kernel \<Rightarrow> u64 \<Rightarrow> tracer \<Rightarrow> bool \<times> tracer" where
  "arch_set_scno k nr st = upoke k Reg_orig_rax nr st"

definition write_ax :: "u64 \<Rightarrow> tracer \<Rightarrow> tracer" where
  "write_ax v st = st\<lparr>regs := (regs st)\<lparr>ax := (if currpers (tcp st) = 1 then low32 v else v)\<rparr>\<rparr>"

definition arch_set_error :: "kernel \<Rightarrow> tracer \<Rightarrow> bool \<times> tracer" where
  "arch_set_error k st = (let rval = - u_error (tcp st) in upoke k Reg_rax rval (write_ax rval st))"

definition arch_set_success :: "kernel \<Rightarrow> tracer \<Rightarrow> bool \<times> tracer" where
  "arch_set_success k st = (let rval = u_rval (tcp st) in upoke k Reg_rax rval (write_ax rval st))"

definition set_error :: "bool \<Rightarrow> kernel \<Rightarrow> u64 \<Rightarrow> tracer \<Rightarrow> tracer" where
  "set_error supported k new_error st =
     (let old_error = u_error (tcp st)
      in if new_error = old_error \<or> new_error > word_of_int MAX_ERRNO_VALUE then st
         else case arch_set_error k (upd_tcp (\<lambda>t. t\<lparr>u_error := new_error\<rparr>) st) of (err, st) \<Rightarrow>
           if err then upd_tcp (\<lambda>t. t\<lparr>u_error := old_error\<rparr>) st
           else if ptrace_syscall_info_is_valid supported st then upd_tcp (\<lambda>t. t\<lparr>u_rval := -1\<rparr>) st
           else get_error supported (\<not> never_fails (tcp st)) st)"

definition set_success :: "bool \<Rightarrow> kernel \<Rightarrow> u64 \<Rightarrow> tracer \<Rightarrow> tracer" where
  "set_success supported k new_rval st =
     (let old_rval = u_rval (tcp st)
      in case arch_set_success k (upd_tcp (\<lambda>t. t\<lparr>u_rval := new_rval\<rparr>) st) of (err, st) \<Rightarrow>
           if err then upd_tcp (\<lambda>t. t\<lparr>u_rval := old_rval\<rparr>) st
           else if ptrace_syscall_info_is_valid supported st then upd_tcp (\<lambda>t. t\<lparr>u_error := 0\<rparr>) st
           else get_error supported (\<not> never_fails (tcp st)) st)"

section \<open>Two ways of reading a system call\<close>

text \<open>
  Reports of one system call entry: \<open>PTRACE_GET_SYSCALL_INFO\<close> and the registers agree on the
  architecture, the number and the arguments (of an i386 process, 32-bit values).
\<close>

definition same_entry :: "ptrace_syscall_info \<Rightarrow> user_regs \<Rightarrow> bool" where
  "same_entry sci r \<longleftrightarrow>
     (sci_op sci = PTRACE_SYSCALL_INFO_ENTRY \<or> sci_op sci = PTRACE_SYSCALL_INFO_SECCOMP)
     \<and> (sci_arch sci = AUDIT_ARCH_I386 \<longleftrightarrow> is_i386 r) \<and> sci_nr sci = orig_ax r
     \<and> sci_args sci = r_args r \<and> length (r_args r) = MAX_ARGS
     \<and> (is_i386 r \<longrightarrow> map low32 (r_args r) = r_args r)"

text \<open>The decoding steps of a system call entry, and what they leave of the process.\<close>

definition decode_entry :: "'d config \<Rightarrow> globals \<Rightarrow> bool \<Rightarrow> kernel \<Rightarrow> tracer \<Rightarrow> (int \<times> tracer) outcome" where
  "decode_entry cfg g supported k st =
     obind (get_scno cfg g supported k st)
       (\<lambda>(res, st). if res \<noteq> 1 then Inr (res, st) else Inr (get_syscall_args supported st))"

definition decoded :: "(int \<times> tracer) outcome \<Rightarrow> (int \<times> tcb \<times> nat) outcome" where
  "decoded r = map_sum id (\<lambda>(res, st). (res, tcp st, current_personality st)) r"

lemma upd_tcp_facts [simp]:
  "tcp (upd_tcp f st) = f (tcp st)" "current_personality (upd_tcp f st) = current_personality st"
  "ptrace_sci (upd_tcp f st) = ptrace_sci st" "regs (upd_tcp f st) = regs st"
  "get_regs_error (upd_tcp f st) = get_regs_error st" "pokes (upd_tcp f st) = pokes st"
  "diag (upd_tcp f st) = diag st" "use_getregs_old (upd_tcp f st) = use_getregs_old st"
  by (simp_all add: upd_tcp_def)

lemma error_msg_facts [simp]:
  "tcp (error_msg m st) = tcp st" "current_personality (error_msg m st) = current_personality st"
  "ptrace_sci (error_msg m st) = ptrace_sci st" "regs (error_msg m st) = regs st"
  "get_regs_error (error_msg m st) = get_regs_error st" "pokes (error_msg m st) = pokes st"
  by (simp_all add: error_msg_def)

text \<open>\<open>update_personality\<close> neither reads nor changes what was read from the kernel.\<close>

lemma update_personality_result:
  "update_personality cfg g p st = Inr st' \<Longrightarrow>
     ptrace_sci st' = ptrace_sci st \<and> regs st' = regs st \<and> get_regs_error st' = get_regs_error st
     \<and> pokes st' = pokes st \<and> current_personality st' = p \<and> tcb_flags (tcp st') = tcb_flags (tcp st)
     \<and> currpers (tcp st') = p"
  by (auto simp: update_personality_def set_personality_def obind_eq_Inr Let_def tprint_def split: if_splits)

definition same_process :: "tracer \<Rightarrow> tracer \<Rightarrow> bool" where
  "same_process a b \<longleftrightarrow> tcp a = tcp b \<and> current_personality a = current_personality b
     \<and> need_mpers_warning a = need_mpers_warning b"

lemma update_personality_cong:
  assumes "same_process a b"
  shows "rel_sum (=) same_process (update_personality cfg g p a) (update_personality cfg g p b)"
  using assms
  by (auto simp: update_personality_def set_personality_def same_process_def Let_def upd_tcp_def error_msg_def)

lemma regs_scno_sci:
  assumes "same_entry sci r"
  shows "get_personality_from_syscall_info sci = int (fst (regs_scno r))" "snd (regs_scno r) = sci_nr sci"
  using assms by (auto simp: same_entry_def get_personality_from_syscall_info_def regs_scno_def Let_def)

lemma select_sysent_cong: "same_process a b \<Longrightarrow> same_process (select_sysent cfg g a) (select_sysent cfg g b)"
  by (simp add: same_process_def select_sysent_def shuffle_scno_def Let_def upd_tcp_def)

lemma rel_obind:
  assumes "rel_sum (=) R a b" "\<And>x y. R x y \<Longrightarrow> rel_sum (=) S (f x) (h y)"
  shows "rel_sum (=) S (obind a f) (obind b h)"
  using assms by (cases a; cases b) auto

abbreviation same_result :: "int \<times> tracer \<Rightarrow> int \<times> tracer \<Rightarrow> bool" where
  "same_result x y \<equiv> fst x = fst y \<and> same_process (snd x) (snd y)"

text \<open>Reading the number, the first half of \<open>get_scno\<close>, in both ways.\<close>

lemma read_by_sci:
  assumes "k_syscall_info k = Some sci" "same_entry sci r" "sci_op (ptrace_sci st) = 0xff"
    and "get_regs_error st = -1" "entering (tcp st)"
  shows "get_syscall_regs cfg g True k st =
     obind (update_personality cfg g (fst (regs_scno r)) (st\<lparr>ptrace_sci := sci\<rparr>)) (\<lambda>st'. Inr (0, st'))"
proof -
  have op: "sci_op sci \<noteq> PTRACE_SYSCALL_INFO_EXIT" "sci_op sci \<noteq> 0xff"
    using assms(2)
    by (auto simp: same_entry_def PTRACE_SYSCALL_INFO_ENTRY_def PTRACE_SYSCALL_INFO_SECCOMP_def PTRACE_SYSCALL_INFO_EXIT_def)
  show ?thesis
  proof (cases "update_personality cfg g (fst (regs_scno r)) (st\<lparr>ptrace_sci := sci\<rparr>)")
    case (Inl e)
    with assms regs_scno_sci [OF assms(2)] show ?thesis
      by (simp add: get_syscall_regs_def strace_get_syscall_info_def Let_def)
  next
    case (Inr st')
    then have "ptrace_sci st' = sci" "entering (tcp st')"
      using update_personality_result [OF Inr] assms(5) by (auto simp: entering_def has_def)
    with Inr op assms regs_scno_sci [OF assms(2)] show ?thesis
      by (simp add: get_syscall_regs_def strace_get_syscall_info_def Let_def)
  qed
qed

lemma read_by_regs:
  assumes "k_getregset k = Some r" "get_regs_error st = -1" "use_getregs_old st \<le> 0"
  shows "\<exists>u. get_syscall_regs cfg g False k st = Inr (0, st\<lparr>get_regs_error := 0, regs := r, use_getregs_old := u\<rparr>)"
  using assms by (auto simp: get_syscall_regs_def get_regs_def getregset_def Let_def)
    (metis tracer.surjective tracer.update_convs(5))+

lemma get_scno_agree:
  assumes "k_syscall_info k = Some sci" "k_getregset k = Some r" "same_entry sci r"
    and "sci_op (ptrace_sci st) = 0xff" "get_regs_error st = -1" "entering (tcp st)" "use_getregs_old st \<le> 0"
  shows "rel_sum (=) (\<lambda>x y. same_result x y \<and> ptrace_sci (snd x) = sci \<and> regs (snd y) = r)
      (get_scno cfg g True k st) (get_scno cfg g False k st)"
proof -
  let ?t = "\<lambda>t. t\<lparr>scno := -1, s_ent := None, qual_flg := QUAL_RAW OR DEFAULT_QUAL_FLAGS\<rparr>"
  let ?st = "upd_tcp ?t st"
  obtain p where r: "regs_scno r = (p, sci_nr sci)" using regs_scno_sci [OF assms(3)] by (metis prod.collapse)
  have ent: "entering (tcp ?st)" using assms(6) by (simp add: entering_def has_def)
  obtain u where u: "get_syscall_regs cfg g False k ?st = Inr (0, ?st\<lparr>get_regs_error := 0, regs := r, use_getregs_old := u\<rparr>)"
    using read_by_regs [of k r ?st cfg g] assms by auto
  let ?b = "?st\<lparr>get_regs_error := 0, regs := r, use_getregs_old := u\<rparr>"
  have valid: "sci_op sci \<le> PTRACE_SYSCALL_INFO_SECCOMP"
    using assms(3) by (auto simp: same_entry_def PTRACE_SYSCALL_INFO_ENTRY_def PTRACE_SYSCALL_INFO_SECCOMP_def word_le_nat_alt)
  note a = read_by_sci [OF assms(1,3), of ?st cfg g, simplified, OF assms(4,5) ent [simplified], unfolded r fst_conv]
  have "rel_sum (=) same_process (update_personality cfg g p (?st\<lparr>ptrace_sci := sci\<rparr>)) (update_personality cfg g p ?b)"
    by (rule update_personality_cong) (simp add: same_process_def)
  then show ?thesis
  proof (cases "update_personality cfg g p (?st\<lparr>ptrace_sci := sci\<rparr>)"; cases "update_personality cfg g p ?b")
    fix st1 st2
    assume "rel_sum (=) same_process (update_personality cfg g p (?st\<lparr>ptrace_sci := sci\<rparr>)) (update_personality cfg g p ?b)"
      and 1: "update_personality cfg g p (?st\<lparr>ptrace_sci := sci\<rparr>) = Inr st1"
      and 2: "update_personality cfg g p ?b = Inr st2"
    then have sp: "same_process st1 st2" by simp
    have f: "ptrace_sci st1 = sci" "regs st2 = r"
      using update_personality_result [OF 1] update_personality_result [OF 2] by simp_all
    let ?s = "\<lambda>t. t\<lparr>scno := sci_nr sci\<rparr>"
    have "same_process (upd_tcp ?s st1) (upd_tcp ?s st2)" using sp by (simp add: same_process_def upd_tcp_def)
    then have "same_process (select_sysent cfg g (upd_tcp ?s st1)) (select_sysent cfg g (upd_tcp ?s st2))"
      by (rule select_sysent_cong)
    moreover have "ptrace_sci (select_sysent cfg g x) = ptrace_sci x" "regs (select_sysent cfg g x) = regs x" for x
      by (simp_all add: select_sysent_def Let_def)
    ultimately show ?thesis
      using f valid u a r 1 2
      by (simp add: get_scno_def Let_def ptrace_syscall_info_is_valid_def arch_get_scno_def)
  qed (use u a r in \<open>auto simp: get_scno_def Let_def arch_get_scno_def ptrace_syscall_info_is_valid_def\<close>)
qed

lemma decode_args_agree:
  assumes "same_process a b" "ptrace_sci a = sci" "regs b = r" "same_entry sci r"
  shows "tcp (snd (get_syscall_args True a)) = tcp (snd (get_syscall_args False b))"
proof -
  have "sci_op sci \<le> PTRACE_SYSCALL_INFO_SECCOMP" "take MAX_ARGS (r_args r) = r_args r"
    using assms(4) by (auto simp: same_entry_def PTRACE_SYSCALL_INFO_ENTRY_def PTRACE_SYSCALL_INFO_SECCOMP_def word_le_nat_alt)
  with assms show ?thesis
    by (auto simp: get_syscall_args_def arch_get_syscall_args_def ptrace_syscall_info_is_valid_def
        same_process_def same_entry_def)
qed

text \<open>
  C8: A system call entry is decoded the same way with \<open>PTRACE_GET_SYSCALL_INFO\<close> and, on kernels
  without it, from the registers: when both reports describe the same entry, the control block
  (number, table entry, flags, arguments, personality) and the return code are equal, and an
  unsupported personality ends strace in both cases.
\<close>

theorem decode_paths_agree:
  assumes "k_syscall_info k = Some sci" "k_getregset k = Some r" "same_entry sci r"
    and "sci_op (ptrace_sci st) = 0xff" "get_regs_error st = -1" "entering (tcp st)" "use_getregs_old st \<le> 0"
  shows "decoded (decode_entry cfg g True k st) = decoded (decode_entry cfg g False k st)"
proof -
  note agree = get_scno_agree [OF assms, of cfg g]
  show ?thesis
  proof (cases "get_scno cfg g True k st"; cases "get_scno cfg g False k st")
    fix x y
    assume x: "get_scno cfg g True k st = Inr x" and y: "get_scno cfg g False k st = Inr y"
    with agree have xy: "fst x = fst y" "same_process (snd x) (snd y)" "ptrace_sci (snd x) = sci" "regs (snd y) = r"
      by simp_all
    have "current_personality (snd (get_syscall_args s z)) = current_personality z"
      "fst (get_syscall_args s z) = 1" for s z
      by (simp_all add: get_syscall_args_def arch_get_syscall_args_def)
    with xy decode_args_agree [OF xy(2-4) assms(3)] show ?thesis
      by (cases x; cases y)
        (auto simp: decode_entry_def decoded_def x y same_process_def case_prod_unfold)
  qed (use agree in \<open>auto simp: decode_entry_def decoded_def\<close>)
qed

text \<open>A stop at the entry of \<open>getpid\<close> in \<open>sample_config\<close>.\<close>

definition sample_sci :: ptrace_syscall_info where
  "sample_sci = \<lparr>sci_op = PTRACE_SYSCALL_INFO_ENTRY, sci_arch = 0xc000003e, sci_nr = 3,
                 sci_args = [1, 2, 3, 4, 5, 6], sci_rval = 0, sci_is_error = False\<rparr>"

definition sample_regs :: user_regs where
  "sample_regs = \<lparr>is_i386 = False, orig_ax = 3, ax = 0, r_args = [1, 2, 3, 4, 5, 6]\<rparr>"

definition sample_kernel :: kernel where
  "sample_kernel = \<lparr>k_syscall_info = Some sample_sci, k_getregset = Some sample_regs, k_errno_fatal = False,
                    k_getregs = None, k_pokeuser_ok = True\<rparr>"

definition sample_tracer :: tracer where
  "sample_tracer = clear_regs \<lparr>tcp = sample_tcb 0 0, current_personality = 0, ptrace_sci = sample_sci,
     get_regs_error = 0, use_getregs_old = 0, regs = sample_regs, pokes = [],
     need_mpers_warning = [False, False, False], diag = []\<rparr>"

theorem decode_paths_agree_witness:
  "decoded (decode_entry sample_config (initial_globals sample_config) True sample_kernel sample_tracer)
     = decoded (decode_entry sample_config (initial_globals sample_config) False sample_kernel sample_tracer)"
  by (rule decode_paths_agree [of _ sample_sci sample_regs])
    (simp_all add: sample_kernel_def sample_tracer_def clear_regs_def sample_tcb_def entering_def has_def
      same_entry_def sample_sci_def sample_regs_def AUDIT_ARCH_I386_def MAX_ARGS_def)

section \<open>Injecting a result\<close>

lemma errno_word:
  fixes e :: u64
  assumes "1 \<le> e" "e \<le> word_of_int MAX_ERRNO_VALUE"
  obtains n where "e = word_of_int n" "1 \<le> n" "n \<le> 4095"
proof -
  have "uint e \<le> 4095" using assms(2) by (simp add: word_le_def MAX_ERRNO_VALUE_def)
  moreover have "1 \<le> uint e" using assms(1) by (simp add: word_le_def)
  ultimately show ?thesis using that [of "uint e"] by simp
qed

lemma ucast_word_of_int: "ucast (word_of_int m :: u64) = (word_of_int m :: u32)"
  by (rule bit_word_eqI) (auto simp: bit_ucast_iff bit_word_of_int_iff)

lemma scast_ucast_errno:
  assumes "1 \<le> n" "n \<le> (4095 :: int)"
  shows "scast (ucast (- word_of_int n :: u64) :: u32) = (- word_of_int n :: u64)"
proof -
  have "ucast (- word_of_int n :: u64) = (word_of_int (- n) :: u32)"
    using ucast_word_of_int [of "- n"] by simp
  moreover have "signed_take_bit 31 (- n) = - n"
    using assms by (intro signed_take_bit_int_eq_self) auto
  ultimately show ?thesis by (simp add: signed_of_int flip: of_int_minus)
qed

lemma uint_neg_errno:
  assumes "1 \<le> n" "n \<le> (4095 :: int)"
  shows "uint (- word_of_int n :: u64) = 2 ^ 64 - n" "uint (ucast (- word_of_int n :: u64) :: u32) = 2 ^ 32 - n"
proof -
  have "uint (word_of_int (- n) :: u64) = (- n) mod 2 ^ 64" "uint (word_of_int (- n) :: u32) = (- n) mod 2 ^ 32"
    by (simp_all only: unsigned_of_int take_bit_eq_mod of_int_eq_id id_apply len_bit0 len_num1) simp_all
  then show "uint (- word_of_int n :: u64) = 2 ^ 64 - n" "uint (ucast (- word_of_int n :: u64) :: u32) = 2 ^ 32 - n"
    using assms ucast_word_of_int [of "- n"] by (simp_all add: zmod_zminus1_eq_if)
qed

lemma negated_errno:
  assumes "1 \<le> n" "n \<le> (4095 :: int)"
  shows "is_negated_errno kl (- word_of_int n)"
proof -
  have le: "uint (low32 (- word_of_int m)) = 2 ^ 32 - m" if "1 \<le> m" "m \<le> 4095" for m
    using uint_neg_errno(2) [OF that] by (simp add: low32_def unsigned_ucast_eq unsigned_take_bit_eq)
  show ?thesis
    using uint_neg_errno(1) [OF assms] uint_neg_errno(1) [of 4095] le [OF assms] le [of 4095] assms
    by (simp add: is_negated_errno_def Let_def word_le_def MAX_ERRNO_VALUE_def)
qed

lemma low32_low32: "ucast (low32 w) = (ucast w :: u32)"
  by (rule bit_word_eqI) (auto simp: low32_def bit_ucast_iff)

text \<open>The cached registers belong to the personality of the process.\<close>

definition regs_match :: "tracer \<Rightarrow> bool" where
  "regs_match st \<longleftrightarrow> (is_i386 (regs st) \<longleftrightarrow> currpers (tcp st) = 1)"

text \<open>
  C33: What injecting an error does when the register can be written: the tracee's return register
  is set to the negated error number, and the control block shows the error, with return value
  \<open>-1\<close>, whether it is set directly or read back from the registers.  The exception is a system
  call marked as never failing on a kernel without \<open>PTRACE_GET_SYSCALL_INFO\<close>: reading back does
  not look for an error there, so that the injected error shows as a successful return.
\<close>

theorem set_error_effect:
  assumes "k_pokeuser_ok k" "1 \<le> e" "e \<le> word_of_int MAX_ERRNO_VALUE" "e \<noteq> u_error (tcp st)"
    and "regs_match st" "st' = set_error supported k e st"
  shows "pokes st' = pokes st @ [(Reg_rax, - e)]
    \<and> (if ptrace_syscall_info_is_valid supported st \<or> \<not> never_fails (tcp st)
       then u_error (tcp st') = e \<and> u_rval (tcp st') = -1
       else u_error (tcp st') = 0 \<and> u_rval (tcp st') = (if is_i386 (regs st) then low32 (- e) else - e))"
proof -
  obtain n where n: "e = word_of_int n" "1 \<le> n" "n \<le> 4095" using errno_word [OF assms(2,3)] .
  have neg: "is_negated_errno kl (- e)" for kl unfolding n(1) by (rule negated_errno [OF n(2,3)])
  have ext: "scast (ucast (low32 (- e)) :: u32) = - e"
    using scast_ucast_errno [OF n(2,3)] by (simp add: low32_low32 n(1))
  have low: "low32 (scast (ucast (low32 (- e)) :: u32)) = low32 (- e)" unfolding ext ..
  have "\<not> (e = u_error (tcp st) \<or> e > word_of_int MAX_ERRNO_VALUE)" using assms(3,4) by auto
  then show ?thesis
    using assms(1,5) neg ext low
    by (auto simp: assms(6) set_error_def Let_def arch_set_error_def upoke_def write_ax_def get_error_def
        arch_get_error_def ptrace_syscall_info_is_valid_def regs_match_def never_fails_def tcp_sysent_def)
qed

theorem set_error_effect_witness:
  "u_error (tcp (set_error False sample_kernel 38 sample_tracer)) = 38
   \<and> pokes (set_error False sample_kernel 38 sample_tracer) = [(Reg_rax, -38)]"
proof -
  have "k_pokeuser_ok sample_kernel" "(1 :: u64) \<le> 38" "(38 :: u64) \<le> word_of_int MAX_ERRNO_VALUE"
    "38 \<noteq> u_error (tcp sample_tracer)" "regs_match sample_tracer"
    by (simp_all add: sample_kernel_def sample_tracer_def clear_regs_def sample_tcb_def regs_match_def
        sample_regs_def MAX_ERRNO_VALUE_def word_le_nat_alt)
  note w = set_error_effect [OF this refl, of False]
  have "\<not> never_fails (tcp sample_tracer)" "pokes sample_tracer = []"
    by (simp_all add: never_fails_def sample_tracer_def clear_regs_def sample_tcb_def tcp_sysent_def
        sample_config_def sample_entry_def TRACE_DESC_def SYSCALL_NEVER_FAILS_def)
  with w show ?thesis by simp
qed

end
