(* ===== verification/Tamper.thy ===== *)
theory Tamper
  imports Syscall_Regs
begin

text \<open>
  Tampering with system calls: when an injection fires and what it does at the entry and the
  exit of a system call (\<^verbatim>\<open>syscall.c\<close>), delaying (\<^verbatim>\<open>delay.c\<close>) and poking (\<^verbatim>\<open>poke.c\<close>) the
  tracee.  Clock, timers and the writing of the tracee's memory are answers of the kernel.
\<close>

section \<open>State\<close>

text \<open>
  \<open>clock_gettime\<close>, what remains of the delay timer (\<open>None\<close> when \<open>timer_gettime\<close> fails), whether
  the other timer calls succeed, and how many bytes \<open>upoken\<close> manages to write.
\<close>

record clock =
  c_now :: timespec
  c_timer_remaining :: "timespec option"
  c_timer_create_ok :: bool
  c_timer_settime_ok :: bool
  c_upoken :: "u64 \<Rightarrow> u8 list \<Rightarrow> nat"

text \<open>
  The static variables of \<^verbatim>\<open>delay.c\<close>, with the time the timer was last set to, and the log of
  the bytes written to the tracee.
\<close>

record tampering =
  tr :: tracer
  delay_timer_created :: bool
  delay_timer_is_armed :: bool
  delay_timer_value :: timespec
  written :: "(u64 \<times> u8 list) list"

definition upd_tr :: "(tracer \<Rightarrow> tracer) \<Rightarrow> tampering \<Rightarrow> tampering" where
  "upd_tr f w = w\<lparr>tr := f (tr w)\<rparr>"

definition upd_tcb :: "(tcb \<Rightarrow> tcb) \<Rightarrow> tampering \<Rightarrow> tampering" where
  "upd_tcb f = upd_tr (upd_tcp f)"

abbreviation the_tcb :: "tampering \<Rightarrow> tcb" where
  "the_tcb w \<equiv> tcp (tr w)"

section \<open>delay.c\<close>

definition is_delay_timer_created :: "tampering \<Rightarrow> bool" where
  "is_delay_timer_created w = delay_timer_created w"

definition delay_timer_expired :: "tampering \<Rightarrow> tampering" where
  "delay_timer_expired w = w\<lparr>delay_timer_is_armed := False\<rparr>"

definition arm_delay_timer :: "clock \<Rightarrow> tampering \<Rightarrow> tampering outcome" where
  "arm_delay_timer c w =
     (if c_timer_settime_ok c
      then Inr (w\<lparr>delay_timer_value := delay_expiration_time (the_tcb w), delay_timer_is_armed := True\<rparr>)
      else Inl (Error_msg_and_die ''timer_settime''))"

definition delay_tcb :: "globals \<Rightarrow> clock \<Rightarrow> u16 \<Rightarrow> bool \<Rightarrow> tampering \<Rightarrow> tampering outcome" where
  "delay_tcb g c idx isenter w =
     (let a = delays (g_tables g)
      in if unat idx \<ge> asize a
         then Inl (Error_msg_and_die ''delay_tcb: delay_idx >= delay_data_vec_size'')
         else
           let d = avec a ! unat idx;
               ts_diff = (if isenter then ts_enter d else ts_exit d);
               w = upd_tcb (\<lambda>t. (raise_flag TCB_TAMPERED_DELAYED (raise_flag TCB_DELAYED t))
                              \<lparr>delay_expiration_time := ts_add (c_now c) ts_diff\<rparr>) w
           in if is_delay_timer_created w then
                (case c_timer_remaining c of
                   None \<Rightarrow> Inl (Error_msg_and_die ''timer_gettime'')
                 | Some ts_old \<Rightarrow> if ts_nz ts_old \<and> ts_cmp ts_diff ts_old > 0 then Inr w
                                  else arm_delay_timer c w)
              else if c_timer_create_ok c then arm_delay_timer c (w\<lparr>delay_timer_created := True\<rparr>)
              else Inl (Error_msg_and_die ''timer_create''))"

section \<open>poke.c\<close>

fun poke_loop :: "clock \<Rightarrow> bool \<Rightarrow> poke_payload list \<Rightarrow> bool \<Rightarrow> tampering \<Rightarrow> bool \<times> tampering" where
  "poke_loop c isenter [] poked w = (poked, w)"
| "poke_loop c isenter (i # is) poked w =
     (if is_enter i \<noteq> isenter then poke_loop c isenter is poked w
      else if n_args (the_tcb w) < arg_no i
      then poke_loop c isenter is poked
             (upd_tr (error_msg ''poke_tcb: Failed to tamper: requested argument does not exist'') w)
      else
        let addr = u_arg (the_tcb w) ! (arg_no i - 1);
            nwritten = c_upoken c addr (poke_data i)
        in if nwritten = 0
           then poke_loop c isenter is poked (upd_tr (error_msg ''poke_tcb: Failed to tamper: couldn't poke'') w)
           else poke_loop c isenter is True
                  (w\<lparr>written := written w @ [(addr, take nwritten (poke_data i))]\<rparr>))"

definition poke_tcb :: "globals \<Rightarrow> clock \<Rightarrow> u16 \<Rightarrow> bool \<Rightarrow> tampering \<Rightarrow> tampering outcome" where
  "poke_tcb g c idx isenter w =
     (let a = inject_tables.pokes (g_tables g)
      in if unat idx \<ge> asize a
         then Inl (Error_msg_and_die ''poke_tcb: poke_idx >= poke_data_vec_size'')
         else case poke_loop c isenter (avec a ! unat idx) False w of (poked, w) \<Rightarrow>
                Inr (if poked then upd_tcb (raise_flag TCB_TAMPERED_POKED) w else w))"

section \<open>When an injection fires\<close>

text \<open>
  The counters of one system call: whether this invocation is the one to tamper with, and the
  counters afterwards.
\<close>

definition opts_step :: "inject_opts \<Rightarrow> bool \<times> inject_opts" where
  "opts_step opts =
     (if inj_first opts = 0 \<or> inj_last opts = 0 then (False, opts)
      else
        let opts = (if inj_last opts \<noteq> INJECT_LAST_INF then opts\<lparr>inj_last := inj_last opts - 1\<rparr> else opts);
            opts = opts\<lparr>inj_first := inj_first opts - 1\<rparr>
        in if inj_first opts \<noteq> 0 then (False, opts)
           else (True, opts\<lparr>inj_first := inj_step opts\<rparr>))"

text \<open>
  The copy of the injection options that every process gets at its first tampered system call
  of a personality, and the counting in it.
\<close>

definition copy_inject_vec :: "globals \<Rightarrow> nat \<Rightarrow> tcb \<Rightarrow> tcb" where
  "copy_inject_vec g p t =
     (if tcb_inject_vec t ! p = None
      then t\<lparr>tcb_inject_vec := (tcb_inject_vec t)[p := inject_vec g ! p]\<rparr> else t)"

definition tcb_inject_opts :: "'d config \<Rightarrow> nat \<Rightarrow> tcb \<Rightarrow> inject_opts option" where
  "tcb_inject_opts cfg p t =
     (if scno_in_range cfg p (scno t)
      then map_option (\<lambda>v. v ! unat (scno t)) (tcb_inject_vec t ! p) else None)"

definition put_inject_opts :: "nat \<Rightarrow> inject_opts \<Rightarrow> tcb \<Rightarrow> tcb" where
  "put_inject_opts p opts t =
     t\<lparr>tcb_inject_vec := (tcb_inject_vec t)[p := map_option (\<lambda>v. v[unat (scno t) := opts]) (tcb_inject_vec t ! p)]\<rparr>"

definition count_invocation :: "'d config \<Rightarrow> globals \<Rightarrow> nat \<Rightarrow> tcb \<Rightarrow> inject_data option \<times> tcb" where
  "count_invocation cfg g p t =
     (let t = copy_inject_vec g p t
      in case tcb_inject_opts cfg p t of
           None \<Rightarrow> (None, t)
         | Some opts \<Rightarrow>
             (case opts_step opts of (fires, opts) \<Rightarrow>
                (if fires then Some (inj_data opts) else None, put_inject_opts p opts t)))"

section \<open>Tampering\<close>

definition has_inj :: "inject_data \<Rightarrow> u8 \<Rightarrow> bool" where
  "has_inj d f \<longleftrightarrow> inj_flags d AND f \<noteq> 0"

definition when_flag :: "bool \<Rightarrow> (tampering \<Rightarrow> tampering outcome) \<Rightarrow> tampering \<Rightarrow> tampering outcome" where
  "when_flag b f w = (if b then f w else Inr w)"

text \<open>The replacement of the system call number, by an injected call or by \<open>-1\<close>.\<close>

definition tamper_scno :: "'d config \<Rightarrow> kernel \<Rightarrow> inject_data \<Rightarrow> tampering \<Rightarrow> tampering" where
  "tamper_scno cfg k d w =
     (let nr = (if has_inj d INJECT_F_SYSCALL then shuffle_scno cfg (tr w) (ucast (inj_scno d)) else -1)
      in case arch_set_scno k nr (tr w) of (err, st) \<Rightarrow>
           let w = w\<lparr>tr := st\<rparr>
           in if err then w
              else if nr \<noteq> -1 then upd_tcb (raise_flag TCB_TAMPERED_NO_FAIL) (upd_tcb (raise_flag TCB_TAMPERED) w)
              else upd_tcb (raise_flag TCB_TAMPERED) w)"

text \<open>What an injection that fires does; \<open>signo\<close> is the signal to be sent.\<close>

definition apply_injection ::
    "'d config \<Rightarrow> globals \<Rightarrow> kernel \<Rightarrow> clock \<Rightarrow> inject_data \<Rightarrow> u32 \<Rightarrow> tampering \<Rightarrow> (u32 \<times> tampering) outcome" where
  "apply_injection cfg g k c d signo w =
     (let signo = (if has_inj d INJECT_F_SIGNAL then ucast (inj_signo d) else signo);
          w = (if has_inj d (INJECT_F_ERROR OR INJECT_F_RETVAL) then tamper_scno cfg k d w else w)
      in obind (when_flag (has_inj d INJECT_F_POKE_ENTER) (poke_tcb g c (poke_idx d) True) w)
         (\<lambda>w. let w = (if has_inj d INJECT_F_POKE_EXIT then upd_tcb (raise_flag TCB_INJECT_POKE_EXIT) w else w)
              in obind (when_flag (has_inj d INJECT_F_DELAY_ENTER) (delay_tcb g c (delay_idx d) True) w)
                 (\<lambda>w. Inr (signo, if has_inj d INJECT_F_DELAY_EXIT
                                  then upd_tcb (raise_flag TCB_INJECT_DELAY_EXIT) w else w))))"

definition tamper_with_syscall_entering ::
    "'d config \<Rightarrow> globals \<Rightarrow> kernel \<Rightarrow> clock \<Rightarrow> u32 \<Rightarrow> tampering \<Rightarrow> (u32 \<times> tampering) outcome" where
  "tamper_with_syscall_entering cfg g k c signo w =
     (case count_invocation cfg g (current_personality (tr w)) (the_tcb w) of (act, t) \<Rightarrow>
        let w = upd_tcb (\<lambda>_. t) w
        in case act of None \<Rightarrow> Inr (signo, w)
           | Some d \<Rightarrow> if recovering t then Inr (signo, w) else apply_injection cfg g k c d signo w)"

definition tamper_with_syscall_exiting ::
    "'d config \<Rightarrow> globals \<Rightarrow> bool \<Rightarrow> kernel \<Rightarrow> clock \<Rightarrow> tampering \<Rightarrow> (int \<times> tampering) outcome" where
  "tamper_with_syscall_exiting cfg g supported k c w =
     (case tcb_inject_opts cfg (current_personality (tr w)) (the_tcb w) of
        None \<Rightarrow> Inr (0, w)
      | Some opts \<Rightarrow>
          let d = inj_data opts
          in obind (when_flag (inject_poke_exit (the_tcb w)) (poke_tcb g c (poke_idx d) False) w)
             (\<lambda>w. obind (when_flag (inject_delay_exit (the_tcb w)) (delay_tcb g c (delay_idx d) False) w)
             (\<lambda>w. if \<not> syscall_tampered (the_tcb w) then Inr (0, w)
                  else if (\<not> syserror (the_tcb w)) \<noteq> syscall_tampered_nofail (the_tcb w)
                  then Inr (1, upd_tr (error_msg ''Failed to tamper with process: unexpected result'') w)
                  else obind (retval_get (retvals (g_tables g)) (rval_idx d))
                    (\<lambda>rval. Inr (0, upd_tr (if has_inj d INJECT_F_RETVAL then set_success supported k rval
                                            else set_error supported k rval) w)))))"

section \<open>The schedule of an injection\<close>

text \<open>
  The counters before invocation \<open>n\<close>, and the invocations that an expression \<open>F..L+S\<close> selects.
\<close>

definition fires_at :: "inject_opts \<Rightarrow> nat \<Rightarrow> bool" where
  "fires_at opts n \<longleftrightarrow> fst (opts_step (((snd \<circ> opts_step) ^^ (n - 1)) opts))"

definition selected :: "u16 \<Rightarrow> u16 \<Rightarrow> u16 \<Rightarrow> nat \<Rightarrow> bool" where
  "selected f l s n \<longleftrightarrow> f \<noteq> 0 \<and> l \<noteq> 0 \<and> unat f \<le> n \<and> (l = INJECT_LAST_INF \<or> n \<le> unat l)
     \<and> (if s = 0 then n = unat f else unat s dvd n - unat f)"

lemma unat_pred: "w \<noteq> 0 \<Longrightarrow> unat (w - 1 :: u16) = unat w - 1"
  by (simp add: unat_minus_one)

lemma selected_first:
  "selected f l s 1 \<longleftrightarrow> f = 1 \<and> l \<noteq> 0"
proof -
  have "f = 1 \<longleftrightarrow> unat f = 1" by (metis unat_1 word_unat_eq_iff)
  moreover have "f \<noteq> 0 \<longleftrightarrow> 1 \<le> unat f" "l \<noteq> 0 \<longleftrightarrow> 1 \<le> unat l"
    by (simp_all add: Suc_le_eq unat_gt_0)
  ultimately show ?thesis by (auto simp: selected_def)
qed

lemma opts_step_first: "fst (opts_step opts) \<longleftrightarrow> inj_first opts = 1 \<and> inj_last opts \<noteq> 0"
  by (auto simp: opts_step_def Let_def)

text \<open>One invocation less: the schedule of the updated counters is the rest of the schedule.\<close>

lemma selected_step:
  assumes "1 \<le> n" "opts' = snd (opts_step opts)"
  shows "selected (inj_first opts') (inj_last opts') (inj_step opts') n
    \<longleftrightarrow> selected (inj_first opts) (inj_last opts) (inj_step opts) (Suc n)"
proof -
  let ?f = "inj_first opts" and ?l = "inj_last opts" and ?s = "inj_step opts"
  let ?l' = "if ?l = INJECT_LAST_INF then ?l else ?l - 1"
  show ?thesis
  proof (cases "?f = 0 \<or> ?l = 0")
    case True
    then show ?thesis by (auto simp: assms(2) opts_step_def selected_def)
  next
    case False
    have last: "(?l' \<noteq> 0 \<and> (?l' = INJECT_LAST_INF \<or> n \<le> unat ?l')) \<longleftrightarrow> (?l = INJECT_LAST_INF \<or> Suc n \<le> unat ?l)"
    proof (cases "?l = INJECT_LAST_INF")
      case True
      then show ?thesis by (simp add: INJECT_LAST_INF_def)
    next
      case fin: False
      have "?l - 1 \<noteq> INJECT_LAST_INF"
      proof
        assume "?l - 1 = INJECT_LAST_INF"
        then have "unat (?l - 1) = 65535" by (simp add: INJECT_LAST_INF_def)
        moreover have "unat ?l < 2 ^ 16" using unsigned_less [where 'a = nat, of ?l] by simp
        ultimately show False using unat_pred [of ?l] False by simp
      qed
      moreover have "?l - 1 \<noteq> 0 \<longleftrightarrow> 1 < unat ?l"
        using unat_pred [of ?l] False by (metis less_numeral_extra(3) unat_0 unat_gt_0 zero_less_diff)
      ultimately show ?thesis using fin unat_pred [of ?l] False assms(1) by auto
    qed
    have f': "inj_first opts' = (if ?f = 1 then ?s else ?f - 1)" "inj_last opts' = ?l'" "inj_step opts' = ?s"
      using False by (auto simp: assms(2) opts_step_def Let_def)
    show ?thesis
    proof (cases "?f = 1")
      case True
      have "(?s \<noteq> 0 \<and> unat ?s \<le> n \<and> (if ?s = 0 then n = unat ?s else unat ?s dvd n - unat ?s))
          \<longleftrightarrow> (if ?s = 0 then Suc n = 1 else unat ?s dvd n)"
        using assms(1) dvd_imp_le [of "unat ?s" n] by (auto simp: dvd_diff_nat less_eq_dvd_minus)
      with True False last show ?thesis by (auto simp: selected_def f' simp del: word_neq_0_conv)
    next
      case fn: False
      have "?f - 1 \<noteq> 0" "unat (?f - 1) = unat ?f - 1" "1 \<le> unat ?f"
        using fn False unat_pred [of ?f] by (auto simp: Suc_le_eq unat_gt_0)
      moreover have "n - (unat ?f - 1) = Suc n - unat ?f" using \<open>1 \<le> unat ?f\<close> by simp
      ultimately show ?thesis
        using fn False last by (auto simp: selected_def f' simp del: word_neq_0_conv)
    qed
  qed
qed

lemma fires_at_iff:
  assumes "1 \<le> n"
  shows "fires_at opts n \<longleftrightarrow> selected (inj_first opts) (inj_last opts) (inj_step opts) n"
  using assms
proof (induction n arbitrary: opts rule: nat_induct_at_least)
  case base
  then show ?case by (simp add: fires_at_def opts_step_first selected_first [unfolded One_nat_def])
next
  case (Suc n)
  let ?o = "snd (opts_step opts)"
  have "fires_at opts (Suc n) \<longleftrightarrow> fires_at ?o n"
    using Suc.hyps by (cases n) (simp_all add: fires_at_def funpow_Suc_right del: funpow.simps)
  with Suc.IH [of ?o] selected_step [OF Suc.hyps, of ?o opts] show ?case by simp
qed

section \<open>The counters of a process\<close>

text \<open>
  The options that count for a process: its own copy, or the options of the command line that
  the copy will be made of.
\<close>

definition own_vec :: "globals \<Rightarrow> tcb \<Rightarrow> nat \<Rightarrow> inject_opts list option" where
  "own_vec g t p = (case tcb_inject_vec t ! p of None \<Rightarrow> inject_vec g ! p | Some v \<Rightarrow> Some v)"

definition own_opts :: "globals \<Rightarrow> tcb \<Rightarrow> nat \<Rightarrow> nat \<Rightarrow> inject_opts option" where
  "own_opts g t p i = map_option (\<lambda>v. v ! i) (own_vec g t p)"

definition own_wf :: "'d config \<Rightarrow> globals \<Rightarrow> tcb \<Rightarrow> bool" where
  "own_wf cfg g t \<longleftrightarrow> length (tcb_inject_vec t) = SUPPORTED_PERSONALITIES cfg
     \<and> (\<forall>p < SUPPORTED_PERSONALITIES cfg. \<forall>v. own_vec g t p = Some v \<longrightarrow> length v = nsyscall_vec cfg p)"

lemma own_wf_fresh:
  assumes "inject_shape cfg g" "tcb_inject_vec t = replicate (SUPPORTED_PERSONALITIES cfg) None"
  shows "own_wf cfg g t" "p < SUPPORTED_PERSONALITIES cfg \<Longrightarrow> own_opts g t p i = inject_entry g p i"
  using assms by (auto simp: own_wf_def own_vec_def own_opts_def inject_shape_def inject_entry_def)

text \<open>Copying is invisible; counting steps the options of the current call and no others.\<close>

lemma copy_inject_vec_own:
  assumes "own_wf cfg g t" "p < SUPPORTED_PERSONALITIES cfg"
  shows "tcb_inject_vec (copy_inject_vec g p t) ! p = own_vec g t p"
    "own_vec g (copy_inject_vec g p t) q = own_vec g t q"
    "length (tcb_inject_vec (copy_inject_vec g p t)) = SUPPORTED_PERSONALITIES cfg"
    "scno (copy_inject_vec g p t) = scno t"
  using assms by (auto simp: copy_inject_vec_def own_vec_def own_wf_def nth_list_update split: option.splits)

lemma count_invocation_own:
  fixes cfg :: "'d config"
  assumes wf: "own_wf cfg g t" and p: "p < SUPPORTED_PERSONALITIES cfg"
    and c: "count_invocation cfg g p t = (act, t')"
  defines "i \<equiv> unat (scno t)"
  shows "own_wf cfg g t'"
    and "i < nsyscall_vec cfg p \<Longrightarrow> own_opts g t p i = Some opts \<Longrightarrow>
           act = (if fst (opts_step opts) then Some (inj_data opts) else None)"
    and "q < SUPPORTED_PERSONALITIES cfg \<Longrightarrow> n < nsyscall_vec cfg q \<Longrightarrow> own_opts g t q n = Some opts \<Longrightarrow>
           own_opts g t' q n = Some (if q = p \<and> n = i then snd (opts_step opts) else opts)"
    and "own_opts g t p i = None \<or> \<not> i < nsyscall_vec cfg p \<Longrightarrow> act = None"
    and "own_opts g t q n = None \<Longrightarrow> own_opts g t' q n = None"
proof -
  let ?u = "copy_inject_vec g p t"
  note u = copy_inject_vec_own [OF wf p]
  have data: "inj_data (snd (opts_step o')) = inj_data o'" for o'
    by (simp add: opts_step_def Let_def)
  have opts: "tcb_inject_opts cfg p ?u = (if i < nsyscall_vec cfg p then own_opts g t p i else None)"
    by (simp add: tcb_inject_opts_def scno_in_range_def u own_opts_def i_def)
  have put: "own_vec g (put_inject_opts p o' ?u) q
      = (if q = p then map_option (\<lambda>v. v[i := o']) (own_vec g t p) else own_vec g t q)"
    if "own_vec g t p \<noteq> None" for o' q
  proof -
    have own: "own_vec g (w\<lparr>tcb_inject_vec := (tcb_inject_vec w)[p := Some x]\<rparr>) q = (if q = p then Some x else own_vec g w q)"
      if "p < length (tcb_inject_vec w)" for w :: tcb and x
      using that by (simp add: own_vec_def)
    from that obtain v where "own_vec g t p = Some v" by blast
    then show ?thesis using own [of ?u] u p by (simp add: put_inject_opts_def i_def)
  qed
  have wfu: "own_wf cfg g ?u" using wf u by (simp add: own_wf_def)
  have len: "length v = nsyscall_vec cfg p" if "own_vec g t p = Some v" for v
    using wf p that by (simp add: own_wf_def)
  have cases: "(act, t') = (None, ?u) \<and> \<not> (i < nsyscall_vec cfg p \<and> own_opts g t p i \<noteq> None)
    \<or> (\<exists>o'. i < nsyscall_vec cfg p \<and> own_opts g t p i = Some o'
        \<and> act = (if fst (opts_step o') then Some (inj_data o') else None)
        \<and> t' = put_inject_opts p (snd (opts_step o')) ?u)"
    using c opts data by (auto simp: count_invocation_def Let_def split: option.splits prod.splits if_splits)
      (metis fst_conv snd_conv)+
  have wf': "own_wf cfg g (put_inject_opts p o' ?u)" if "own_vec g t p \<noteq> None" for o'
    using wf put [OF that] u(3) by (auto simp: own_wf_def put_inject_opts_def split: if_splits)
  have some: "own_vec g t p \<noteq> None" if "own_opts g t p i = Some o'" for o'
    using that by (auto simp: own_opts_def)
  show "own_wf cfg g t'" using cases wfu wf' some by blast
  show "act = (if fst (opts_step opts) then Some (inj_data opts) else None)"
    if "i < nsyscall_vec cfg p" "own_opts g t p i = Some opts"
    using cases that by auto
  show "act = None" if "own_opts g t p i = None \<or> \<not> i < nsyscall_vec cfg p"
    using cases that by auto
  show "own_opts g t' q n = None" if "own_opts g t q n = None"
    using cases that put [of _ q] u by (fastforce simp: own_opts_def)
  show "own_opts g t' q n = Some (if q = p \<and> n = i then snd (opts_step opts) else opts)"
    if q: "q < SUPPORTED_PERSONALITIES cfg" "n < nsyscall_vec cfg q" "own_opts g t q n = Some opts"
    using cases
  proof
    assume "(act, t') = (None, ?u) \<and> \<not> (i < nsyscall_vec cfg p \<and> own_opts g t p i \<noteq> None)"
    then show ?thesis using q u by (auto simp: own_opts_def)
  next
    assume "\<exists>o'. i < nsyscall_vec cfg p \<and> own_opts g t p i = Some o'
        \<and> act = (if fst (opts_step o') then Some (inj_data o') else None)
        \<and> t' = put_inject_opts p (snd (opts_step o')) ?u"
    then obtain o' v where o': "own_vec g t p = Some v" "v ! i = o'" "i < length v"
      "t' = put_inject_opts p (snd (opts_step o')) ?u"
      using len by (auto simp: own_opts_def)
    then show ?thesis using q(3) put [of "snd (opts_step o')" q] by (auto simp: own_opts_def nth_list_update)
  qed
qed

lemma count_invocation_keeps:
  "count_invocation cfg g p t = (act, t') \<Longrightarrow> tcb_flags t' = tcb_flags t \<and> scno t' = scno t"
  by (auto simp: count_invocation_def Let_def copy_inject_vec_def put_inject_opts_def
      split: option.splits prod.splits if_splits)

text \<open>
  The system calls of a process, each with its personality, and for each of them the injection
  that fires.
\<close>

fun enter_all :: "'d config \<Rightarrow> globals \<Rightarrow> (nat \<times> u64) list \<Rightarrow> tcb \<Rightarrow> inject_data option list" where
  "enter_all cfg g [] t = []"
| "enter_all cfg g ((p, nr) # es) t =
     (case count_invocation cfg g p (t\<lparr>scno := nr\<rparr>) of (act, t) \<Rightarrow> act # enter_all cfg g es t)"

lemma own_scno [simp]: "own_wf cfg g (t\<lparr>scno := nr\<rparr>) = own_wf cfg g t" "own_opts g (t\<lparr>scno := nr\<rparr>) = own_opts g t"
  by (simp_all add: own_wf_def own_opts_def own_vec_def fun_eq_iff)

lemma enter_all_fires:
  assumes "own_wf cfg g t" "list_all (\<lambda>(p, _). p < SUPPORTED_PERSONALITIES cfg) es"
    and "j < length es" "es ! j = (p, nr)" "unat nr < nsyscall_vec cfg p" "own_opts g t p (unat nr) = Some opts"
  shows "enter_all cfg g es t ! j
    = (if fires_at opts (count_list (take (Suc j) es) (p, nr)) then Some (inj_data opts) else None)"
  using assms
proof (induction es arbitrary: t j opts)
  case (Cons e es)
  obtain q m where e: "e = (q, m)" by fastforce
  obtain act t' where c: "count_invocation cfg g q (t\<lparr>scno := m\<rparr>) = (act, t')" by fastforce
  have q: "q < SUPPORTED_PERSONALITIES cfg" using Cons.prems(2) e by simp
  note own = count_invocation_own [OF _ q c, simplified, OF Cons.prems(1)]
  show ?case
  proof (cases j)
    case 0
    with Cons.prems own(2) [of opts] c show ?thesis by (auto simp: e fires_at_def)
  next
    case (Suc j')
    have p: "p < SUPPORTED_PERSONALITIES cfg"
      using Cons.prems(2-4) by (auto simp: list_all_length dest!: spec [of _ j])
    let ?o = "if (q, m) = (p, nr) then snd (opts_step opts) else opts"
    have o: "own_opts g t' p (unat nr) = Some ?o"
      using own(3) [OF p Cons.prems(5,6)] by (auto simp: word_unat_eq_iff)
    have d: "inj_data (snd (opts_step opts)) = inj_data opts" by (simp add: opts_step_def Let_def)
    have pos: "1 \<le> count_list (take (Suc j') es) (p, nr)"
      using Cons.prems(3,4) Suc by (simp add: Suc_le_eq count_list_0_iff flip: neq0_conv)
        (metis in_set_conv_nth length_take lessI min_less_iff_conj nth_take)
    have "fires_at ?o (count_list (take (Suc j') es) (p, nr)) \<longleftrightarrow> fires_at opts (count_list (take (Suc j) (e # es)) (p, nr))"
      using pos Suc e by (cases "count_list (take (Suc j') es) (p, nr)")
        (auto simp: fires_at_def funpow_Suc_right simp del: funpow.simps)
    with Cons.IH [OF own(1) _ _ _ Cons.prems(5) o, of j'] Cons.prems Suc d show ?thesis
      by (auto simp: e c)
  qed
qed simp

text \<open>
  C4: The schedule of an injection.  In any interleaving of the system calls of a process, in any
  personalities, the \<open>n\<close>-th invocation of a system call whose options say \<open>F..L+S\<close> is tampered
  with exactly when \<open>F \<le> n \<le> L\<close> (no upper bound for the marker \<open>INJECT_LAST_INF\<close>) and \<open>n - F\<close> is a
  multiple of \<open>S\<close> (only \<open>n = F\<close> for \<open>S = 0\<close>), although the code only counts 16-bit fields down;
  every process counts on its own, whatever calls of other numbers come between.
\<close>

theorem injection_schedule:
  assumes "globals_ok cfg g" "tcb_inject_vec t = replicate (SUPPORTED_PERSONALITIES cfg) None"
    and "list_all (\<lambda>(p, _). p < SUPPORTED_PERSONALITIES cfg) es"
    and "j < length es" "es ! j = (p, nr)" "unat nr < nsyscall_vec cfg p"
    and "inject_entry g p (unat nr) = Some opts"
  shows "enter_all cfg g es t ! j
    = (if selected (inj_first opts) (inj_last opts) (inj_step opts) (count_list (take (Suc j) es) (p, nr))
       then Some (inj_data opts) else None)"
proof -
  have p: "p < SUPPORTED_PERSONALITIES cfg"
    using assms(3-5) by (auto simp: list_all_length)
  note own = own_wf_fresh [OF _ assms(2), of g]
  have "inject_shape cfg g" using assms(1) by (simp add: globals_ok_def injections_ok_def)
  then have w: "own_wf cfg g t" "own_opts g t p (unat nr) = Some opts"
    using own p assms(7) by simp_all
  have "(p, nr) \<in> set (take (Suc j) es)"
    using assms(4,5) by (metis in_set_conv_nth length_take lessI min_less_iff_conj nth_take)
  then have "1 \<le> count_list (take (Suc j) es) (p, nr)"
    by (simp add: Suc_le_eq count_list_0_iff flip: neq0_conv)
  from enter_all_fires [OF w(1) assms(3-6) w(2)] fires_at_iff [OF this] show ?thesis by simp
qed

text \<open>A table with one system call that is hit by a signal from its second invocation on.\<close>

definition sample_injections :: globals where
  "sample_injections = (initial_globals sample_config)\<lparr>inject_vec :=
     [Some [zero_opts, \<lparr>inj_first = 2, inj_last = INJECT_LAST_INF, inj_step = 1,
                        inj_data = zero_data\<lparr>inj_flags := INJECT_F_SIGNAL, inj_signo := 9\<rparr>\<rparr>, zero_opts, zero_opts], None]\<rparr>"

lemma sample_table_sizes [simp]:
  "SUPPORTED_PERSONALITIES sample_config = 2"
  "nsyscall_vec sample_config 0 = 4" "nsyscall_vec sample_config (Suc 0) = 2"
  by (simp_all add: SUPPORTED_PERSONALITIES_def nsyscall_vec_def sample_config_def)

lemma data_ok_signal:
  "data_ok t zero_data" "data_ok t (zero_data\<lparr>inj_flags := INJECT_F_SIGNAL, inj_signo := s\<rparr>)"
  by (simp_all add: data_ok_def zero_data_def inject_flag_defs)

lemma sample_injections_ok: "globals_ok sample_config sample_injections"
proof -
  have "length v = nsyscall_vec sample_config p"
    if "p < 2" "inject_vec sample_injections ! p = Some v" for p v
    using that by (auto simp: sample_injections_def less_2_cases_iff)
  then have "inject_shape sample_config sample_injections"
    using initial_globals_ok [of sample_config]
    by (auto simp: inject_shape_def globals_ok_def injections_ok_def sample_injections_def initial_globals_def)
  moreover have "data_ok tb (inj_data op)"
    if "p < 2" "i < nsyscall_vec sample_config p" "inject_entry sample_injections p i = Some op" for p i op tb
    using that data_ok_signal [of tb]
    by (auto simp: sample_injections_def inject_entry_def less_2_cases_iff nth_Cons' zero_opts_def split: if_splits)
  moreover have "\<not> injected sample_injections p i" for p i
    by (simp add: injected_def sample_injections_def initial_globals_def is_number_in_set_array_def)
  ultimately have "injections_ok sample_config sample_injections"
    by (simp add: injections_ok_def)
  then show ?thesis
    using initial_globals_ok [of sample_config]
    by (simp add: globals_ok_def sample_injections_def single_sets_def syscall_sets_def)
qed

theorem injection_schedule_witness:
  "enter_all sample_config sample_injections [(0, 1), (0, 0), (1, 1), (0, 1)] (sample_tcb 0 0) ! 3
     = Some (zero_data\<lparr>inj_flags := INJECT_F_SIGNAL, inj_signo := 9\<rparr>)
   \<and> enter_all sample_config sample_injections [(0, 1), (0, 0), (1, 1), (0, 1)] (sample_tcb 0 0) ! 0 = None"
proof -
  let ?es = "[(0, 1), (0, 0), (1, 1), (0, 1)] :: (nat \<times> u64) list"
  let ?o = "\<lparr>inj_first = 2, inj_last = INJECT_LAST_INF, inj_step = 1,
              inj_data = zero_data\<lparr>inj_flags := INJECT_F_SIGNAL, inj_signo := 9\<rparr>\<rparr>"
  have "tcb_inject_vec (sample_tcb 0 0) = replicate (SUPPORTED_PERSONALITIES sample_config) None"
    by (simp add: sample_tcb_def numeral_2_eq_2)
  moreover have "list_all (\<lambda>(p, _). p < SUPPORTED_PERSONALITIES sample_config) ?es" by simp
  moreover have "inject_entry sample_injections 0 (unat (1 :: u64)) = Some ?o"
    by (simp add: inject_entry_def sample_injections_def)
  ultimately have "?es ! j = (0, 1) \<Longrightarrow> j < 4 \<Longrightarrow> enter_all sample_config sample_injections ?es (sample_tcb 0 0) ! j
      = (if selected 2 INJECT_LAST_INF 1 (count_list (take (Suc j) ?es) (0, 1)) then Some (inj_data ?o) else None)" for j
    using injection_schedule [OF sample_injections_ok, of "sample_tcb 0 0" ?es j 0 1 ?o] by simp
  from this [of 3] this [of 0] show ?thesis
    by (simp add: selected_def INJECT_LAST_INF_def)
qed

section \<open>Tampering does not fail\<close>

lemma has_raise [simp]: "has (raise_flag f t) x \<longleftrightarrow> has t x \<or> f AND x \<noteq> 0"
proof -
  have "(tcb_flags t OR f) AND x = (tcb_flags t AND x) OR (f AND x)"
    by (simp add: bit.conj_disj_distrib2)
  then show ?thesis by (simp add: has_def raise_flag_def or_eq_0_iff)
qed

lemma raise_flag_keeps [simp]:
  "scno (raise_flag f t) = scno t" "tcb_inject_vec (raise_flag f t) = tcb_inject_vec t"
  "u_error (raise_flag f t) = u_error t"
  by (simp_all add: raise_flag_def)

text \<open>The timer calls of the kernel succeed.\<close>

definition clock_ok :: "clock \<Rightarrow> bool" where
  "clock_ok c \<longleftrightarrow> c_timer_remaining c \<noteq> None \<and> c_timer_create_ok c \<and> c_timer_settime_ok c"

text \<open>
  Two states of the tracer that agree on what selects the injection options, with flags raised
  of which none concerns the exit of the call.
\<close>

definition exit_flags :: "tcb \<Rightarrow> bool \<times> bool \<times> bool" where
  "exit_flags t = (inject_poke_exit t, inject_delay_exit t, syscall_tampered t)"

definition same_call :: "tampering \<Rightarrow> tampering \<Rightarrow> bool" where
  "same_call w w' \<longleftrightarrow> current_personality (tr w') = current_personality (tr w)
     \<and> scno (the_tcb w') = scno (the_tcb w) \<and> tcb_inject_vec (the_tcb w') = tcb_inject_vec (the_tcb w)"

lemmas upd_defs = upd_tcb_def upd_tr_def upd_tcp_def error_msg_def
lemmas same_call_defs = same_call_def exit_flags_def tcb_tests

lemma same_call_trans: "same_call a b \<Longrightarrow> same_call b c \<Longrightarrow> same_call a c"
  by (simp add: same_call_def)

lemma poke_loop_same:
  "poke_loop c isenter is poked w = (r, w') \<Longrightarrow> same_call w w' \<and> exit_flags (the_tcb w') = exit_flags (the_tcb w)"
proof (induction "is" arbitrary: poked w)
  case (Cons i "is")
  show ?case
    using Cons.prems Cons.IH
    by (fastforce simp: Let_def upd_defs same_call_def split: if_splits)
qed (simp add: same_call_def)

lemma poke_tcb_safe:
  assumes "unat idx < asize (inject_tables.pokes (g_tables g))"
  shows "\<exists>w'. poke_tcb g c idx isenter w = Inr w' \<and> same_call w w' \<and> exit_flags (the_tcb w') = exit_flags (the_tcb w)"
proof -
  obtain r w' where l: "poke_loop c isenter (avec (inject_tables.pokes (g_tables g)) ! unat idx) False w = (r, w')"
    by fastforce
  then show ?thesis
    using assms poke_loop_same [OF l]
    by (auto simp: poke_tcb_def Let_def upd_defs same_call_defs tcb_flag_defs)
qed

lemma delay_tcb_safe:
  assumes "unat idx < asize (delays (g_tables g))" "clock_ok c"
  shows "\<exists>w'. delay_tcb g c idx isenter w = Inr w' \<and> same_call w w' \<and> exit_flags (the_tcb w') = exit_flags (the_tcb w)"
proof -
  have f: "exit_flags (t\<lparr>delay_expiration_time := x\<rparr>) = exit_flags t"
    "exit_flags (raise_flag TCB_TAMPERED_DELAYED t) = exit_flags t"
    "exit_flags (raise_flag TCB_DELAYED t) = exit_flags t" for t x
    by (simp_all add: same_call_defs tcb_flag_defs) (simp_all add: has_def)
  show ?thesis
    using assms f
    by (auto simp: delay_tcb_def Let_def clock_ok_def arm_delay_timer_def upd_defs same_call_def)
qed

text \<open>The injection options that a process counts with refer to existing table entries.\<close>

definition own_data_ok :: "'d config \<Rightarrow> globals \<Rightarrow> tcb \<Rightarrow> bool" where
  "own_data_ok cfg g t \<longleftrightarrow> (\<forall>p < SUPPORTED_PERSONALITIES cfg. \<forall>i < nsyscall_vec cfg p. \<forall>opts.
     own_opts g t p i = Some opts \<longrightarrow> data_ok (g_tables g) (inj_data opts))"

text \<open>What the exit of a call will do is part of the options that are in force.\<close>

definition exit_ready :: "inject_data \<Rightarrow> tcb \<Rightarrow> bool" where
  "exit_ready d t \<longleftrightarrow> (inject_poke_exit t \<longrightarrow> has_inj d INJECT_F_POKE_EXIT)
     \<and> (inject_delay_exit t \<longrightarrow> has_inj d INJECT_F_DELAY_EXIT)
     \<and> (syscall_tampered t \<longrightarrow> has_inj d (INJECT_F_ERROR OR INJECT_F_RETVAL))"

lemma tamper_scno_same:
  "same_call w (tamper_scno cfg k d w)
   \<and> (\<exists>b. exit_flags (the_tcb (tamper_scno cfg k d w))
        = (inject_poke_exit (the_tcb w), inject_delay_exit (the_tcb w), b))"
  by (auto simp: tamper_scno_def arch_set_scno_def upoke_def Let_def upd_defs same_call_defs tcb_flag_defs
      split: prod.splits)

lemma apply_injection_safe:
  assumes "data_ok (g_tables g) d" "clock_ok c" "exit_flags (the_tcb w) = (False, False, False)"
  shows "\<exists>signo' w'. apply_injection cfg g k c d signo w = Inr (signo', w') \<and> same_call w w' \<and> exit_ready d (the_tcb w')"
proof -
  define w1 where "w1 = (if has_inj d (INJECT_F_ERROR OR INJECT_F_RETVAL) then tamper_scno cfg k d w else w)"
  obtain b where w1: "same_call w w1" "exit_flags (the_tcb w1) = (False, False, b)"
    "b \<longrightarrow> has_inj d (INJECT_F_ERROR OR INJECT_F_RETVAL)"
    using tamper_scno_same [of w cfg k d] assms(3) by (auto simp: w1_def same_call_def exit_flags_def)
  have idx: "has_inj d INJECT_F_POKE_ENTER \<Longrightarrow> unat (poke_idx d) < asize (inject_tables.pokes (g_tables g))"
    "has_inj d INJECT_F_DELAY_ENTER \<Longrightarrow> unat (delay_idx d) < asize (delays (g_tables g))"
    using assms(1) by (auto simp: data_ok_def has_inj_def bit.conj_disj_distrib or_eq_0_iff)
  obtain w2 where w2: "when_flag (has_inj d INJECT_F_POKE_ENTER) (poke_tcb g c (poke_idx d) True) w1 = Inr w2"
    "same_call w1 w2" "exit_flags (the_tcb w2) = exit_flags (the_tcb w1)"
    using poke_tcb_safe [OF idx(1), of c True w1] by (cases "has_inj d INJECT_F_POKE_ENTER") (auto simp: when_flag_def same_call_def)
  let ?w3 = "if has_inj d INJECT_F_POKE_EXIT then upd_tcb (raise_flag TCB_INJECT_POKE_EXIT) w2 else w2"
  have w3: "same_call w2 ?w3" "exit_flags (the_tcb ?w3) = (has_inj d INJECT_F_POKE_EXIT, False, b)"
    using w1(2) w2(3) by (auto simp: upd_defs same_call_defs tcb_flag_defs)
  obtain w4 where w4: "when_flag (has_inj d INJECT_F_DELAY_ENTER) (delay_tcb g c (delay_idx d) True) ?w3 = Inr w4"
    "same_call ?w3 w4" "exit_flags (the_tcb w4) = exit_flags (the_tcb ?w3)"
    using delay_tcb_safe [OF idx(2) assms(2), of True ?w3]
    by (cases "has_inj d INJECT_F_DELAY_ENTER") (auto simp: when_flag_def same_call_def)
  let ?w5 = "if has_inj d INJECT_F_DELAY_EXIT then upd_tcb (raise_flag TCB_INJECT_DELAY_EXIT) w4 else w4"
  have w5: "same_call w4 ?w5" "exit_flags (the_tcb ?w5) = (has_inj d INJECT_F_POKE_EXIT, has_inj d INJECT_F_DELAY_EXIT, b)"
    using w4(3) w3(2) by (auto simp: upd_defs same_call_defs tcb_flag_defs)
  have "same_call w ?w5" using w1(1) w2(2) w3(1) w4(2) w5(1) by (metis same_call_trans)
  moreover have "exit_ready d (the_tcb ?w5)"
    using w5(2) w1(3) by (simp add: exit_ready_def exit_flags_def)
  ultimately show ?thesis
    using w2(1) w4(1) by (simp add: apply_injection_def Let_def flip: w1_def)
qed

lemma tamper_exiting_safe:
  assumes "clock_ok c" "tcb_inject_opts cfg (current_personality (tr w)) (the_tcb w) = Some opts"
    and "data_ok (g_tables g) (inj_data opts)" "exit_ready (inj_data opts) (the_tcb w)"
  shows "\<exists>r w'. tamper_with_syscall_exiting cfg g supported k c w = Inr (r, w')"
proof -
  let ?d = "inj_data opts"
  have idx: "inject_poke_exit (the_tcb w) \<Longrightarrow> unat (poke_idx ?d) < asize (inject_tables.pokes (g_tables g))"
    "inject_delay_exit (the_tcb w) \<Longrightarrow> unat (delay_idx ?d) < asize (delays (g_tables g))"
    "syscall_tampered (the_tcb w) \<Longrightarrow> unat (rval_idx ?d) < asize (retvals (g_tables g))"
    using assms(3,4) by (auto simp: data_ok_def exit_ready_def has_inj_def bit.conj_disj_distrib or_eq_0_iff)
  obtain w1 where w1: "when_flag (inject_poke_exit (the_tcb w)) (poke_tcb g c (poke_idx ?d) False) w = Inr w1"
    "exit_flags (the_tcb w1) = exit_flags (the_tcb w)"
    using poke_tcb_safe [OF idx(1), of c False w] by (cases "inject_poke_exit (the_tcb w)") (auto simp: when_flag_def)
  obtain w2 where w2: "when_flag (inject_delay_exit (the_tcb w1)) (delay_tcb g c (delay_idx ?d) False) w1 = Inr w2"
    "exit_flags (the_tcb w2) = exit_flags (the_tcb w)"
    using delay_tcb_safe [OF idx(2) assms(1), of False w1] w1(2)
    by (cases "inject_delay_exit (the_tcb w1)") (auto simp: when_flag_def exit_flags_def)
  from assms(2) w1(1) w2 idx(3) show ?thesis
    by (auto simp: tamper_with_syscall_exiting_def Let_def retval_get_def exit_flags_def)
qed

lemma opts_step_data [simp]: "inj_data (snd (opts_step opts)) = inj_data opts"
  by (simp add: opts_step_def Let_def)

lemma count_invocation_data_ok:
  assumes "own_wf cfg g t" "own_data_ok cfg g t" "p < SUPPORTED_PERSONALITIES cfg"
    and c: "count_invocation cfg g p t = (act, t')"
  shows "own_data_ok cfg g t'"
    and "tcb_inject_opts cfg p u = Some opts \<Longrightarrow> tcb_inject_vec u = tcb_inject_vec t' \<Longrightarrow> scno u = scno t' \<Longrightarrow>
      data_ok (g_tables g) (inj_data opts) \<and> (\<forall>d. act = Some d \<longrightarrow> d = inj_data opts)"
proof -
  note own = count_invocation_own [OF assms(1,3) c]
  have old: "\<exists>opts0. own_opts g t q n = Some opts0 \<and> inj_data opts0 = inj_data opts"
    if q: "q < SUPPORTED_PERSONALITIES cfg" "n < nsyscall_vec cfg q" "own_opts g t' q n = Some opts" for q n opts
  proof -
    from q(3) own(5) [of q n] obtain opts0 where o0: "own_opts g t q n = Some opts0" by fastforce
    have "inj_data opts = inj_data opts0" using own(3) [OF q(1,2) o0] q(3) by (auto split: if_splits)
    with o0 show ?thesis by simp
  qed
  show ok: "own_data_ok cfg g t'"
    unfolding own_data_ok_def
  proof (intro allI impI)
    fix q n opts assume q: "q < SUPPORTED_PERSONALITIES cfg" "n < nsyscall_vec cfg q" "own_opts g t' q n = Some opts"
    from old [OF q] obtain opts0 where "own_opts g t q n = Some opts0" "inj_data opts0 = inj_data opts" by blast
    moreover have "data_ok (g_tables g) (inj_data opts0)"
      using assms(2) q(1,2) calculation(1) by (auto simp: own_data_ok_def)
    ultimately show "data_ok (g_tables g) (inj_data opts)" by simp
  qed
  assume u: "tcb_inject_opts cfg p u = Some opts" "tcb_inject_vec u = tcb_inject_vec t'" "scno u = scno t'"
  let ?i = "unat (scno t)"
  have o: "own_opts g t' p ?i = Some opts" "?i < nsyscall_vec cfg p"
    using u count_invocation_keeps [OF c]
    by (auto simp: tcb_inject_opts_def own_opts_def own_vec_def scno_in_range_def split: if_splits)
  from old [OF assms(3) o(2,1)] obtain opts0 where o0: "own_opts g t p ?i = Some opts0" "inj_data opts0 = inj_data opts"
    by blast
  have "\<forall>d. act = Some d \<longrightarrow> d = inj_data opts"
    using own(2) [OF o(2) o0(1)] o0(2) by simp
  with ok o assms(3) show "data_ok (g_tables g) (inj_data opts) \<and> (\<forall>d. act = Some d \<longrightarrow> d = inj_data opts)"
    by (auto simp: own_data_ok_def)
qed

lemma tamper_entering_safe:
  assumes "own_wf cfg g (the_tcb w)" "own_data_ok cfg g (the_tcb w)" "clock_ok c"
    and "current_personality (tr w) < SUPPORTED_PERSONALITIES cfg" "exit_flags (the_tcb w) = (False, False, False)"
  obtains signo' w' where "tamper_with_syscall_entering cfg g k c signo w = Inr (signo', w')"
    "own_wf cfg g (the_tcb w')" "own_data_ok cfg g (the_tcb w')" "current_personality (tr w') = current_personality (tr w)"
    "\<And>opts. tcb_inject_opts cfg (current_personality (tr w')) (the_tcb w') = Some opts \<Longrightarrow>
       data_ok (g_tables g) (inj_data opts) \<and> exit_ready (inj_data opts) (the_tcb w')"
proof -
  let ?p = "current_personality (tr w)"
  obtain act t' where c: "count_invocation cfg g ?p (the_tcb w) = (act, t')" by fastforce
  note own = count_invocation_own [OF assms(1,4) c]
  have t': "tcb_flags t' = tcb_flags (the_tcb w)" "scno t' = scno (the_tcb w)"
    using count_invocation_keeps [OF c] by simp_all
  note ok' = count_invocation_data_ok(1) [OF assms(1,2,4) c]
  note now = count_invocation_data_ok(2) [OF assms(1,2,4) c]
  show ?thesis
  proof (cases "act = None \<or> recovering t'")
    case True
    then have "tamper_with_syscall_entering cfg g k c signo w = Inr (signo, upd_tcb (\<lambda>_. t') w)"
      using c by (auto simp: tamper_with_syscall_entering_def Let_def split: option.splits)
    moreover have "exit_ready d t'" for d
      using assms(5) t' by (simp add: exit_ready_def exit_flags_def tcb_tests has_def)
    ultimately show ?thesis using that ok' own(1) now by (simp add: upd_defs)
  next
    case False
    then obtain d where d: "act = Some d" "\<not> recovering t'" by auto
    let ?w = "upd_tcb (\<lambda>_. t') w"
    have dok: "data_ok (g_tables g) d"
    proof -
      let ?i = "unat (scno (the_tcb w))"
      obtain opts0 where "own_opts g (the_tcb w) ?p ?i = Some opts0" "?i < nsyscall_vec cfg ?p"
        using own(4) d by fastforce
      with own(2) d assms(2,4) show ?thesis by (auto simp: own_data_ok_def split: if_splits)
    qed
    have "exit_flags (the_tcb ?w) = (False, False, False)"
      using assms(5) t' by (simp add: exit_flags_def tcb_tests has_def upd_defs)
    from apply_injection_safe [OF dok assms(3) this, of cfg k signo] obtain s' w' where
      w': "apply_injection cfg g k c d signo ?w = Inr (s', w')" "same_call ?w w'" "exit_ready d (the_tcb w')" by blast
    have vec: "current_personality (tr w') = ?p" "tcb_inject_vec (the_tcb w') = tcb_inject_vec t'"
      "scno (the_tcb w') = scno t'"
      using w'(2) by (simp_all add: same_call_def upd_defs)
    then have "own_wf cfg g (the_tcb w')" "own_data_ok cfg g (the_tcb w')"
      using own(1) ok' by (simp_all add: own_wf_def own_data_ok_def own_opts_def own_vec_def)
    moreover have "data_ok (g_tables g) (inj_data opts) \<and> exit_ready (inj_data opts) (the_tcb w')"
      if "tcb_inject_opts cfg ?p (the_tcb w') = Some opts" for opts
      using now [OF that vec(2,3)] d(1) w'(3) by auto
    moreover have "tamper_with_syscall_entering cfg g k c signo w = Inr (s', w')"
      using c d w'(1) by (simp add: tamper_with_syscall_entering_def Let_def)
    ultimately show ?thesis using that vec(1) by simp
  qed
qed


text \<open>A clock whose timer calls succeed, and the tracer at the start of the first system call.\<close>

definition sample_clock :: clock where
  "sample_clock = \<lparr>c_now = sample_ts, c_timer_remaining = Some zero_ts, c_timer_create_ok = True,
     c_timer_settime_ok = True, c_upoken = (\<lambda>addr xs. length xs)\<rparr>"

definition sample_tampering :: tampering where
  "sample_tampering = \<lparr>tr = sample_tracer, delay_timer_created = False, delay_timer_is_armed = False,
     delay_timer_value = zero_ts, written = []\<rparr>"

lemma sample_tampering_ok:
  "own_wf sample_config sample_injections (the_tcb sample_tampering)"
  "own_data_ok sample_config sample_injections (the_tcb sample_tampering)"
  "current_personality (tr sample_tampering) < SUPPORTED_PERSONALITIES sample_config"
  "exit_flags (the_tcb sample_tampering) = (False, False, False)" "clock_ok sample_clock"
proof -
  have v: "tcb_inject_vec (the_tcb sample_tampering) = replicate (SUPPORTED_PERSONALITIES sample_config) None"
    by (simp add: sample_tampering_def sample_tracer_def clear_regs_def sample_tcb_def numeral_2_eq_2)
  have g: "injections_ok sample_config sample_injections" using sample_injections_ok by (simp add: globals_ok_def)
  then show "own_wf sample_config sample_injections (the_tcb sample_tampering)"
    using own_wf_fresh(1) [OF _ v] by (simp add: injections_ok_def)
  show "own_data_ok sample_config sample_injections (the_tcb sample_tampering)"
    using own_wf_fresh(2) [OF _ v] g by (simp add: own_data_ok_def injections_ok_def)
qed (simp_all add: sample_tampering_def sample_tracer_def clear_regs_def sample_tcb_def exit_flags_def tcb_tests
    has_def clock_ok_def sample_clock_def)


end
