(* ===== verification/Syscall.thy ===== *)
theory Syscall
  imports Tamper
begin

text \<open>
  The handlers of the two stops of a system call (\<^verbatim>\<open>syscall.c\<close>) and their composition
  (\<open>trace_syscall\<close> of \<^verbatim>\<open>strace.c\<close>): decoding, filtering, tampering, counting and printing.  The
  printers of the single system calls and the matching of paths are a parameter.
\<close>

section \<open>State\<close>

datatype cflag_t = CFLAG_NONE | CFLAG_ONLY_STATS | CFLAG_BOTH

text \<open>The command line options that the handlers look at.\<close>

record options =
  cflag :: cflag_t
  Tflag :: bool
  output_separately :: bool
  tracing_paths :: bool
  count_wallclock :: bool
  ptrace_get_syscall_info_supported :: bool

text \<open>
  The printer of a system call: its flags, \<open>auxstr\<close> and what it prints.  \<open>umove_words\<close> are the
  words that \<open>umoven\<close> copies from the tracee.
\<close>

record decoders =
  sys_func_of :: "sysent \<Rightarrow> tcb \<Rightarrow> u32 \<times> string option \<times> out list"
  pathtrace_match :: "tcb \<Rightarrow> bool"
  umove_words :: "u64 \<Rightarrow> nat \<Rightarrow> u64 list option"

text \<open>\<open>printing_tcp\<close> is the process whose line is being printed, by its id.\<close>

record session =
  tam :: tampering
  cnt :: count_state
  mmaps :: mmap_state
  syscall_limit :: int
  printing_tcp :: "int option"
  comm_loads :: "int list"

abbreviation cur_tcb :: "session \<Rightarrow> tcb" where
  "cur_tcb s \<equiv> the_tcb (tam s)"

abbreviation cur_pers :: "session \<Rightarrow> nat" where
  "cur_pers s \<equiv> current_personality (tr (tam s))"

definition upd_cur :: "(tcb \<Rightarrow> tcb) \<Rightarrow> session \<Rightarrow> session" where
  "upd_cur f s = s\<lparr>tam := upd_tcb f (tam s)\<rparr>"

definition upd_tracer :: "(tracer \<Rightarrow> tracer) \<Rightarrow> session \<Rightarrow> session" where
  "upd_tracer f s = s\<lparr>tam := upd_tr f (tam s)\<rparr>"

definition on_tracer :: "(tracer \<Rightarrow> (int \<times> tracer) outcome) \<Rightarrow> session \<Rightarrow> (int \<times> session) outcome" where
  "on_tracer f s = obind (f (tr (tam s))) (\<lambda>(r, st). Inr (r, upd_tracer (\<lambda>_. st) s))"

definition print_out :: "out list \<Rightarrow> session \<Rightarrow> session" where
  "print_out xs = upd_cur (tprint xs)"

definition printleader :: "session \<Rightarrow> session" where
  "printleader s = print_out [Out_leader] (s\<lparr>printing_tcp := Some (pid (cur_tcb s))\<rparr>)"

definition line_ended :: "session \<Rightarrow> session" where
  "line_ended s = s\<lparr>printing_tcp := None\<rparr>"

definition cur_name :: "session \<Rightarrow> string" where
  "cur_name s = (case sys_name (tcp_sysent (cur_tcb s)) of None \<Rightarrow> ''(null)'' | Some n \<Rightarrow> n)"

section \<open>Indirect system calls\<close>

definition SYS_socket_subcall :: nat where "SYS_socket_subcall = 500"
definition SYS_socket_nsubcalls :: nat where "SYS_socket_nsubcalls = 21"
definition SYS_ipc_subcall :: nat where "SYS_ipc_subcall = SYS_socket_subcall + SYS_socket_nsubcalls"

text \<open>The system call that a call of \<open>socketcall\<close> or \<open>ipc\<close> stands for.\<close>

definition become :: "'d config \<Rightarrow> globals \<Rightarrow> nat \<Rightarrow> nat \<Rightarrow> tcb \<Rightarrow> tcb" where
  "become cfg g p nr t = t\<lparr>scno := of_nat nr, qual_flg := qual_flags g p nr, s_ent := Some (sysent_vec cfg ! p ! nr)\<rparr>"

definition decode_socket_subcall :: "'d config \<Rightarrow> globals \<Rightarrow> decoders \<Rightarrow> nat \<Rightarrow> tcb \<Rightarrow> tcb outcome" where
  "decode_socket_subcall cfg g dc p t =
     (let call = sint (ucast (u_arg t ! 0) :: u32)
      in if call < 1 \<or> call \<ge> int SYS_socket_nsubcalls then Inr t
         else
           let nr = SYS_socket_subcall + nat call
           in if \<not> nr < nsyscall_vec cfg p then Inl (Undefined_behaviour ''sysent[scno]'')
              else let n = nargs (sysent_vec cfg ! p ! nr)
                   in case umove_words dc (u_arg t ! 1) n of
                        None \<Rightarrow> Inr t
                      | Some buf \<Rightarrow>
                          let t = become cfg g p nr t
                          in Inr (t\<lparr>u_arg := take n buf @ drop n (u_arg t)\<rparr>))"

definition decode_ipc_subcall :: "'d config \<Rightarrow> globals \<Rightarrow> nat \<Rightarrow> tcb \<Rightarrow> tcb outcome" where
  "decode_ipc_subcall cfg g p t =
     (let call = ucast (u_arg t ! 0) :: u32;
          call = unat (if drop_bit 16 call \<noteq> 0 then call AND 0xffff else call)
      in if call \<notin> set [1, 2, 3, 4, 11, 12, 13, 14, 21, 22, 23, 24] then Inr t
         else
           let nr = SYS_ipc_subcall + call
           in if \<not> nr < nsyscall_vec cfg p then Inl (Undefined_behaviour ''sysent[tcp->scno]'')
              else
                let t = become cfg g p nr t;
                    n = n_args t
                in if \<not> n < length (u_arg t) then Inl (Undefined_behaviour ''tcp->u_arg[i + 1]'')
                   else Inr (t\<lparr>u_arg := take n (tl (u_arg t)) @ drop n (u_arg t)\<rparr>))"

definition decode_subcall :: "'d config \<Rightarrow> globals \<Rightarrow> decoders \<Rightarrow> nat \<Rightarrow> tcb \<Rightarrow> tcb outcome" where
  "decode_subcall cfg g dc p t =
     (if sen (tcp_sysent t) = ''ipc'' then decode_ipc_subcall cfg g p t
      else if sen (tcp_sysent t) = ''socketcall'' then decode_socket_subcall cfg g dc p t
      else Inr t)"

section \<open>Entering\<close>

definition syscall_entering_decode ::
    "'d config \<Rightarrow> globals \<Rightarrow> options \<Rightarrow> decoders \<Rightarrow> kernel \<Rightarrow> session \<Rightarrow> (int \<times> session) outcome" where
  "syscall_entering_decode cfg g opt dc k s =
     obind (on_tracer (get_scno cfg g (ptrace_get_syscall_info_supported opt) k) s)
       (\<lambda>(res, s).
          if res = 0 then Inr (res, s)
          else obind (if res \<noteq> 1 then Inr (res, s)
                      else on_tracer (\<lambda>st. Inr (get_syscall_args (ptrace_get_syscall_info_supported opt) st)) s)
            (\<lambda>(res, s).
               if res \<noteq> 1 then Inr (res, print_out [Out_syscall (cur_name s)] (printleader s))
               else obind (decode_subcall cfg g dc (cur_pers s) (cur_tcb s))
                      (\<lambda>t. Inr (1, upd_cur (\<lambda>_. t) s))))"

definition NUMBER_OF_STATUSES :: u32 where "NUMBER_OF_STATUSES = 5"
definition STATUS_SUCCESSFUL :: nat where "STATUS_SUCCESSFUL = 0"
definition STATUS_FAILED :: nat where "STATUS_FAILED = 1"
definition STATUS_UNAVAILABLE :: nat where "STATUS_UNAVAILABLE = 3"

definition status_filtering :: "globals \<Rightarrow> bool" where
  "status_filtering g \<longleftrightarrow> \<not> is_complete_set (status_set g) NUMBER_OF_STATUSES"

definition printargs :: "tcb \<Rightarrow> u32 \<times> string option \<times> out list" where
  "printargs t = (64, auxstr t, map Out_hex (take (n_args t) (u_arg t)))"

text \<open>While the log is hidden nothing is injected; the first \<open>exec\<close> makes it visible.\<close>

definition hidden_log_step :: "tcb \<Rightarrow> tcb" where
  "hidden_log_step t =
     (if hide_log t then
        let t = t\<lparr>qual_flg := qual_flg t AND NOT QUAL_INJECT\<rparr>
        in if sen (tcp_sysent t) \<in> set [''execve'', ''execveat'', ''execv'']
           then raise_flag TCB_CHECK_EXEC_SYSCALL (drop_flag TCB_HIDE_LOG t) else t
      else t)"

definition print_call :: "decoders \<Rightarrow> session \<Rightarrow> u32 \<times> session" where
  "print_call dc s =
     (let t = cur_tcb s
      in case (if raw t then printargs t else sys_func_of dc (tcp_sysent t) t) of (res, aux, xs) \<Rightarrow>
           (res, print_out xs (upd_cur (\<lambda>t. t\<lparr>auxstr := aux\<rparr>) s)))"

definition syscall_entering_trace ::
    "'d config \<Rightarrow> globals \<Rightarrow> options \<Rightarrow> decoders \<Rightarrow> kernel \<Rightarrow> clock \<Rightarrow> u32 \<Rightarrow> session \<Rightarrow> (int \<times> u32 \<times> session) outcome" where
  "syscall_entering_trace cfg g opt dc k c signo s =
     (let s = upd_cur hidden_log_step s; t = cur_tcb s
      in if hide_log t \<or> \<not> traced t \<or> (tracing_paths opt \<or> tracing_fds g) \<and> \<not> pathtrace_match dc t
         then Inr (0, signo, upd_cur (raise_flag TCB_FILTERED) s)
         else
           let s = upd_cur (drop_flag TCB_FILTERED) s
           in obind (if inject (cur_tcb s)
                     then obind (tamper_with_syscall_entering cfg g k c signo (tam s))
                            (\<lambda>(signo, w). Inr (signo, s\<lparr>tam := w\<rparr>))
                     else Inr (signo, s))
                (\<lambda>(signo, s).
                   if cflag opt = CFLAG_ONLY_STATS then Inr (0, signo, s)
                   else
                     let s = (if status_filtering g then upd_cur strace_open_memstream s else s);
                         s = print_out [Out_syscall (cur_name s)] (printleader s)
                     in case print_call dc s of (res, s) \<Rightarrow> Inr (sint res, signo, s)))"

definition syscall_entering_finish :: "options \<Rightarrow> clock \<Rightarrow> int \<Rightarrow> session \<Rightarrow> session" where
  "syscall_entering_finish opt c res s =
     (let s = upd_cur (\<lambda>t. (raise_flag TCB_INSYSCALL t)\<lparr>sys_func_rval := word_of_int res\<rparr>) s;
          s = (if (Tflag opt \<or> cflag opt \<noteq> CFLAG_NONE) \<and> \<not> filtered (cur_tcb s)
               then upd_cur (\<lambda>t. t\<lparr>etime := c_now c\<rparr>) s else s)
      in if cflag opt \<noteq> CFLAG_NONE then upd_cur (\<lambda>t. t\<lparr>ltime := stime t\<rparr>) s else s)"

section \<open>Exiting\<close>

definition PR_SET_NAME :: u64 where "PR_SET_NAME = 15"

definition maybe_load_task_comm :: "globals \<Rightarrow> session \<Rightarrow> session" where
  "maybe_load_task_comm g s =
     (if is_number_in_set DECODE_PID_COMM (decode_pid_set g) then s\<lparr>comm_loads := comm_loads s @ [pid (cur_tcb s)]\<rparr> else s)"

definition syscall_exiting_decode ::
    "'d config \<Rightarrow> globals \<Rightarrow> options \<Rightarrow> kernel \<Rightarrow> clock \<Rightarrow> session \<Rightarrow> (int \<times> timespec \<times> session) outcome" where
  "syscall_exiting_decode cfg g opt k c s =
     (let t = cur_tcb s;
          ts = (if (Tflag opt \<or> cflag opt \<noteq> CFLAG_NONE) \<and> \<not> filtered t then c_now c else zero_ts);
          s = (if sys_flags (tcp_sysent t) AND MEMORY_MAPPING_CHANGE \<noteq> 0
               then s\<lparr>mmaps := mmap_notify_report (mmaps s)\<rparr> else s);
          s = (if sys_flags (tcp_sysent t) AND COMM_CHANGE \<noteq> 0 \<and> \<not> syserror t
                  \<and> (sen (tcp_sysent t) \<noteq> ''prctl'' \<or> u_arg t ! 0 = PR_SET_NAME)
               then maybe_load_task_comm g s else s)
      in if filtered t then Inr (0, ts, s)
         else
           let s = (if check_exec_syscall t then upd_cur (raise_flag TCB_HIDE_LOG) s else s)
           in obind (update_personality cfg g (currpers (cur_tcb s)) (tr (tam s)))
                (\<lambda>st. obind (on_tracer (get_syscall_result cfg g (ptrace_get_syscall_info_supported opt) k)
                              (upd_tracer (\<lambda>_. st) s))
                        (\<lambda>(res, s). Inr (res, ts, s))))"

definition print_syscall_resume :: "options \<Rightarrow> session \<Rightarrow> session" where
  "print_syscall_resume opt s =
     (let t = cur_tcb s;
          s = (if \<not> output_separately opt \<and> printing_tcp s \<noteq> Some (pid t) \<and> staged_output_data t = None
                  \<or> has t TCB_REPRINT
               then print_out [Out_resumed (cur_name s)] (printleader (upd_cur (drop_flag TCB_REPRINT) s))
               else s)
      in s\<lparr>printing_tcp := Some (pid t)\<rparr>)"

definition print_injected_note :: "tcb \<Rightarrow> out list" where
  "print_injected_note t =
     (if syscall_tampered t \<and> syscall_tampered_poked t then [Out_note ''INJECTED: args, retval'']
      else if syscall_tampered_poked t then [Out_note ''INJECTED: args'']
      else if syscall_tampered t then [Out_note ''INJECTED'']
      else [])
     @ (if syscall_tampered_delayed t then [Out_note ''DELAYED''] else [])"

definition RVAL_UDECIMAL :: u32 where "RVAL_UDECIMAL = 0"
definition RVAL_HEX :: u32 where "RVAL_HEX = 1"
definition RVAL_OCTAL :: u32 where "RVAL_OCTAL = 2"
definition RVAL_FD :: u32 where "RVAL_FD = 8"
definition RVAL_TID :: u32 where "RVAL_TID = 9"
definition RVAL_PGID :: u32 where "RVAL_PGID = 12"
definition RVAL_MASK :: u32 where "RVAL_MASK = 15"
definition RVAL_STR :: u32 where "RVAL_STR = 16"
definition RVAL_NONE :: u32 where "RVAL_NONE = 32"
definition RVAL_DECODED :: u32 where "RVAL_DECODED = 64"

definition ERESTARTSYS :: u64 where "ERESTARTSYS = 512"
definition ERESTARTNOINTR :: u64 where "ERESTARTNOINTR = 513"
definition ERESTARTNOHAND :: u64 where "ERESTARTNOHAND = 514"
definition ERESTART_RESTARTBLOCK :: u64 where "ERESTART_RESTARTBLOCK = 516"

definition is_erestart :: "tcb \<Rightarrow> bool" where
  "is_erestart t \<longleftrightarrow> u_error t \<in> set [ERESTARTSYS, ERESTARTNOINTR, ERESTARTNOHAND, ERESTART_RESTARTBLOCK]"

text \<open>\<open>print_erestart\<close> with its short text, \<open>print_err_ret\<close> with return value and error.\<close>

definition print_error :: "tcb \<Rightarrow> out list" where
  "print_error t =
     (if u_error t = ERESTARTSYS then [Out_erestart ''ERESTARTSYS'']
      else if u_error t = ERESTARTNOINTR then [Out_erestart ''ERESTARTNOINTR'']
      else if u_error t = ERESTARTNOHAND then [Out_erestart ''ERESTARTNOHAND'']
      else if u_error t = ERESTART_RESTARTBLOCK then [Out_erestart ''ERESTART_RESTARTBLOCK'']
      else [Out_error (u_rval t) (u_error t)])"

text \<open>The return value in the format that the printer asked for, and whether the format is known.\<close>

definition print_rval :: "nat \<Rightarrow> u32 \<Rightarrow> tcb \<Rightarrow> out list \<times> bool" where
  "print_rval klongsize sys_res t =
     (let f = sys_res AND RVAL_MASK; short = klongsize < 8; v = u_rval t; w = (if short then low32 v else v)
      in if sys_res AND RVAL_NONE \<noteq> 0 then ([Out_pseudo_rval], True)
         else if f = RVAL_HEX then ([Out_hex w], True)
         else if f = RVAL_OCTAL then ([Out_octal w], True)
         else if f = RVAL_UDECIMAL then ([Out_udecimal w], True)
         else if f = RVAL_FD then ([if short \<or> v \<le> 0x7fffffff then Out_fd v else Out_decimal v], True)
         else if RVAL_TID \<le> f \<and> f \<le> RVAL_PGID then ([Out_pid (unat (f - RVAL_TID)) v], True)
         else ([Out_pseudo_rval], False))"

definition dump_write_sens :: "(string \<times> string) list" where
  "dump_write_sens = [(''write'', ''dumpstr''), (''pwrite'', ''dumpstr''), (''send'', ''dumpstr''), (''sendto'', ''dumpstr''),
     (''mq_timedsend_time32'', ''dumpstr''), (''mq_timedsend_time64'', ''dumpstr''),
     (''writev'', ''dumpiov_upto''), (''pwritev'', ''dumpiov_upto''), (''pwritev2'', ''dumpiov_upto''),
     (''vmsplice'', ''dumpiov_upto''), (''sendmsg'', ''dumpiov_in_msghdr''), (''sendmmsg'', ''dumpiov_in_mmsghdr'')]"

definition dump_read_sens :: "(string \<times> string) list" where
  "dump_read_sens = [(''read'', ''dumpstr''), (''pread'', ''dumpstr''), (''recv'', ''dumpstr''), (''recvfrom'', ''dumpstr''),
     (''mq_timedreceive_time32'', ''dumpstr''), (''mq_timedreceive_time64'', ''dumpstr''),
     (''readv'', ''dumpiov_upto''), (''preadv'', ''dumpiov_upto''), (''preadv2'', ''dumpiov_upto''),
     (''recvmsg'', ''dumpiov_in_msghdr''), (''recvmmsg'', ''dumpiov_in_mmsghdr''),
     (''recvmmsg_time32'', ''dumpiov_in_mmsghdr''), (''recvmmsg_time64'', ''dumpiov_in_mmsghdr'')]"

text \<open>One dump: the function and the arguments after the process.\<close>

definition dump_call :: "u64 \<Rightarrow> u64 \<Rightarrow> tcb \<Rightarrow> string \<Rightarrow> out" where
  "dump_call str_len data_size t f =
     (if f = ''dumpstr'' then Out_dump f [u_arg t ! 1, str_len]
      else if f = ''dumpiov_upto'' then Out_dump f [u_arg t ! 2, u_arg t ! 1, data_size]
      else if f = ''dumpiov_in_msghdr'' then Out_dump f [u_arg t ! 1, data_size]
      else Out_dump f [u_arg t ! 1])"

definition dumpio :: "globals \<Rightarrow> tcb \<Rightarrow> out list" where
  "dumpio g t =
     (let fd = sint (ucast (u_arg t ! 0) :: u32); sn = sen (tcp_sysent t)
      in if fd < 0 then []
         else
           (if is_number_in_set (nat fd) (write_set g) then
              (case map_of dump_write_sens sn of None \<Rightarrow> [] | Some f \<Rightarrow> [dump_call (u_arg t ! 2) (-1) t f]) else [])
           @ (if \<not> syserror t \<and> is_number_in_set (nat fd) (read_set g) then
                (case map_of dump_read_sens sn of None \<Rightarrow> [] | Some f \<Rightarrow> [dump_call (u_rval t) (u_rval t) t f]) else []))"

definition count_call :: "'d config \<Rightarrow> options \<Rightarrow> timespec \<Rightarrow> session \<Rightarrow> session outcome" where
  "count_call cfg opt ts s =
     (case count_syscall cfg (cur_pers s) (count_wallclock opt) (cur_tcb s) ts (cnt s) of
        None \<Rightarrow> Inl (Undefined_behaviour ''scall_array[tcp->scno]'')
      | Some st \<Rightarrow> Inr (s\<lparr>cnt := st\<rparr>))"

text \<open>The exit of a call whose registers could not be read.\<close>

definition exiting_unavailable :: "'d config \<Rightarrow> globals \<Rightarrow> options \<Rightarrow> timespec \<Rightarrow> int \<Rightarrow> session \<Rightarrow> (int \<times> session) outcome" where
  "exiting_unavailable cfg g opt ts res s =
     (let publish = (if status_filtering g then is_number_in_set STATUS_UNAVAILABLE (status_set g) else True)
      in obind (if cflag opt \<noteq> CFLAG_NONE \<and> publish then count_call cfg opt ts s else Inr s)
           (\<lambda>s. Inr (res,
              if cflag opt = CFLAG_ONLY_STATS then s
              else let s = print_out [Out_unavailable, Out_newline] s;
                       s = (if status_filtering g then upd_cur (strace_close_memstream publish) s else s)
                   in line_ended s)))"

text \<open>The line after the arguments: result, notes, time and dumps.\<close>

definition print_result :: "globals \<Rightarrow> options \<Rightarrow> timespec \<Rightarrow> u32 \<Rightarrow> session \<Rightarrow> session" where
  "print_result g opt ts sys_res s =
     (let t = cur_tcb s;
          ret = (if raw t then (if u_error t \<noteq> 0 then [Out_error (u_rval t) (u_error t)] else [Out_hex (u_rval t)], True)
                 else if sys_res AND RVAL_NONE = 0 \<and> u_error t \<noteq> 0 then (print_error t, True)
                 else print_rval (personality_klongsize (cur_pers s)) sys_res t);
          s = (if snd ret then s else upd_tracer (error_msg ''invalid rval format'') s);
          xs = fst ret
            @ (case auxstr t of Some a \<Rightarrow> if sys_res AND RVAL_STR \<noteq> 0 then [Out_retstr a] else [] | None \<Rightarrow> [])
            @ print_injected_note t
            @ (if Tflag opt then [Out_time (ts_sub ts (etime t))] else [])
            @ [Out_newline] @ dumpio g t
      in line_ended (print_out xs s))"

definition exit_publishes :: "globals \<Rightarrow> tcb \<Rightarrow> bool" where
  "exit_publishes g t \<longleftrightarrow>
     (syserror t \<and> is_number_in_set STATUS_FAILED (status_set g))
     \<or> (\<not> syserror t \<and> is_number_in_set STATUS_SUCCESSFUL (status_set g))"

text \<open>The printer at the exit of the call, unless it was done at the entry or is switched off.\<close>

definition exit_decode_args :: "options \<Rightarrow> decoders \<Rightarrow> session \<Rightarrow> u32 \<times> session" where
  "exit_decode_args opt dc s =
     (if cflag opt = CFLAG_ONLY_STATS \<or> raw (cur_tcb s) then (0, s)
      else if sys_func_rval (cur_tcb s) AND RVAL_DECODED \<noteq> 0 then (sys_func_rval (cur_tcb s), s)
      else print_call dc s)"

text \<open>Whether the status is to be shown; if so, the call is counted and its result printed.\<close>

definition exiting_publish ::
    "'d config \<Rightarrow> globals \<Rightarrow> options \<Rightarrow> timespec \<Rightarrow> u32 \<Rightarrow> session \<Rightarrow> (int \<times> session) outcome" where
  "exiting_publish cfg g opt ts sys_res s =
     (let publish = (\<not> status_filtering g \<or> exit_publishes g (cur_tcb s));
          s = (if status_filtering g \<and> cflag opt \<noteq> CFLAG_ONLY_STATS
               then upd_cur (strace_close_memstream publish) s else s)
      in if \<not> publish then Inr (0, if cflag opt \<noteq> CFLAG_ONLY_STATS then line_ended s else s)
         else
           let s = (if syscall_limit s \<noteq> -1 then s\<lparr>syscall_limit := syscall_limit s - 1\<rparr> else s)
           in obind (if cflag opt \<noteq> CFLAG_NONE then count_call cfg opt ts s else Inr s)
                (\<lambda>s. Inr (0, if cflag opt = CFLAG_ONLY_STATS then s else print_result g opt ts sys_res s)))"

definition syscall_exiting_trace ::
    "'d config \<Rightarrow> globals \<Rightarrow> options \<Rightarrow> decoders \<Rightarrow> kernel \<Rightarrow> clock \<Rightarrow> timespec \<Rightarrow> int \<Rightarrow> session \<Rightarrow> (int \<times> session) outcome" where
  "syscall_exiting_trace cfg g opt dc k c ts res s =
     obind (if syscall_tampered (cur_tcb s) \<or> inject_delay_exit (cur_tcb s) \<or> inject_poke_exit (cur_tcb s)
            then obind (tamper_with_syscall_exiting cfg g (ptrace_get_syscall_info_supported opt) k c (tam s))
                   (\<lambda>(_, w). Inr (s\<lparr>tam := w\<rparr>))
            else Inr s)
       (\<lambda>s.
          let s = (if cflag opt \<noteq> CFLAG_ONLY_STATS then print_syscall_resume opt s else s);
              t = cur_tcb s;
              prev_ent = (if sen (tcp_sysent t) = ''restart_syscall'' then s_prev_ent t else s_ent t);
              s = upd_cur (\<lambda>t. t\<lparr>s_prev_ent := None\<rparr>) s
          in if res \<noteq> 1 then exiting_unavailable cfg g opt ts res s
             else case exit_decode_args opt dc (upd_cur (\<lambda>t. t\<lparr>s_prev_ent := prev_ent\<rparr>) s) of (sys_res, s) \<Rightarrow>
               exiting_publish cfg g opt ts sys_res s)"

text \<open>The flags of one call end with it, and so does a made-up table entry.\<close>

definition EXIT_CLEARED :: u32 where
  "EXIT_CLEARED = TCB_INSYSCALL OR TCB_TAMPERED OR TCB_INJECT_DELAY_EXIT OR TCB_INJECT_POKE_EXIT
     OR TCB_TAMPERED_DELAYED OR TCB_TAMPERED_POKED"

definition free_tcb_priv_data :: "tcb \<Rightarrow> tcb" where
  "free_tcb_priv_data t = (if priv_sysent t then t\<lparr>s_prev_ent := None, s_ent := None, priv_sysent := False\<rparr> else t)"

definition syscall_exiting_finish :: "options \<Rightarrow> session \<Rightarrow> session" where
  "syscall_exiting_finish opt s =
     (let s = upd_cur (\<lambda>t. free_tcb_priv_data ((drop_flag EXIT_CLEARED t)\<lparr>sys_func_rval := 0\<rparr>)) s
      in if cflag opt \<noteq> CFLAG_NONE then upd_cur (\<lambda>t. t\<lparr>ltime := stime t\<rparr>) s else s)"

section \<open>One stop of a system call\<close>

definition trace_syscall ::
    "'d config \<Rightarrow> globals \<Rightarrow> options \<Rightarrow> decoders \<Rightarrow> kernel \<Rightarrow> clock \<Rightarrow> u32 \<Rightarrow> session \<Rightarrow> (int \<times> u32 \<times> session) outcome" where
  "trace_syscall cfg g opt dc k c signo s =
     (if entering (cur_tcb s) then
        obind (syscall_entering_decode cfg g opt dc k s)
          (\<lambda>(res, s).
             if res = 0 then Inr (0, signo, s)
             else obind (if res = 1 then syscall_entering_trace cfg g opt dc k c signo s else Inr (res, signo, s))
                    (\<lambda>(res, signo, s). Inr (res, signo, syscall_entering_finish opt c res s)))
      else
        obind (syscall_exiting_decode cfg g opt k c s)
          (\<lambda>(res, ts, s).
             obind (if res \<noteq> 0 then syscall_exiting_trace cfg g opt dc k c ts res s else Inr (res, s))
               (\<lambda>(res, s). Inr (res, signo, syscall_exiting_finish opt s))))"

section \<open>Frame of the register operations\<close>

text \<open>What reading registers leaves alone, and the personality the tracer is set to.\<close>

definition keeps :: "tcb \<Rightarrow> tcb \<Rightarrow> bool" where
  "keeps t t' \<longleftrightarrow> tcb_flags t' = tcb_flags t \<and> tcb_inject_vec t' = tcb_inject_vec t"

definition tracer_ok :: "'d config \<Rightarrow> tracer \<Rightarrow> bool" where
  "tracer_ok cfg st \<longleftrightarrow> currpers (tcp st) = current_personality st \<and> current_personality st < SUPPORTED_PERSONALITIES cfg
     \<and> length (sci_args (ptrace_sci st)) = MAX_ARGS \<and> length (r_args (regs st)) = MAX_ARGS"

text \<open>The arrays of the kernel interface have their declared size.\<close>

definition kernel_ok :: "kernel \<Rightarrow> bool" where
  "kernel_ok k \<longleftrightarrow> (case k_syscall_info k of None \<Rightarrow> True | Some sci \<Rightarrow> length (sci_args sci) = MAX_ARGS)
     \<and> (case k_getregset k of None \<Rightarrow> True | Some r \<Rightarrow> length (r_args r) = MAX_ARGS)
     \<and> (case k_getregs k of None \<Rightarrow> True | Some r \<Rightarrow> length (r_args r) = MAX_ARGS)"

lemma keeps_refl [simp]: "keeps t t" by (simp add: keeps_def)

lemma keeps_trans: "keeps a b \<Longrightarrow> keeps b c \<Longrightarrow> keeps a c" by (simp add: keeps_def)

lemma update_personality_ok:
  assumes "p < SUPPORTED_PERSONALITIES cfg" "length (sci_args (ptrace_sci st)) = MAX_ARGS" "length (r_args (regs st)) = MAX_ARGS"
  shows "\<exists>st'. update_personality cfg g p st = Inr st' \<and> keeps (tcp st) (tcp st') \<and> tracer_ok cfg st'
    \<and> current_personality st' = p \<and> scno (tcp st') = scno (tcp st) \<and> s_ent (tcp st') = s_ent (tcp st)
    \<and> ptrace_sci st' = ptrace_sci st \<and> regs st' = regs st"
  using assms
  by (auto simp: update_personality_def set_personality_def Let_def upd_tcp_def error_msg_def tprint_def keeps_def tracer_ok_def)

text \<open>The same personality again changes nothing.\<close>

lemma update_personality_same:
  "tracer_ok cfg st \<Longrightarrow> update_personality cfg g (currpers (tcp st)) st = Inr st"
  by (simp add: update_personality_def set_personality_def tracer_ok_def)

lemma personality_range: "nat (get_personality_from_syscall_info sci) < 3"
  by (simp add: get_personality_from_syscall_info_def Let_def)

lemma get_syscall_info_ok:
  assumes "3 \<le> SUPPORTED_PERSONALITIES cfg" "kernel_ok k" "tracer_ok cfg st"
  shows "\<exists>ok st'. strace_get_syscall_info cfg g k st = Inr (ok, st') \<and> keeps (tcp st) (tcp st') \<and> tracer_ok cfg st'
    \<and> scno (tcp st') = scno (tcp st) \<and> s_ent (tcp st') = s_ent (tcp st)
    \<and> (ok \<or> get_regs_error st' = -2)"
proof -
  have up: "\<exists>st'. update_personality cfg g (nat (get_personality_from_syscall_info sci)) (st\<lparr>ptrace_sci := sci\<rparr>) = Inr st'
    \<and> keeps (tcp st) (tcp st') \<and> tracer_ok cfg st' \<and> scno (tcp st') = scno (tcp st) \<and> s_ent (tcp st') = s_ent (tcp st)"
    if "k_syscall_info k = Some sci" for sci
    using update_personality_ok [of "nat (get_personality_from_syscall_info sci)" cfg "st\<lparr>ptrace_sci := sci\<rparr>" g]
      personality_range [of sci] assms that by (auto simp: kernel_ok_def tracer_ok_def)
  show ?thesis
  proof (cases "sci_op (ptrace_sci st) = 0xff \<and> k_syscall_info k \<noteq> None")
    case True
    then obtain sci where sci: "k_syscall_info k = Some sci" by blast
    obtain st' where st': "update_personality cfg g (nat (get_personality_from_syscall_info sci)) (st\<lparr>ptrace_sci := sci\<rparr>) = Inr st'"
      "keeps (tcp st) (tcp st')" "tracer_ok cfg st'" "scno (tcp st') = scno (tcp st)" "s_ent (tcp st') = s_ent (tcp st)"
      using up [OF sci] by blast
    with True sci assms(2,3) show ?thesis
      by (auto simp: strace_get_syscall_info_def Let_def error_msg_def tracer_ok_def keeps_def kernel_ok_def)
  next
    case False
    with assms(3) show ?thesis
      by (auto simp: strace_get_syscall_info_def error_msg_def tracer_ok_def keeps_def split: option.splits)
  qed
qed

lemma get_regs_frame:
  "get_regs k st = (r, st') \<Longrightarrow> tcp st' = tcp st \<and> current_personality st' = current_personality st"
  by (auto simp: get_regs_def getregset_def getregs_old_def Let_def split: if_splits option.splits)

lemma get_regs_ok:
  "get_regs k st = (r, st') \<Longrightarrow> kernel_ok k \<Longrightarrow> tracer_ok cfg st \<Longrightarrow> tracer_ok cfg st'"
  by (auto simp: get_regs_def getregset_def getregs_old_def Let_def tracer_ok_def kernel_ok_def
      split: if_splits option.splits)

lemma get_syscall_regs_ok:
  assumes "3 \<le> SUPPORTED_PERSONALITIES cfg" "kernel_ok k" "tracer_ok cfg st"
  shows "\<exists>r st'. get_syscall_regs cfg g supported k st = Inr (r, st') \<and> keeps (tcp st) (tcp st') \<and> tracer_ok cfg st'
    \<and> scno (tcp st') = scno (tcp st) \<and> s_ent (tcp st') = s_ent (tcp st)"
proof -
  obtain r st' where r: "get_regs k st = (r, st')" by fastforce
  show ?thesis
    using get_syscall_info_ok [OF assms, of g] get_regs_frame [OF r] get_regs_ok [OF r assms(2,3)] r assms(3)
    by (auto simp: get_syscall_regs_def)
qed

text \<open>Which table entries can be current, and that the subcalls of a table are complete.\<close>

definition entry_ok :: "'d config \<Rightarrow> nat \<Rightarrow> tcb \<Rightarrow> bool" where
  "entry_ok cfg p t \<longleftrightarrow> sen (tcp_sysent t) = ''printargs'' \<or> tcp_sysent t \<in> set (sysent_vec cfg ! p)"

definition subcalls_ok :: "'d config \<Rightarrow> bool" where
  "subcalls_ok cfg \<longleftrightarrow> (\<forall>p < SUPPORTED_PERSONALITIES cfg. \<forall>e \<in> set (sysent_vec cfg ! p).
     sen e \<in> set [''ipc'', ''socketcall''] \<longrightarrow>
       SYS_ipc_subcall + 24 < nsyscall_vec cfg p
       \<and> (\<forall>n \<in> set [1..<25]. nargs (sysent_vec cfg ! p ! (SYS_ipc_subcall + n)) < MAX_ARGS))"

lemma update_scno_ok [simp]: "tracer_ok cfg (upd_tcp (\<lambda>t. t\<lparr>scno := n\<rparr>) st) = tracer_ok cfg st"
  by (simp add: tracer_ok_def upd_tcp_def)

lemma select_sysent_ok:
  assumes "tracer_ok cfg st"
  shows "keeps (tcp st) (tcp (select_sysent cfg g st)) \<and> tracer_ok cfg (select_sysent cfg g st)
    \<and> entry_ok cfg (current_personality (select_sysent cfg g st)) (tcp (select_sysent cfg g st))"
  using assms
  by (auto simp: select_sysent_def Let_def upd_tcp_def keeps_def tracer_ok_def entry_ok_def tcp_sysent_def
      scno_pers_is_valid_def scno_pers_in_range_def nsyscall_vec_def stub_sysent_def)

lemma get_scno_ok:
  assumes "3 \<le> SUPPORTED_PERSONALITIES cfg" "kernel_ok k" "tracer_ok cfg st"
  shows "\<exists>r st'. get_scno cfg g supported k st = Inr (r, st') \<and> keeps (tcp st) (tcp st') \<and> tracer_ok cfg st'
    \<and> (r = 1 \<and> entry_ok cfg (current_personality st') (tcp st') \<or> r = -1)"
proof -
  let ?st = "upd_tcp (\<lambda>t. t\<lparr>scno := -1, s_ent := None, qual_flg := QUAL_RAW OR DEFAULT_QUAL_FLAGS\<rparr>) st"
  have "tracer_ok cfg ?st" using assms(3) by (simp add: tracer_ok_def upd_tcp_def)
  from get_syscall_regs_ok [OF assms(1,2) this, of g supported] obtain r st1 where
    st1: "get_syscall_regs cfg g supported k ?st = Inr (r, st1)" "keeps (tcp st) (tcp st1)" "tracer_ok cfg st1"
    by (auto simp: upd_tcp_def keeps_def)
  have "\<exists>st2. (if ptrace_syscall_info_is_valid supported st1
              then Inr (1, upd_tcp (\<lambda>t. t\<lparr>scno := sci_nr (ptrace_sci st1)\<rparr>) st1)
              else arch_get_scno cfg g st1) = Inr (1 :: int, st2) \<and> keeps (tcp st) (tcp st2) \<and> tracer_ok cfg st2"
  proof (cases "ptrace_syscall_info_is_valid supported st1")
    case True
    with st1 show ?thesis by (simp add: keeps_def upd_tcp_def tracer_ok_def)
  next
    case False
    have "fst (regs_scno (regs st1)) < SUPPORTED_PERSONALITIES cfg" using assms(1) by (simp add: regs_scno_def)
    from update_personality_ok [OF this, of st1 g] st1(2,3) False show ?thesis
      by (auto simp: arch_get_scno_def tracer_ok_def keeps_def upd_tcp_def split: prod.splits)
  qed
  then obtain st2 where st2: "(if ptrace_syscall_info_is_valid supported st1
              then Inr (1, upd_tcp (\<lambda>t. t\<lparr>scno := sci_nr (ptrace_sci st1)\<rparr>) st1)
              else arch_get_scno cfg g st1) = Inr (1 :: int, st2)" "keeps (tcp st) (tcp st2)" "tracer_ok cfg st2" by (elim exE conjE) (rule that)
  show ?thesis
  proof (cases "r < 0")
    case True
    with st1 show ?thesis by (simp add: get_scno_def)
  next
    case False
    with st1 st2 select_sysent_ok [OF st2(3), of g] show ?thesis
      by (auto simp: get_scno_def keeps_def)
  qed
qed

lemma get_syscall_args_ok:
  assumes "tracer_ok cfg st" "get_syscall_args supported st = (r, st')"
  shows "r = 1" "keeps (tcp st) (tcp st')" "tracer_ok cfg st'" "current_personality st' = current_personality st"
    "s_ent (tcp st') = s_ent (tcp st)" "length (u_arg (tcp st')) = MAX_ARGS"
  using assms
  by (auto simp: get_syscall_args_def arch_get_syscall_args_def keeps_def tracer_ok_def upd_tcp_def split: if_splits)

lemma decode_subcall_ok:
  assumes "subcalls_ok cfg" "p < SUPPORTED_PERSONALITIES cfg" "entry_ok cfg p t" "length (u_arg t) = MAX_ARGS"
  shows "\<exists>t'. decode_subcall cfg g dc p t = Inr t' \<and> keeps t t' \<and> currpers t' = currpers t"
proof (cases "sen (tcp_sysent t) \<in> set [''ipc'', ''socketcall'']")
  case True
  then have "tcp_sysent t \<in> set (sysent_vec cfg ! p)" using assms(3) by (auto simp: entry_ok_def)
  then have tab: "SYS_ipc_subcall + 24 < nsyscall_vec cfg p"
    "n \<in> set [1..<25] \<Longrightarrow> nargs (sysent_vec cfg ! p ! (SYS_ipc_subcall + n)) < MAX_ARGS" for n
    using assms(1,2) True unfolding subcalls_ok_def by blast+
  let ?c = "ucast (u_arg t ! 0) :: u32"
  have "\<exists>t'. decode_socket_subcall cfg g dc p t = Inr t' \<and> keeps t t' \<and> currpers t' = currpers t"
    using tab(1)
    by (auto simp: decode_socket_subcall_def Let_def become_def keeps_def SYS_ipc_subcall_def SYS_socket_subcall_def
        SYS_socket_nsubcalls_def split: option.splits)
  moreover have "\<exists>t'. decode_ipc_subcall cfg g p t = Inr t' \<and> keeps t t' \<and> currpers t' = currpers t"
  proof -
    define n where "n = unat (if drop_bit 16 ?c \<noteq> 0 then ?c AND 0xffff else ?c)"
    show ?thesis
    proof (cases "n \<in> set [1, 2, 3, 4, 11, 12, 13, 14, 21, 22, 23, 24]")
      case True
      then have "n \<in> set [1..<25]" "n \<le> 24" by auto
      with tab(1) tab(2) [of n] assms(4) True show ?thesis
        by (simp add: decode_ipc_subcall_def Let_def become_def keeps_def n_args_def tcp_sysent_def flip: n_def)
    next
      case False
      then show ?thesis by (simp add: decode_ipc_subcall_def Let_def flip: n_def)
    qed
  qed
  ultimately show ?thesis using True by (auto simp: decode_subcall_def)
qed (simp add: decode_subcall_def)

lemmas session_defs = upd_cur_def upd_tracer_def print_out_def printleader_def line_ended_def
  upd_tcb_def upd_tr_def upd_tcp_def

text \<open>What a handler leaves alone besides the current process.\<close>

definition rest_same :: "session \<Rightarrow> session \<Rightarrow> bool" where
  "rest_same s s' \<longleftrightarrow> cnt s' = cnt s \<and> mmaps s' = mmaps s \<and> syscall_limit s' = syscall_limit s"

lemma tracer_ok_cong:
  "currpers (tcp st') = currpers (tcp st) \<Longrightarrow> current_personality st' = current_personality st \<Longrightarrow>
   ptrace_sci st' = ptrace_sci st \<Longrightarrow> regs st' = regs st \<Longrightarrow> tracer_ok cfg st' = tracer_ok cfg st"
  by (simp add: tracer_ok_def)

lemma entering_decode_ok:
  assumes "3 \<le> SUPPORTED_PERSONALITIES cfg" "subcalls_ok cfg" "kernel_ok k" "tracer_ok cfg (tr (tam s))"
  shows "\<exists>r s'. syscall_entering_decode cfg g opt dc k s = Inr (r, s') \<and> (r = 1 \<or> r = -1)
    \<and> keeps (cur_tcb s) (cur_tcb s') \<and> tracer_ok cfg (tr (tam s')) \<and> rest_same s s'"
proof -
  let ?sup = "ptrace_get_syscall_info_supported opt"
  obtain r st where st: "get_scno cfg g ?sup k (tr (tam s)) = Inr (r, st)" "keeps (cur_tcb s) (tcp st)" "tracer_ok cfg st"
    "r = 1 \<and> entry_ok cfg (current_personality st) (tcp st) \<or> r = -1"
    using get_scno_ok [OF assms(1,3,4)] by blast
  show ?thesis
  proof (cases "r = 1")
    case True
    obtain r2 st2 where a: "get_syscall_args ?sup st = (r2, st2)" by fastforce
    note args = get_syscall_args_ok [OF st(3) a]
    have p: "current_personality st2 < SUPPORTED_PERSONALITIES cfg" using args(3) by (simp add: tracer_ok_def)
    have "entry_ok cfg (current_personality st2) (tcp st2)"
      using st(4) True args by (simp add: entry_ok_def tcp_sysent_def)
    from decode_subcall_ok [OF assms(2) p this args(6), of g dc] obtain t' where
      t': "decode_subcall cfg g dc (current_personality st2) (tcp st2) = Inr t'" "keeps (tcp st2) t'"
        "currpers t' = currpers (tcp st2)" by blast
    have "tracer_ok cfg (st2\<lparr>tcp := t'\<rparr>)" using args(3) t'(3) by (simp add: tracer_ok_def)
    with True st(1,2) a args(1,2) t'(1,2) show ?thesis
      by (auto simp: syscall_entering_decode_def on_tracer_def session_defs rest_same_def keeps_def)
  next
    case False
    with st show ?thesis
      by (auto simp: syscall_entering_decode_def on_tracer_def session_defs rest_same_def keeps_def tprint_def tracer_ok_def)
  qed
qed

section \<open>Frame of tampering\<close>

text \<open>
  Tampering writes to the tracee and raises flags; it neither lowers a flag nor prints, and
  leaves alone what the process is doing.
\<close>

definition frame :: "tampering \<Rightarrow> tampering \<Rightarrow> bool" where
  "frame w w' \<longleftrightarrow> (\<forall>f. has (the_tcb w) f \<longrightarrow> has (the_tcb w') f)
     \<and> (has (the_tcb w') TCB_INSYSCALL \<longleftrightarrow> has (the_tcb w) TCB_INSYSCALL)
     \<and> pid (the_tcb w') = pid (the_tcb w)
     \<and> currpers (the_tcb w') = currpers (the_tcb w) \<and> current_personality (tr w') = current_personality (tr w)
     \<and> ptrace_sci (tr w') = ptrace_sci (tr w) \<and> r_args (regs (tr w')) = r_args (regs (tr w))
     \<and> s_ent (the_tcb w') = s_ent (the_tcb w) \<and> outf (the_tcb w') = outf (the_tcb w)
     \<and> staged_output_data (the_tcb w') = staged_output_data (the_tcb w)"

lemma frame_refl [simp]: "frame w w" by (simp add: frame_def)

lemma frame_trans: "frame a b \<Longrightarrow> frame b c \<Longrightarrow> frame a c" by (simp add: frame_def)

lemma raise_flag_frame:
  "TCB_INSYSCALL AND f = 0 \<Longrightarrow> frame w (upd_tcb (raise_flag f) w)"
  by (auto simp: frame_def upd_defs and.commute) (simp_all add: raise_flag_def)

lemma error_msg_frame: "frame w (upd_tr (error_msg m) w)"
  by (simp add: frame_def upd_defs)

lemma poke_loop_frame: "poke_loop c isenter is poked w = (r, w') \<Longrightarrow> frame w w'"
proof (induction "is" arbitrary: poked w)
  case (Cons i "is")
  have step: "frame w v \<Longrightarrow> poke_loop c isenter is b v = (r, w') \<Longrightarrow> frame w w'" for v b
    using Cons.IH frame_trans by blast
  have "frame w (w\<lparr>written := x\<rparr>)" for x by (simp add: frame_def)
  from step [OF this] step [OF error_msg_frame] step [OF frame_refl] show ?case
    using Cons.prems by (auto simp: Let_def split: if_splits)
qed simp

lemma poke_tcb_frame:
  assumes "poke_tcb g c idx isenter w = Inr w'"
  shows "frame w w'"
proof -
  obtain r v where l: "poke_loop c isenter (avec (inject_tables.pokes (g_tables g)) ! unat idx) False w = (r, v)"
    by fastforce
  have "frame v (upd_tcb (raise_flag TCB_TAMPERED_POKED) v)"
    by (rule raise_flag_frame) (simp add: tcb_flag_defs)
  with assms l poke_loop_frame [OF l] show ?thesis
    by (auto simp: poke_tcb_def Let_def split: if_splits intro: frame_trans)
qed

lemma delay_tcb_frame: "delay_tcb g c idx isenter w = Inr w' \<Longrightarrow> frame w w'"
proof -
  have f: "frame w (upd_tcb (\<lambda>t. (raise_flag TCB_TAMPERED_DELAYED (raise_flag TCB_DELAYED t))\<lparr>delay_expiration_time := x\<rparr>) w)" for x
    by (auto simp: frame_def upd_defs has_def raise_flag_def tcb_flag_defs bit.conj_disj_distrib2 or_eq_0_iff)
  assume "delay_tcb g c idx isenter w = Inr w'"
  with f show ?thesis
    by (auto simp: delay_tcb_def Let_def arm_delay_timer_def frame_def split: if_splits option.splits)
qed

lemma tamper_scno_frame: "frame w (tamper_scno cfg k d w)"
proof -
  have "frame w (w\<lparr>tr := tr w\<lparr>Syscall_Regs.pokes := x\<rparr>\<rparr>)" for x by (simp add: frame_def)
  then show ?thesis
    by (auto simp: tamper_scno_def arch_set_scno_def upoke_def Let_def tcb_flag_defs
        intro!: frame_trans [OF _ raise_flag_frame])
qed

lemma when_flag_frame:
  assumes "when_flag b f w = Inr w'" "\<And>v v'. f v = Inr v' \<Longrightarrow> frame v v'"
  shows "frame w w'"
  using assms by (cases b) (auto simp: when_flag_def)

lemma apply_injection_frame:
  assumes "apply_injection cfg g k c d signo w = Inr (signo', w')"
  shows "frame w w'"
proof -
  define w1 where "w1 = (if has_inj d (INJECT_F_ERROR OR INJECT_F_RETVAL) then tamper_scno cfg k d w else w)"
  from assms obtain w2 w4 where
    2: "when_flag (has_inj d INJECT_F_POKE_ENTER) (poke_tcb g c (poke_idx d) True) w1 = Inr w2"
    and 4: "when_flag (has_inj d INJECT_F_DELAY_ENTER) (delay_tcb g c (delay_idx d) True)
       (if has_inj d INJECT_F_POKE_EXIT then upd_tcb (raise_flag TCB_INJECT_POKE_EXIT) w2 else w2) = Inr w4"
    and w': "w' = (if has_inj d INJECT_F_DELAY_EXIT then upd_tcb (raise_flag TCB_INJECT_DELAY_EXIT) w4 else w4)"
    by (auto simp: apply_injection_def Let_def obind_eq_Inr w1_def)
  have "frame w w1" using tamper_scno_frame [of w cfg k d] by (simp add: w1_def)
  moreover have "frame w1 w2" using 2 poke_tcb_frame by (rule when_flag_frame)
  moreover have "frame w2 (if has_inj d INJECT_F_POKE_EXIT then upd_tcb (raise_flag TCB_INJECT_POKE_EXIT) w2 else w2)"
    using raise_flag_frame [of TCB_INJECT_POKE_EXIT w2] by (simp add: tcb_flag_defs)
  moreover have "frame (if has_inj d INJECT_F_POKE_EXIT then upd_tcb (raise_flag TCB_INJECT_POKE_EXIT) w2 else w2) w4"
    using 4 delay_tcb_frame by (rule when_flag_frame)
  moreover have "frame w4 w'"
    using raise_flag_frame [of TCB_INJECT_DELAY_EXIT w4] by (simp add: w' tcb_flag_defs)
  ultimately show ?thesis by (meson frame_trans)
qed

lemma count_invocation_frame:
  "count_invocation cfg g p (the_tcb w) = (act, t') \<Longrightarrow> frame w (upd_tcb (\<lambda>_. t') w)"
  by (auto simp: count_invocation_def Let_def copy_inject_vec_def put_inject_opts_def frame_def upd_defs has_def
      split: option.splits prod.splits if_splits)

lemma tamper_entering_frame:
  assumes "tamper_with_syscall_entering cfg g k c signo w = Inr (signo', w')"
  shows "frame w w'"
proof -
  obtain act t' where c: "count_invocation cfg g (current_personality (tr w)) (the_tcb w) = (act, t')" by fastforce
  show ?thesis
    using assms c count_invocation_frame [OF c] apply_injection_frame frame_trans
    by (auto simp: tamper_with_syscall_entering_def Let_def split: option.splits if_splits) blast
qed

lemma set_result_frame:
  "frame w (upd_tr (set_error supported k e) w)" "frame w (upd_tr (set_success supported k v) w)"
  by (auto simp: frame_def upd_defs set_error_def set_success_def arch_set_error_def arch_set_success_def upoke_def
      write_ax_def get_error_def arch_get_error_def Let_def has_def)

lemma tamper_exiting_cases:
  assumes "tamper_with_syscall_exiting cfg g supported k c w = Inr (r, w')"
    and "tcb_inject_opts cfg (current_personality (tr w)) (the_tcb w) = Some opts"
  obtains w1 w2 where
    "when_flag (inject_poke_exit (the_tcb w)) (poke_tcb g c (poke_idx (inj_data opts)) False) w = Inr w1"
    and "when_flag (inject_delay_exit (the_tcb w1)) (delay_tcb g c (delay_idx (inj_data opts)) False) w1 = Inr w2"
    and "w' = w2 \<or> (\<exists>m. w' = upd_tr (error_msg m) w2) \<or> (\<exists>v. w' = upd_tr (set_success supported k v) w2)
      \<or> (\<exists>v. w' = upd_tr (set_error supported k v) w2)"
  using assms by (simp add: tamper_with_syscall_exiting_def Let_def obind_eq_Inr split: if_splits) blast+

lemma tamper_exiting_frame:
  assumes "tamper_with_syscall_exiting cfg g supported k c w = Inr (r, w')"
  shows "frame w w'"
proof (cases "tcb_inject_opts cfg (current_personality (tr w)) (the_tcb w)")
  case None
  with assms show ?thesis by (simp add: tamper_with_syscall_exiting_def)
next
  case (Some opts)
  obtain w1 w2 where
    1: "when_flag (inject_poke_exit (the_tcb w)) (poke_tcb g c (poke_idx (inj_data opts)) False) w = Inr w1"
    and 2: "when_flag (inject_delay_exit (the_tcb w1)) (delay_tcb g c (delay_idx (inj_data opts)) False) w1 = Inr w2"
    and w': "w' = w2 \<or> (\<exists>m. w' = upd_tr (error_msg m) w2) \<or> (\<exists>v. w' = upd_tr (set_success supported k v) w2)
      \<or> (\<exists>v. w' = upd_tr (set_error supported k v) w2)"
    by (rule tamper_exiting_cases [OF assms Some])
  have "frame w w1" using 1 poke_tcb_frame by (rule when_flag_frame)
  moreover have "frame w1 w2" using 2 delay_tcb_frame by (rule when_flag_frame)
  moreover have "frame w2 w'" using w' set_result_frame error_msg_frame by auto
  ultimately show ?thesis by (meson frame_trans)
qed

section \<open>Between and within calls\<close>

lemma has_drop: "f AND x = 0 \<Longrightarrow> has (drop_flag f t) x = has t x" "x AND NOT f = 0 \<Longrightarrow> \<not> has (drop_flag f t) x"
proof -
  have d: "(tcb_flags t AND NOT f) AND x = tcb_flags t AND (x AND NOT f)"
    by (simp add: ac_simps)
  show "has (drop_flag f t) x = has t x" if "f AND x = 0"
  proof -
    have "x AND NOT f = x"
    proof (rule bit_word_eqI)
      fix n :: nat
      have "bit (f AND x) n = bit (0 :: u32) n" using that by simp
      then show "bit (x AND NOT f) n = bit x n" if "n < LENGTH(32)"
        using that by (auto simp: bit_and_iff bit_not_iff)
    qed
    then show ?thesis by (simp add: has_def drop_flag_def d)
  qed
  show "\<not> has (drop_flag f t) x" if "x AND NOT f = 0"
    using that by (simp add: has_def drop_flag_def d)
qed

lemma drop_flag_keeps [simp]:
  "tcb_inject_vec (drop_flag f t) = tcb_inject_vec t" "currpers (drop_flag f t) = currpers t"
  "scno (drop_flag f t) = scno t" "outf (drop_flag f t) = outf t" "qual_flg (drop_flag f t) = qual_flg t"
  "staged_output_data (drop_flag f t) = staged_output_data t" "s_ent (drop_flag f t) = s_ent t"
  by (simp_all add: drop_flag_def)

lemma raise_flag_keeps2 [simp]:
  "currpers (raise_flag f t) = currpers t" "outf (raise_flag f t) = outf t" "qual_flg (raise_flag f t) = qual_flg t"
  "staged_output_data (raise_flag f t) = staged_output_data t" "s_ent (raise_flag f t) = s_ent t"
  by (simp_all add: raise_flag_def)

text \<open>Changes of the control block that concern neither tampering nor the state of the call.\<close>

definition calm :: "tcb \<Rightarrow> tcb \<Rightarrow> bool" where
  "calm t t' \<longleftrightarrow> exit_flags t' = exit_flags t \<and> entering t' = entering t \<and> tcb_inject_vec t' = tcb_inject_vec t
     \<and> currpers t' = currpers t \<and> scno t' = scno t \<and> (syscall_tampered_nofail t \<longrightarrow> syscall_tampered_nofail t')"

lemma calm_refl [simp]: "calm t t" by (simp add: calm_def)
lemma calm_trans: "calm a b \<Longrightarrow> calm b c \<Longrightarrow> calm a c" by (simp add: calm_def)

lemmas calm_defs = calm_def exit_flags_def tcb_tests

lemma calm_flags:
  "calm t (raise_flag TCB_FILTERED t)" "calm t (drop_flag TCB_FILTERED t)" "calm t (raise_flag TCB_HIDE_LOG t)"
  "calm t (raise_flag TCB_CHECK_EXEC_SYSCALL t)" "calm t (drop_flag TCB_HIDE_LOG t)" "calm t (drop_flag TCB_REPRINT t)"
  by (simp_all add: calm_defs tcb_flag_defs has_drop)

lemma calm_members:
  "calm t (t\<lparr>qual_flg := q\<rparr>)" "calm t (t\<lparr>auxstr := a\<rparr>)" "calm t (t\<lparr>outf := x, staged_output_data := y\<rparr>)"
  "calm t (tprint xs t)" "calm t (strace_open_memstream t)" "calm t (strace_close_memstream b t)"
  "calm t (t\<lparr>s_prev_ent := e\<rparr>)" "calm t (t\<lparr>etime := u\<rparr>)" "calm t (t\<lparr>ltime := u\<rparr>)" "calm t (t\<lparr>sys_func_rval := v\<rparr>)"
  by (simp_all add: calm_defs has_def tprint_def strace_open_memstream_def strace_close_memstream_def split: option.splits)

lemma hidden_log_calm: "calm t (hidden_log_step t)"
  using calm_trans [OF calm_trans [OF calm_members(1) calm_flags(5)] calm_flags(4)] calm_members(1)
  by (simp add: hidden_log_step_def Let_def)

text \<open>The same for the whole session: only the control block changes, calmly.\<close>

definition calm_s :: "session \<Rightarrow> session \<Rightarrow> bool" where
  "calm_s s s' \<longleftrightarrow> calm (cur_tcb s) (cur_tcb s') \<and> current_personality (tr (tam s')) = current_personality (tr (tam s))
     \<and> ptrace_sci (tr (tam s')) = ptrace_sci (tr (tam s)) \<and> regs (tr (tam s')) = regs (tr (tam s))"

lemma calm_s_refl [simp]: "calm_s s s" by (simp add: calm_s_def)
lemma calm_s_trans: "calm_s a b \<Longrightarrow> calm_s b c \<Longrightarrow> calm_s a c" unfolding calm_s_def using calm_trans by auto

lemma calm_if: "calm_s a b \<Longrightarrow> calm_s a (if P then b else a)" by simp

lemma calm_upd_cur: "calm (cur_tcb s) (f (cur_tcb s)) \<Longrightarrow> calm_s s (upd_cur f s)"
  by (simp add: calm_s_def session_defs)

lemma calm_print: "calm_s s (print_out xs s)" "calm_s s (printleader s)" "calm_s s (line_ended s)"
  using calm_members(4) by (auto simp: calm_s_def session_defs)

lemma calm_print_call: "print_call dc s = (r, s') \<Longrightarrow> calm_s s s'"
proof -
  have "calm_s s (print_out xs (upd_cur (\<lambda>t. t\<lparr>auxstr := a\<rparr>) s))" for xs a
    by (rule calm_s_trans [OF calm_upd_cur calm_print(1)]) (rule calm_members)
  then show "print_call dc s = (r, s') \<Longrightarrow> calm_s s s'"
    by (auto simp: print_call_def Let_def split: prod.splits)
qed

lemma calm_resume: "calm_s s (print_syscall_resume opt s)"
proof -
  have "calm_s s (print_out xs (printleader (upd_cur (drop_flag TCB_REPRINT) s)))" for xs
    by (rule calm_s_trans [OF calm_s_trans [OF calm_upd_cur calm_print(2)] calm_print(1)]) (rule calm_flags)
  then show ?thesis by (simp add: print_syscall_resume_def Let_def calm_s_def)
qed

text \<open>
  The state between two calls and the state within one: the counters are well-formed, and the
  flags for the exit agree with the injection that is in force.
\<close>

definition counters_ok :: "'d config \<Rightarrow> globals \<Rightarrow> session \<Rightarrow> bool" where
  "counters_ok cfg g s \<longleftrightarrow> tracer_ok cfg (tr (tam s)) \<and> own_wf cfg g (cur_tcb s) \<and> own_data_ok cfg g (cur_tcb s)"

definition between_calls :: "'d config \<Rightarrow> globals \<Rightarrow> session \<Rightarrow> bool" where
  "between_calls cfg g s \<longleftrightarrow> counters_ok cfg g s \<and> entering (cur_tcb s) \<and> exit_flags (cur_tcb s) = (False, False, False)"

definition armed :: "'d config \<Rightarrow> session \<Rightarrow> bool" where
  "armed cfg s \<longleftrightarrow> (\<forall>opts. tcb_inject_opts cfg (cur_pers s) (cur_tcb s) = Some opts \<longrightarrow> exit_ready (inj_data opts) (cur_tcb s))"

definition within_call :: "'d config \<Rightarrow> globals \<Rightarrow> session \<Rightarrow> bool" where
  "within_call cfg g s \<longleftrightarrow> counters_ok cfg g s \<and> \<not> entering (cur_tcb s) \<and> armed cfg s"

lemma own_cong:
  "tcb_inject_vec t' = tcb_inject_vec t \<Longrightarrow> own_wf cfg g t' = own_wf cfg g t \<and> own_data_ok cfg g t' = own_data_ok cfg g t"
  by (simp add: own_wf_def own_data_ok_def own_opts_def own_vec_def)

lemma calm_counters_ok: "calm_s s s' \<Longrightarrow> counters_ok cfg g s \<Longrightarrow> counters_ok cfg g s'"
  using own_cong [of "cur_tcb s'" "cur_tcb s" cfg g]
  by (simp add: counters_ok_def calm_s_def calm_def tracer_ok_def)

lemma calm_armed: "calm_s s s' \<Longrightarrow> armed cfg s \<Longrightarrow> armed cfg s'"
  by (simp add: armed_def calm_s_def calm_def tcb_inject_opts_def exit_ready_def exit_flags_def)

lemma unarmed: "exit_flags (cur_tcb s) = (False, False, False) \<Longrightarrow> armed cfg s"
  by (simp add: armed_def exit_ready_def exit_flags_def)

lemma inject_step_ok:
  assumes "between_calls cfg g s" "clock_ok c" "calm_s s v"
  obtains sg u where "(if inject (cur_tcb v)
       then obind (tamper_with_syscall_entering cfg g k c signo (tam v)) (\<lambda>(signo, w). Inr (signo, v\<lparr>tam := w\<rparr>))
       else Inr (signo, v)) = Inr (sg, u)" "counters_ok cfg g u" "armed cfg u" "entering (cur_tcb u)"
     "syscall_tampered_nofail (cur_tcb s) \<longrightarrow> syscall_tampered_nofail (cur_tcb u)"
proof (cases "inject (cur_tcb v)")
  case True
  have s: "counters_ok cfg g s" "entering (cur_tcb s)" "exit_flags (cur_tcb s) = (False, False, False)"
    using assms(1) by (simp_all add: between_calls_def)
  have cv: "counters_ok cfg g v" "exit_flags (cur_tcb v) = (False, False, False)"
    using calm_counters_ok [OF assms(3) s(1)] assms(3) s(3) by (simp_all add: calm_s_def calm_def)
  then have "own_wf cfg g (cur_tcb v)" "own_data_ok cfg g (cur_tcb v)" "cur_pers v < SUPPORTED_PERSONALITIES cfg"
    by (simp_all add: counters_ok_def tracer_ok_def)
  from tamper_entering_safe [OF this(1,2) assms(2) this(3) cv(2), of k signo] obtain sg w where
    w: "tamper_with_syscall_entering cfg g k c signo (tam v) = Inr (sg, w)" "own_wf cfg g (the_tcb w)"
      "own_data_ok cfg g (the_tcb w)"
      "\<And>opts. tcb_inject_opts cfg (current_personality (tr w)) (the_tcb w) = Some opts \<Longrightarrow>
         data_ok (g_tables g) (inj_data opts) \<and> exit_ready (inj_data opts) (the_tcb w)" by metis
  have fr: "frame (tam v) w" by (rule tamper_entering_frame [OF w(1)])
  then have "counters_ok cfg g (v\<lparr>tam := w\<rparr>)"
    using w(2,3) cv(1) by (simp add: counters_ok_def tracer_ok_def frame_def)
  moreover have "entering (the_tcb w)" using fr assms(3) s(2) by (simp add: frame_def calm_s_def calm_def entering_def)
  moreover have "syscall_tampered_nofail (cur_tcb s) \<longrightarrow> syscall_tampered_nofail (the_tcb w)"
    using fr assms(3) by (simp add: frame_def calm_s_def calm_def syscall_tampered_nofail_def)
  ultimately show ?thesis using that [of sg "v\<lparr>tam := w\<rparr>"] True w by (simp add: armed_def)
next
  case False
  have "armed cfg v" using unarmed [of s cfg] calm_armed [OF assms(3), of cfg] assms(1) by (simp add: between_calls_def)
  then show ?thesis
    using that [of signo v] False calm_counters_ok [OF assms(3), of cfg g] assms(1,3) by (simp add: between_calls_def calm_s_def calm_def)
qed

lemma calm_results:
  assumes "calm_s s s'"
  shows "counters_ok cfg g s \<Longrightarrow> counters_ok cfg g s'" "armed cfg s \<Longrightarrow> armed cfg s'"
    "entering (cur_tcb s') = entering (cur_tcb s)"
    "syscall_tampered_nofail (cur_tcb s) \<Longrightarrow> syscall_tampered_nofail (cur_tcb s')"
  using calm_counters_ok [OF assms] calm_armed [OF assms] assms by (simp_all add: calm_s_def calm_def)

lemma entering_trace_ok:
  assumes "between_calls cfg g s" "clock_ok c"
  shows "\<exists>r signo' s'. syscall_entering_trace cfg g opt dc k c signo s = Inr (r, signo', s')
    \<and> counters_ok cfg g s' \<and> armed cfg s' \<and> entering (cur_tcb s')
    \<and> (syscall_tampered_nofail (cur_tcb s) \<longrightarrow> syscall_tampered_nofail (cur_tcb s'))"
proof -
  let ?h = "upd_cur hidden_log_step s" and ?f = "upd_cur (raise_flag TCB_FILTERED) (upd_cur hidden_log_step s)"
    and ?v = "upd_cur (drop_flag TCB_FILTERED) (upd_cur hidden_log_step s)"
  have h: "calm_s s ?h" by (rule calm_upd_cur) (rule hidden_log_calm)
  have f: "calm_s s ?f" by (rule calm_s_trans [OF h]) (rule calm_upd_cur, rule calm_flags)
  have v: "calm_s s ?v" by (rule calm_s_trans [OF h]) (rule calm_upd_cur, rule calm_flags)
  obtain sg u where u: "(if inject (cur_tcb ?v)
       then obind (tamper_with_syscall_entering cfg g k c signo (tam ?v)) (\<lambda>(signo, w). Inr (signo, ?v\<lparr>tam := w\<rparr>))
       else Inr (signo, ?v)) = Inr (sg, u)" "counters_ok cfg g u" "armed cfg u" "entering (cur_tcb u)"
     "syscall_tampered_nofail (cur_tcb s) \<longrightarrow> syscall_tampered_nofail (cur_tcb u)"
    by (rule inject_step_ok [OF assms v])
  let ?m = "if status_filtering g then upd_cur strace_open_memstream u else u"
  have m: "calm_s u ?m" using calm_upd_cur [of u strace_open_memstream] calm_members(5) by simp
  let ?p = "print_out [Out_syscall (cur_name ?m)] (printleader ?m)"
  obtain res w where w: "print_call dc ?p = (res, w)" by fastforce
  have "calm_s u w"
    using calm_s_trans [OF calm_s_trans [OF calm_s_trans [OF m calm_print(2)] calm_print(1)] calm_print_call [OF w]] .
  note uw = calm_results [OF this]
  have sf: "counters_ok cfg g ?f \<and> armed cfg ?f \<and> entering (cur_tcb ?f)
     \<and> (syscall_tampered_nofail (cur_tcb s) \<longrightarrow> syscall_tampered_nofail (cur_tcb ?f))"
    using calm_results(1) [OF f, of cfg g] calm_results(2) [OF f, of cfg] calm_results(3,4) [OF f] unarmed [of s cfg] assms(1)
    by (simp add: between_calls_def)
  show ?thesis
  proof (cases "hide_log (cur_tcb ?h) \<or> \<not> traced (cur_tcb ?h)
      \<or> (tracing_paths opt \<or> tracing_fds g) \<and> \<not> pathtrace_match dc (cur_tcb ?h)")
    case True
    then have "syscall_entering_trace cfg g opt dc k c signo s = Inr (0, signo, ?f)"
      by (simp add: syscall_entering_trace_def Let_def)
    with sf show ?thesis by blast
  next
    case False
    then have "syscall_entering_trace cfg g opt dc k c signo s
      = (if cflag opt = CFLAG_ONLY_STATS then Inr (0, sg, u) else Inr (sint res, sg, w))"
      using w by (simp only: syscall_entering_trace_def Let_def u(1) if_False obind_simps prod.case)
    with u(2-5) uw(1) [of cfg g] uw(2) [of cfg] uw(3,4) show ?thesis by (cases "cflag opt = CFLAG_ONLY_STATS") auto
  qed
qed

lemma entering_finish_ok:
  assumes "counters_ok cfg g s" "armed cfg s"
  shows "within_call cfg g (syscall_entering_finish opt c res s)
    \<and> (syscall_tampered_nofail (cur_tcb s) \<longrightarrow> syscall_tampered_nofail (cur_tcb (syscall_entering_finish opt c res s)))"
proof -
  let ?a = "upd_cur (\<lambda>t. (raise_flag TCB_INSYSCALL t)\<lparr>sys_func_rval := word_of_int res\<rparr>) s"
  have flags: "has (t\<lparr>sys_func_rval := v\<rparr>) f = has t f" for t v f by (simp add: has_def)
  have a: "counters_ok cfg g ?a" "armed cfg ?a" "\<not> entering (cur_tcb ?a)"
    "syscall_tampered_nofail (cur_tcb s) \<longrightarrow> syscall_tampered_nofail (cur_tcb ?a)"
    using assms own_cong [of "cur_tcb ?a" "cur_tcb s" cfg g]
    by (simp_all add: counters_ok_def tracer_ok_def armed_def session_defs tcb_inject_opts_def exit_ready_def tcb_tests
        tcb_flag_defs flags)
  let ?b = "if (Tflag opt \<or> cflag opt \<noteq> CFLAG_NONE) \<and> \<not> filtered (cur_tcb ?a)
    then upd_cur (\<lambda>t. t\<lparr>etime := c_now c\<rparr>) ?a else ?a"
  let ?c = "if cflag opt \<noteq> CFLAG_NONE then upd_cur (\<lambda>t. t\<lparr>ltime := stime t\<rparr>) ?b else ?b"
  have "calm_s ?a ?b" by (intro calm_if calm_upd_cur calm_members)
  moreover have "calm_s ?b ?c" by (intro calm_if calm_upd_cur calm_members)
  ultimately have "calm_s ?a ?c" by (rule calm_s_trans)
  note c = calm_results(1) [OF this a(1)] calm_results(2) [OF this a(2)] calm_results(3,4) [OF this]
  have "syscall_entering_finish opt c res s = ?c" by (simp add: syscall_entering_finish_def Let_def)
  with c a(3,4) show ?thesis by (simp add: within_call_def)
qed

section \<open>Exiting keeps the state\<close>

text \<open>
  At the exit stop of a call the kernel reports an exit, not an entry (\<^verbatim>\<open>ptrace(2)\<close>,
  \<^verbatim>\<open>PTRACE_GET_SYSCALL_INFO\<close>).
\<close>

definition reports_exit :: "kernel \<Rightarrow> bool" where
  "reports_exit k \<longleftrightarrow> (case k_syscall_info k of None \<Rightarrow> True
     | Some sci \<Rightarrow> sci_op sci \<noteq> PTRACE_SYSCALL_INFO_ENTRY \<and> sci_op sci \<noteq> PTRACE_SYSCALL_INFO_SECCOMP)"

definition same_but_result :: "tracer \<Rightarrow> tracer \<Rightarrow> bool" where
  "same_but_result st st' \<longleftrightarrow> keeps (tcp st) (tcp st') \<and> scno (tcp st') = scno (tcp st)
     \<and> current_personality st' = current_personality st \<and> outf (tcp st') = outf (tcp st)"

lemma get_syscall_regs_exit:
  assumes "reports_exit k" "kernel_ok k" "tracer_ok cfg st"
  shows "\<exists>r st'. get_syscall_regs cfg g supported k st = Inr (r, st') \<and> tracer_ok cfg st' \<and> same_but_result st st'"
proof -
  obtain r st' where r: "get_regs k st = (r, st')" by fastforce
  have e: "tracer_ok cfg (error_msg m v) = tracer_ok cfg v" "same_but_result st (error_msg m v) = same_but_result st v" for m v
    by (simp_all add: tracer_ok_def same_but_result_def error_msg_def)
  have "\<exists>ok st'. strace_get_syscall_info cfg g k st = Inr (ok, st') \<and> tracer_ok cfg st' \<and> same_but_result st st'"
  proof (cases "k_syscall_info k")
    case None
    with assms(3) e show ?thesis
      by (simp add: strace_get_syscall_info_def) (auto simp: tracer_ok_def same_but_result_def)
  next
    case (Some sci)
    have "get_personality_from_syscall_info sci = -1"
      using assms(1) Some by (simp add: get_personality_from_syscall_info_def reports_exit_def Let_def)
    moreover have "tracer_ok cfg (st\<lparr>ptrace_sci := sci\<rparr>)" "same_but_result st (st\<lparr>ptrace_sci := sci\<rparr>)" "same_but_result st st"
      using assms(2,3) Some by (simp_all add: tracer_ok_def kernel_ok_def same_but_result_def)
    ultimately show ?thesis using Some assms(3) e by (simp add: strace_get_syscall_info_def Let_def) blast
  qed
  then show ?thesis
    using get_regs_frame [OF r] get_regs_ok [OF r assms(2,3)] r assms(3)
    by (auto simp: get_syscall_regs_def same_but_result_def)
qed

lemma get_error_same:
  "same_but_result st (get_error supported b st)" "tracer_ok cfg st \<Longrightarrow> tracer_ok cfg (get_error supported b st)"
  by (simp_all add: get_error_def arch_get_error_def same_but_result_def keeps_def upd_tcp_def tracer_ok_def Let_def)

lemma get_syscall_result_exit:
  assumes "reports_exit k" "kernel_ok k" "tracer_ok cfg st"
  shows "\<exists>r st'. get_syscall_result cfg g supported k st = Inr (r, st') \<and> tracer_ok cfg st' \<and> same_but_result st st'"
proof -
  obtain r st' where st': "get_syscall_regs cfg g supported k st = Inr (r, st')" "tracer_ok cfg st'" "same_but_result st st'"
    using get_syscall_regs_exit [OF assms] by blast
  have "same_but_result st (get_error supported b st')" for b
    using st'(3) get_error_same(1) [of st' supported b] by (auto simp: same_but_result_def keeps_def)
  with st' get_error_same(2) [OF st'(2)] show ?thesis by (auto simp: get_syscall_result_def)
qed

lemma same_but_result_calm:
  assumes "same_but_result (tr (tam s)) st" "tracer_ok cfg st" "counters_ok cfg g s" "armed cfg s"
  defines "s' \<equiv> upd_tracer (\<lambda>_. st) s"
  shows "counters_ok cfg g s'" "armed cfg s'" "entering (cur_tcb s') = entering (cur_tcb s)"
    "syscall_tampered_nofail (cur_tcb s') = syscall_tampered_nofail (cur_tcb s)" "cnt s' = cnt s"
  using assms(1-4) own_cong [of "tcp st" "cur_tcb s" cfg g]
  by (simp_all add: s'_def counters_ok_def armed_def session_defs same_but_result_def keeps_def tcb_inject_opts_def
      exit_ready_def tcb_tests has_def)

lemma exiting_decode_ok:
  assumes "within_call cfg g s" "reports_exit k" "kernel_ok k"
  shows "\<exists>r ts s'. syscall_exiting_decode cfg g opt k c s = Inr (r, ts, s') \<and> within_call cfg g s'
    \<and> syscall_tampered_nofail (cur_tcb s') = syscall_tampered_nofail (cur_tcb s)"
proof -
  define a where "a = (if sys_flags (tcp_sysent (cur_tcb s)) AND MEMORY_MAPPING_CHANGE \<noteq> 0
    then s\<lparr>mmaps := mmap_notify_report (mmaps s)\<rparr> else s)"
  define b where "b = (if sys_flags (tcp_sysent (cur_tcb s)) AND COMM_CHANGE \<noteq> 0 \<and> \<not> syserror (cur_tcb s)
      \<and> (sen (tcp_sysent (cur_tcb s)) \<noteq> ''prctl'' \<or> u_arg (cur_tcb s) ! 0 = PR_SET_NAME)
    then maybe_load_task_comm g a else a)"
  define h where "h = (if check_exec_syscall (cur_tcb s) then upd_cur (raise_flag TCB_HIDE_LOG) b else b)"
  have "tam b = tam s" by (simp add: a_def b_def maybe_load_task_comm_def)
  then have sb: "calm_s s b" by (simp add: calm_s_def)
  have "calm_s s h" unfolding h_def
    by (rule calm_s_trans [OF sb]) (intro calm_if calm_upd_cur calm_flags)
  note sh = calm_results(1) [OF this, of cfg g] calm_results(2) [OF this, of cfg] calm_results(3) [OF this]
  have nf: "syscall_tampered_nofail (cur_tcb h) = syscall_tampered_nofail (cur_tcb s)"
    using \<open>tam b = tam s\<close> by (simp add: h_def session_defs tcb_tests tcb_flag_defs)
  have h: "counters_ok cfg g h" "armed cfg h" "tracer_ok cfg (tr (tam h))"
    using sh assms(1) by (simp_all add: within_call_def counters_ok_def)
  obtain r st where st: "get_syscall_result cfg g (ptrace_get_syscall_info_supported opt) k (tr (tam h)) = Inr (r, st)"
    "tracer_ok cfg st" "same_but_result (tr (tam h)) st"
    using get_syscall_result_exit [OF assms(2,3) h(3)] by blast
  note res = same_but_result_calm [OF st(3,2) h(1,2)]
  have self: "upd_tracer (\<lambda>_. tr (tam h)) h = h" by (simp add: session_defs)
  show ?thesis
  proof (cases "filtered (cur_tcb s)")
    case True
    then have "\<exists>ts. syscall_exiting_decode cfg g opt k c s = Inr (0, ts, b)"
      by (simp add: syscall_exiting_decode_def Let_def a_def b_def)
    moreover have "within_call cfg g b"
      using calm_results(1) [OF sb, of cfg g] calm_results(2) [OF sb, of cfg] calm_results(3) [OF sb] assms(1)
      by (simp add: within_call_def)
    ultimately show ?thesis using \<open>tam b = tam s\<close> by auto
  next
    case False
    have "\<exists>ts. syscall_exiting_decode cfg g opt k c s
      = obind (update_personality cfg g (currpers (cur_tcb h)) (tr (tam h)))
          (\<lambda>st. obind (on_tracer (get_syscall_result cfg g (ptrace_get_syscall_info_supported opt) k) (upd_tracer (\<lambda>_. st) h))
             (\<lambda>(res, s). Inr (res, ts, s)))"
      using False by (simp add: syscall_exiting_decode_def Let_def h_def b_def a_def) blast
    then obtain ts where "syscall_exiting_decode cfg g opt k c s = Inr (r, ts, upd_tracer (\<lambda>_. st) h)"
      using st(1) h(3) by (auto simp: update_personality_same self on_tracer_def)
    moreover have "\<not> entering (cur_tcb h)" using sh(3) assms(1) by (simp add: within_call_def)
    ultimately show ?thesis using res nf by (auto simp: within_call_def)
  qed
qed

abbreviation metric_overrun :: fatal where
  "metric_overrun \<equiv> Undefined_behaviour ''scall_array[tcp->scno]''"

text \<open>A handler that changes the control block calmly, unless counting overruns its arrays.\<close>

definition calm_or_overrun :: "options \<Rightarrow> session \<Rightarrow> (int \<times> session) outcome \<Rightarrow> bool" where
  "calm_or_overrun opt s x \<longleftrightarrow> (\<exists>r s'. x = Inr (r, s') \<and> calm_s s s') \<or> cflag opt \<noteq> CFLAG_NONE \<and> x = Inl metric_overrun"

lemma calm_count:
  assumes "calm_s s0 s" "\<And>v. calm_s s0 v \<Longrightarrow> calm_or_overrun opt s0 (f v)"
  shows "calm_or_overrun opt s0 (obind (if cflag opt \<noteq> CFLAG_NONE \<and> P then count_call cfg opt ts s else Inr s) f)"
proof (cases "cflag opt \<noteq> CFLAG_NONE \<and> P")
  case True
  have "calm_s s0 (s\<lparr>cnt := n\<rparr>)" for n using assms(1) by (simp add: calm_s_def)
  with True assms(2) show ?thesis by (auto simp: count_call_def calm_or_overrun_def split: option.splits)
qed (use assms in auto)

lemma calm_Inr: "calm_s s s' \<Longrightarrow> calm_or_overrun opt s (Inr (r, s'))"
  by (auto simp: calm_or_overrun_def)

lemma exiting_unavailable_calm: "calm_or_overrun opt s (exiting_unavailable cfg g opt ts res s)"
proof -
  have p: "calm_s s (line_ended (if q then upd_cur (strace_close_memstream b) (print_out xs v) else print_out xs v))"
    if "calm_s s v" for v q b xs
  proof -
    have "calm_s s (print_out xs v)" by (rule calm_s_trans [OF that calm_print(1)])
    moreover have "calm_s (print_out xs v) (if q then upd_cur (strace_close_memstream b) (print_out xs v) else print_out xs v)"
      by (intro calm_if calm_upd_cur calm_members)
    ultimately show ?thesis using calm_print(3) calm_s_trans by blast
  qed
  have "calm_or_overrun opt s (Inr (res, if cflag opt = CFLAG_ONLY_STATS then v
      else line_ended (if q then upd_cur (strace_close_memstream b) (print_out xs v) else print_out xs v)))"
    if "calm_s s v" for v q b xs
    using p [OF that] that by (intro calm_Inr) simp
  then show ?thesis unfolding exiting_unavailable_def Let_def by (intro calm_count [OF calm_s_refl])
qed

lemma calm_exit_args: "exit_decode_args opt dc s = (r, s') \<Longrightarrow> calm_s s s'"
  by (auto simp: exit_decode_args_def split: if_splits dest: calm_print_call)

lemma calm_print_result: "calm_s s (print_result g opt ts sys_res s)"
proof -
  have "calm_s s (upd_tracer (error_msg m) s)" for m by (simp add: calm_s_def session_defs error_msg_def)
  then have "calm_s s (if b then s else upd_tracer (error_msg m) s)" for b m by simp
  then have "calm_s s (line_ended (print_out xs (if b then s else upd_tracer (error_msg m) s)))" for xs b m
    using calm_s_trans calm_print by blast
  then show ?thesis unfolding print_result_def Let_def by blast
qed

lemma exiting_rest_calm:
  assumes "exit_decode_args opt dc s = (sys_res, v)"
  shows "calm_or_overrun opt s (exiting_publish cfg g opt ts sys_res v)"
proof -
  define publish where "publish = (\<not> status_filtering g \<or> exit_publishes g (cur_tcb v))"
  define v1 where "v1 = (if status_filtering g \<and> cflag opt \<noteq> CFLAG_ONLY_STATS
    then upd_cur (strace_close_memstream publish) v else v)"
  have v1: "calm_s s v1" unfolding v1_def
    by (rule calm_s_trans [OF calm_exit_args [OF assms]]) (intro calm_if calm_upd_cur calm_members)
  define v2 where "v2 = (if syscall_limit v1 \<noteq> -1 then v1\<lparr>syscall_limit := syscall_limit v1 - 1\<rparr> else v1)"
  have v2: "calm_s s v2" using v1 by (simp add: v2_def calm_s_def)
  have "calm_s s (if cflag opt \<noteq> CFLAG_ONLY_STATS then line_ended v1 else v1)"
    using calm_s_trans [OF v1 calm_print(3)] v1 by simp
  moreover have "calm_or_overrun opt s (obind (if cflag opt \<noteq> CFLAG_NONE then count_call cfg opt ts v2 else Inr v2)
      (\<lambda>s. Inr (0, if cflag opt = CFLAG_ONLY_STATS then s else print_result g opt ts sys_res s)))"
  proof -
    have "calm_s s w \<Longrightarrow> calm_or_overrun opt s
        (Inr (0, if cflag opt = CFLAG_ONLY_STATS then w else print_result g opt ts sys_res w))" for w
      using calm_s_trans [OF _ calm_print_result] by (intro calm_Inr) auto
    from calm_count [OF v2 this, of "\<lambda>w. w" True cfg ts] show ?thesis by simp
  qed
  ultimately show ?thesis
    using calm_Inr unfolding exiting_publish_def Let_def publish_def [symmetric] v1_def [symmetric] v2_def [symmetric]
    by auto
qed

lemma tamper_exiting_vec:
  assumes "tamper_with_syscall_exiting cfg g supported k c w = Inr (r, w')"
  shows "tcb_inject_vec (the_tcb w') = tcb_inject_vec (the_tcb w)"
proof (cases "tcb_inject_opts cfg (current_personality (tr w)) (the_tcb w)")
  case None
  with assms show ?thesis by (simp add: tamper_with_syscall_exiting_def)
next
  case (Some opts)
  have poke: "tcb_inject_vec (the_tcb b) = tcb_inject_vec (the_tcb a)" if "poke_tcb g c i e a = Inr b" for a b i e
  proof -
    obtain q v where l: "poke_loop c e (avec (inject_tables.pokes (g_tables g)) ! unat i) False a = (q, v)" by fastforce
    with that poke_loop_same [OF l] show ?thesis
      by (auto simp: poke_tcb_def Let_def same_call_def upd_defs split: if_splits)
  qed
  have delay: "tcb_inject_vec (the_tcb b) = tcb_inject_vec (the_tcb a)" if "delay_tcb g c i e a = Inr b" for a b i e
    using that by (auto simp: delay_tcb_def Let_def arm_delay_timer_def upd_defs split: if_splits option.splits)
  have set: "tcb_inject_vec (the_tcb (upd_tr (set_error supported k e) a)) = tcb_inject_vec (the_tcb a)"
    "tcb_inject_vec (the_tcb (upd_tr (set_success supported k e) a)) = tcb_inject_vec (the_tcb a)" for a e
    by (simp_all add: upd_defs set_error_def set_success_def arch_set_error_def arch_set_success_def upoke_def
        write_ax_def get_error_def arch_get_error_def Let_def)
  obtain w1 w2 where
    1: "when_flag (inject_poke_exit (the_tcb w)) (poke_tcb g c (poke_idx (inj_data opts)) False) w = Inr w1"
    and 2: "when_flag (inject_delay_exit (the_tcb w1)) (delay_tcb g c (delay_idx (inj_data opts)) False) w1 = Inr w2"
    and w': "w' = w2 \<or> (\<exists>m. w' = upd_tr (error_msg m) w2) \<or> (\<exists>v. w' = upd_tr (set_success supported k v) w2)
      \<or> (\<exists>v. w' = upd_tr (set_error supported k v) w2)"
    by (rule tamper_exiting_cases [OF assms Some])
  have "tcb_inject_vec (the_tcb w1) = tcb_inject_vec (the_tcb w)"
    using 1 poke by (auto simp: when_flag_def split: if_splits)
  moreover have "tcb_inject_vec (the_tcb w2) = tcb_inject_vec (the_tcb w1)"
    using 2 delay by (auto simp: when_flag_def split: if_splits)
  moreover have "tcb_inject_vec (the_tcb (upd_tr (error_msg m) w2)) = tcb_inject_vec (the_tcb w2)" for m
    by (simp add: upd_defs)
  ultimately show ?thesis using w' set by auto
qed

definition ends_well :: "'d config \<Rightarrow> globals \<Rightarrow> options \<Rightarrow> tcb \<Rightarrow> (int \<times> session) outcome \<Rightarrow> bool" where
  "ends_well cfg g opt t x \<longleftrightarrow>
     (\<exists>r s'. x = Inr (r, s') \<and> counters_ok cfg g s' \<and> (syscall_tampered_nofail t \<longrightarrow> syscall_tampered_nofail (cur_tcb s')))
     \<or> cflag opt \<noteq> CFLAG_NONE \<and> x = Inl metric_overrun"

lemma calm_ends_well:
  assumes "calm_or_overrun opt s x" "counters_ok cfg g s" "syscall_tampered_nofail t \<longrightarrow> syscall_tampered_nofail (cur_tcb s)"
  shows "ends_well cfg g opt t x"
  using assms calm_results(1,4) unfolding calm_or_overrun_def ends_well_def by blast

lemma exit_tampering_ok:
  assumes "within_call cfg g s" "clock_ok c"
  obtains u where "(if syscall_tampered (cur_tcb s) \<or> inject_delay_exit (cur_tcb s) \<or> inject_poke_exit (cur_tcb s)
            then obind (tamper_with_syscall_exiting cfg g supp k c (tam s)) (\<lambda>(_, w). Inr (s\<lparr>tam := w\<rparr>))
            else Inr s) = Inr u" "counters_ok cfg g u"
     "syscall_tampered_nofail (cur_tcb s) \<longrightarrow> syscall_tampered_nofail (cur_tcb u)"
proof (cases "syscall_tampered (cur_tcb s) \<or> inject_delay_exit (cur_tcb s) \<or> inject_poke_exit (cur_tcb s)")
  case True
  have s: "counters_ok cfg g s" "armed cfg s" using assms(1) by (simp_all add: within_call_def)
  have "\<exists>r w. tamper_with_syscall_exiting cfg g supp k c (tam s) = Inr (r, w)"
  proof (cases "tcb_inject_opts cfg (cur_pers s) (cur_tcb s)")
    case None
    then show ?thesis by (simp add: tamper_with_syscall_exiting_def)
  next
    case (Some opts)
    then have "unat (scno (cur_tcb s)) < nsyscall_vec cfg (cur_pers s)" "own_opts g (cur_tcb s) (cur_pers s) (unat (scno (cur_tcb s))) = Some opts"
      by (auto simp: tcb_inject_opts_def scno_in_range_def own_opts_def own_vec_def split: if_splits)
    then have "data_ok (g_tables g) (inj_data opts)"
      using s(1) by (auto simp: counters_ok_def tracer_ok_def own_data_ok_def)
    then show ?thesis using tamper_exiting_safe [OF assms(2) Some] s(2) Some by (simp add: armed_def)
  qed
  then obtain r w where w: "tamper_with_syscall_exiting cfg g supp k c (tam s) = Inr (r, w)" by blast
  have "counters_ok cfg g (s\<lparr>tam := w\<rparr>)"
    using tamper_exiting_frame [OF w] own_cong [OF tamper_exiting_vec [OF w], of cfg g] s(1)
    by (simp add: counters_ok_def frame_def tracer_ok_def)
  then show ?thesis
    using that [of "s\<lparr>tam := w\<rparr>"] w True tamper_exiting_frame [OF w] by (simp add: frame_def syscall_tampered_nofail_def)
next
  case False
  then show ?thesis using that [of s] assms(1) by (simp add: within_call_def)
qed

lemma exiting_trace_ok:
  assumes "within_call cfg g s" "clock_ok c"
  shows "ends_well cfg g opt (cur_tcb s) (syscall_exiting_trace cfg g opt dc k c ts res s)"
proof -
  let ?sup = "ptrace_get_syscall_info_supported opt"
  obtain u where u: "(if syscall_tampered (cur_tcb s) \<or> inject_delay_exit (cur_tcb s) \<or> inject_poke_exit (cur_tcb s)
            then obind (tamper_with_syscall_exiting cfg g ?sup k c (tam s)) (\<lambda>(_, w). Inr (s\<lparr>tam := w\<rparr>))
            else Inr s) = Inr u" "counters_ok cfg g u"
     "syscall_tampered_nofail (cur_tcb s) \<longrightarrow> syscall_tampered_nofail (cur_tcb u)"
    by (rule exit_tampering_ok [OF assms])
  define v where "v = (if cflag opt \<noteq> CFLAG_ONLY_STATS then print_syscall_resume opt u else u)"
  define p where "p = (if sen (tcp_sysent (cur_tcb v)) = ''restart_syscall'' then s_prev_ent (cur_tcb v) else s_ent (cur_tcb v))"
  define x where "x = upd_cur (\<lambda>t. t\<lparr>s_prev_ent := None\<rparr>) v"
  define y where "y = upd_cur (\<lambda>t. t\<lparr>s_prev_ent := p\<rparr>) x"
  have v: "calm_s u v" unfolding v_def by (intro calm_if calm_resume)
  have x: "calm_s u x" unfolding x_def by (rule calm_s_trans [OF v]) (intro calm_upd_cur calm_members)
  have y: "calm_s u y" unfolding y_def by (rule calm_s_trans [OF x]) (intro calm_upd_cur calm_members)
  have carry: "ends_well cfg g opt (cur_tcb s) z" if "calm_s u q" "calm_or_overrun opt q z" for q z
    using calm_ends_well [OF that(2)] calm_results(1) [OF that(1) u(2)] calm_results(4) [OF that(1)] u(3) by blast
  obtain sys_res q where q: "exit_decode_args opt dc y = (sys_res, q)" by fastforce
  have "syscall_exiting_trace cfg g opt dc k c ts res s =
    (if res \<noteq> 1 then exiting_unavailable cfg g opt ts res x
     else exiting_publish cfg g opt ts sys_res q)"
    unfolding syscall_exiting_trace_def u(1) obind_simps
    by (simp only: Let_def v_def [symmetric] p_def [symmetric] x_def [symmetric] y_def [symmetric] q prod.case)
  then show ?thesis
    using carry [OF x exiting_unavailable_calm] carry [OF y exiting_rest_calm [OF q]] by (cases "res = 1") (simp_all only: if_True if_False simp_thms)
qed

section \<open>Whole calls\<close>

lemma exiting_finish_ok:
  assumes "counters_ok cfg g s"
  shows "between_calls cfg g (syscall_exiting_finish opt s)
    \<and> (syscall_tampered_nofail (cur_tcb s) \<longrightarrow> syscall_tampered_nofail (cur_tcb (syscall_exiting_finish opt s)))"
proof -
  let ?f = "\<lambda>t. free_tcb_priv_data ((drop_flag EXIT_CLEARED t)\<lparr>sys_func_rval := 0\<rparr>)"
  let ?a = "upd_cur ?f s"
  have fl: "has (?f t) x = has (drop_flag EXIT_CLEARED t) x" and mem: "tcb_inject_vec (?f t) = tcb_inject_vec t" "currpers (?f t) = currpers t" for t x
    by (simp_all add: free_tcb_priv_data_def has_def)
  have "EXIT_CLEARED AND TCB_TAMPERED_NO_FAIL = 0" "TCB_INSYSCALL AND NOT EXIT_CLEARED = 0"
    "TCB_INJECT_POKE_EXIT AND NOT EXIT_CLEARED = 0" "TCB_INJECT_DELAY_EXIT AND NOT EXIT_CLEARED = 0"
    "TCB_TAMPERED AND NOT EXIT_CLEARED = 0"
    by (simp_all add: EXIT_CLEARED_def tcb_flag_defs)
  note flags = has_drop(1) [OF this(1)] this(2-5) [THEN has_drop(2)]
  have a: "entering (cur_tcb ?a)" "exit_flags (cur_tcb ?a) = (False, False, False)" "counters_ok cfg g ?a"
    "syscall_tampered_nofail (cur_tcb s) \<longrightarrow> syscall_tampered_nofail (cur_tcb ?a)"
    using assms own_cong [of "cur_tcb ?a" "cur_tcb s" cfg g]
    by (simp_all add: session_defs exit_flags_def tcb_tests fl flags mem counters_ok_def tracer_ok_def)
  have "calm_s ?a (if cflag opt \<noteq> CFLAG_NONE then upd_cur (\<lambda>t. t\<lparr>ltime := stime t\<rparr>) ?a else ?a)"
    by (intro calm_if calm_upd_cur calm_members)
  moreover have "syscall_exiting_finish opt s = (if cflag opt \<noteq> CFLAG_NONE then upd_cur (\<lambda>t. t\<lparr>ltime := stime t\<rparr>) ?a else ?a)"
    by (simp add: syscall_exiting_finish_def Let_def)
  ultimately have c: "calm_s ?a (syscall_exiting_finish opt s)" by simp
  then have "exit_flags (cur_tcb (syscall_exiting_finish opt s)) = exit_flags (cur_tcb ?a)" by (simp add: calm_s_def calm_def)
  with a calm_results(1) [OF c a(3)] calm_results(3,4) [OF c] show ?thesis by (simp only: between_calls_def) blast
qed

text \<open>
  One system call of a process as \<open>dispatch_event\<close> drives it: the stop at the entry and the stop at
  the exit, with the register cache cleared by the wait loop before each of them.
\<close>

record call_env =
  enter_kernel :: kernel
  enter_clock :: clock
  exit_kernel :: kernel
  exit_clock :: clock

definition stop_step ::
    "'d config \<Rightarrow> globals \<Rightarrow> options \<Rightarrow> decoders \<Rightarrow> kernel \<Rightarrow> clock \<Rightarrow> session \<Rightarrow> session outcome" where
  "stop_step cfg g opt dc k c s =
     obind (trace_syscall cfg g opt dc k c 0 (upd_tracer clear_regs s)) (\<lambda>(res, signo, s). Inr s)"

definition trace_call :: "'d config \<Rightarrow> globals \<Rightarrow> options \<Rightarrow> decoders \<Rightarrow> call_env \<Rightarrow> session \<Rightarrow> session outcome" where
  "trace_call cfg g opt dc e s =
     obind (stop_step cfg g opt dc (enter_kernel e) (enter_clock e) s)
       (stop_step cfg g opt dc (exit_kernel e) (exit_clock e))"

fun trace_calls :: "'d config \<Rightarrow> globals \<Rightarrow> options \<Rightarrow> decoders \<Rightarrow> call_env list \<Rightarrow> session \<Rightarrow> session outcome" where
  "trace_calls cfg g opt dc [] s = Inr s"
| "trace_calls cfg g opt dc (e # es) s = obind (trace_call cfg g opt dc e s) (trace_calls cfg g opt dc es)"

definition env_ok :: "call_env \<Rightarrow> bool" where
  "env_ok e \<longleftrightarrow> kernel_ok (enter_kernel e) \<and> kernel_ok (exit_kernel e) \<and> reports_exit (exit_kernel e)
     \<and> clock_ok (enter_clock e) \<and> clock_ok (exit_clock e)"

definition build_ok :: "'d config \<Rightarrow> bool" where
  "build_ok cfg \<longleftrightarrow> 3 \<le> SUPPORTED_PERSONALITIES cfg \<and> subcalls_ok cfg"

lemma clear_regs_calm:
  "cur_tcb (upd_tracer clear_regs s) = cur_tcb s" "counters_ok cfg g (upd_tracer clear_regs s) = counters_ok cfg g s"
  "armed cfg (upd_tracer clear_regs s) = armed cfg s"
  by (simp_all add: session_defs clear_regs_def counters_ok_def tracer_ok_def armed_def)

lemma keeps_counters:
  assumes "keeps (cur_tcb s) (cur_tcb s')" "tracer_ok cfg (tr (tam s'))" "between_calls cfg g s"
  shows "between_calls cfg g s'" "syscall_tampered_nofail (cur_tcb s') = syscall_tampered_nofail (cur_tcb s)"
  using assms own_cong [of "cur_tcb s'" "cur_tcb s" cfg g]
  by (simp_all add: between_calls_def counters_ok_def keeps_def exit_flags_def tcb_tests has_def)

lemma entry_stop_ok:
  assumes "build_ok cfg" "between_calls cfg g s" "kernel_ok k" "clock_ok c"
  shows "\<exists>s'. stop_step cfg g opt dc k c s = Inr s' \<and> within_call cfg g s'
    \<and> (syscall_tampered_nofail (cur_tcb s) \<longrightarrow> syscall_tampered_nofail (cur_tcb s'))"
proof -
  let ?s = "upd_tracer clear_regs s"
  have b: "between_calls cfg g ?s" using assms(2) by (simp add: between_calls_def clear_regs_calm)
  then have "tracer_ok cfg (tr (tam ?s))" by (simp add: between_calls_def counters_ok_def)
  with assms(1,3) obtain r d where d: "syscall_entering_decode cfg g opt dc k ?s = Inr (r, d)" "r = 1 \<or> r = -1"
    "keeps (cur_tcb ?s) (cur_tcb d)" "tracer_ok cfg (tr (tam d))"
    using entering_decode_ok by (metis build_ok_def)
  note bd = keeps_counters [OF d(3,4) b]
  obtain r2 sg u where u: "(if r = 1 then syscall_entering_trace cfg g opt dc k c 0 d else Inr (r, 0, d)) = Inr (r2, sg, u)"
    "counters_ok cfg g u" "armed cfg u" "syscall_tampered_nofail (cur_tcb d) \<longrightarrow> syscall_tampered_nofail (cur_tcb u)"
  proof (cases "r = 1")
    case True
    with entering_trace_ok [OF bd(1) assms(4), of opt dc k 0] that show ?thesis by auto
  next
    case False
    with that [of r 0 d] bd(1) unarmed [of d cfg] show ?thesis by (simp add: between_calls_def)
  qed
  have "entering (cur_tcb ?s)" "r \<noteq> 0" using b d(2) by (auto simp: between_calls_def)
  then have "stop_step cfg g opt dc k c s = Inr (syscall_entering_finish opt c r2 u)"
    using d(1) u(1) by (simp add: stop_step_def trace_syscall_def)
  with entering_finish_ok [OF u(2,3), of opt c r2] u(4) bd(2) clear_regs_calm(1) show ?thesis by auto
qed

lemma exit_stop_ok:
  assumes "within_call cfg g s" "kernel_ok k" "reports_exit k" "clock_ok c"
  shows "(\<exists>s'. stop_step cfg g opt dc k c s = Inr s' \<and> between_calls cfg g s'
      \<and> (syscall_tampered_nofail (cur_tcb s) \<longrightarrow> syscall_tampered_nofail (cur_tcb s')))
    \<or> cflag opt \<noteq> CFLAG_NONE \<and> stop_step cfg g opt dc k c s = Inl metric_overrun"
proof -
  let ?s = "upd_tracer clear_regs s"
  have w: "within_call cfg g ?s" using assms(1) by (simp add: within_call_def clear_regs_calm)
  obtain r ts d where d: "syscall_exiting_decode cfg g opt k c ?s = Inr (r, ts, d)" "within_call cfg g d"
    "syscall_tampered_nofail (cur_tcb d) = syscall_tampered_nofail (cur_tcb ?s)"
    using exiting_decode_ok [OF w assms(3,2)] by blast
  define x where "x = (if r \<noteq> 0 then syscall_exiting_trace cfg g opt dc k c ts r d else Inr (r, d))"
  have x: "ends_well cfg g opt (cur_tcb d) x"
    using exiting_trace_ok [OF d(2) assms(4)] d(2) by (simp add: x_def) (simp add: ends_well_def within_call_def)
  have "\<not> entering (cur_tcb ?s)" using w by (simp add: within_call_def)
  then have st: "stop_step cfg g opt dc k c s = obind x (\<lambda>(res, s). Inr (syscall_exiting_finish opt s))"
    using d(1) unfolding stop_step_def trace_syscall_def by (simp add: x_def obind_assoc split_def)
  from x show ?thesis unfolding ends_well_def
  proof
    assume "\<exists>r s'. x = Inr (r, s') \<and> counters_ok cfg g s'
        \<and> (syscall_tampered_nofail (cur_tcb d) \<longrightarrow> syscall_tampered_nofail (cur_tcb s'))"
    then obtain r' s' where s': "x = Inr (r', s')" "counters_ok cfg g s'"
      "syscall_tampered_nofail (cur_tcb d) \<longrightarrow> syscall_tampered_nofail (cur_tcb s')" by blast
    with exiting_finish_ok [OF s'(2), of opt] st d(3) clear_regs_calm(1) show ?thesis by auto
  qed (simp add: st)
qed

lemma trace_call_ok:
  assumes "build_ok cfg" "between_calls cfg g s" "env_ok e"
  shows "(\<exists>s'. trace_call cfg g opt dc e s = Inr s' \<and> between_calls cfg g s'
      \<and> (syscall_tampered_nofail (cur_tcb s) \<longrightarrow> syscall_tampered_nofail (cur_tcb s')))
    \<or> cflag opt \<noteq> CFLAG_NONE \<and> trace_call cfg g opt dc e s = Inl metric_overrun"
proof -
  obtain u where u: "stop_step cfg g opt dc (enter_kernel e) (enter_clock e) s = Inr u" "within_call cfg g u"
    "syscall_tampered_nofail (cur_tcb s) \<longrightarrow> syscall_tampered_nofail (cur_tcb u)"
    using entry_stop_ok [OF assms(1,2)] assms(3) by (metis env_ok_def)
  with exit_stop_ok [OF u(2), of "exit_kernel e" "exit_clock e" opt dc] assms(3) show ?thesis
    by (auto simp: trace_call_def env_ok_def)
qed

lemma trace_calls_ok:
  assumes "build_ok cfg" "between_calls cfg g s" "list_all env_ok es"
  shows "(\<exists>s'. trace_calls cfg g opt dc es s = Inr s' \<and> between_calls cfg g s'
      \<and> (syscall_tampered_nofail (cur_tcb s) \<longrightarrow> syscall_tampered_nofail (cur_tcb s')))
    \<or> cflag opt \<noteq> CFLAG_NONE \<and> trace_calls cfg g opt dc es s = Inl metric_overrun"
  using assms(2,3)
proof (induction es arbitrary: s)
  case (Cons e es)
  from trace_call_ok [OF assms(1) Cons.prems(1), of e opt dc] Cons.prems(2) consider
    s' where "trace_call cfg g opt dc e s = Inr s'" "between_calls cfg g s'"
      "syscall_tampered_nofail (cur_tcb s) \<longrightarrow> syscall_tampered_nofail (cur_tcb s')"
    | "cflag opt \<noteq> CFLAG_NONE" "trace_call cfg g opt dc e s = Inl metric_overrun" by auto
  then show ?case
  proof cases
    case 1
    with Cons.IH [OF 1(2)] Cons.prems(2) show ?thesis by auto
  qed simp
qed simp

section \<open>Properties\<close>

lemma fresh_between_calls:
  assumes "globals_ok cfg g" "tracer_ok cfg (tr (tam s))"
    and "entering (cur_tcb s)" "exit_flags (cur_tcb s) = (False, False, False)"
    and "tcb_inject_vec (cur_tcb s) = replicate (SUPPORTED_PERSONALITIES cfg) None"
  shows "between_calls cfg g s"
proof -
  have i: "inject_shape cfg g" using assms(1) by (simp add: globals_ok_def injections_ok_def)
  have "own_data_ok cfg g (cur_tcb s)"
    using own_wf_fresh(2) [OF i assms(5)] assms(1) by (simp add: own_data_ok_def globals_ok_def injections_ok_def)
  with own_wf_fresh(1) [OF i assms(5)] assms(2-4) show ?thesis by (simp add: between_calls_def counters_ok_def)
qed

lemma no_flags: "tcb_flags t = 0 \<Longrightarrow> entering t \<and> exit_flags t = (False, False, False)"
  by (simp add: exit_flags_def tcb_tests has_def)


text \<open>A build with three personalities, and one call of it.\<close>

definition sample_build :: "unit config" where
  "sample_build = sample_config\<lparr>sysent_vec := sysent_vec sample_config @ [[]]\<rparr>"

definition sample_options :: options where
  "sample_options = \<lparr>cflag = CFLAG_NONE, Tflag = False, output_separately = False, tracing_paths = False,
     count_wallclock = False, ptrace_get_syscall_info_supported = True\<rparr>"

definition sample_decoders :: decoders where
  "sample_decoders = \<lparr>sys_func_of = (\<lambda>e t. (RVAL_DECODED, None, [Out_args])), pathtrace_match = (\<lambda>t. True),
     umove_words = (\<lambda>addr n. None)\<rparr>"

definition sample_session :: session where
  "sample_session = \<lparr>tam = upd_tcb (\<lambda>t. t\<lparr>tcb_inject_vec := [None, None, None]\<rparr>) sample_tampering,
     cnt = initial_counts sample_build, mmaps = sample_state, syscall_limit = -1, printing_tcp = None, comm_loads = []\<rparr>"

definition sample_env :: call_env where
  "sample_env = \<lparr>enter_kernel = sample_kernel, enter_clock = sample_clock,
     exit_kernel = sample_kernel\<lparr>k_syscall_info := Some (sample_sci\<lparr>sci_op := PTRACE_SYSCALL_INFO_EXIT\<rparr>)\<rparr>,
     exit_clock = sample_clock\<rparr>"

lemma sample_session_facts:
  "build_ok sample_build" "env_ok sample_env" "tracer_ok sample_build (tr (tam sample_session))"
  "tcb_flags (cur_tcb sample_session) = 0"
  "tcb_inject_vec (cur_tcb sample_session) = replicate (SUPPORTED_PERSONALITIES sample_build) None"
proof -
  have n: "SUPPORTED_PERSONALITIES sample_build = 3"
    by (simp add: SUPPORTED_PERSONALITIES_def sample_build_def sample_config_def)
  have "sen e \<notin> set [''ipc'', ''socketcall'']" if "p < 3" "e \<in> set (sysent_vec sample_build ! p)" for p e
    using that by (auto simp: sample_build_def sample_config_def sample_entry_def less_Suc_eq numeral_3_eq_3)
  then show "build_ok sample_build" by (auto simp: build_ok_def subcalls_ok_def n)
  show "env_ok sample_env"
    by (simp add: env_ok_def sample_env_def kernel_ok_def reports_exit_def sample_kernel_def sample_sci_def sample_regs_def
        MAX_ARGS_def clock_ok_def sample_clock_def PTRACE_SYSCALL_INFO_ENTRY_def PTRACE_SYSCALL_INFO_EXIT_def
        PTRACE_SYSCALL_INFO_SECCOMP_def)
  show "tracer_ok sample_build (tr (tam sample_session))" "tcb_flags (cur_tcb sample_session) = 0"
    "tcb_inject_vec (cur_tcb sample_session) = replicate (SUPPORTED_PERSONALITIES sample_build) None"
    by (simp_all add: n tracer_ok_def sample_session_def session_defs sample_tampering_def sample_tracer_def clear_regs_def
        sample_tcb_def sample_sci_def sample_regs_def MAX_ARGS_def numeral_3_eq_3)
qed



definition replaced_session :: session where
  "replaced_session = upd_cur (raise_flag TCB_TAMPERED_NO_FAIL) sample_session"

lemma replaced_session_between:
  "between_calls sample_build (initial_globals sample_build) replaced_session"
  "syscall_tampered_nofail (cur_tcb replaced_session)"
proof -
  note f = sample_session_facts
  have "tracer_ok sample_build (tr (tam replaced_session))"
    "tcb_inject_vec (cur_tcb replaced_session) = replicate (SUPPORTED_PERSONALITIES sample_build) None"
    using f(3,5) by (simp_all add: replaced_session_def session_defs tracer_ok_def)
  moreover have "entering (cur_tcb replaced_session)" "exit_flags (cur_tcb replaced_session) = (False, False, False)"
    "syscall_tampered_nofail (cur_tcb replaced_session)"
    using no_flags [OF f(4)] by (simp_all add: replaced_session_def session_defs exit_flags_def tcb_tests tcb_flag_defs)
  ultimately show "between_calls sample_build (initial_globals sample_build) replaced_session"
    "syscall_tampered_nofail (cur_tcb replaced_session)"
    using fresh_between_calls [OF initial_globals_ok] by blast+
qed


text \<open>
  A call that is filtered out leaves no trace.  When the traced set, the path filter or a
  hidden log excludes a call, its entry handler neither prints nor tampers nor delivers a signal,
  and the whole exit stop succeeds without reading registers: nothing is printed, counted, or
  written to the tracee, and the limit of traced calls stays.
\<close>

lemma filtered_calls_silent:
  assumes "hide_log (hidden_log_step (cur_tcb s)) \<or> \<not> traced (hidden_log_step (cur_tcb s))
      \<or> (tracing_paths opt \<or> tracing_fds g) \<and> \<not> pathtrace_match dc (hidden_log_step (cur_tcb s))"
    and "filtered (cur_tcb u)" "\<not> entering (cur_tcb u)"
  shows "\<exists>s' u'. syscall_entering_trace cfg g opt dc k c signo s = Inr (0, signo, s')
    \<and> filtered (cur_tcb s') \<and> outf (cur_tcb s') = outf (cur_tcb s)
    \<and> Syscall_Regs.pokes (tr (tam s')) = Syscall_Regs.pokes (tr (tam s)) \<and> tcb_inject_vec (cur_tcb s') = tcb_inject_vec (cur_tcb s)
    \<and> trace_syscall cfg g opt dc k c signo u = Inr (0, signo, u')
    \<and> outf (cur_tcb u') = outf (cur_tcb u) \<and> cnt u' = cnt u \<and> syscall_limit u' = syscall_limit u
    \<and> Syscall_Regs.pokes (tr (tam u')) = Syscall_Regs.pokes (tr (tam u)) \<and> printing_tcp u' = printing_tcp u"
proof -
  have h: "outf (hidden_log_step t) = outf t" "tcb_inject_vec (hidden_log_step t) = tcb_inject_vec t" for t
    by (simp_all add: hidden_log_step_def Let_def)
  have f: "outf (free_tcb_priv_data t) = outf t" for t by (simp add: free_tcb_priv_data_def)
  let ?s = "upd_cur (raise_flag TCB_FILTERED) (upd_cur hidden_log_step s)"
  have "syscall_entering_trace cfg g opt dc k c signo s = Inr (0, signo, ?s)"
    using assms(1) by (simp add: syscall_entering_trace_def Let_def session_defs)
  moreover have "filtered (cur_tcb ?s)" "outf (cur_tcb ?s) = outf (cur_tcb s)"
    "Syscall_Regs.pokes (tr (tam ?s)) = Syscall_Regs.pokes (tr (tam s))" "tcb_inject_vec (cur_tcb ?s) = tcb_inject_vec (cur_tcb s)"
    by (simp_all add: session_defs h filtered_def TCB_FILTERED_def)
  moreover obtain ts v where v: "syscall_exiting_decode cfg g opt k c u = Inr (0, ts, v)"
    "tam v = tam u" "cnt v = cnt u" "syscall_limit v = syscall_limit u" "printing_tcp v = printing_tcp u"
    using assms(2) that by (simp add: syscall_exiting_decode_def maybe_load_task_comm_def Let_def)
  moreover from v(1) assms(3) have "trace_syscall cfg g opt dc k c signo u = Inr (0, signo, syscall_exiting_finish opt v)"
    by (simp add: trace_syscall_def)
  moreover have "outf (cur_tcb (syscall_exiting_finish opt v)) = outf (cur_tcb v)" "cnt (syscall_exiting_finish opt v) = cnt v"
    "syscall_limit (syscall_exiting_finish opt v) = syscall_limit v" "printing_tcp (syscall_exiting_finish opt v) = printing_tcp v"
    "Syscall_Regs.pokes (tr (tam (syscall_exiting_finish opt v))) = Syscall_Regs.pokes (tr (tam v))"
    by (simp_all add: syscall_exiting_finish_def Let_def session_defs f)
  ultimately show ?thesis by (metis (no_types, lifting))
qed

lemma filtered_calls_silent_witness:
  "\<exists>s' u'. syscall_entering_trace sample_build (initial_globals sample_build) sample_options sample_decoders
        sample_kernel sample_clock 0 sample_session = Inr (0, 0, s') \<and> outf (cur_tcb s') = outf (cur_tcb sample_session)
    \<and> trace_syscall sample_build (initial_globals sample_build) sample_options sample_decoders sample_kernel sample_clock 0
        (upd_cur (raise_flag (TCB_FILTERED OR TCB_INSYSCALL)) sample_session) = Inr (0, 0, u')
    \<and> cnt u' = cnt sample_session"
proof -
  let ?u = "upd_cur (raise_flag (TCB_FILTERED OR TCB_INSYSCALL)) sample_session"
  have "\<not> traced (hidden_log_step (cur_tcb sample_session))"
    by (simp add: traced_def hidden_log_step_def tcb_tests has_def sample_session_def session_defs sample_tampering_def
        sample_tracer_def clear_regs_def sample_tcb_def)
  moreover have "filtered (cur_tcb ?u)" "\<not> entering (cur_tcb ?u)" "cnt ?u = cnt sample_session"
    by (simp_all add: session_defs tcb_tests tcb_flag_defs)
  ultimately show ?thesis
    using filtered_calls_silent [of sample_session sample_options "initial_globals sample_build" sample_decoders ?u
        sample_build sample_kernel sample_clock 0] by metis
qed

text \<open>While the output of a call is staged in front of a log, and nothing has been counted.\<close>

definition staged :: "session \<Rightarrow> stream \<Rightarrow> session \<Rightarrow> bool" where
  "staged s0 log s \<longleftrightarrow> staged_output_data (cur_tcb s) = Some log \<and> cnt s = cnt s0 \<and> syscall_limit s = syscall_limit s0"

lemma staged_steps:
  assumes "staged s0 log s"
  shows "staged s0 log (print_out xs s)" "staged s0 log (printleader s)" "staged s0 log (print_syscall_resume opt s)"
    "staged s0 log (upd_cur (\<lambda>t. t\<lparr>s_prev_ent := e\<rparr>) s)" "staged s0 log (upd_cur (\<lambda>t. t\<lparr>auxstr := a\<rparr>) s)"
    "staged s0 log (s\<lparr>tam := w\<rparr>) \<longleftrightarrow> staged_output_data (the_tcb w) = Some log"
  using assms by (simp_all add: staged_def session_defs tprint_def print_syscall_resume_def Let_def)

lemma staged_exit_args: "staged s0 log s \<Longrightarrow> exit_decode_args opt dc s = (r, s') \<Longrightarrow> staged s0 log s' \<and> u_error (cur_tcb s') = u_error (cur_tcb s)"
  by (auto simp: exit_decode_args_def print_call_def Let_def staged_def session_defs tprint_def
      split: if_splits prod.splits)

lemma result_keeps_error:
  "u_error (cur_tcb (print_result g opt ts r s)) = u_error (cur_tcb s)"
  "u_error (strace_close_memstream b t) = u_error t"
  "count_call cfg opt ts s = Inr s' \<Longrightarrow> u_error (cur_tcb s') = u_error (cur_tcb s)"
  by (auto simp: print_result_def Let_def session_defs tprint_def error_msg_def strace_close_memstream_def count_call_def
      split: option.splits)

text \<open>
  C30: A call whose status is not to be shown (\<open>-e status=\<close>, \<open>-Z\<close>, \<open>-z\<close>) leaves no trace.  The
  output of the call has been staged since its entry; when the exit finds a status that is not in
  the set, after tampering and decoding, the log is exactly the one from before the call, the call
  is not counted and does not use up the limit of traced calls.
\<close>

theorem unpublished_calls_silent:
  assumes "status_filtering g" "cflag opt \<noteq> CFLAG_ONLY_STATS" "staged_output_data (cur_tcb s) = Some log"
    and "syscall_exiting_trace cfg g opt dc k c ts 1 s = Inr (r, s')" "\<not> exit_publishes g (cur_tcb s')"
  shows "outf (cur_tcb s') = log \<and> staged_output_data (cur_tcb s') = None \<and> cnt s' = cnt s
    \<and> syscall_limit s' = syscall_limit s"
proof -
  have pub: "exit_publishes g t = exit_publishes g t'" if "u_error t = u_error t'" for t t'
    using that by (simp add: exit_publishes_def syserror_def)
  have s: "staged s log s" using assms(3) by (simp add: staged_def)
  let ?t = "if syscall_tampered (cur_tcb s) \<or> inject_delay_exit (cur_tcb s) \<or> inject_poke_exit (cur_tcb s)
      then obind (tamper_with_syscall_exiting cfg g (ptrace_get_syscall_info_supported opt) k c (tam s)) (\<lambda>(_, w). Inr (s\<lparr>tam := w\<rparr>))
      else Inr s"
  obtain u where u: "?t = Inr u" using assms(4) by (auto simp: syscall_exiting_trace_def obind_eq_Inr)
  have "staged s log (s\<lparr>tam := w\<rparr>)"
    if "tamper_with_syscall_exiting cfg g (ptrace_get_syscall_info_supported opt) k c (tam s) = Inr (q, w)" for q w
    using tamper_exiting_frame [OF that] s by (simp add: staged_def frame_def)
  with u s have su: "staged s log u" by (auto simp: obind_eq_Inr split: if_splits)
  define x where "x = upd_cur (\<lambda>t. t\<lparr>s_prev_ent := None\<rparr>) (print_syscall_resume opt u)"
  have "\<exists>p. syscall_exiting_trace cfg g opt dc k c ts 1 s
      = (case exit_decode_args opt dc (upd_cur (\<lambda>t. t\<lparr>s_prev_ent := p\<rparr>) x) of (sys_res, s) \<Rightarrow> exiting_publish cfg g opt ts sys_res s)"
    unfolding syscall_exiting_trace_def u obind_simps using assms(2) by (auto simp: Let_def x_def)
  then obtain p sys_res v where v: "exit_decode_args opt dc (upd_cur (\<lambda>t. t\<lparr>s_prev_ent := p\<rparr>) x) = (sys_res, v)"
    "syscall_exiting_trace cfg g opt dc k c ts 1 s = exiting_publish cfg g opt ts sys_res v"
    by (metis (no_types, lifting) prod.case prod.exhaust)
  have sv: "staged s log v" using staged_exit_args [OF _ v(1)] staged_steps(3,4) su unfolding x_def by blast
  show ?thesis
  proof (cases "exit_publishes g (cur_tcb v)")
    case False
    then have "s' = line_ended (upd_cur (strace_close_memstream False) v)"
      using assms(1,2,4) by (simp add: v(2) exiting_publish_def)
    with sv show ?thesis by (simp add: staged_def session_defs strace_close_memstream_def)
  next
    case True
    then have "u_error (cur_tcb s') = u_error (cur_tcb v)"
      using assms(1,2,4) unfolding v(2) exiting_publish_def
      by (auto simp: Let_def obind_eq_Inr result_keeps_error(1,2) session_defs split: if_splits dest!: result_keeps_error(3))
    with True assms(5) pub show ?thesis by blast
  qed
qed

text \<open>A call of a process of which no status is to be shown.\<close>

definition quiet_globals :: globals where
  "quiet_globals = (initial_globals sample_build)\<lparr>status_set := Some \<lparr>vec = [], nslots = 0, not = False\<rparr>\<rparr>"

definition staged_session :: session where
  "staged_session = upd_cur strace_open_memstream sample_session"

theorem unpublished_calls_silent_witness:
  "\<exists>r s'. syscall_exiting_trace sample_build quiet_globals sample_options sample_decoders sample_kernel sample_clock
        sample_ts 1 staged_session = Inr (r, s')
    \<and> outf (cur_tcb s') = outf (cur_tcb sample_session) \<and> cnt s' = cnt sample_session"
proof -
  let ?x = "syscall_exiting_trace sample_build quiet_globals sample_options sample_decoders sample_kernel sample_clock
        sample_ts 1 staged_session"
  have f: "status_filtering quiet_globals" "cflag sample_options \<noteq> CFLAG_ONLY_STATS"
    "staged_output_data (cur_tcb staged_session) = Some (outf (cur_tcb sample_session))" "cnt staged_session = cnt sample_session"
    by (simp_all add: status_filtering_def quiet_globals_def is_complete_set_def get_number_setbit_def
        NUMBER_OF_STATUSES_def sample_options_def staged_session_def session_defs strace_open_memstream_def)
  have e: "\<not> exit_publishes quiet_globals t" for t
    by (simp add: exit_publishes_def quiet_globals_def is_number_in_set_def)
  have "tcb_flags (cur_tcb staged_session) = 0"
    using sample_session_facts(4) by (simp add: staged_session_def session_defs strace_open_memstream_def)
  from no_flags [OF this] have "\<exists>r s'. ?x = Inr (r, s')"
    using e f(1) by (auto simp: syscall_exiting_trace_def exit_flags_def exiting_publish_def Let_def split: prod.split)
  then obtain r s' where s': "?x = Inr (r, s')" by blast
  from unpublished_calls_silent [OF f(1-3) s' e] f(4) s' show ?thesis by auto
qed

end
