(* ===== verification/Ucopy.thy ===== *)
theory Ucopy
  imports Prelude
begin

text \<open>
  Copying memory between strace and a tracee, \<^verbatim>\<open>ucopy.c\<close>: reading through
  \<open>process_vm_readv\<close> with a cache of four pages, the legacy path through \<open>PTRACE_PEEKDATA\<close>,
  strings, and writing.  The kernel is a parameter; \<open>kernel_ok\<close> states what its manual pages
  promise.  A \<open>long\<close> that \<open>ptrace\<close> transfers is the list of its bytes in memory order, the
  \<open>data\<close> of \<open>dissected_long_t\<close>.
\<close>

section \<open>The kernel and the static variables\<close>

datatype errno = ENOSYS | EPERM | ESRCH | EINVAL | EFAULT | EIO | Other_errno nat

text \<open>
  What the kernel does with the tracee in state \<open>'m\<close>: \<open>PTRACE_PEEKDATA\<close> and \<open>PTRACE_POKEDATA\<close> at
  an address, and \<open>process_vm_readv\<close> and \<open>process_vm_writev\<close> with a single \<open>iovec\<close> on each side.
\<close>

record 'm mem_kernel =
  k_pagesize :: u64
  k_peekdata :: "'m \<Rightarrow> u64 \<Rightarrow> errno + u8 list"
  k_pokedata :: "'m \<Rightarrow> u64 \<Rightarrow> u8 list \<Rightarrow> errno + 'm"
  k_vm_readv :: "'m \<Rightarrow> u64 \<Rightarrow> nat \<Rightarrow> errno + u8 list"
  k_vm_writev :: "'m \<Rightarrow> u64 \<Rightarrow> u8 list \<Rightarrow> errno + nat \<times> 'm"

text \<open>
  The static variables, \<open>errno\<close> (\<open>None\<close> is 0), and the messages that were written.  A buffer that
  is not allocated yet is the empty list.
\<close>

record ucopy =
  process_vm_readv_not_supported :: bool
  process_vm_writev_not_supported :: bool
  cached_idx :: int
  cached_raddr :: "u64 list"
  bufs :: "u8 list list"
  u_errno :: "errno option"
  u_log :: "string list"

definition initial_ucopy :: ucopy where
  "initial_ucopy = \<lparr>process_vm_readv_not_supported = False, process_vm_writev_not_supported = False,
     cached_idx = -1, cached_raddr = replicate 4 0, bufs = replicate 4 [], u_errno = None, u_log = []\<rparr>"

definition ulog :: "string \<Rightarrow> ucopy \<Rightarrow> ucopy" where
  "ulog msg s = s\<lparr>u_log := u_log s @ [msg]\<rparr>"

section \<open>Reading through the page cache\<close>

definition process_read_mem :: "'m mem_kernel \<Rightarrow> 'm \<Rightarrow> u64 \<Rightarrow> nat \<Rightarrow> ucopy \<Rightarrow> (errno + u8 list) \<times> ucopy" where
  "process_read_mem k m raddr len s =
     (case k_vm_readv k m raddr len of
        Inl e \<Rightarrow> (Inl e, s\<lparr>u_errno := Some e,
                     process_vm_readv_not_supported := process_vm_readv_not_supported s \<or> e = ENOSYS\<rparr>)
      | Inr bs \<Rightarrow> (Inr bs, s))"

definition invalidate_umove_cache :: "ucopy \<Rightarrow> ucopy" where
  "invalidate_umove_cache s = s\<lparr>cached_idx := -1\<rparr>"

definition get_next_unused_idx :: "ucopy \<Rightarrow> nat" where
  "get_next_unused_idx s = nat ((cached_idx s + 1) mod 4)"

definition lookup_cached_raddr_idx :: "u64 \<Rightarrow> ucopy \<Rightarrow> nat option" where
  "lookup_cached_raddr_idx raddr s =
     (if cached_idx s \<ge> 0
      then find (\<lambda>i. raddr = cached_raddr s ! i)
             (rev [0..<Suc (nat (cached_idx s))] @ rev [Suc (nat (cached_idx s))..<4])
      else None)"

definition set_cached_raddr_idx :: "u64 \<Rightarrow> nat \<Rightarrow> ucopy \<Rightarrow> ucopy" where
  "set_cached_raddr_idx raddr idx s =
     s\<lparr>cached_raddr := (if cached_idx s < 0 then replicate 4 0 else cached_raddr s)[idx := raddr],
       cached_idx := int idx\<rparr>"

text \<open>
  The buffer that holds the page, which is read if the cache does not have it.  A read of \<open>n\<close>
  bytes overwrites the first \<open>n\<close> bytes of the buffer.
\<close>

definition cache_page :: "'m mem_kernel \<Rightarrow> 'm \<Rightarrow> u64 \<Rightarrow> ucopy \<Rightarrow> (errno + nat) \<times> ucopy" where
  "cache_page k m page_start s =
     (case lookup_cached_raddr_idx page_start s of Some idx \<Rightarrow> (Inr idx, s)
      | None \<Rightarrow>
          let idx = get_next_unused_idx s
          in case process_read_mem k m page_start (unat (k_pagesize k)) s of
               (Inl e, s) \<Rightarrow> (Inl e, s)
             | (Inr bs, s) \<Rightarrow>
                 (Inr idx, set_cached_raddr_idx page_start idx
                    (s\<lparr>bufs := (bufs s)[idx := bs @ drop (length bs) (bufs s ! idx)]\<rparr>)))"

text \<open>
  The loop over the pages.  The destination is filled from its start, so what was copied so far
  is \<open>acc\<close>, of length \<open>total_read\<close>.
\<close>

partial_function (option) vm_read_loop ::
  "'m mem_kernel \<Rightarrow> 'm \<Rightarrow> u64 \<Rightarrow> u64 \<Rightarrow> nat \<Rightarrow> u8 list \<Rightarrow> ucopy \<Rightarrow> ((errno + u8 list) \<times> ucopy) option" where
  "vm_read_loop k m page_start taddr len acc s =
     (case cache_page k m page_start s of
        (Inl e, s) \<Rightarrow> Some (if acc \<noteq> [] then Inr acc else Inl e, s)
      | (Inr idx, s) \<Rightarrow>
          let offset = taddr - page_start;
              in_page = unat (k_pagesize k - offset);
              copy_len = (if len \<le> in_page then len else in_page);
              acc = acc @ take copy_len (drop (unat offset) (bufs s ! idx))
          in if len \<le> in_page then Some (Inr acc, s)
             else vm_read_loop k m (page_start + k_pagesize k) (page_start + k_pagesize k) (len - copy_len) acc s)"

definition vm_read_mem ::
  "'m mem_kernel \<Rightarrow> 'm \<Rightarrow> u64 \<Rightarrow> nat \<Rightarrow> ucopy \<Rightarrow> ((errno + u8 list) \<times> ucopy) option" where
  "vm_read_mem k m taddr len s =
     (if len = 0 then Some (Inr [], s)
      else let page_mask = k_pagesize k - 1;
               page_start = taddr AND NOT page_mask;
               page_after_last = (taddr + of_nat len + page_mask) AND NOT page_mask
           in if page_start = 0 \<or> page_after_last < page_start
                 \<or> page_after_last - page_start > 4 * k_pagesize k
              then Some (process_read_mem k m taddr len s)
              else vm_read_loop k m page_start taddr len [] s)"

definition vm_write_mem ::
  "'m mem_kernel \<Rightarrow> 'm \<Rightarrow> u64 \<Rightarrow> u8 list \<Rightarrow> ucopy \<Rightarrow> (errno + nat) \<times> 'm \<times> ucopy" where
  "vm_write_mem k m raddr bs s =
     (case k_vm_writev k m raddr bs of
        Inl e \<Rightarrow> (Inl e, m, s\<lparr>u_errno := Some e,
                    process_vm_writev_not_supported := process_vm_writev_not_supported s \<or> e = ENOSYS\<rparr>)
      | Inr (n, m') \<Rightarrow> (Inr n, m', s))"

definition tracee_addr_is_invalid :: "nat \<Rightarrow> u64 \<Rightarrow> bool" where
  "tracee_addr_is_invalid current_wordsize addr \<longleftrightarrow>
     current_wordsize < 8 \<and> addr AND NOT 0xffffffff \<noteq> 0"

section \<open>Reading a block\<close>

text \<open>
  How the loops over words report an error of \<open>ptrace\<close>, when \<open>n\<close> bytes were copied; \<open>what\<close> is
  what they say when it is not the first word that failed.
\<close>

definition ptrace_error :: "string \<Rightarrow> errno \<Rightarrow> nat \<Rightarrow> ucopy \<Rightarrow> ucopy" where
  "ptrace_error what e n s =
     (let s = s\<lparr>u_errno := Some e\<rparr>
      in if e = ESRCH \<or> e = EINVAL then s
         else if e = EFAULT \<or> e = EIO \<or> e = EPERM
         then (if n \<noteq> 0 then ulog what s else s)
         else ulog ''pid'' s)"

text \<open>
  A copy into strace's memory returns a status and the bytes it stored from the start of the
  destination on.
\<close>

partial_function (option) umoven_peekdata ::
  "'m mem_kernel \<Rightarrow> 'm \<Rightarrow> u64 \<Rightarrow> nat \<Rightarrow> nat \<Rightarrow> u8 list \<Rightarrow> ucopy \<Rightarrow> ((int \<times> u8 list) \<times> ucopy) option" where
  "umoven_peekdata k m addr residue len acc s =
     (if len = 0 then Some ((0, acc), s)
      else let addr = addr AND - 8
           in case k_peekdata k m addr of
                Inl e \<Rightarrow> Some ((- 1, acc), ptrace_error ''short read'' e (length acc) s)
              | Inr u \<Rightarrow>
                  let n = min (8 - residue) len
                  in umoven_peekdata k m (addr + 8) 0 (len - n) (acc @ take n (drop residue u)) (s\<lparr>u_errno := None\<rparr>))"

definition residue_of :: "u64 \<Rightarrow> nat" where
  "residue_of addr = unat (addr AND 7)"

definition umoven ::
  "'m mem_kernel \<Rightarrow> nat \<Rightarrow> 'm \<Rightarrow> u64 \<Rightarrow> u32 \<Rightarrow> ucopy \<Rightarrow> ((int \<times> u8 list) \<times> ucopy) option" where
  "umoven k current_wordsize m addr len s =
     (if tracee_addr_is_invalid current_wordsize addr then Some ((- 1, []), s)
      else if process_vm_readv_not_supported s
      then umoven_peekdata k m addr (residue_of addr) (unat len) [] s
      else case vm_read_mem k m addr (unat len) s of None \<Rightarrow> None
           | Some (Inr bs, s) \<Rightarrow>
               if length bs = unat len then Some ((0, bs), s)
               else Some ((- 1, bs), ulog ''short read'' s)
           | Some (Inl e, s) \<Rightarrow>
               if e = ENOSYS \<or> e = EPERM
               then umoven_peekdata k m addr (residue_of addr) (unat len) [] s
               else if e = ESRCH \<or> e = EFAULT \<or> e = EIO then Some ((- 1, []), s)
               else Some ((- 1, []), ulog ''pid'' s))"

section \<open>Reading a string\<close>

text \<open>The index of the first zero byte, \<open>memchr\<close>.\<close>

fun find_nul :: "u8 list \<Rightarrow> nat option" where
  "find_nul [] = None"
| "find_nul (b # bs) = (if b = 0 then Some 0 else map_option Suc (find_nul bs))"

partial_function (option) umovestr_peekdata ::
  "'m mem_kernel \<Rightarrow> 'm \<Rightarrow> u64 \<Rightarrow> nat \<Rightarrow> nat \<Rightarrow> u8 list \<Rightarrow> ucopy \<Rightarrow> ((int \<times> u8 list) \<times> ucopy) option" where
  "umovestr_peekdata k m addr residue len acc s =
     (if len = 0 then Some ((0, acc), s)
      else let addr = addr AND - 8
           in case k_peekdata k m addr of
                Inl e \<Rightarrow> Some ((- 1, acc), ptrace_error ''short read'' e (length acc) s)
              | Inr u \<Rightarrow>
                  let n = min (8 - residue) len;
                      s = s\<lparr>u_errno := None\<rparr>
                  in case find_nul (drop residue u) of
                       Some j \<Rightarrow> Some ((int (length acc + (residue + j + 1)), acc @ take n (drop residue u)), s)
                     | None \<Rightarrow> umovestr_peekdata k m (addr + 8) 0 (len - n) (acc @ take n (drop residue u)) s)"

text \<open>The number of bytes that the next step of \<open>umovestr\<close> reads.\<close>

definition chunk_len :: "u64 \<Rightarrow> u64 \<Rightarrow> nat \<Rightarrow> nat" where
  "chunk_len page_size addr len =
     (let chunk = (if len > unat page_size then unat page_size else len);
          end_in_page = unat ((addr + of_nat chunk) AND (page_size - 1))
      in if chunk > end_in_page then chunk - end_in_page else chunk)"

text \<open>
  How \<open>umovestr\<close> ends when a read fails; only with nothing read yet and an error that tells that
  \<open>process_vm_readv\<close> cannot be used it tries the legacy path.
\<close>

definition umovestr_error :: "errno option \<Rightarrow> nat \<Rightarrow> ucopy \<Rightarrow> ucopy" where
  "umovestr_error e nread s =
     (if e \<in> {Some ENOSYS, Some EPERM, Some EFAULT, Some EIO}
      then (if nread \<noteq> 0 then ulog ''short read'' s else s)
      else if e = Some ESRCH then s else ulog ''pid'' s)"

partial_function (option) umovestr_loop ::
  "'m mem_kernel \<Rightarrow> 'm \<Rightarrow> u64 \<Rightarrow> nat \<Rightarrow> u8 list \<Rightarrow> ucopy \<Rightarrow> ((int \<times> u8 list) \<times> ucopy) option" where
  "umovestr_loop k m addr len acc s =
     (if len = 0 then Some ((0, acc), s)
      else Option.bind (vm_read_mem k m addr (chunk_len (k_pagesize k) addr len) s)
             (\<lambda>(r, s).
                if r \<noteq> Inr [] \<and> isl r = False
                then (case find_nul (projr r) of
                        Some j \<Rightarrow> Some ((int (length acc + j + 1), acc @ projr r), s)
                      | None \<Rightarrow> umovestr_loop k m (addr + of_nat (length (projr r))) (len - length (projr r))
                                 (acc @ projr r) s)
                else if u_errno s \<in> {Some ENOSYS, Some EPERM} \<and> acc = []
                then umovestr_peekdata k m addr (residue_of addr) len [] s
                else Some ((- 1, acc), umovestr_error (u_errno s) (length acc) s)))"

declare vm_read_loop.simps [code] umoven_peekdata.simps [code] umovestr_peekdata.simps [code]
  umovestr_loop.simps [code]

definition umovestr ::
  "'m mem_kernel \<Rightarrow> nat \<Rightarrow> 'm \<Rightarrow> u64 \<Rightarrow> u32 \<Rightarrow> ucopy \<Rightarrow> ((int \<times> u8 list) \<times> ucopy) option" where
  "umovestr k current_wordsize m addr len s =
     (if tracee_addr_is_invalid current_wordsize addr then Some ((- 1, []), s)
      else if process_vm_readv_not_supported s
      then umovestr_peekdata k m addr (residue_of addr) (unat len) [] s
      else umovestr_loop k m addr (unat len) [] s)"

section \<open>Writing\<close>

definition upoken_peekpoke :: "'m mem_kernel \<Rightarrow> 'm \<Rightarrow> u64 \<Rightarrow> u8 list \<Rightarrow> nat \<Rightarrow> errno + 'm" where
  "upoken_peekpoke k m addr bs offset =
     (case k_peekdata k m addr of Inl e \<Rightarrow> Inl e
      | Inr u \<Rightarrow> k_pokedata k m addr (take offset u @ bs @ drop (offset + length bs) u))"

text \<open>The words in the middle and the rest, when the address is aligned.\<close>

fun poke_words ::
  "'m mem_kernel \<Rightarrow> 'm \<Rightarrow> u64 \<Rightarrow> u8 list \<Rightarrow> nat \<Rightarrow> ucopy \<Rightarrow> nat \<times> 'm \<times> ucopy" where
  "poke_words k m addr bs nwritten s =
     (if length bs \<ge> 8
      then (case k_pokedata k m addr (take 8 bs) of
              Inl e \<Rightarrow> (nwritten, m, ptrace_error ''short write'' e nwritten s)
            | Inr m \<Rightarrow> poke_words k m (addr + 8) (drop 8 bs) (nwritten + 8) s)
      else if bs \<noteq> []
      then (case upoken_peekpoke k m addr bs 0 of
              Inl e \<Rightarrow> (nwritten, m, ptrace_error ''short write'' e nwritten s)
            | Inr m \<Rightarrow> (nwritten + length bs, m, s))
      else (nwritten, m, s))"

declare poke_words.simps [simp del]

definition upoken_pokedata ::
  "'m mem_kernel \<Rightarrow> 'm \<Rightarrow> u64 \<Rightarrow> u8 list \<Rightarrow> ucopy \<Rightarrow> nat \<times> 'm \<times> ucopy" where
  "upoken_pokedata k m addr bs s =
     (if bs \<noteq> [] \<and> addr AND 7 \<noteq> 0
      then let residue = residue_of addr;
               npoke = min (8 - residue) (length bs);
               addr = addr AND - 8
           in case upoken_peekpoke k m addr (take npoke bs) residue of
                Inl e \<Rightarrow> (0, m, ptrace_error ''short write'' e 0 s)
              | Inr m \<Rightarrow> poke_words k m (addr + 8) (drop npoke bs) npoke s
      else poke_words k m addr bs 0 s)"

definition upoken ::
  "'m mem_kernel \<Rightarrow> nat \<Rightarrow> 'm \<Rightarrow> u64 \<Rightarrow> u8 list \<Rightarrow> ucopy \<Rightarrow> nat \<times> 'm \<times> ucopy" where
  "upoken k current_wordsize m addr bs s =
     (if tracee_addr_is_invalid current_wordsize addr then (0, m, s)
      else if process_vm_writev_not_supported s then upoken_pokedata k m addr bs s
      else case vm_write_mem k m addr bs s of
             (Inr n, m, s) \<Rightarrow>
               if n = length bs then (n, m, s) else (n, m, ulog ''short write'' s)
           | (Inl e, m, s) \<Rightarrow>
               if e \<in> {ENOSYS, EPERM, EFAULT, EIO} then upoken_pokedata k m addr bs s
               else if e = ESRCH then (0, m, s) else (0, m, ulog ''pid'' s))"

section \<open>What the kernel promises\<close>

text \<open>
  The memory of the tracee as a function from addresses to bytes, \<open>None\<close> where \<open>ptrace\<close> cannot
  access it.
\<close>

definition holds :: "('m \<Rightarrow> u64 \<Rightarrow> u8 option) \<Rightarrow> 'm \<Rightarrow> u64 \<Rightarrow> u8 list \<Rightarrow> bool" where
  "holds mem m a bs \<longleftrightarrow> (\<forall>i < length bs. mem m (a + of_nat i) = Some (bs ! i))"

definition accessible :: "('m \<Rightarrow> u64 \<Rightarrow> u8 option) \<Rightarrow> 'm \<Rightarrow> u64 \<Rightarrow> nat \<Rightarrow> bool" where
  "accessible mem m a n \<longleftrightarrow> (\<forall>i < n. mem m (a + of_nat i) \<noteq> None)"

definition write_bytes :: "(u64 \<Rightarrow> u8 option) \<Rightarrow> u64 \<Rightarrow> u8 list \<Rightarrow> u64 \<Rightarrow> u8 option" where
  "write_bytes f a bs = (\<lambda>x. if unat (x - a) < length bs then Some (bs ! unat (x - a)) else f x)"

text \<open>
  \<open>ptrace(2)\<close>: a word can be read and written when its bytes are accessible.
  \<open>process_vm_readv(2)\<close>: a single \<open>iovec\<close> is transferred completely or not at all.  Access is
  granted by pages, whose size is a power of two.
\<close>

definition ptrace_ok :: "'m mem_kernel \<Rightarrow> ('m \<Rightarrow> u64 \<Rightarrow> u8 option) \<Rightarrow> bool" where
  "ptrace_ok k mem \<longleftrightarrow>
     (\<forall>m a. a AND 7 = 0 \<longrightarrow>
        (case k_peekdata k m a of Inr u \<Rightarrow> length u = 8 \<and> holds mem m a u
         | Inl e \<Rightarrow> \<not> accessible mem m a 8))
     \<and> (\<forall>m a u. a AND 7 = 0 \<longrightarrow> length u = 8 \<longrightarrow>
        (case k_pokedata k m a u of Inr m' \<Rightarrow> accessible mem m a 8 \<and> mem m' = write_bytes (mem m) a u
         | Inl e \<Rightarrow> \<not> accessible mem m a 8))"

definition vm_ok :: "'m mem_kernel \<Rightarrow> ('m \<Rightarrow> u64 \<Rightarrow> u8 option) \<Rightarrow> bool" where
  "vm_ok k mem \<longleftrightarrow>
     (\<forall>m a n. case k_vm_readv k m a n of Inr bs \<Rightarrow> length bs = n \<and> holds mem m a bs | Inl e \<Rightarrow> True)
     \<and> (\<forall>m a bs. case k_vm_writev k m a bs of
          Inr (n, m') \<Rightarrow> n = length bs \<and> accessible mem m a n \<and> mem m' = write_bytes (mem m) a bs
        | Inl e \<Rightarrow> accessible mem m a (length bs) \<longrightarrow> e \<in> {ENOSYS, EPERM, EFAULT, EIO})"

definition pages_ok :: "'m mem_kernel \<Rightarrow> ('m \<Rightarrow> u64 \<Rightarrow> u8 option) \<Rightarrow> bool" where
  "pages_ok k mem \<longleftrightarrow>
     (\<exists>p. 3 \<le> p \<and> p < 32 \<and> k_pagesize k = 2 ^ p)
     \<and> (\<forall>m a i. a AND 7 = 0 \<longrightarrow> i < 8 \<longrightarrow> (mem m (a + of_nat i) = None \<longleftrightarrow> mem m a = None))
     \<and> (\<forall>m a i. a AND (k_pagesize k - 1) = 0 \<longrightarrow> i < unat (k_pagesize k) \<longrightarrow>
          (mem m (a + of_nat i) = None \<longleftrightarrow> mem m a = None))"

definition kernel_ok :: "'m mem_kernel \<Rightarrow> ('m \<Rightarrow> u64 \<Rightarrow> u8 option) \<Rightarrow> bool" where
  "kernel_ok k mem \<longleftrightarrow> ptrace_ok k mem \<and> vm_ok k mem \<and> pages_ok k mem"

section \<open>Words and bytes\<close>

lemma split_mask: "(a AND NOT w) + (a AND w) = (a :: 'a::len word)"
proof -
  have "(a AND NOT w) AND (a AND w) = 0" by (intro bit_eqI) (simp add: bit_simps)
  then have "(a AND NOT w) + (a AND w) = (a AND NOT w) OR (a AND w)" by (rule disjunctive_add_eq_or)
  also have "\<dots> = a" by (intro bit_eqI) (auto simp: bit_simps)
  finally show ?thesis .
qed

lemma mask_down: "(a AND NOT w) AND w = (0 :: 'a::len word)"
  by (intro bit_eqI) (simp add: bit_simps)

lemma aligned_down: "(a AND - 8) AND 7 = (0 :: u64)"
  using mask_down [of a 7] by simp

lemma unat_and7: "unat (a AND 7 :: u64) = unat a mod 8"
proof -
  have "a AND 7 = take_bit 3 a" by (simp add: take_bit_eq_mask mask_eq_exp_minus_1)
  then show ?thesis by (simp add: take_bit_eq_mod unat_mod_distrib)
qed

lemma aligned_iff: "a AND 7 = 0 \<longleftrightarrow> unat (a :: u64) mod 8 = 0"
  by (metis unat_and7 unat_eq_zero)

lemma residue_less: "residue_of a < 8"
  by (simp add: residue_of_def unat_and7)

lemma split_residue: "(a AND - 8) + of_nat (residue_of a) = a"
  using split_mask [of a 7] by (simp add: residue_of_def)

lemma residue_aligned: "a AND 7 = 0 \<Longrightarrow> residue_of a = 0" "a AND 7 = 0 \<Longrightarrow> a AND - 8 = a"
  using split_residue [of a] by (simp_all add: residue_of_def)

lemma aligned_next: "a AND 7 = 0 \<Longrightarrow> (a + 8) AND 7 = (0 :: u64)"
  unfolding aligned_iff unat_word_ariths by (simp add: mod_mod_cancel mod_add_left_eq mod_simps)

lemma unat_minus_of_nat:
  assumes "n \<le> 2 ^ 64"
  shows "unat (x - (a + of_nat n) :: u64)
    = (if n \<le> unat (x - a) then unat (x - a) - n else unat (x - a) + 2 ^ 64 - n)"
proof -
  have d: "unat (x - a) < 2 ^ 64" by (rule unat64_less)
  have eq: "x - (a + of_nat n) = of_nat (if n \<le> unat (x - a) then unat (x - a) - n else unat (x - a) + 2 ^ 64 - n)"
    (is "_ = of_nat ?v")
    using assms by (auto simp: of_nat_diff)
  show ?thesis unfolding eq using d by (subst unat_of_nat, subst mod_less) auto
qed

lemma write_bytes_append:
  assumes "length xs + length ys \<le> 2 ^ 64"
  shows "write_bytes (write_bytes f a xs) (a + of_nat (length xs)) ys = write_bytes f a (xs @ ys)"
proof
  fix x
  have "unat (x - a) < 2 ^ 64" by (rule unat64_less)
  with assms show "write_bytes (write_bytes f a xs) (a + of_nat (length xs)) ys x = write_bytes f a (xs @ ys) x"
    by (auto simp: write_bytes_def unat_minus_of_nat nth_append)
qed

lemma write_bytes_Nil [simp]: "write_bytes f a [] = f"
  by (simp add: write_bytes_def)

lemma write_bytes_at:
  "length bs \<le> 2 ^ 64 \<Longrightarrow> i < length bs \<Longrightarrow> write_bytes f a bs (a + of_nat i) = Some (bs ! i)"
  by (simp add: write_bytes_def unat_of_nat)

text \<open>Writing back what is there changes nothing, so a read-modify-write changes the middle only.\<close>

lemma write_same:
  assumes "holds mem m a bs" "length bs \<le> 2 ^ 64"
  shows "write_bytes (mem m) a bs = mem m"
proof
  fix x
  have "mem m (a + of_nat (unat (x - a))) = Some (bs ! unat (x - a))" if "unat (x - a) < length bs"
    using assms(1) that unfolding holds_def by blast
  then show "write_bytes (mem m) a bs x = mem m x" by (simp add: write_bytes_def)
qed

section \<open>Writing\<close>

lemma peek_law:
  assumes "ptrace_ok k mem" "a AND 7 = 0"
  shows "case k_peekdata k m a of Inr u \<Rightarrow> length u = 8 \<and> holds mem m a u
         | Inl e \<Rightarrow> \<not> accessible mem m a 8"
  using assms by (simp add: ptrace_ok_def)

lemma poke_law:
  assumes "ptrace_ok k mem" "a AND 7 = 0" "length u = 8"
  shows "case k_pokedata k m a u of Inr m' \<Rightarrow> accessible mem m a 8 \<and> mem m' = write_bytes (mem m) a u
         | Inl e \<Rightarrow> \<not> accessible mem m a 8"
  using assms by (simp add: ptrace_ok_def)

lemma holds_take: "holds mem m a u \<Longrightarrow> holds mem m a (take n u)"
  by (simp add: holds_def)

lemma all_less_add: "(\<forall>i < (a :: nat) + b. P i) \<longleftrightarrow> (\<forall>i < a. P i) \<and> (\<forall>i < b. P (a + i))"
proof safe
  fix i
  assume "\<forall>i < a. P i" "\<forall>i < b. P (a + i)" "i < a + b"
  then show "P i" using spec [of "\<lambda>i. i < b \<longrightarrow> P (a + i)" "i - a"] by (cases "i < a") auto
qed simp_all

lemma holds_append:
  "holds mem m a (xs @ ys) \<longleftrightarrow> holds mem m a xs \<and> holds mem m (a + of_nat (length xs)) ys"
  unfolding holds_def length_append all_less_add by (simp add: nth_append add.assoc)

lemma accessible_add:
  "accessible mem m a (i + j) \<longleftrightarrow> accessible mem m a i \<and> accessible mem m (a + of_nat i) j"
  unfolding accessible_def all_less_add by (simp add: add.assoc)

lemma holds_drop:
  assumes "holds mem m a u" "n \<le> length u"
  shows "holds mem m (a + of_nat n) (drop n u)"
  using assms holds_append [of mem m a "take n u" "drop n u"] by simp

lemma holds_accessible: "holds mem m a u \<Longrightarrow> n \<le> length u \<Longrightarrow> accessible mem m a n"
  by (auto simp: holds_def accessible_def)

text \<open>The effect of a partial word: only the bytes of the payload change.\<close>

lemma splice_word:
  assumes "holds mem m a u" "length u = 8" "off + length bs \<le> 8"
  shows "write_bytes (mem m) a (take off u @ bs @ drop (off + length bs) u)
    = write_bytes (mem m) (a + of_nat off) bs"
proof
  fix x
  let ?d = "unat (x - a)"
  have u: "?d < 8 \<Longrightarrow> mem m x = Some (u ! ?d)"
    using assms(1,2) spec [of "\<lambda>i. i < length u \<longrightarrow> mem m (a + of_nat i) = Some (u ! i)" ?d]
    by (simp add: holds_def)
  have d: "unat (x - (a + of_nat off)) = (if off \<le> ?d then ?d - off else ?d + 2 ^ 64 - off)"
    using assms(3) by (intro unat_minus_of_nat) simp
  show "write_bytes (mem m) a (take off u @ bs @ drop (off + length bs) u) x
    = write_bytes (mem m) (a + of_nat off) bs x"
    using assms(2,3) u
    by (auto simp: write_bytes_def d nth_append min_def split: if_splits)
qed

lemma peekpoke_effect:
  assumes "ptrace_ok k mem" "a AND 7 = 0" "off + length bs \<le> 8"
  shows "case upoken_peekpoke k m a bs off of
      Inr m' \<Rightarrow> accessible mem m a 8 \<and> mem m' = write_bytes (mem m) (a + of_nat off) bs
    | Inl e \<Rightarrow> \<not> accessible mem m a 8"
proof (cases "k_peekdata k m a")
  case (Inl e)
  then show ?thesis using peek_law [OF assms(1,2), of m] by (simp add: upoken_peekpoke_def)
next
  case (Inr u)
  then have u: "length u = 8" "holds mem m a u" using peek_law [OF assms(1,2), of m] by simp_all
  have "length (take off u @ bs @ drop (off + length bs) u) = 8" using u(1) assms(3) by simp
  from poke_law [OF assms(1,2) this, of m] show ?thesis
    using Inr splice_word [OF u(2,1) assms(3)] by (simp add: upoken_peekpoke_def split: sum.splits)
qed

text \<open>Writing never takes access away, and one accessible byte of a word gives the others.\<close>

lemma accessible_write:
  "mem m' = write_bytes (mem m) a bs \<Longrightarrow> accessible mem m b n \<Longrightarrow> accessible mem m' b n"
  by (auto simp: accessible_def write_bytes_def)

lemma accessible_word:
  assumes "pages_ok k mem" "a AND 7 = 0" "accessible mem m (a + of_nat off) n" "off < 8" "0 < n"
  shows "accessible mem m a 8"
proof -
  have w: "i < 8 \<Longrightarrow> mem m (a + of_nat i) = None \<longleftrightarrow> mem m a = None" for i
    using assms(1,2) by (simp add: pages_ok_def)
  have "mem m (a + of_nat off) \<noteq> None" using assms(3,5) by (auto simp: accessible_def)
  with w [OF assms(4)] w show ?thesis by (auto simp: accessible_def)
qed

text \<open>
  The outcome of a write at \<open>a\<close>: the first \<open>j\<close> bytes arrived and nothing else changed, and all of
  them arrived if the tracee has the memory.
\<close>

definition wrote ::
  "('m \<Rightarrow> u64 \<Rightarrow> u8 option) \<Rightarrow> 'm \<Rightarrow> u64 \<Rightarrow> u8 list \<Rightarrow> nat \<Rightarrow> 'm \<Rightarrow> bool" where
  "wrote mem m a bs j m' \<longleftrightarrow>
     j \<le> length bs \<and> mem m' = write_bytes (mem m) a (take j bs)
     \<and> (accessible mem m a (length bs) \<longrightarrow> j = length bs)"

lemma wrote_none: "\<not> accessible mem m a (length bs) \<Longrightarrow> wrote mem m a bs 0 m"
  by (simp add: wrote_def)

lemma wrote_append:
  assumes "mem m1 = write_bytes (mem m) a xs" "wrote mem m1 (a + of_nat (length xs)) ys j m'"
    and "length xs + length ys \<le> 2 ^ 64"
  shows "wrote mem m a (xs @ ys) (length xs + j) m'"
proof -
  have j: "j \<le> length ys" "mem m' = write_bytes (mem m1) (a + of_nat (length xs)) (take j ys)"
    using assms(2) by (simp_all add: wrote_def)
  have "mem m' = write_bytes (mem m) a (xs @ take j ys)"
    unfolding j(2) assms(1) using assms(3) j(1) by (intro write_bytes_append) simp
  moreover have "j = length ys" if "accessible mem m a (length (xs @ ys))"
    using that assms(2) accessible_write [of mem m1 m a xs, OF assms(1)]
    by (simp add: accessible_add wrote_def)
  ultimately show ?thesis using j(1) by (simp add: wrote_def)
qed

lemma poke_words_wrote:
  assumes "ptrace_ok k mem" "pages_ok k mem" "a AND 7 = 0" "length bs \<le> 2 ^ 64"
  shows "\<exists>j m' s'. poke_words k m a bs nw s = (nw + j, m', s') \<and> wrote mem m a bs j m'"
  using assms(3,4)
proof (induction "length bs" arbitrary: bs m a nw rule: less_induct)
  case less
  have acc8: "accessible mem m a 8" if "accessible mem m a (length bs)" "bs \<noteq> []"
    using accessible_word [OF assms(2) less.prems(1), of m 0 "length bs"] that by simp
  show ?case
  proof (cases "8 \<le> length bs")
    case True
    then have l8: "length (take 8 bs) = 8" and bs: "bs = take 8 bs @ drop 8 bs" by simp_all
    note law = poke_law [OF assms(1) less.prems(1) l8, of m]
    show ?thesis
    proof (cases "k_pokedata k m a (take 8 bs)")
      case (Inl e)
      with law acc8 True have "\<not> accessible mem m a (length bs)" by (cases "bs = []") auto
      from wrote_none [OF this] Inl True show ?thesis
        by (simp add: poke_words.simps [of k m a bs])
    next
      case (Inr m1)
      with law have m1: "mem m1 = write_bytes (mem m) a (take 8 bs)" by simp
      obtain j m' s' where j: "poke_words k m1 (a + 8) (drop 8 bs) (nw + 8) s = (nw + 8 + j, m', s')"
          "wrote mem m1 (a + 8) (drop 8 bs) j m'"
        using less.hyps [of "drop 8 bs", OF _ aligned_next [OF less.prems(1)], where nw = "nw + 8" and m = m1]
          True less.prems(2) by fastforce
      have "wrote mem m a (take 8 bs @ drop 8 bs) (length (take 8 bs) + j) m'"
        using j(2) less.prems(2) l8 by (intro wrote_append [OF m1]) simp_all
      then have "wrote mem m a bs (8 + j) m'" by (simp only: append_take_drop_id l8)
      with j(1) Inr True show ?thesis
        by (simp add: poke_words.simps [of k m a bs] add.assoc)
    qed
  next
    case False
    note law = peekpoke_effect [OF assms(1) less.prems(1), of 0 bs m]
    show ?thesis
    proof (cases "bs = []")
      case True
      then show ?thesis by (simp add: poke_words.simps [of k m a "[]"] wrote_def)
    next
      case ne: False
      show ?thesis
      proof (cases "upoken_peekpoke k m a bs 0")
        case (Inl e)
        with law False ne acc8 have "\<not> accessible mem m a (length bs)" by auto
        from wrote_none [OF this] Inl False ne show ?thesis
          by (simp add: poke_words.simps [of k m a bs])
      next
        case (Inr m1)
        with law False ne show ?thesis
          by (simp add: poke_words.simps [of k m a bs] wrote_def)
      qed
    qed
  qed
qed

lemma upoken_pokedata_wrote:
  assumes "ptrace_ok k mem" "pages_ok k mem" "length bs \<le> 2 ^ 64"
  shows "\<exists>j m' s'. upoken_pokedata k m a bs s = (j, m', s') \<and> wrote mem m a bs j m'"
proof (cases "bs \<noteq> [] \<and> a AND 7 \<noteq> 0")
  case False
  show ?thesis
  proof (cases "bs = []")
    case True
    then show ?thesis by (simp add: upoken_pokedata_def poke_words.simps [of k m a] wrote_def)
  next
    case ne: False
    with False have "a AND 7 = 0" by blast
    from poke_words_wrote [OF assms(1,2) this assms(3), of m 0 s] False show ?thesis
      by (auto simp: upoken_pokedata_def)
  qed
next
  case True
  let ?r = "residue_of a" and ?b = "a AND - 8"
  let ?n = "min (8 - ?r) (length bs)"
  have n: "0 < ?n" "?r + length (take ?n bs) \<le> 8" "length (take ?n bs) = ?n"
    using residue_less [of a] True by auto
  note law = peekpoke_effect [OF assms(1) aligned_down [of a] n(2), of m]
  show ?thesis
  proof (cases "upoken_peekpoke k m ?b (take ?n bs) ?r")
    case (Inl e)
    have "\<not> accessible mem m a (length bs)"
      using Inl law accessible_word [OF assms(2) aligned_down, of m a ?r "length bs"] split_residue [of a]
        residue_less [of a] True by auto
    from wrote_none [OF this] Inl True show ?thesis
      by (simp add: upoken_pokedata_def Let_def)
  next
    case (Inr m1)
    with law have m1: "mem m1 = write_bytes (mem m) a (take ?n bs)" by (simp add: split_residue)
    show ?thesis
    proof (cases "length bs \<le> 8 - ?r")
      case short: True
      with True Inr m1 show ?thesis
        by (simp add: upoken_pokedata_def Let_def poke_words.simps [of k m1 _ "[]"] wrote_def)
    next
      case False
      then have nl: "?n = 8 - ?r" by simp
      obtain j m' s' where j: "poke_words k m1 (?b + 8) (drop ?n bs) ?n s = (?n + j, m', s')"
          "wrote mem m1 (?b + 8) (drop ?n bs) j m'"
        using poke_words_wrote [OF assms(1,2) aligned_next [OF aligned_down [of a]], of "drop ?n bs" m1 ?n s] assms(3)
        by (fastforce simp: le_diff_conv intro: le_trans)
      have "?b + 8 = ?b + of_nat ?r + of_nat ?n"
        unfolding nl using residue_less [of a] by (simp add: of_nat_diff)
      then have "?b + 8 = a + of_nat (length (take ?n bs))" unfolding split_residue n(3) .
      with j(2) assms(3) n(3) have "wrote mem m a (take ?n bs @ drop ?n bs) (?n + j) m'"
        using wrote_append [of mem m1 m a "take ?n bs" "drop ?n bs" j m', OF m1] by simp
      with j(1) Inr True show ?thesis by (auto simp: upoken_pokedata_def Let_def)
    qed
  qed
qed

lemma upoken_wrote:
  assumes "kernel_ok k mem" "length bs < 2 ^ 32"
  shows "\<exists>n m' s'. upoken k wordsize m addr bs s = (n, m', s') \<and> n \<le> length bs
    \<and> mem m' = write_bytes (mem m) addr (take n bs)
    \<and> (accessible mem m addr (length bs) \<and> \<not> tracee_addr_is_invalid wordsize addr \<longrightarrow> n = length bs)"
proof -
  have ok: "ptrace_ok k mem" "pages_ok k mem" "vm_ok k mem" using assms(1) by (simp_all add: kernel_ok_def)
  have w: "case k_vm_writev k m addr bs of
          Inr (n, m') \<Rightarrow> n = length bs \<and> accessible mem m addr n \<and> mem m' = write_bytes (mem m) addr bs
        | Inl e \<Rightarrow> accessible mem m addr (length bs) \<longrightarrow> e \<in> {ENOSYS, EPERM, EFAULT, EIO}"
    using ok(3) by (simp add: vm_ok_def)
  have poke: "\<exists>n m' s'. upoken_pokedata k m addr bs s = (n, m', s') \<and> n \<le> length bs
    \<and> mem m' = write_bytes (mem m) addr (take n bs) \<and> (accessible mem m addr (length bs) \<longrightarrow> n = length bs)" for s
    using upoken_pokedata_wrote [OF ok(1,2), of bs m addr s] assms(2) by (simp add: wrote_def)
  show ?thesis
  proof (cases "tracee_addr_is_invalid wordsize addr")
    case True
    then show ?thesis by (simp add: upoken_def)
  next
    case valid: False
    show ?thesis
    proof (cases "process_vm_writev_not_supported s")
      case True
      then show ?thesis using poke valid by (simp add: upoken_def)
    next
      case False
      show ?thesis
      proof (cases "k_vm_writev k m addr bs")
        case (Inl e)
        then show ?thesis using w poke valid False by (auto simp: upoken_def vm_write_mem_def)
      next
        case (Inr r)
        then show ?thesis using w valid False by (cases r) (simp add: upoken_def vm_write_mem_def)
      qed
    qed
  qed
qed


text \<open>
  A kernel without \<open>process_vm_writev\<close> and with pages of 8 bytes, and a tracee all of whose
  memory is mapped.
\<close>

definition sample_mem :: "(u64 \<Rightarrow> u8) \<Rightarrow> u64 \<Rightarrow> u8 option" where
  "sample_mem m a = Some (m a)"

definition sample_peek :: "(u64 \<Rightarrow> u8) \<Rightarrow> u64 \<Rightarrow> nat \<Rightarrow> u8 list" where
  "sample_peek m a n = map (\<lambda>i. m (a + of_nat i)) [0..<n]"

definition sample_poke :: "(u64 \<Rightarrow> u8) \<Rightarrow> u64 \<Rightarrow> u8 list \<Rightarrow> u64 \<Rightarrow> u8" where
  "sample_poke m a bs = (\<lambda>x. if unat (x - a) < length bs then bs ! unat (x - a) else m x)"

definition sample_kernel :: "(u64 \<Rightarrow> u8) mem_kernel" where
  "sample_kernel = \<lparr>k_pagesize = 8, k_peekdata = (\<lambda>m a. Inr (sample_peek m a 8)),
     k_pokedata = (\<lambda>m a u. Inr (sample_poke m a u)), k_vm_readv = (\<lambda>m a n. Inr (sample_peek m a n)),
     k_vm_writev = (\<lambda>m a bs. Inl ENOSYS)\<rparr>"

lemma sample_kernel_ok: "kernel_ok sample_kernel sample_mem"
proof -
  have "(8 :: u64) = 2 ^ 3" by simp
  then have "\<exists>p. 3 \<le> p \<and> p < 32 \<and> (8 :: u64) = 2 ^ p" by (intro exI [of _ 3]) simp
  then show ?thesis
    by (auto simp: kernel_ok_def ptrace_ok_def vm_ok_def pages_ok_def sample_kernel_def holds_def
        accessible_def sample_mem_def sample_peek_def sample_poke_def write_bytes_def)
qed


section \<open>The page cache\<close>

text \<open>Every page that the cache claims to hold is the page as the tracee has it.\<close>

definition cache_ok :: "'m mem_kernel \<Rightarrow> ('m \<Rightarrow> u64 \<Rightarrow> u8 option) \<Rightarrow> 'm \<Rightarrow> ucopy \<Rightarrow> bool" where
  "cache_ok k mem m s \<longleftrightarrow>
     length (cached_raddr s) = 4 \<and> length (bufs s) = 4 \<and> - 1 \<le> cached_idx s \<and> cached_idx s < 4
     \<and> (\<forall>i < 4. length (bufs s ! i) \<le> unat (k_pagesize k))
     \<and> (cached_idx s \<ge> 0 \<longrightarrow> (\<forall>i < 4. cached_raddr s ! i \<noteq> 0 \<longrightarrow>
          length (bufs s ! i) = unat (k_pagesize k) \<and> holds mem m (cached_raddr s ! i) (bufs s ! i)))"

lemma cache_ok_initial: "cache_ok k mem m initial_ucopy"
  by (simp add: cache_ok_def initial_ucopy_def)

lemma cache_ok_invalidate: "cache_ok k mem m s \<Longrightarrow> cache_ok k mem m' (invalidate_umove_cache s)"
  by (simp add: cache_ok_def invalidate_umove_cache_def)

lemma cache_ok_errno [simp]:
  "cache_ok k mem m (s\<lparr>u_errno := e\<rparr>) = cache_ok k mem m s"
  "cache_ok k mem m (s\<lparr>u_errno := e, process_vm_readv_not_supported := b\<rparr>) = cache_ok k mem m s"
  "cache_ok k mem m (ulog msg s) = cache_ok k mem m s"
  "cache_ok k mem m (ptrace_error what err n s) = cache_ok k mem m s"
  "cache_ok k mem m (umovestr_error e n s) = cache_ok k mem m s"
  by (simp_all add: cache_ok_def ulog_def ptrace_error_def umovestr_error_def Let_def)

lemma find_SomeD: "find P xs = Some x \<Longrightarrow> x \<in> set xs \<and> P x"
  by (induction xs) (auto split: if_splits)

lemma lookup_cached:
  assumes "cache_ok k mem m s" "lookup_cached_raddr_idx a s = Some i" "a \<noteq> 0"
  shows "i < 4" "length (bufs s ! i) = unat (k_pagesize k)" "holds mem m a (bufs s ! i)"
proof -
  have idx: "cached_idx s \<ge> 0" "cached_idx s < 4"
    using assms(1,2) by (auto simp: cache_ok_def lookup_cached_raddr_idx_def split: if_splits)
  from assms(2) idx(1) have "i \<in> set (rev [0..<Suc (nat (cached_idx s))] @ rev [Suc (nat (cached_idx s))..<4])"
      "a = cached_raddr s ! i"
    unfolding lookup_cached_raddr_idx_def by (auto dest!: find_SomeD simp del: upt_Suc)
  then have i: "i < 4" "a = cached_raddr s ! i" using idx by (auto simp del: upt_Suc)
  then show "i < 4" "length (bufs s ! i) = unat (k_pagesize k)" "holds mem m a (bufs s ! i)"
    using assms(1,3) idx by (auto simp: cache_ok_def)
qed

lemma next_idx_less: "get_next_unused_idx s < 4"
  by (simp add: get_next_unused_idx_def nat_less_iff)

lemma cache_page_ok:
  assumes "vm_ok k mem" "cache_ok k mem m s" "a \<noteq> 0" "cache_page k m a s = (r, s')"
  shows "cache_ok k mem m s' \<and>
    (case r of Inr i \<Rightarrow> i < 4 \<and> length (bufs s' ! i) = unat (k_pagesize k) \<and> holds mem m a (bufs s' ! i)
     | Inl e \<Rightarrow> k_vm_readv k m a (unat (k_pagesize k)) = Inl e \<and> u_errno s' = Some e)"
proof (cases "lookup_cached_raddr_idx a s")
  case (Some i)
  with assms(4) have "r = Inr i" "s' = s" by (simp_all add: cache_page_def)
  with lookup_cached [OF assms(2) Some assms(3)] assms(2) show ?thesis by simp
next
  case None
  let ?i = "get_next_unused_idx s"
  have law: "case k_vm_readv k m a (unat (k_pagesize k)) of
      Inr bs \<Rightarrow> length bs = unat (k_pagesize k) \<and> holds mem m a bs | Inl e \<Rightarrow> True"
    using assms(1) by (simp add: vm_ok_def)
  show ?thesis
  proof (cases "k_vm_readv k m a (unat (k_pagesize k))")
    case (Inl e)
    with None assms(2,4) show ?thesis by (auto simp: cache_page_def process_read_mem_def Let_def)
  next
    case (Inr bs)
    let ?s = "s\<lparr>bufs := (bufs s)[?i := bs @ drop (length bs) (bufs s ! ?i)]\<rparr>"
    have r: "r = Inr ?i" "s' = set_cached_raddr_idx a ?i ?s"
      using None assms(4) Inr by (auto simp: cache_page_def process_read_mem_def Let_def)
    have buf: "bufs s' ! ?i = bs" "length bs = unat (k_pagesize k)" "holds mem m a bs" "length (bufs s) = 4"
      "length (cached_raddr s) = 4"
      using law Inr assms(2) next_idx_less [of s]
      by (simp_all add: r set_cached_raddr_idx_def cache_ok_def) 
    have new: "cached_raddr s' ! ?i = a"
      using buf(5) next_idx_less [of s] by (simp add: r set_cached_raddr_idx_def)
    have old: "j \<noteq> ?i \<Longrightarrow> j < 4 \<Longrightarrow> bufs s' ! j = bufs s ! j
        \<and> cached_raddr s' ! j = (if cached_idx s < 0 then 0 else cached_raddr s ! j)" for j
      by (simp add: r set_cached_raddr_idx_def)
    have "cached_raddr s' ! j \<noteq> 0 \<longrightarrow>
        length (bufs s' ! j) = unat (k_pagesize k) \<and> holds mem m (cached_raddr s' ! j) (bufs s' ! j)" if "j < 4" for j
      using assms(2) that buf new old [of j] by (cases "j = ?i") (auto simp: cache_ok_def)
    moreover have "length (bufs s' ! j) \<le> unat (k_pagesize k)" if "j < 4" for j
      using assms(2) that buf old [of j] by (cases "j = ?i") (auto simp: cache_ok_def)
    moreover have "length (cached_raddr s') = 4" "length (bufs s') = 4" "cached_idx s' = int ?i"
      using buf by (simp_all add: r set_cached_raddr_idx_def)
    ultimately show ?thesis using buf next_idx_less [of s] unfolding cache_ok_def r(1) by simp
  qed
qed

section \<open>Reading\<close>

text \<open>Where \<open>process_vm_readv\<close> can be used, it reads what is accessible.\<close>

definition readv_works :: "'m mem_kernel \<Rightarrow> ('m \<Rightarrow> u64 \<Rightarrow> u8 option) \<Rightarrow> 'm \<Rightarrow> bool" where
  "readv_works k mem m \<longleftrightarrow>
     (\<forall>a n. accessible mem m a n \<longrightarrow> (\<exists>bs. k_vm_readv k m a n = Inr bs))"

lemma readv_worksD:
  "readv_works k mem m \<Longrightarrow> accessible mem m a n \<Longrightarrow> k_vm_readv k m a n = Inl e \<Longrightarrow> False"
  unfolding readv_works_def by force

lemma unat_and_exp: "q < 64 \<Longrightarrow> unat (a AND (2 ^ q - 1) :: u64) = unat a mod 2 ^ q"
  unfolding mask_eq_exp_minus_1 [symmetric] take_bit_eq_mask [symmetric]
  by (simp add: take_bit_eq_mod unat_mod_distrib unat_exp)

lemma unat_exp_minus:
  assumes "off \<le> 2 ^ q" "q < 64"
  shows "unat (2 ^ q - of_nat off :: u64) = 2 ^ q - off"
proof -
  have "(2 :: nat) ^ q < 2 ^ 64" using assms(2) by (intro power_strict_increasing) simp_all
  moreover have "(2 ^ q - of_nat off :: u64) = of_nat (2 ^ q - off)" using assms(1) by (simp add: of_nat_diff)
  ultimately show ?thesis by (simp only: unat_of_nat) (simp add: less_imp_diff_less)
qed

lemma accessible_page:
  assumes "pages_ok k mem" "ps AND (k_pagesize k - 1) = 0" "off < unat (k_pagesize k)" "0 < n"
    and "accessible mem m (ps + of_nat off) n"
  shows "accessible mem m ps (unat (k_pagesize k))"
proof -
  have w: "i < unat (k_pagesize k) \<Longrightarrow> mem m (ps + of_nat i) = None \<longleftrightarrow> mem m ps = None" for i
    using assms(1,2) by (simp add: pages_ok_def)
  have "mem m (ps + of_nat off) \<noteq> None" using assms(4,5) by (auto simp: accessible_def)
  with w [OF assms(3)] w show ?thesis by (auto simp: accessible_def)
qed

text \<open>The outcome of a read of \<open>len\<close> bytes at \<open>a\<close>, after \<open>acc\<close>.\<close>

definition read_result ::
  "'m mem_kernel \<Rightarrow> ('m \<Rightarrow> u64 \<Rightarrow> u8 option) \<Rightarrow> 'm \<Rightarrow> u64 \<Rightarrow> nat \<Rightarrow> u8 list \<Rightarrow> (errno + u8 list) \<times> ucopy \<Rightarrow> bool"
where
  "read_result k mem m a len acc = (\<lambda>(r, s).
     cache_ok k mem m s
     \<and> (case r of Inl e \<Rightarrow> acc = [] \<and> u_errno s = Some e
        | Inr bs \<Rightarrow> take (length acc) bs = acc \<and> length acc \<le> length bs \<and> length bs \<le> length acc + len
            \<and> holds mem m a (drop (length acc) bs))
     \<and> (readv_works k mem m \<and> accessible mem m a len \<longrightarrow> (\<exists>bs. r = Inr bs \<and> length bs = length acc + len)))"

lemma read_result_step:
  assumes "read_result k mem m (a + of_nat (length xs)) len (acc @ xs) (r, s)" "holds mem m a xs" "xs \<noteq> []"
  shows "read_result k mem m a (length xs + len) acc (r, s)"
proof (cases r)
  case (Inl e)
  with assms show ?thesis by (auto simp: read_result_def)
next
  case (Inr bs)
  from assms(1) Inr have bs: "cache_ok k mem m s" "take (length acc + length xs) bs = acc @ xs"
      "length acc + length xs \<le> length bs" "length bs \<le> length acc + length xs + len"
      "holds mem m (a + of_nat (length xs)) (drop (length acc + length xs) bs)"
    by (simp_all add: read_result_def)
  have pre: "bs = acc @ xs @ drop (length acc + length xs) bs"
    using append_take_drop_id [of "length acc + length xs" bs] unfolding bs(2) by simp
  have "holds mem m a (xs @ drop (length acc + length xs) bs)"
    using assms(2) bs(5) by (simp add: holds_append)
  moreover have "drop (length acc) bs = xs @ drop (length acc + length xs) bs" "take (length acc) bs = acc"
    by (subst pre, simp)+
  ultimately show ?thesis using assms(1) Inr bs
    by (auto simp: read_result_def accessible_add)
qed

lemma vm_read_loop_ok:
  assumes ok: "vm_ok k mem" "pages_ok k mem" and p: "k_pagesize k = 2 ^ q" "q < 32"
    and "cache_ok k mem m s" "ps \<noteq> 0" "ps AND (k_pagesize k - 1) = 0" "off < 2 ^ q" "0 < len"
    and "unat ps + off + len + 2 ^ q \<le> 2 ^ 64"
  shows "\<exists>r. vm_read_loop k m ps (ps + of_nat off) len acc s = Some r
    \<and> read_result k mem m (ps + of_nat off) len acc r"
  using assms(5-)
proof (induction len arbitrary: ps off acc s rule: less_induct)
  case (less len)
  have q64: "(2 :: nat) ^ q < 2 ^ 32" using p(2) by (intro power_strict_increasing) simp_all
  have ups: "unat (k_pagesize k) = 2 ^ q" using p by (simp add: unat_exp)
  have diff: "unat (of_nat off :: u64) = off" using less.prems(4) q64 by (simp add: unat_of_nat)
  have inp: "unat (k_pagesize k - of_nat off) = 2 ^ q - off"
    using less.prems(4) p by (simp add: unat_exp_minus)
  obtain r s' where cp: "cache_page k m ps s = (r, s')" by (cases "cache_page k m ps s")
  note c = cache_page_ok [OF ok(1) less.prems(1,2) cp]
  note unfold = vm_read_loop.simps [of k m ps "ps + of_nat off" len acc s]
  show ?case
  proof (cases r)
    case (Inl e)
    have "\<not> (readv_works k mem m \<and> accessible mem m (ps + of_nat off) len)"
      using c Inl accessible_page [OF ok(2) less.prems(3), of off len m] less.prems(4,5) ups
      by (fastforce simp: readv_works_def)
    with c cp Inl show ?thesis by (auto simp: unfold read_result_def holds_def)
  next
    case (Inr i)
    let ?b = "bufs s' ! i"
    have b: "cache_ok k mem m s'" "length ?b = 2 ^ q" "holds mem m ps ?b" using c Inr ups by simp_all
    have hb: "holds mem m (ps + of_nat off) (take n (drop off ?b))" for n
      using holds_take [OF holds_drop [OF b(3)]] b(2) less.prems(4) by simp
    show ?thesis
    proof (cases "len \<le> 2 ^ q - off")
      case True
      then have "vm_read_loop k m ps (ps + of_nat off) len acc s = Some (Inr (acc @ take len (drop off ?b)), s')"
        by (subst unfold) (simp add: cp Inr inp diff Let_def)
      with b hb True show ?thesis by (simp add: read_result_def)
    next
      case False
      let ?n = "2 ^ q - off" and ?xs = "take (2 ^ q - off) (drop off ?b)" and ?ps = "ps + k_pagesize k"
      have xs: "length ?xs = ?n" "?xs \<noteq> []" using b(2) less.prems(4) by auto
      have ups': "unat ?ps = unat ps + 2 ^ q"
        using less.prems(4,6) False ups by (subst unat_plus_simple [THEN iffD1]) (auto simp: word_le_nat_alt unat_word_ariths)
      have step: "vm_read_loop k m ps (ps + of_nat off) len acc s
          = vm_read_loop k m ?ps (?ps + of_nat 0) (len - ?n) (acc @ ?xs) s'"
        using False by (subst unfold) (simp add: cp Inr inp diff Let_def)
      have "\<exists>r. vm_read_loop k m ?ps (?ps + of_nat 0) (len - ?n) (acc @ ?xs) s' = Some r
          \<and> read_result k mem m (?ps + of_nat 0) (len - ?n) (acc @ ?xs) r"
      proof (rule less.IH [OF _ b(1)])
        show "len - ?n < len" using less.prems(4,5) by simp
        have "unat ?ps \<noteq> 0" unfolding ups' by simp
        then show "?ps \<noteq> 0" by (metis unat_0)
        have "unat (?ps AND (2 ^ q - 1)) = unat (ps AND (2 ^ q - 1))"
          using p(2) ups' by (simp add: unat_and_exp)
        then show "?ps AND (k_pagesize k - 1) = 0" using less.prems(3) p(1) by (simp add: unat_eq_zero)
        show "unat ?ps + 0 + (len - ?n) + 2 ^ q \<le> 2 ^ 64" using less.prems(4,6) False ups' by simp
      qed (use False in simp_all)
      moreover have "?ps + of_nat 0 = ps + of_nat off + of_nat (length ?xs)"
        unfolding xs(1) p(1) using less.prems(4) by (simp add: of_nat_diff)
      moreover have "len = length ?xs + (len - ?n)" unfolding xs(1) using False by simp
      ultimately show ?thesis
        unfolding step using read_result_step [OF _ hb [of ?n] xs(2), of k "len - ?n" acc]
        by (metis surj_pair)
    qed
  qed
qed

lemma page_split:
  assumes "q < 32"
  shows "(a AND NOT (2 ^ q - 1)) + of_nat (unat a mod 2 ^ q) = (a :: u64)"
    and "unat (a AND NOT (2 ^ q - 1)) + unat a mod 2 ^ q = unat a"
proof -
  let ?m = "2 ^ q - 1 :: u64"
  have s: "(a AND NOT ?m) + (a AND ?m) = a" by (rule split_mask)
  moreover have u: "unat (a AND ?m) = unat a mod 2 ^ q" using assms by (intro unat_and_exp) simp
  ultimately show "(a AND NOT ?m) + of_nat (unat a mod 2 ^ q) = a" by (metis of_nat_unat ucast_id)
  have "a AND NOT ?m \<le> (a AND NOT ?m) + (a AND ?m)" unfolding s by (rule word_and_le2)
  then have "unat ((a AND NOT ?m) + (a AND ?m)) = unat (a AND NOT ?m) + unat (a AND ?m)"
    by (simp only: unat_plus_simple)
  then show "unat (a AND NOT ?m) + unat a mod 2 ^ q = unat a" unfolding s u by simp
qed

lemma wrap_arith:
  fixes u :: nat
  assumes "after \<le> u + len + (P - 1) - 2 ^ 64" "r < P" "start + r = u" "\<not> u + len + P \<le> 2 ^ 64"
    and "u < 2 ^ 64" "len < 2 ^ 32" "P \<le> 2 ^ 31"
  shows "after < start"
  using assms by simp

lemma no_wrap:
  assumes "q < 32" "len < 2 ^ 32"
    and "\<not> (a + of_nat len + (2 ^ q - 1)) AND NOT (2 ^ q - 1) < (a :: u64) AND NOT (2 ^ q - 1)"
  shows "unat a + len + 2 ^ q \<le> 2 ^ 64"
proof (rule ccontr)
  assume wrap: "\<not> ?thesis"
  let ?t = "unat a + len + 2 ^ q - 1"
  have q: "(2 :: nat) ^ q \<le> 2 ^ 31" using assms(1) by (intro power_increasing) simp_all
  have l: "unat a < 2 ^ 64" by (rule unat64_less)
  have "(2 ^ q - 1 :: u64) = of_nat (2 ^ q - 1)" by (simp add: of_nat_diff)
  then have "a + of_nat len + (2 ^ q - 1) = of_nat (unat a + len + (2 ^ q - 1))"
    by (simp only: of_nat_add) simp
  then have "unat (a + of_nat len + (2 ^ q - 1)) = (unat a + len + (2 ^ q - 1)) mod 2 ^ 64"
    by (simp only: unat_of_nat) simp
  also have "\<dots> = unat a + len + (2 ^ q - 1) - 2 ^ 64"
    using wrap l assms(2) q by (subst le_mod_geq) auto
  finally have sum: "unat (a + of_nat len + (2 ^ q - 1)) = unat a + len + (2 ^ q - 1) - 2 ^ 64" .
  have "unat ((a + of_nat len + (2 ^ q - 1)) AND NOT (2 ^ q - 1)) \<le> unat (a + of_nat len + (2 ^ q - 1))"
    by (simp only: word_le_nat_alt [symmetric]) (rule word_and_le2)
  then have "unat ((a + of_nat len + (2 ^ q - 1)) AND NOT (2 ^ q - 1)) < unat (a AND NOT (2 ^ q - 1))"
    unfolding sum by (rule wrap_arith [OF _ _ page_split(2) [OF assms(1), of a] wrap l assms(2) q]) simp
  with assms(3) show False by (simp add: word_less_nat_alt)
qed

lemma vm_read_mem_ok:
  assumes "vm_ok k mem" "pages_ok k mem" "cache_ok k mem m s" "len < 2 ^ 32"
  shows "\<exists>r. vm_read_mem k m a len s = Some r \<and> read_result k mem m a len [] r"
proof -
  obtain q where q: "q < 32" "k_pagesize k = 2 ^ q" using assms(2) by (auto simp: pages_ok_def)
  let ?mk = "k_pagesize k - 1"
  let ?ps = "a AND NOT ?mk" and ?after = "(a + of_nat len + ?mk) AND NOT ?mk"
  consider "len = 0" | "0 < len" "?ps = 0 \<or> ?after < ?ps \<or> ?after - ?ps > 4 * k_pagesize k"
    | "0 < len" "?ps \<noteq> 0" "\<not> ?after < ?ps" "\<not> ?after - ?ps > 4 * k_pagesize k" by blast
  then show ?thesis
  proof cases
    case 1
    then show ?thesis using assms(3) by (simp add: vm_read_mem_def read_result_def holds_def)
  next
    case 2
    have "case k_vm_readv k m a len of Inr bs \<Rightarrow> length bs = len \<and> holds mem m a bs | Inl e \<Rightarrow> True"
      using assms(1) by (simp add: vm_ok_def)
    then have "read_result k mem m a len [] (process_read_mem k m a len s)"
      using assms(3) by (cases "k_vm_readv k m a len")
        (auto simp: process_read_mem_def read_result_def dest: readv_worksD)
    moreover have "vm_read_mem k m a len s = Some (process_read_mem k m a len s)"
      using 2 by (auto simp: vm_read_mem_def Let_def)
    ultimately show ?thesis by blast
  next
    case 3
    note nw = no_wrap [OF q(1) assms(4) 3(3) [unfolded q(2)]]
    have "\<exists>r. vm_read_loop k m ?ps (?ps + of_nat (unat a mod 2 ^ q)) len [] s = Some r
        \<and> read_result k mem m (?ps + of_nat (unat a mod 2 ^ q)) len [] r"
      using assms(1-3) q 3 nw page_split(2) [OF q(1), of a]
      by (intro vm_read_loop_ok [where q = q]) (auto simp: mask_down)
    moreover have "vm_read_mem k m a len s = vm_read_loop k m ?ps a len [] s"
      using 3 by (auto simp: vm_read_mem_def Let_def)
    moreover have "?ps + of_nat (unat a mod 2 ^ q) = a"
      unfolding q(2) by (rule page_split(1) [OF q(1)])
    ultimately show ?thesis by simp
  qed
qed

text \<open>
  The outcome of a copy: a status, and bytes of the tracee; with status 0 all of them, and status
  \<open>-1\<close> only if some are out of reach.
\<close>

definition copied ::
  "'m mem_kernel \<Rightarrow> ('m \<Rightarrow> u64 \<Rightarrow> u8 option) \<Rightarrow> 'm \<Rightarrow> u64 \<Rightarrow> nat \<Rightarrow> bool \<Rightarrow> (int \<times> u8 list) \<times> ucopy \<Rightarrow> bool"
where
  "copied k mem m a len reachable = (\<lambda>((rc, bs), s).
     cache_ok k mem m s \<and> length bs \<le> len \<and> holds mem m a bs
     \<and> (rc = 0 \<and> length bs = len \<or> rc = - 1)
     \<and> (reachable \<and> accessible mem m a len \<longrightarrow> rc = 0))"

lemma umoven_peekdata_ok:
  assumes ok: "ptrace_ok k mem" "pages_ok k mem" and "cache_ok k mem m s" "residue < 8"
    and "holds mem m a0 acc" "(a AND - 8) + of_nat residue = a0 + of_nat (length acc)"
  shows "\<exists>r. umoven_peekdata k m a residue len acc s = Some r
    \<and> copied k mem m a0 (length acc + len) True r"
  using assms(3-)
proof (induction len arbitrary: a residue acc s rule: less_induct)
  case (less len)
  note unfold = umoven_peekdata.simps [of k m a residue len acc s]
  show ?case
  proof (cases "len = 0")
    case True
    with less.prems show ?thesis unfolding unfold by (simp add: copied_def)
  next
    case False
    let ?b = "a AND - 8" and ?n = "min (8 - residue) len"
    note law = peek_law [OF ok(1) aligned_down [of a], of m]
    show ?thesis
    proof (cases "k_peekdata k m ?b")
      case (Inl e)
      have "\<not> accessible mem m ?b 8" using law Inl by simp
      then have "\<not> accessible mem m (a0 + of_nat (length acc)) len"
        using accessible_word [OF ok(2) aligned_down [of a], of m residue len] less.prems(2,4) False by auto
      with Inl False less.prems show ?thesis
        by (simp add: unfold copied_def accessible_add)
    next
      case (Inr u)
      with law have u: "length u = 8" "holds mem m ?b u" by simp_all
      let ?xs = "take ?n (drop residue u)"
      have xs: "length ?xs = ?n" using u(1) by simp
      have "holds mem m (a0 + of_nat (length acc)) ?xs"
        using holds_take [OF holds_drop [OF u(2)], of residue] u(1) less.prems(2,4) by simp
      with less.prems(3) have h: "holds mem m a0 (acc @ ?xs)" by (simp add: holds_append)
      have step: "umoven_peekdata k m a residue len acc s
          = umoven_peekdata k m (?b + 8) 0 (len - ?n) (acc @ ?xs) (s\<lparr>u_errno := None\<rparr>)"
        using False Inr by (subst unfold) (simp add: Let_def)
      have next_a: "(?b + 8) AND - 8 = ?b + 8" by (intro residue_aligned(2) aligned_next aligned_down)
      have "\<exists>r. umoven_peekdata k m (?b + 8) 0 (len - ?n) (acc @ ?xs) (s\<lparr>u_errno := None\<rparr>) = Some r
          \<and> copied k mem m a0 (length (acc @ ?xs) + (len - ?n)) True r"
      proof (cases "len \<le> 8 - residue")
        case True
        then show ?thesis using h xs less.prems(1)
          by (subst umoven_peekdata.simps) (simp add: copied_def)
      next
        case big: False
        have "?b + 8 = ?b + of_nat residue + of_nat ?n"
          using less.prems(2) big by (simp add: of_nat_diff min_def)
        then show ?thesis using less.prems(1,2,4) False h xs next_a
          by (intro less.IH) (auto simp: add.assoc)
      qed
      then show ?thesis unfolding step using xs by simp
    qed
  qed
qed

lemma umoven_peekdata_start:
  assumes "ptrace_ok k mem" "pages_ok k mem" "cache_ok k mem m s"
  shows "\<exists>r. umoven_peekdata k m a (residue_of a) len [] s = Some r \<and> copied k mem m a len True r"
  using umoven_peekdata_ok [OF assms, of "residue_of a" a "[]" a len] residue_less [of a] split_residue [of a]
  by (simp add: holds_def)

text \<open>
  \<open>process_vm_readv\<close> is refused altogether, by an old kernel or a security policy; then nothing
  was cached either.
\<close>

definition readv_refused :: "'m mem_kernel \<Rightarrow> 'm \<Rightarrow> ucopy \<Rightarrow> bool" where
  "readv_refused k m s \<longleftrightarrow>
     cached_idx s < 0
     \<and> (\<exists>e. (e = ENOSYS \<or> e = EPERM) \<and> (\<forall>a n. 0 < n \<longrightarrow> k_vm_readv k m a n = Inl e))"

lemma vm_read_mem_refused:
  assumes "readv_refused k m s" "0 < len" "0 < unat (k_pagesize k)"
  shows "\<exists>e s'. vm_read_mem k m a len s = Some (Inl e, s') \<and> (e = ENOSYS \<or> e = EPERM)"
  using assms
  by (auto simp: readv_refused_def vm_read_mem_def process_read_mem_def Let_def cache_page_def
      lookup_cached_raddr_idx_def vm_read_loop.simps)

lemma umoven_copied:
  assumes "kernel_ok k mem" "cache_ok k mem m s"
  shows "\<exists>rc bs s'. umoven k wordsize m addr len s = Some ((rc, bs), s')
    \<and> cache_ok k mem m s' \<and> length bs \<le> unat len \<and> holds mem m addr bs
    \<and> (rc = 0 \<and> length bs = unat len \<or> rc = - 1)
    \<and> ((readv_works k mem m \<or> process_vm_readv_not_supported s \<or> readv_refused k m s)
        \<and> accessible mem m addr (unat len) \<and> \<not> tracee_addr_is_invalid wordsize addr \<longrightarrow> rc = 0)"
proof -
  have ok: "ptrace_ok k mem" "pages_ok k mem" "vm_ok k mem" using assms(1) by (simp_all add: kernel_ok_def)
  note peek = umoven_peekdata_start [OF ok(1,2)]
  obtain r s1 where vm: "vm_read_mem k m addr (unat len) s = Some (r, s1)"
      "read_result k mem m addr (unat len) [] (r, s1)"
    using vm_read_mem_ok [OF ok(3,2) assms(2), of "unat len" addr] unat32_less [of len] by auto
  have c1: "cache_ok k mem m s1" using vm(2) by (simp add: read_result_def)
  have pg: "0 < unat (k_pagesize k)" using ok(2) by (auto simp: pages_ok_def unat_exp)
  consider "tracee_addr_is_invalid wordsize addr"
    | "\<not> tracee_addr_is_invalid wordsize addr" "process_vm_readv_not_supported s"
    | bs where "\<not> tracee_addr_is_invalid wordsize addr" "\<not> process_vm_readv_not_supported s" "r = Inr bs"
    | e where "\<not> tracee_addr_is_invalid wordsize addr" "\<not> process_vm_readv_not_supported s" "r = Inl e"
    by (cases r) blast+
  then show ?thesis
  proof cases
    case 1
    then show ?thesis using assms(2) by (simp add: umoven_def holds_def)
  next
    case 2
    then show ?thesis using peek [OF assms(2), of addr "unat len"] by (auto simp: umoven_def copied_def)
  next
    case 3
    have "\<not> readv_refused k m s" if "length bs \<noteq> unat len"
      using vm_read_mem_refused [of k m s "unat len" addr] vm 3(3) pg that by (auto simp: read_result_def)
    then show ?thesis using 3 vm by (auto simp: umoven_def read_result_def)
  next
    case 4
    show ?thesis
    proof (cases "e = ENOSYS \<or> e = EPERM")
      case True
      then show ?thesis using 4 vm(1) peek [OF c1, of addr "unat len"] by (auto simp: umoven_def copied_def)
    next
      case False
      have "\<not> readv_refused k m s"
        using vm_read_mem_refused [of k m s "unat len" addr] vm(1) 4(3) pg False
        by (cases "len = 0") (auto simp: vm_read_mem_def unat_gt_0)
      then show ?thesis using 4 vm False by (auto simp: umoven_def read_result_def holds_def)
    qed
  qed
qed



section \<open>Strings\<close>

lemma find_nul_Some:
  "find_nul bs = Some j \<longleftrightarrow> j < length bs \<and> bs ! j = 0 \<and> (\<forall>i < j. bs ! i \<noteq> 0)"
proof (induction bs arbitrary: j)
  case (Cons b bs)
  then show ?case by (cases j) (auto simp: All_less_Suc2)
qed simp

lemma find_nul_None: "find_nul bs = None \<longleftrightarrow> 0 \<notin> set bs"
  by (induction bs) auto

lemma chunk_arith:
  fixes off :: nat
  assumes "off < P" "0 < n" "n \<le> P"
  shows "0 < (if n > (off + n) mod P then n - (off + n) mod P else n)"
    "(if n > (off + n) mod P then n - (off + n) mod P else n) \<le> n"
    "off + (if n > (off + n) mod P then n - (off + n) mod P else n) \<le> P"
proof -
  have "(off + n) mod P = (if off + n < P then off + n else off + n - P)"
    using assms by (auto simp: le_mod_geq)
  then show "0 < (if n > (off + n) mod P then n - (off + n) mod P else n)"
    "(if n > (off + n) mod P then n - (off + n) mod P else n) \<le> n"
    "off + (if n > (off + n) mod P then n - (off + n) mod P else n) \<le> P"
    using assms by (auto split: if_splits)
qed

lemma chunk_in_page:
  fixes a :: u64
  assumes "q < 32" "0 < len"
  defines "c \<equiv> chunk_len (2 ^ q) a len"
  shows "0 < c" "c \<le> len" "unat a mod 2 ^ q + c \<le> 2 ^ q"
proof -
  let ?off = "unat a mod 2 ^ q"
  define chunk where "chunk = min len (2 ^ q)"
  have q: "(2 :: nat) ^ q < 2 ^ 32" using assms(1) by (intro power_strict_increasing) simp_all
  have dvd: "(2 :: nat) ^ q dvd 2 ^ 64" using assms(1) by (intro le_imp_power_dvd) simp
  have ch: "0 < chunk" "chunk \<le> len" "chunk \<le> 2 ^ q" using assms(2) by (simp_all add: chunk_def)
  have "a + of_nat chunk = of_nat (unat a + chunk)" by simp
  then have "unat (a + of_nat chunk) = (unat a + chunk) mod 2 ^ 64" by (simp only: unat_of_nat) simp
  then have "unat ((a + of_nat chunk) AND (2 ^ q - 1)) = (unat a + chunk) mod 2 ^ q"
    using assms(1) dvd by (simp only: unat_and_exp mod_mod_cancel)
  also have "\<dots> = (?off + chunk) mod 2 ^ q" by (simp add: mod_add_left_eq)
  finally have e: "unat ((a + of_nat chunk) AND (2 ^ q - 1)) = (?off + chunk) mod 2 ^ q" .
  have off: "?off < 2 ^ q" by simp
  have c: "c = (if chunk > (?off + chunk) mod 2 ^ q then chunk - (?off + chunk) mod 2 ^ q else chunk)"
    using assms(1) e by (auto simp: c_def chunk_len_def Let_def chunk_def min_def unat_exp)
  show "0 < c" "c \<le> len" "?off + c \<le> 2 ^ q"
    using chunk_arith [OF off ch(1,3)] ch(2) unfolding c by simp_all
qed

lemma chunk_accessible:
  assumes "pages_ok k mem" "0 < len" "mem m a \<noteq> None"
  shows "accessible mem m a (chunk_len (k_pagesize k) a len)"
proof -
  obtain q where q: "q < 32" "k_pagesize k = 2 ^ q" using assms(1) by (auto simp: pages_ok_def)
  let ?ps = "a AND NOT (k_pagesize k - 1)" and ?off = "unat a mod 2 ^ q"
  have a: "?ps + of_nat ?off = a" unfolding q(2) by (rule page_split(1) [OF q(1)])
  have "accessible mem m (?ps + of_nat ?off) 1" unfolding a using assms(3) by (simp add: accessible_def)
  then have "accessible mem m ?ps (unat (k_pagesize k))"
    using q by (intro accessible_page [OF assms(1), of _ ?off 1]) (simp_all add: mask_down unat_exp)
  moreover have "?off + chunk_len (k_pagesize k) a len \<le> unat (k_pagesize k)"
    using chunk_in_page(3) [OF q(1) assms(2), of a] q by (simp add: unat_exp)
  ultimately have "accessible mem m ?ps (?off + chunk_len (k_pagesize k) a len)"
    by (auto simp: accessible_def)
  then show ?thesis by (simp add: accessible_add a)
qed

text \<open>
  What \<open>umovestr\<close> promises: the length with the terminating zero, 0 if there is none among the
  \<open>len\<close> bytes, and \<open>-1\<close> if the string reaches memory that the tracee does not have.
\<close>

definition string_copied ::
  "'m mem_kernel \<Rightarrow> ('m \<Rightarrow> u64 \<Rightarrow> u8 option) \<Rightarrow> 'm \<Rightarrow> u64 \<Rightarrow> nat \<Rightarrow> (int \<times> u8 list) \<times> ucopy \<Rightarrow> bool"
where
  "string_copied k mem m a len = (\<lambda>((rc, bs), s).
     cache_ok k mem m s \<and> length bs \<le> len \<and> holds mem m a bs
     \<and> ((\<exists>j. find_nul bs = Some j \<and> rc = int j + 1)
        \<or> rc = 0 \<and> find_nul bs = None \<and> length bs = len
        \<or> rc = - 1 \<and> find_nul bs = None \<and> length bs < len \<and> mem m (a + of_nat (length bs)) = None))"

lemma find_nul_append: "find_nul xs = None \<Longrightarrow> find_nul (xs @ ys) = map_option (\<lambda>j. length xs + j) (find_nul ys)"
  by (induction xs) (auto simp: map_option_case split: if_splits option.splits)

lemma umovestr_peekdata_none:
  assumes "ptrace_ok k mem" "mem m a = None" "0 < len"
  shows "umovestr_peekdata k m a (residue_of a) len [] s = Some ((- 1, []),
    ptrace_error ''short read'' (projl (k_peekdata k m (a AND - 8))) 0 s)"
proof (cases "k_peekdata k m (a AND - 8)")
  case (Inl e)
  then show ?thesis using assms(3) by (subst umovestr_peekdata.simps) (simp add: Let_def)
next
  case (Inr u)
  then have "length u = 8" "holds mem m (a AND - 8) u"
    using peek_law [OF assms(1) aligned_down [of a], of m] by simp_all
  then have "mem m ((a AND - 8) + of_nat (residue_of a)) \<noteq> None" using residue_less [of a] by (auto simp: holds_def)
  with assms(2) show ?thesis by (simp add: split_residue)
qed

lemma umovestr_loop_ok:
  assumes ok: "kernel_ok k mem" "readv_works k mem m"
    and "cache_ok k mem m s" "len < 2 ^ 32" "find_nul acc = None" "holds mem m a acc"
  shows "\<exists>r. umovestr_loop k m (a + of_nat (length acc)) len acc s = Some r
    \<and> string_copied k mem m a (length acc + len) r"
  using assms(3-)
proof (induction len arbitrary: acc s rule: less_induct)
  case (less len)
  have ok': "ptrace_ok k mem" "pages_ok k mem" "vm_ok k mem" using ok(1) by (simp_all add: kernel_ok_def)
  obtain q where q: "q < 32" "k_pagesize k = 2 ^ q" using ok'(2) by (auto simp: pages_ok_def)
  let ?a = "a + of_nat (length acc)"
  let ?c = "chunk_len (k_pagesize k) ?a len"
  note unfold = umovestr_loop.simps [of k m ?a len acc s]
  show ?case
  proof (cases "len = 0")
    case True
    with less.prems show ?thesis unfolding unfold by (simp add: string_copied_def)
  next
    case False
    then have c: "0 < ?c" "?c \<le> len" using chunk_in_page [OF q(1), of len ?a] q(2) by simp_all
    obtain r s1 where vm: "vm_read_mem k m ?a ?c s = Some (r, s1)" "read_result k mem m ?a ?c [] (r, s1)"
      using vm_read_mem_ok [OF ok'(3,2) less.prems(1), of ?c ?a] c(2) less.prems(2) by auto
    have c1: "cache_ok k mem m s1" using vm(2) by (simp add: read_result_def)
    show ?thesis
    proof (cases "\<exists>bs. r = Inr bs \<and> bs \<noteq> []")
      case True
      then obtain bs where bs: "r = Inr bs" "bs \<noteq> []" by blast
      with vm(2) have h: "length bs \<le> ?c" "holds mem m a (acc @ bs)"
        using less.prems(4) by (simp_all add: read_result_def holds_append)
      show ?thesis
      proof (cases "find_nul bs")
        case (Some j)
        with less.prems(3) have "find_nul (acc @ bs) = Some (length acc + j)" by (simp add: find_nul_append)
        with Some False vm(1) bs h c c1 show ?thesis
          unfolding unfold by (simp add: string_copied_def)
      next
        case None
        with less.prems(3) have nn: "find_nul (acc @ bs) = None" by (simp add: find_nul_append)
        have "\<exists>r. umovestr_loop k m (a + of_nat (length (acc @ bs))) (len - length bs) (acc @ bs) s1 = Some r
            \<and> string_copied k mem m a (length (acc @ bs) + (len - length bs)) r"
        proof (rule less.IH [OF _ c1 _ nn h(2)])
          show "len - length bs < len" "len - length bs < 2 ^ 32" using bs(2) False less.prems(2) by simp_all
        qed
        then show ?thesis
          using None False vm(1) bs h c unfolding unfold by (simp add: add.assoc)
      qed
    next
      case none: False
      have "\<not> accessible mem m ?a ?c"
      proof
        assume "accessible mem m ?a ?c"
        with vm(2) ok(2) obtain bs where "r = Inr bs" "length bs = ?c" by (auto simp: read_result_def)
        with none c(1) show False by auto
      qed
      then have un: "mem m ?a = None" using chunk_accessible [OF ok'(2), of len m ?a] False by (cases "mem m ?a") auto
      have body: "umovestr_loop k m ?a len acc s =
          (if u_errno s1 \<in> {Some ENOSYS, Some EPERM} \<and> acc = []
           then umovestr_peekdata k m ?a (residue_of ?a) len [] s1
           else Some ((- 1, acc), umovestr_error (u_errno s1) (length acc) s1))"
        using False vm(1) none unfolding unfold by (cases r) simp_all
      show ?thesis
      proof (cases "u_errno s1 \<in> {Some ENOSYS, Some EPERM} \<and> acc = []")
        case True
        then show ?thesis unfolding body
          using un c1 False umovestr_peekdata_none [OF ok'(1) un, of len s1]
          by (simp add: string_copied_def holds_def)
      next
        case nofall: False
        then show ?thesis unfolding body if_not_P [OF nofall]
          using un c1 less.prems(3,4) False by (simp add: string_copied_def)
      qed
    qed
  qed
qed

lemma umovestr_string:
  assumes "kernel_ok k mem" "readv_works k mem m" "cache_ok k mem m s"
    and "\<not> process_vm_readv_not_supported s" "\<not> tracee_addr_is_invalid wordsize addr"
  shows "\<exists>rc bs s'. umovestr k wordsize m addr len s = Some ((rc, bs), s')
    \<and> cache_ok k mem m s' \<and> length bs \<le> unat len \<and> holds mem m addr bs
    \<and> ((\<exists>j. find_nul bs = Some j \<and> rc = int j + 1)
       \<or> rc = 0 \<and> find_nul bs = None \<and> length bs = unat len
       \<or> rc = - 1 \<and> find_nul bs = None \<and> length bs < unat len \<and> mem m (addr + of_nat (length bs)) = None)"
proof -
  obtain r where "umovestr k wordsize m addr len s = Some r" "string_copied k mem m addr (unat len) r"
    using umovestr_loop_ok [OF assms(1-3), of "unat len" "[]" addr] unat32_less [of len] assms(4,5)
    by (auto simp: umovestr_def holds_def)
  then show ?thesis unfolding string_copied_def by (cases r) blast
qed


definition sample_text :: "u64 \<Rightarrow> u8" where
  "sample_text a = (if a = 0x1007 then 0 else 65)"


text \<open>
  C35: On the legacy path the result of \<open>umovestr\<close> is too large by the offset of the address in its
  word: where a string ends in the word in which it starts, the value is not its length plus one,
  as the comment of the function says, but that plus the offset, and a zero byte beyond the \<open>len\<close>
  bytes asked for counts as well.
\<close>

theorem umovestr_peekdata_offset:
  assumes "ptrace_ok k mem" "holds mem m addr (str @ [0])" "0 \<notin> set str"
    and "residue_of addr + length str < 8" "len \<noteq> 0"
    and "process_vm_readv_not_supported s" "\<not> tracee_addr_is_invalid wordsize addr"
    and "accessible mem m (addr AND - 8) 8"
  shows "\<exists>bs s'. umovestr k wordsize m addr len s
    = Some ((int (length str) + 1 + int (residue_of addr), bs), s') \<and> length bs \<le> unat len"
proof -
  let ?r = "residue_of addr" and ?b = "addr AND - 8"
  obtain u where u: "k_peekdata k m ?b = Inr u" "length u = 8" "holds mem m ?b u"
    using peek_law [OF assms(1) aligned_down [of addr], of m] assms(8) by (cases "k_peekdata k m ?b") auto
  have d: "holds mem m addr (drop ?r u)"
    using holds_drop [OF u(3), of ?r] u(2) residue_less [of addr] by (simp add: split_residue)
  have same: "drop ?r u ! i = (str @ [0]) ! i" if "i \<le> length str" for i
  proof -
    have "i < length (drop ?r u)" "i < length (str @ [0])" using that assms(4) u(2) by simp_all
    then have "Some (drop ?r u ! i) = Some ((str @ [0]) ! i)" using d assms(2) unfolding holds_def by metis
    then show ?thesis by simp
  qed
  have "find_nul (drop ?r u) = Some (length str)"
    unfolding find_nul_Some using same assms(3,4) u(2)
    by (auto simp: nth_append) (metis less_imp_le nth_mem)
  then show ?thesis
    using u(1,2) assms(5-7)
    by (auto simp: umovestr_def umovestr_peekdata.simps [of k m addr] Let_def unat_eq_zero)
qed

theorem umovestr_peekdata_offset_witness:
  "\<exists>bs s'. umovestr sample_kernel 8 sample_text 0x1003 32 (initial_ucopy\<lparr>process_vm_readv_not_supported := True\<rparr>)
     = Some ((8, bs), s')"
proof -
  have r: "residue_of 0x1003 = 3" by (simp add: residue_of_def)
  have l: "(\<forall>i < Suc n. P i) \<longleftrightarrow> P 0 \<and> (\<forall>i < n. P (Suc i))" for P n by (auto simp: less_Suc_eq_0_disj)
  have "holds sample_mem sample_text 0x1003 ([65, 65, 65, 65] @ [0])"
    by (simp add: holds_def sample_mem_def l) (simp add: sample_text_def)
  then show ?thesis
    using umovestr_peekdata_offset [of sample_kernel sample_mem sample_text "0x1003" "[65, 65, 65, 65]" 32
        "initial_ucopy\<lparr>process_vm_readv_not_supported := True\<rparr>" 8] sample_kernel_ok
    by (simp add: kernel_ok_def r tracee_addr_is_invalid_def accessible_def sample_mem_def) blast
qed

section \<open>Writing and reading back\<close>

lemma cache_ok_poke_words:
  "poke_words k m a bs nw s = (n, m', s') \<Longrightarrow> cache_ok k mem m0 s' = cache_ok k mem m0 s"
proof (induction k m a bs nw s arbitrary: n m' s' rule: poke_words.induct)
  case (1 k m a bs nw s)
  then show ?case
    by (auto simp: poke_words.simps [of k m a bs nw s] split: if_splits sum.splits)
qed

lemma cache_ok_upoken:
  "upoken k w m a bs s = (n, m', s') \<Longrightarrow> cache_ok k mem m0 s \<Longrightarrow> cache_ok k mem m0 s'"
proof -
  have p: "upoken_pokedata k m a bs s = (n, m', s') \<Longrightarrow> cache_ok k mem m0 s' = cache_ok k mem m0 s" for s m
    by (auto simp: upoken_pokedata_def Let_def split: if_splits sum.splits dest: cache_ok_poke_words)
  have v: "vm_write_mem k m a bs s = (r, m1, s1) \<Longrightarrow> cache_ok k mem m0 s1 = cache_ok k mem m0 s" for r m1 s1
    by (auto simp: vm_write_mem_def cache_ok_def split: sum.splits prod.splits)
  assume "upoken k w m a bs s = (n, m', s')" "cache_ok k mem m0 s"
  then show ?thesis
    by (auto simp: upoken_def split: if_splits sum.splits prod.splits dest: p v)
qed



text \<open>
  Without the invalidation the cache still has the old page: within one event, a read that the cache
  can serve gives the bytes of the memory for which the cache is valid, whatever was written since.
\<close>

lemma cached_read:
  assumes "lookup_cached_raddr_idx ps s = Some i" "unat (taddr - ps) + len \<le> unat (k_pagesize k)"
    and "taddr - ps \<le> k_pagesize k"
  shows "vm_read_loop k m ps taddr len [] s = Some (Inr (take len (drop (unat (taddr - ps)) (bufs s ! i))), s)"
proof -
  have "len \<le> unat (k_pagesize k - (taddr - ps))" using assms(2,3) by (simp add: unat_sub)
  with assms(1) show ?thesis by (subst vm_read_loop.simps) (simp add: cache_page_def Let_def)
qed

lemma stale_after_poke:
  assumes "cache_ok k mem m s" "upoken k wordsize m addr bs s = (n, m', s')"
    and "lookup_cached_raddr_idx ps s' = Some i" "ps \<noteq> 0" "taddr - ps \<le> k_pagesize k"
    and "unat (taddr - ps) + len \<le> unat (k_pagesize k)"
  shows "\<exists>cs. vm_read_loop k m' ps taddr len [] s' = Some (Inr cs, s') \<and> length cs = len \<and> holds mem m taddr cs"
proof -
  have c: "cache_ok k mem m s'" by (rule cache_ok_upoken [OF assms(2,1)])
  note l = lookup_cached [OF c assms(3,4)]
  have "holds mem m (ps + of_nat (unat (taddr - ps))) (drop (unat (taddr - ps)) (bufs s' ! i))"
    using l assms(6) by (intro holds_drop) simp_all
  then have "holds mem m taddr (take len (drop (unat (taddr - ps)) (bufs s' ! i)))"
    by (intro holds_take) simp
  with cached_read [OF assms(3,6,5), of m'] l(2) assms(6) show ?thesis by simp
qed

end
