(* ===== verification/Xlat.thy ===== *)
theory Xlat
  imports Cstring
begin

text \<open>
  Tables of named constants and flags, \<^verbatim>\<open>xlat.c\<close>: looking a value up in a table of one of three
  kinds, and printing a value or a set of flags by the names of a table.  What is printed is a
  list of pieces; \<open>render\<close> gives the text.  The tables themselves are generated and are arguments.
\<close>

section \<open>Tables and styles\<close>

datatype xlat_type = XT_NORMAL | XT_SORTED | XT_INDEXED

record xlat =
  x_data :: "(u64 \<times> string option) list"
  x_type :: xlat_type

abbreviation "x_val x i \<equiv> fst (x_data x ! i)"

abbreviation "x_str x i \<equiv> snd (x_data x ! i)"

definition XLAT_STYLE_DEFAULT :: u32 where "XLAT_STYLE_DEFAULT = 0"

definition XLAT_STYLE_RAW :: u32 where "XLAT_STYLE_RAW = 1"

definition XLAT_STYLE_ABBREV :: u32 where "XLAT_STYLE_ABBREV = 2"

definition XLAT_STYLE_VERBOSE :: u32 where "XLAT_STYLE_VERBOSE = 3"

definition XLAT_STYLE_FMT_X :: u32 where "XLAT_STYLE_FMT_X = 0"

definition XLAT_STYLE_FMT_U :: u32 where "XLAT_STYLE_FMT_U = 4"

definition XLAT_STYLE_FMT_D :: u32 where "XLAT_STYLE_FMT_D = 8"

definition PXF_DEFAULT_STR :: u32 where "PXF_DEFAULT_STR = 0x80"

definition SPFF_AUXSTR_MODE :: u32 where "SPFF_AUXSTR_MODE = 0x100"

lemmas style_defs = XLAT_STYLE_DEFAULT_def XLAT_STYLE_RAW_def XLAT_STYLE_ABBREV_def XLAT_STYLE_VERBOSE_def
  XLAT_STYLE_FMT_X_def XLAT_STYLE_FMT_U_def XLAT_STYLE_FMT_D_def PXF_DEFAULT_STR_def SPFF_AUXSTR_MODE_def

definition xlat_verbose :: "u32 \<Rightarrow> u32" where
  "xlat_verbose style = style AND 3"

definition xlat_format :: "u32 \<Rightarrow> u32" where
  "xlat_format style = style AND 12"

text \<open>\<open>xlat_verbosity\<close> is the option \<open>-X\<close>.\<close>

definition get_xlat_style :: "u32 \<Rightarrow> u32 \<Rightarrow> u32" where
  "get_xlat_style xlat_verbosity style =
     (if xlat_verbose style = XLAT_STYLE_DEFAULT then style OR xlat_verbosity else style)"

section \<open>Output\<close>

text \<open>The value of the entry goes with its name; only the name is printed.\<close>

datatype piece =
    X_name u64 string
  | X_val u64 u32
  | X_text string
  | X_note string

fun hex_digits :: "nat \<Rightarrow> string" where
  "hex_digits n =
     (let d = ''0123456789abcdef'' ! (n mod 16)
      in if n < 16 then [d] else hex_digits (n div 16) @ [d])"

declare hex_digits.simps [simp del]

definition sprint_xlat_val :: "u64 \<Rightarrow> u32 \<Rightarrow> string" where
  "sprint_xlat_val val style =
     (if xlat_format style = XLAT_STYLE_FMT_D
      then (if sint val < 0 then ''-'' @ dec (nat (- sint val)) else dec (nat (sint val)))
      else if xlat_format style = XLAT_STYLE_FMT_U then dec (unat val)
      else if xlat_format style = XLAT_STYLE_FMT_X
      then (if val = 0 then ''0'' else ''0x'' @ hex_digits (unat val))
      else [])"

fun render_piece :: "piece \<Rightarrow> string" where
  "render_piece (X_name v s) = s"
| "render_piece (X_val v style) = sprint_xlat_val v style"
| "render_piece (X_text s) = s"
| "render_piece (X_note s) = '' /* '' @ s @ '' */''"

definition render :: "piece list \<Rightarrow> string" where
  "render ps = concat (map render_piece ps)"

definition print_xlat_val :: "u64 \<Rightarrow> u32 \<Rightarrow> piece list" where
  "print_xlat_val val style = [X_val val style]"

definition tprints_comment :: "string option \<Rightarrow> piece list" where
  "tprints_comment str = (case str of None \<Rightarrow> [] | Some s \<Rightarrow> if s = [] then [] else [X_note s])"

section \<open>Lookup\<close>

text \<open>\<open>bsearch\<close> of the C library with \<open>xlat_bsearch_compare\<close>: the index of a match.\<close>

definition xlat_bsearch_compare :: "u64 \<Rightarrow> u64 \<Rightarrow> int" where
  "xlat_bsearch_compare val1 val2 = (if val1 > val2 then 1 else if val1 < val2 then - 1 else 0)"

function bsearch_loop :: "u64 \<Rightarrow> (u64 \<times> string option) list \<Rightarrow> nat \<Rightarrow> nat \<Rightarrow> nat option" where
  "bsearch_loop val d l u =
     (if l < u
      then let idx = (l + u) div 2;
               c = xlat_bsearch_compare val (fst (d ! idx))
           in if c < 0 then bsearch_loop val d l idx
              else if c > 0 then bsearch_loop val d (idx + 1) u
              else Some idx
      else None)"
  by auto
termination
  by (relation "measure (\<lambda>(val, d, l, u). u - l)") auto

declare bsearch_loop.simps [simp del]

text \<open>The string, and the message that is written if the table is not what it should be.\<close>

definition xlookup :: "xlat option \<Rightarrow> u64 \<Rightarrow> string option \<times> string list" where
  "xlookup ox val =
     (case ox of None \<Rightarrow> (None, [])
      | Some x \<Rightarrow>
          (case x_type x of
             XT_NORMAL \<Rightarrow>
               (case find (\<lambda>i. x_val x i = val) [0..<length (x_data x)] of
                  Some i \<Rightarrow> (x_str x i, []) | None \<Rightarrow> (None, []))
           | XT_SORTED \<Rightarrow>
               (case bsearch_loop val (x_data x) 0 (length (x_data x)) of
                  Some i \<Rightarrow> (x_str x i, []) | None \<Rightarrow> (None, []))
           | XT_INDEXED \<Rightarrow>
               if unat val < length (x_data x)
               then (if val = x_val x (unat val) then (x_str x (unat val), [])
                     else if x_val x (unat val) = 0 then (None, [])
                     else (None, [''Unexpected xlat value'']))
               else (None, [])))"

text \<open>
  The loop of \<open>xlat_search_eq_or_less\<close>: positions instead of pointers, the last position looked
  at, and whether it matches.
\<close>

function eq_or_less_loop :: "u64 \<Rightarrow> (u64 \<times> string option) list \<Rightarrow> nat \<Rightarrow> nat \<Rightarrow> nat \<Rightarrow> nat \<times> bool" where
  "eq_or_less_loop val d base nmemb cur =
     (if nmemb > 0
      then let cur = base + nmemb div 2
           in if val = fst (d ! cur) then (cur, True)
              else if val > fst (d ! cur) then eq_or_less_loop val d (cur + 1) ((nmemb - 1) div 2) cur
              else eq_or_less_loop val d base (nmemb div 2) cur
      else (cur, False))"
  by auto
termination
  by (relation "measure (\<lambda>(val, d, base, nmemb, cur). nmemb)") auto

declare eq_or_less_loop.simps [simp del]

text \<open>
  The string and the new value of \<open>*val\<close>.  The code reads the first entry of the table, so a
  table without entries is out of bounds.
\<close>

definition xlat_search_eq_or_less :: "xlat \<Rightarrow> u64 \<Rightarrow> (string option \<times> u64) outcome" where
  "xlat_search_eq_or_less x val =
     (if x_data x = [] then Inl (Undefined_behaviour ''xlat_search_eq_or_less: empty table'')
      else case eq_or_less_loop val (x_data x) 0 (length (x_data x)) 0 of
             (cur, found) \<Rightarrow>
               if found then Inr (x_str x cur, val)
               else if val < x_val x cur
               then (if cur > 0 then Inr (x_str x (cur - 1), x_val x (cur - 1)) else Inr (None, val))
               else Inr (x_str x cur, x_val x cur))"

definition xlookup_le :: "xlat option \<Rightarrow> u64 \<Rightarrow> (string option \<times> u64) outcome \<times> string list" where
  "xlookup_le ox val =
     (case ox of None \<Rightarrow> (Inr (None, val), [])
      | Some x \<Rightarrow>
          if x_type x = XT_SORTED then (xlat_search_eq_or_less x val, [])
          else (Inr (None, val), [''Invalid xlat type'']))"

section \<open>Printing values\<close>

fun first_hit :: "u64 \<Rightarrow> xlat list \<Rightarrow> string option" where
  "first_hit val [] = None"
| "first_hit val (x # xs) =
     (case fst (xlookup (Some x) val) of Some s \<Rightarrow> Some s | None \<Rightarrow> first_hit val xs)"

definition printxvals_ex :: "u32 \<Rightarrow> u64 \<Rightarrow> string option \<Rightarrow> u32 \<Rightarrow> xlat list \<Rightarrow> bool \<times> piece list" where
  "printxvals_ex xlat_verbosity val dflt style xlats =
     (let style = get_xlat_style xlat_verbosity style
      in if xlat_verbose style = XLAT_STYLE_RAW then (False, print_xlat_val val style)
         else case first_hit val xlats of
                Some str \<Rightarrow>
                  (True, if xlat_verbose style = XLAT_STYLE_VERBOSE
                         then print_xlat_val val style @ tprints_comment (Some str)
                         else [X_name val str])
              | None \<Rightarrow> (False, print_xlat_val val style @ tprints_comment dflt))"

text \<open>The text that goes to the buffer of the caller; \<open>xsnprintf\<close> checks its size.\<close>

definition sprintxval_ex :: "u32 \<Rightarrow> xlat option \<Rightarrow> u32 \<Rightarrow> string option \<Rightarrow> u32 \<Rightarrow> piece list" where
  "sprintxval_ex xlat_verbosity x val dflt style =
     (let style = get_xlat_style xlat_verbosity style;
          val = ucast val
      in if xlat_verbose style = XLAT_STYLE_RAW then [X_val val style]
         else case fst (xlookup x val) of
                Some str \<Rightarrow>
                  if xlat_verbose style = XLAT_STYLE_VERBOSE then [X_val val style, X_note str]
                  else [X_name val str]
              | None \<Rightarrow>
                  (case dflt of Some d \<Rightarrow> [X_val val style, X_note d] | None \<Rightarrow> [X_val val style]))"

definition print_xlat_ex :: "u32 \<Rightarrow> u64 \<Rightarrow> string option \<Rightarrow> u32 \<Rightarrow> piece list \<times> string list" where
  "print_xlat_ex xlat_verbosity val str style =
     (let default_str = style AND PXF_DEFAULT_STR \<noteq> 0;
          style = get_xlat_style xlat_verbosity style;
          v = xlat_verbose style
      in if v = XLAT_STYLE_ABBREV \<and> str \<noteq> None
         then (if default_str then print_xlat_val val style @ tprints_comment str
               else [X_name val (the str)], [])
         else if v = XLAT_STYLE_ABBREV \<or> v = XLAT_STYLE_RAW then (print_xlat_val val style, [])
         else (print_xlat_val val style @ tprints_comment str,
               if v = XLAT_STYLE_VERBOSE then [] else [''Unexpected style value'']))"

section \<open>Printing flags\<close>

definition put_sep :: "char option \<Rightarrow> piece list" where
  "put_sep sep = (case sep of None \<Rightarrow> [] | Some c \<Rightarrow> [X_text [c]])"

text \<open>
  The loop over the table: the flags that are left, the separator, whether a name was found, and
  what was written.  \<open>comment\<close> tells that the names go into a comment.
\<close>

fun sprintflags_loop ::
  "bool \<Rightarrow> (u64 \<times> string option) list \<Rightarrow> u64 \<Rightarrow> char option \<Rightarrow> bool \<Rightarrow> piece list
    \<Rightarrow> u64 \<times> char option \<times> bool \<times> piece list" where
  "sprintflags_loop comment [] flags sep found out = (flags, sep, found, out)"
| "sprintflags_loop comment ((v, str) # d) flags sep found out =
     (if flags = 0 then (flags, sep, found, out)
      else case str of
             Some s \<Rightarrow>
               if v \<noteq> 0 \<and> flags AND v = v
               then sprintflags_loop comment d (flags AND NOT v) (Some (CHR ''|'')) True
                      (out @ (if sep \<noteq> None then put_sep sep else if comment then [X_text '' /* ''] else [])
                       @ [X_name v s])
               else sprintflags_loop comment d flags sep found out
           | None \<Rightarrow> sprintflags_loop comment d flags sep found out)"

text \<open>
  The string, \<open>None\<close> for \<open>NULL\<close>, with whether it is terminated: a separator is written without a
  terminating zero.  \<open>sep\<close> is \<open>None\<close> for the character 0.  The static buffer is large enough for
  the tables, which is not modelled.
\<close>

definition sprintflags_ex ::
  "u32 \<Rightarrow> string \<Rightarrow> xlat \<Rightarrow> u64 \<Rightarrow> char option \<Rightarrow> u32 \<Rightarrow> (piece list \<times> bool) option outcome" where
  "sprintflags_ex xlat_verbosity prefix x flags sep style =
     (let style = get_xlat_style xlat_verbosity style;
          verbose = (xlat_verbose style = XLAT_STYLE_VERBOSE);
          aux = (style AND SPFF_AUXSTR_MODE \<noteq> 0)
      in if xlat_verbose style = XLAT_STYLE_RAW
         then Inr (if flags = 0 \<or> aux \<and> sep = None then None
                   else Some (X_text prefix # put_sep sep @ [X_val flags style], True))
         else if flags = 0 \<and> x_data x = [] then Inl (Undefined_behaviour ''sprintflags_ex: empty table'')
         else if flags = 0 \<and> x_val x 0 = 0 \<and> x_str x 0 \<noteq> None
         then let name = X_name 0 (the (x_str x 0))
              in Inr (Some (X_text prefix # put_sep sep
                   @ (if verbose \<and> \<not> aux then [X_text ''0 /* '', name, X_text '' */''] else [name]), True))
         else let (sep, out) = (if verbose \<and> flags \<noteq> 0 \<and> \<not> aux then (None, put_sep sep @ [X_val flags style])
                                else (sep, []));
                  (flags, sep, found, out) = sprintflags_loop (verbose \<and> \<not> aux) (x_data x) flags sep False out
              in if flags = 0 \<and> \<not> found then Inr None
                 else let append = (found \<or> \<not> verbose \<and> (\<not> aux \<or> sep \<noteq> None));
                          out = out @ (if flags \<noteq> 0 then put_sep sep @ (if append then [X_val flags style] else []) else [])
                            @ (if found \<and> verbose \<and> \<not> aux then [X_text '' */''] else [])
                      in Inr (if prefix @ render out = [] then None
                              else Some (X_text prefix # out, flags = 0 \<or> sep = None \<or> append)))"

text \<open>
  The inner loop of \<open>printflags_ex\<close>: the flags that are left, the number of names, the output.
\<close>

fun printflags_loop ::
  "bool \<Rightarrow> (u64 \<times> string option) list \<Rightarrow> u64 \<Rightarrow> nat \<Rightarrow> piece list \<Rightarrow> u64 \<times> nat \<times> piece list" where
  "printflags_loop verbose [] flags n out = (flags, n, out)"
| "printflags_loop verbose ((v, str) # d) flags n out =
     (if flags = 0 \<and> n \<noteq> 0 then (flags, n, out)
      else let (flags, n, out) =
                 (case str of
                    Some s \<Rightarrow>
                      if flags = v \<or> v \<noteq> 0 \<and> flags AND v = v
                      then (flags AND NOT v, n + 1,
                            out @ (if verbose \<and> flags = 0 then [X_val 0 XLAT_STYLE_FMT_U] else [])
                            @ (if n \<noteq> 0 then [X_text ''|''] else if verbose then [X_text '' /* ''] else [])
                            @ [X_name v s])
                      else (flags, n, out)
                  | None \<Rightarrow> (flags, n, out))
           in if flags = 0 then (flags, n, out) else printflags_loop verbose d flags n out)"

fun printflags_tables ::
  "bool \<Rightarrow> xlat list \<Rightarrow> u64 \<Rightarrow> nat \<Rightarrow> piece list \<Rightarrow> u64 \<times> nat \<times> piece list" where
  "printflags_tables verbose [] flags n out = (flags, n, out)"
| "printflags_tables verbose (x # xs) flags n out =
     (case printflags_loop verbose (x_data x) flags n out of
        (flags, n, out) \<Rightarrow> printflags_tables verbose xs flags n out)"

definition printflags_ex ::
  "u32 \<Rightarrow> u64 \<Rightarrow> string option \<Rightarrow> u32 \<Rightarrow> xlat list \<Rightarrow> nat \<times> piece list" where
  "printflags_ex xlat_verbosity flags dflt style xlats =
     (let style = get_xlat_style xlat_verbosity style;
          verbose = (xlat_verbose style = XLAT_STYLE_VERBOSE)
      in if xlat_verbose style = XLAT_STYLE_RAW
         then (if flags \<noteq> 0 \<or> dflt \<noteq> None then (1, print_xlat_val flags style) else (0, []))
         else let out = (if verbose \<and> flags \<noteq> 0 then print_xlat_val flags style else []);
                  (flags, n, out) = printflags_tables verbose xlats flags 0 out
              in if n \<noteq> 0
                 then (if flags \<noteq> 0 then n + 1 else n,
                       out @ (if flags \<noteq> 0 then X_text ''|'' # print_xlat_val flags style else [])
                       @ (if verbose then [X_text '' */''] else []))
                 else (n, out @ (if flags \<noteq> 0
                                 then (if verbose then [] else print_xlat_val flags style) @ tprints_comment dflt
                                 else if dflt \<noteq> None then [X_val 0 XLAT_STYLE_FMT_U] else [])))"

section \<open>Lookup is exact\<close>

text \<open>
  What a table of each kind has to satisfy: a sorted table is strictly increasing, an entry of an
  indexed table is the value of its index or a hole.
\<close>

definition xlat_ok :: "xlat \<Rightarrow> bool" where
  "xlat_ok x \<longleftrightarrow>
     (case x_type x of
        XT_NORMAL \<Rightarrow> True
      | XT_SORTED \<Rightarrow> sorted_wrt (<) (map fst (x_data x))
      | XT_INDEXED \<Rightarrow> length (x_data x) < 2 ^ 32
          \<and> (\<forall>i < length (x_data x). x_val x i = of_nat i \<or> x_data x ! i = (0, None)))"

text \<open>The string of the first entry with the value.\<close>

definition linear_lookup :: "xlat \<Rightarrow> u64 \<Rightarrow> string option" where
  "linear_lookup x val =
     (case find (\<lambda>(v, str). v = val) (x_data x) of Some (v, str) \<Rightarrow> str | None \<Rightarrow> None)"

lemma linear_lookup_hit:
  assumes "i < length (x_data x)" "x_val x i = val" "\<And>j. j < i \<Longrightarrow> x_val x j \<noteq> val"
  shows "linear_lookup x val = x_str x i"
proof -
  have "find (\<lambda>(v, str). v = val) (x_data x) = Some (x_data x ! i)"
    unfolding find_Some_iff using assms by (intro exI [of _ i]) (auto simp: split_beta)
  then show ?thesis by (simp add: linear_lookup_def split_beta)
qed

lemma linear_lookup_miss:
  assumes "\<And>i. i < length (x_data x) \<Longrightarrow> x_val x i \<noteq> val"
  shows "linear_lookup x val = None"
proof -
  have "find (\<lambda>(v, str). v = val) (x_data x) = None"
    using assms by (fastforce simp: find_None_iff in_set_conv_nth)
  then show ?thesis by (simp add: linear_lookup_def)
qed

text \<open>A table in increasing order, by index.\<close>

lemma increasing:
  fixes d :: "(u64 \<times> string option) list"
  shows "sorted_wrt (<) (map fst d) \<Longrightarrow> i < j \<Longrightarrow> j < length d \<Longrightarrow> fst (d ! i) < fst (d ! j)"
  by (simp add: sorted_wrt_iff_nth_less)

lemma increasing_le:
  fixes d :: "(u64 \<times> string option) list"
  shows "sorted_wrt (<) (map fst d) \<Longrightarrow> i \<le> j \<Longrightarrow> j < length d \<Longrightarrow> fst (d ! i) \<le> fst (d ! j)"
  using increasing [of d i j] by (cases "i = j") auto

lemma bsearch_loop_spec:
  assumes "sorted_wrt (<) (map fst d)" "u \<le> length d"
  shows "case bsearch_loop val d l u of
      Some i \<Rightarrow> l \<le> i \<and> i < u \<and> fst (d ! i) = val
    | None \<Rightarrow> \<forall>i. l \<le> i \<and> i < u \<longrightarrow> fst (d ! i) \<noteq> val"
  using assms
proof (induction val d l u rule: bsearch_loop.induct)
  case (1 val d l u)
  show ?case
  proof (cases "l < u")
    case False
    then show ?thesis by (auto simp: bsearch_loop.simps [of val d l u])
  next
    case True
    let ?m = "(l + u) div 2"
    have m: "l \<le> ?m" "?m < u" using True by auto
    consider "val < fst (d ! ?m)" | "val > fst (d ! ?m)" | "val = fst (d ! ?m)" by (meson linorder_less_linear)
    then show ?thesis
    proof cases
      case 1
      then have e: "bsearch_loop val d l u = bsearch_loop val d l ?m"
        using True by (subst bsearch_loop.simps) (auto simp: Let_def xlat_bsearch_compare_def)
      have "fst (d ! i) \<noteq> val" if "?m \<le> i" "i < u" for i
        using increasing_le [of d ?m i] that 1 "1.prems" by auto
      note above = this
      have "xlat_bsearch_compare val (fst (d ! ?m)) < 0" using 1 by (auto simp: xlat_bsearch_compare_def)
      note ih = "1.IH"(1) [OF True refl refl this]
      show ?thesis
      proof (cases "bsearch_loop val d l ?m")
        case None
        with ih "1.prems" m have "\<forall>i. l \<le> i \<and> i < ?m \<longrightarrow> fst (d ! i) \<noteq> val" by simp
        with above None show ?thesis unfolding e by simp (metis not_le)
      next
        case (Some j)
        with ih "1.prems" m show ?thesis unfolding e by simp
      qed
    next
      case 2
      then have e: "bsearch_loop val d l u = bsearch_loop val d (?m + 1) u"
        using True by (subst bsearch_loop.simps) (auto simp: Let_def xlat_bsearch_compare_def)
      have "fst (d ! i) \<noteq> val" if "i \<le> ?m" for i
        using increasing_le [of d i ?m] that 2 "1.prems" m by auto
      note below = this
      have "\<not> xlat_bsearch_compare val (fst (d ! ?m)) < 0" "xlat_bsearch_compare val (fst (d ! ?m)) > 0"
        using 2 by (auto simp: xlat_bsearch_compare_def)
      note ih = "1.IH"(2) [OF True refl refl this]
      show ?thesis
      proof (cases "bsearch_loop val d (?m + 1) u")
        case None
        with ih "1.prems" have "\<forall>i. ?m + 1 \<le> i \<and> i < u \<longrightarrow> fst (d ! i) \<noteq> val" by simp
        with below None show ?thesis unfolding e by (auto simp: not_less) (metis not_less_eq_eq)
      next
        case (Some j)
        with ih "1.prems" m show ?thesis unfolding e by simp
      qed
    next
      case 3
      then show ?thesis
        using True m by (subst bsearch_loop.simps) (simp add: Let_def xlat_bsearch_compare_def)
    qed
  qed
qed

text \<open>
  C22: Looking a value up gives the same string, and no complaint about the table, whichever of the
  three kinds the table is: the binary search of a sorted table and the direct access to an
  indexed one agree with the search from the first entry on.
\<close>

theorem xlookup_linear:
  assumes "xlat_ok x"
  shows "xlookup (Some x) val = (linear_lookup x val, [])"
proof (cases "x_type x")
  case XT_NORMAL
  show ?thesis
  proof (cases "find (\<lambda>i. x_val x i = val) [0..<length (x_data x)]")
    case None
    then show ?thesis using XT_NORMAL find_upt_NoneD [OF None] linear_lookup_miss [of x val]
      by (auto simp: xlookup_def)
  next
    case (Some i)
    then show ?thesis using XT_NORMAL find_upt_SomeD [OF Some] linear_lookup_hit [of i x val]
      by (auto simp: xlookup_def)
  qed
next
  case XT_SORTED
  then have inc: "sorted_wrt (<) (map fst (x_data x))" using assms by (simp add: xlat_ok_def)
  note spec = bsearch_loop_spec [OF inc order_refl, where val = val and l = 0]
  show ?thesis
  proof (cases "bsearch_loop val (x_data x) 0 (length (x_data x))")
    case None
    then show ?thesis using XT_SORTED spec linear_lookup_miss [of x val] by (auto simp: xlookup_def)
  next
    case (Some i)
    with spec have i: "i < length (x_data x)" "x_val x i = val" by simp_all
    have "x_val x j \<noteq> val" if "j < i" for j using increasing [OF inc that i(1)] i(2) by auto
    with i Some show ?thesis using XT_SORTED linear_lookup_hit [of i x val] by (simp add: xlookup_def)
  qed
next
  case XT_INDEXED
  then have len: "length (x_data x) < 2 ^ 32"
    and entry: "\<And>i. i < length (x_data x) \<Longrightarrow> x_val x i = of_nat i \<or> x_data x ! i = (0, None)"
    using assms by (simp_all add: xlat_ok_def)
  have un: "unat (of_nat i :: u64) = i" if "i < length (x_data x)" for i
    using that len by (simp add: unat_of_nat)
  have hit: "linear_lookup x val = x_str x (unat val)" if "unat val < length (x_data x)" "val = x_val x (unat val)"
  proof (cases "val = 0")
    case True
    with that show ?thesis using linear_lookup_hit [of 0 x val] by simp
  next
    case False
    have "x_val x j \<noteq> val" if "j < unat val" for j
      using entry [of j] un [of j] False that \<open>unat val < length (x_data x)\<close> by auto
    with that show ?thesis using linear_lookup_hit [of "unat val" x val] by simp
  qed
  have miss: "linear_lookup x val = None" if "\<not> (unat val < length (x_data x) \<and> val = x_val x (unat val))"
  proof (rule linear_lookup_miss)
    fix i assume i: "i < length (x_data x)"
    show "x_val x i \<noteq> val"
      using entry [OF i] un [OF i] i that entry [of 0] by (cases "val = 0"; cases "x_data x") auto
  qed
  have "x_val x (unat val) = 0" if "unat val < length (x_data x)" "val \<noteq> x_val x (unat val)"
    using entry [OF that(1)] that(2) by auto
  with hit miss XT_INDEXED show ?thesis by (auto simp: xlookup_def)
qed

definition sample_table :: "xlat_type \<Rightarrow> xlat" where
  "sample_table t = \<lparr>x_data = [(0, Some ''NONE''), (1, Some ''READ''), (2, Some ''WRITE''), (4, Some ''EXEC'')],
     x_type = t\<rparr>"

theorem xlookup_linear_witness:
  "xlookup (Some (sample_table XT_SORTED)) 2 = (Some ''WRITE'', [])"
proof -
  have "xlat_ok (sample_table XT_SORTED)" by (simp add: xlat_ok_def sample_table_def)
  from xlookup_linear [OF this, of 2] show ?thesis by (simp add: linear_lookup_def sample_table_def)
qed

lemma eq_or_less_loop_spec:
  assumes "sorted_wrt (<) (map fst d)" "base + nmemb \<le> length d"
    and "\<forall>i < base. fst (d ! i) < val" "\<forall>i. base + nmemb \<le> i \<and> i < length d \<longrightarrow> val < fst (d ! i)"
    and "nmemb = 0 \<longrightarrow> cur = base \<and> base < length d \<or> cur + 1 = base"
  shows "case eq_or_less_loop val d base nmemb cur of
      (c, True) \<Rightarrow> c < length d \<and> fst (d ! c) = val
    | (c, False) \<Rightarrow> c < length d \<and>
        (val < fst (d ! c) \<and> (\<forall>i < c. fst (d ! i) < val)
         \<or> fst (d ! c) < val \<and> (\<forall>i. c < i \<and> i < length d \<longrightarrow> val < fst (d ! i)))"
  using assms
proof (induction val d base nmemb cur rule: eq_or_less_loop.induct)
  case (1 val d base nmemb cur)
  show ?case
  proof (cases "nmemb = 0")
    case True
    then show ?thesis using "1.prems" by (subst eq_or_less_loop.simps) auto
  next
    case False
    let ?c = "base + nmemb div 2"
    have c: "?c < length d" "?c < base + nmemb" using False "1.prems"(2) by auto
    consider "val = fst (d ! ?c)" | "fst (d ! ?c) < val" | "val < fst (d ! ?c)" by (meson linorder_less_linear)
    then show ?thesis
    proof cases
      case 1
      then show ?thesis using False c by (subst eq_or_less_loop.simps) (simp add: Let_def)
    next
      case 2
      then have e: "eq_or_less_loop val d base nmemb cur = eq_or_less_loop val d (?c + 1) ((nmemb - 1) div 2) ?c"
        using False by (subst eq_or_less_loop.simps) (auto simp: Let_def)
      have sum: "?c + 1 + (nmemb - 1) div 2 = base + nmemb" using False by presburger
      have "fst (d ! i) < val" if "i < ?c + 1" for i
        using increasing_le [OF "1.prems"(1), of i ?c] c(1) 2 that by auto
      then have below: "\<forall>i < ?c + 1. fst (d ! i) < val" by blast
      show ?thesis unfolding e
        by (rule "1.IH"(1) [OF _ refl _ 2 "1.prems"(1) _ below])
          (use False 2 sum "1.prems"(2,4) in auto)
    next
      case 3
      then have e: "eq_or_less_loop val d base nmemb cur = eq_or_less_loop val d base (nmemb div 2) ?c"
        using False by (subst eq_or_less_loop.simps) (auto simp: Let_def)
      have above: "\<forall>i. base + nmemb div 2 \<le> i \<and> i < length d \<longrightarrow> val < fst (d ! i)"
        using increasing_le [OF "1.prems"(1), of ?c] 3 by (blast intro: order.strict_trans2)
      show ?thesis unfolding e
        by (rule "1.IH"(2) [OF _ refl _ _ "1.prems"(1) _ "1.prems"(3) above])
          (use False 3 c in auto)
    qed
  qed
qed

text \<open>
  In a sorted table that has entries, \<open>xlookup_le\<close> finds the entry with the greatest value that
  is not above the given one and replaces the value by it; it returns no string, and keeps the
  value, exactly when every entry is above it.
\<close>

lemma xlookup_le_greatest:
  assumes "x_type x = XT_SORTED" "xlat_ok x" "x_data x \<noteq> []"
  shows "\<exists>str v. xlookup_le (Some x) val = (Inr (str, v), []) \<and>
    ((\<forall>(w, s) \<in> set (x_data x). val < w) \<and> str = None \<and> v = val
     \<or> (v, str) \<in> set (x_data x) \<and> v \<le> val \<and> (\<forall>(w, s) \<in> set (x_data x). w \<le> v \<or> val < w))"
proof -
  have inc: "sorted_wrt (<) (map fst (x_data x))" using assms(1,2) by (simp add: xlat_ok_def)
  let ?d = "x_data x" and ?r = "eq_or_less_loop val (x_data x) 0 (length (x_data x)) 0"
  obtain c b where r: "?r = (c, b)" by (cases ?r)
  have all: "(\<forall>(w, s) \<in> set ?d. P w) \<longleftrightarrow> (\<forall>i < length ?d. P (fst (?d ! i)))" for P
    by (metis (no_types, lifting) all_set_conv_all_nth case_prod_beta')
  have entry: "i < length ?d \<Longrightarrow> (fst (?d ! i), snd (?d ! i)) \<in> set ?d" for i by simp
  have "case ?r of
      (c, True) \<Rightarrow> c < length ?d \<and> fst (?d ! c) = val
    | (c, False) \<Rightarrow> c < length ?d \<and>
        (val < fst (?d ! c) \<and> (\<forall>i < c. fst (?d ! i) < val)
         \<or> fst (?d ! c) < val \<and> (\<forall>i. c < i \<and> i < length ?d \<longrightarrow> val < fst (?d ! i)))"
    using assms(3) by (intro eq_or_less_loop_spec [OF inc]) auto
  then have spec: "c < length ?d \<and> (if b then fst (?d ! c) = val else
        val < fst (?d ! c) \<and> (\<forall>i < c. fst (?d ! i) < val)
         \<or> fst (?d ! c) < val \<and> (\<forall>i. c < i \<and> i < length ?d \<longrightarrow> val < fst (?d ! i)))"
    unfolding r by (cases b) simp_all
  note le = increasing_le [OF inc] and less = increasing [OF inc]
  consider "b" "fst (?d ! c) = val" | "\<not> b" "fst (?d ! c) < val" "\<forall>i. c < i \<and> i < length ?d \<longrightarrow> val < fst (?d ! i)"
    | "\<not> b" "val < fst (?d ! c)" "\<forall>i < c. fst (?d ! i) < val" "c = 0"
    | "\<not> b" "val < fst (?d ! c)" "\<forall>i < c. fst (?d ! i) < val" "c > 0"
    using spec by (auto split: if_splits)
  then show ?thesis
  proof cases
    case 1
    have "\<forall>i < length ?d. fst (?d ! i) \<le> val \<or> val < fst (?d ! i)" by auto
    with 1 spec r entry [of c] assms(1,3) show ?thesis
      by (simp add: xlookup_le_def xlat_search_eq_or_less_def all)
  next
    case 2
    have "\<forall>i < length ?d. fst (?d ! i) \<le> fst (?d ! c) \<or> val < fst (?d ! i)"
      using 2(3) le spec by (metis not_le)
    with 2 spec r entry [of c] assms(1,3) less_asym [OF 2(2)] show ?thesis
      by (simp add: xlookup_le_def xlat_search_eq_or_less_def all less_imp_le)
  next
    case 3
    have "\<forall>i < length ?d. val < fst (?d ! i)" using le [of 0] 3(2,4) by (meson le0 order.strict_trans2)
    with 3 r assms(1,3) show ?thesis by (simp add: xlookup_le_def xlat_search_eq_or_less_def all)
  next
    case 4
    let ?p = "c - 1"
    have p: "?p < length ?d" "fst (?d ! ?p) < val" using 4 spec by auto
    have "\<forall>i < length ?d. fst (?d ! i) \<le> fst (?d ! ?p) \<or> val < fst (?d ! i)"
    proof (intro allI impI)
      fix i assume i: "i < length ?d"
      show "fst (?d ! i) \<le> fst (?d ! ?p) \<or> val < fst (?d ! i)"
      proof (cases "i \<le> ?p")
        case True
        then show ?thesis using le p(1) by blast
      next
        case False
        then have "fst (?d ! c) \<le> fst (?d ! i)" using i by (intro le) auto
        then show ?thesis using 4(2) by auto
      qed
    qed
    with 4 p r entry [of ?p] assms(1,3) show ?thesis
      by (simp add: xlookup_le_def xlat_search_eq_or_less_def all less_imp_le)
  qed
qed

lemma xlookup_le_greatest_witness:
  "xlookup_le (Some (sample_table XT_SORTED)) 3 = (Inr (Some ''WRITE'', 2), [])"
proof -
  have "xlat_ok (sample_table XT_SORTED)" by (simp add: xlat_ok_def sample_table_def)
  with xlookup_le_greatest [of "sample_table XT_SORTED" 3] show ?thesis
    by (auto simp: sample_table_def word_le_nat_alt word_less_nat_alt)
qed

section \<open>Flags are shown completely\<close>

text \<open>The bits that a list of pieces stands for: those of its names and of its numbers.\<close>

fun shown :: "piece list \<Rightarrow> u64" where
  "shown [] = 0"
| "shown (X_name v s # ps) = v OR shown ps"
| "shown (X_val v style # ps) = v OR shown ps"
| "shown (X_text s # ps) = shown ps"
| "shown (X_note s # ps) = shown ps"

lemma shown_append [simp]: "shown (xs @ ys) = shown xs OR shown ys"
  by (induction xs rule: shown.induct) (simp_all add: or.assoc)

lemma shown_put_sep [simp]: "shown (put_sep sep) = 0"
  by (simp add: put_sep_def split: option.splits)

lemma take_flag:
  fixes flags :: u64
  assumes "flags AND v = v"
  shows "v OR (flags AND NOT v) = flags"
proof (rule bit_eqI)
  fix n
  have "bit v n \<Longrightarrow> bit flags n" using arg_cong [OF assms, of "\<lambda>w. bit w n"] by (simp add: bit_simps)
  then show "bit (v OR (flags AND NOT v)) n = bit flags n"
    by (auto simp: bit_simps dest: bit_imp_le_length)
qed

text \<open>No entry is left over that the remaining flags contain: \<open>fl\<close> has no known flag.\<close>

definition no_known :: "(u64 \<times> string option) list \<Rightarrow> u64 \<Rightarrow> bool" where
  "no_known d fl \<longleftrightarrow> (\<forall>(v, str) \<in> set d. str \<noteq> None \<and> v \<noteq> 0 \<longrightarrow> fl AND v \<noteq> v)"

lemma subset_flag: "(flags AND NOT w) AND v = v \<Longrightarrow> flags AND v = (v :: u64)"
  by (metis and.assoc and.commute and.left_idem)

lemma sprintflags_loop_names:
  assumes "sprintflags_loop c d flags sep found out = (fl, sep', found', out')"
  shows "X_val v st \<in> set out' \<longleftrightarrow> X_val v st \<in> set out"
  using assms
  by (induction c d flags sep found out rule: sprintflags_loop.induct)
    (auto simp: put_sep_def split: option.splits if_splits)

lemma sprintflags_loop_spec:
  assumes "sprintflags_loop c d flags sep found out = (fl, sep', found', out')"
  shows "\<exists>names. out' = out @ names \<and> shown names OR fl = flags
    \<and> (\<exists>w. fl = flags AND NOT w) \<and> no_known d fl
    \<and> (found' \<longleftrightarrow> found \<or> names \<noteq> []) \<and> (names = [] \<longrightarrow> fl = flags \<and> sep' = sep) \<and> (names \<noteq> [] \<longrightarrow> sep' = Some (CHR ''|''))
    \<and> (names \<noteq> [] \<longrightarrow> (\<exists>v s. (v, Some s) \<in> set d \<and> X_name v s \<in> set names))"
  using assms
proof (induction c d flags sep found out rule: sprintflags_loop.induct)
  case (1 c flags sep found out)
  then show ?case by (auto simp: no_known_def intro!: exI [of _ 0])
next
  case (2 c v str d flags sep found out)
  have zero: "no_known ((v, str) # d) 0" by (auto simp: no_known_def)
  show ?case
  proof (cases "flags = 0")
    case True
    with "2.prems" zero show ?thesis by auto
  next
    case False
    show ?thesis
    proof (cases "\<exists>s. str = Some s \<and> v \<noteq> 0 \<and> flags AND v = v")
      case True
      then obtain s where s: "str = Some s" "v \<noteq> 0" "flags AND v = v" by blast
      let ?new = "(if sep \<noteq> None then put_sep sep else if c then [X_text '' /* ''] else []) @ [X_name v s]"
      from "2.prems" False s
      have run: "sprintflags_loop c d (flags AND NOT v) (Some (CHR ''|'')) True (out @ ?new) = (fl, sep', found', out')"
        by simp
      obtain names w where n: "out' = (out @ ?new) @ names" "shown names OR fl = flags AND NOT v"
          "fl = (flags AND NOT v) AND NOT w" "no_known d fl" "found'"
          "names = [] \<longrightarrow> sep' = Some (CHR ''|'')" "names \<noteq> [] \<longrightarrow> sep' = Some (CHR ''|'')"
        using "2.IH"(2) [OF False s(1) _ run] s by auto
      have sh: "shown (?new @ names) OR fl = flags"
        using n(2) take_flag [OF s(3)] by (simp add: or.assoc)
      have w: "fl = flags AND NOT (v OR w)" unfolding n(3) by (intro bit_eqI) (auto simp: bit_simps)
      have "fl AND v \<noteq> v"
      proof
        assume "fl AND v = v"
        moreover have "fl AND v = 0" unfolding n(3) by (intro bit_eqI) (auto simp: bit_simps)
        ultimately show False using s(2) by simp
      qed
      with n(4) have nk: "no_known ((v, str) # d) fl" by (auto simp: no_known_def)
      have ex: "\<exists>w. fl = flags AND NOT w" using w by blast
      show ?thesis
        using n(1,5,6,7) sh ex nk s(1) by (intro exI [of _ "?new @ names"]) (auto simp: append_eq_append_conv2)
    next
      case nomatch: False
      from "2.prems" False nomatch
      have run: "sprintflags_loop c d flags sep found out = (fl, sep', found', out')"
        by (auto split: option.splits if_splits)
      have ih: "\<exists>names. out' = out @ names \<and> shown names OR fl = flags
          \<and> (\<exists>w. fl = flags AND NOT w) \<and> no_known d fl
          \<and> (found' \<longleftrightarrow> found \<or> names \<noteq> []) \<and> (names = [] \<longrightarrow> fl = flags \<and> sep' = sep) \<and> (names \<noteq> [] \<longrightarrow> sep' = Some (CHR ''|''))
          \<and> (names \<noteq> [] \<longrightarrow> (\<exists>v s. (v, Some s) \<in> set d \<and> X_name v s \<in> set names))"
      proof (cases str)
        case None
        from "2.IH"(1) [OF False None run] show ?thesis .
      next
        case (Some s)
        with nomatch have "\<not> (v \<noteq> 0 \<and> flags AND v = v)" by blast
        from "2.IH"(3) [OF False Some this run] show ?thesis .
      qed
      then obtain names w where n: "out' = out @ names" "shown names OR fl = flags"
          "fl = flags AND NOT w" "no_known d fl"
          "found' \<longleftrightarrow> found \<or> names \<noteq> []" "names = [] \<longrightarrow> fl = flags \<and> sep' = sep" "names \<noteq> [] \<longrightarrow> sep' = Some (CHR ''|'')"
          "names \<noteq> [] \<longrightarrow> (\<exists>v s. (v, Some s) \<in> set d \<and> X_name v s \<in> set names)"
        by (elim exE conjE) (rule that)
      have "fl AND v = v \<Longrightarrow> flags AND v = v" unfolding n(3) by (rule subset_flag)
      with nomatch n(4) have nk: "no_known ((v, str) # d) fl" by (cases str) (auto simp: no_known_def)
      have ex: "\<exists>w. fl = flags AND NOT w" using n(3) by blast
      have mem: "names \<noteq> [] \<longrightarrow> (\<exists>v' s. (v', Some s) \<in> set ((v, str) # d) \<and> X_name v' s \<in> set names)"
        using n(8) by auto
      show ?thesis using n(1,2,5-7) ex nk mem by (intro exI [of _ names] conjI)
    qed
  qed
qed

text \<open>The style after the option \<open>-X\<close>, when it is the default one: names where there are some.\<close>

definition abbrev_style :: "u32 \<Rightarrow> u32 \<Rightarrow> bool" where
  "abbrev_style xlat_verbosity style \<longleftrightarrow>
     xlat_verbose (get_xlat_style xlat_verbosity style) = XLAT_STYLE_ABBREV"

lemma render_name_ne:
  "X_name v s \<in> set ps \<Longrightarrow> s \<noteq> [] \<Longrightarrow> render ps \<noteq> []"
  unfolding render_def concat_eq_Nil_conv by force

lemma sprint_val_ne: "xlat_format style = XLAT_STYLE_FMT_X \<Longrightarrow> sprint_xlat_val v style \<noteq> []"
  by (simp add: sprint_xlat_val_def style_defs)

text \<open>
  C23: The string of flags that \<open>sprintflags_ex\<close> builds in the default style stands for exactly the
  given flags: the bits of its names and of its number together are the flags, the number has no
  bits that the table has a name for, and the string is terminated.  There is no string exactly
  when the flags are 0 and the table does not begin with a name for 0.
\<close>

theorem sprintflags_complete:
  assumes "abbrev_style vb style" "get_xlat_style vb style AND SPFF_AUXSTR_MODE = 0"
    and "xlat_format (get_xlat_style vb style) = XLAT_STYLE_FMT_X"
    and "x_data x \<noteq> []" "\<forall>(v, str) \<in> set (x_data x). str \<noteq> Some []"
  shows "\<exists>r. sprintflags_ex vb prefix x flags sep style = Inr r \<and>
    (case r of
       None \<Rightarrow> flags = 0 \<and> \<not> (x_val x 0 = 0 \<and> x_str x 0 \<noteq> None)
     | Some (out, terminated) \<Rightarrow> terminated \<and> shown out = flags \<and> (flags = 0 \<longrightarrow> x_val x 0 = 0 \<and> x_str x 0 \<noteq> None)
         \<and> (\<forall>v st. X_val v st \<in> set out \<longrightarrow> no_known (x_data x) v))"
proof -
  let ?st = "get_xlat_style vb style"
  have sty: "xlat_verbose ?st = XLAT_STYLE_ABBREV" using assms(1) by (simp add: abbrev_style_def)
  have nv: "xlat_verbose ?st \<noteq> XLAT_STYLE_RAW" "xlat_verbose ?st \<noteq> XLAT_STYLE_VERBOSE"
    using sty by (simp_all add: style_defs)
  obtain fl sep' found out where run: "sprintflags_loop False (x_data x) flags sep False [] = (fl, sep', found, out)"
    by (metis prod_cases4)
  from sprintflags_loop_spec [OF run]
  have l: "shown out OR fl = flags" "no_known (x_data x) fl" "found \<longleftrightarrow> out \<noteq> []" "out = [] \<longrightarrow> fl = flags"
      "out \<noteq> [] \<longrightarrow> (\<exists>v s. (v, Some s) \<in> set (x_data x) \<and> X_name v s \<in> set out)"
    by auto
  have val: "X_val v st \<notin> set out" for v st using sprintflags_loop_names [OF run] by simp
  show ?thesis
  proof (cases "flags = 0 \<and> x_val x 0 = 0 \<and> x_str x 0 \<noteq> None")
    case True
    then show ?thesis using nv assms(2,4)
      by (auto simp: sprintflags_ex_def Let_def put_sep_def split: option.splits)
  next
    case False
    show ?thesis
    proof (cases "fl = 0 \<and> \<not> found")
      case True
      then have "flags = 0" using l by simp
      with True False nv assms(2,4) run show ?thesis by (auto simp: sprintflags_ex_def Let_def)
    next
      case some: False
      let ?out = "out @ (if fl \<noteq> 0 then put_sep sep' @ [X_val fl ?st] else [])"
      have "render ?out \<noteq> []"
      proof (cases "fl = 0")
        case True
        then obtain v s where "(v, Some s) \<in> set (x_data x)" "X_name v s \<in> set ?out" using some l by auto
        then show ?thesis using assms(5) by (intro render_name_ne) auto
      next
        case fl: False
        then show ?thesis using sprint_val_ne [OF assms(3)] by (simp add: render_def)
      qed
      then have "sprintflags_ex vb prefix x flags sep style = Inr (Some (X_text prefix # ?out, True))"
        using False some nv assms(2,4) run by (auto simp: sprintflags_ex_def Let_def)
      moreover have "flags \<noteq> 0"
      proof
        assume "flags = 0"
        with run assms(4) have "fl = 0 \<and> \<not> found" by (cases "x_data x") auto
        with some show False ..
      qed
      ultimately show ?thesis using l val by (auto simp: put_sep_def split: option.splits)
    qed
  qed
qed

theorem sprintflags_complete_witness:
  "\<exists>out. sprintflags_ex XLAT_STYLE_ABBREV ''flags '' (sample_table XT_NORMAL) 0xd None XLAT_STYLE_DEFAULT = Inr (Some (out, True))
     \<and> shown out = 0xd"
proof -
  have pre: "abbrev_style XLAT_STYLE_ABBREV XLAT_STYLE_DEFAULT"
      "get_xlat_style XLAT_STYLE_ABBREV XLAT_STYLE_DEFAULT AND SPFF_AUXSTR_MODE = 0"
      "xlat_format (get_xlat_style XLAT_STYLE_ABBREV XLAT_STYLE_DEFAULT) = XLAT_STYLE_FMT_X"
      "x_data (sample_table XT_NORMAL) \<noteq> []"
      "\<forall>(v, str) \<in> set (x_data (sample_table XT_NORMAL)). str \<noteq> Some []"
    by (simp_all add: abbrev_style_def get_xlat_style_def xlat_verbose_def xlat_format_def style_defs sample_table_def)
  from sprintflags_complete [OF pre, of "''flags ''" "0xd" None]
  show ?thesis by (auto split: option.splits)
qed

text \<open>What the loops of \<open>printflags_ex\<close> add to the output.\<close>

definition names_taken ::
  "u64 \<Rightarrow> nat \<Rightarrow> piece list \<Rightarrow> u64 \<times> nat \<times> piece list \<Rightarrow> bool" where
  "names_taken flags n out = (\<lambda>(fl, n', out').
     \<exists>names. out' = out @ names \<and> shown names OR fl = flags \<and> fl AND flags = fl
       \<and> n \<le> n' \<and> (n' = n \<longleftrightarrow> names = [])
       \<and> (\<forall>v st. X_val v st \<in> set names \<longrightarrow> v = 0))"

lemma names_taken_refl: "names_taken flags n out (flags, n, out)"
  by (simp add: names_taken_def)

lemma names_taken_trans:
  assumes "names_taken flags n out (fl, n', out')" "names_taken fl n' out' r"
  shows "names_taken flags n out r"
proof -
  obtain fl2 n2 out2 where r: "r = (fl2, n2, out2)" by (cases r)
  obtain a where a: "out' = out @ a" "shown a OR fl = flags" "fl AND flags = fl" "n \<le> n'"
      "n' = n \<longleftrightarrow> a = []" "\<forall>v st. X_val v st \<in> set a \<longrightarrow> v = 0"
    using assms(1) unfolding names_taken_def prod.case by (elim exE conjE) (rule that)
  obtain b where b: "out2 = out' @ b" "shown b OR fl2 = fl" "fl2 AND fl = fl2" "n' \<le> n2"
      "n2 = n' \<longleftrightarrow> b = []" "\<forall>v st. X_val v st \<in> set b \<longrightarrow> v = 0"
    using assms(2) unfolding r names_taken_def prod.case by (elim exE conjE) (rule that)
  have "fl2 AND flags = fl2" using a(3) b(3) by (metis and.assoc)
  moreover have "shown (a @ b) OR fl2 = flags" using a(2) b(2) by (simp add: or.assoc)
  ultimately show ?thesis unfolding r names_taken_def prod.case
    using a(1,4-6) b(1,4-6) by (intro exI [of _ "a @ b"]) auto
qed

lemma no_known_less:
  assumes "fl AND flags = fl" "no_known d flags"
  shows "no_known d fl"
proof -
  have "fl AND v = v \<Longrightarrow> flags AND v = v" for v using assms(1) by (metis and.assoc and.commute)
  then show ?thesis using assms(2) by (fastforce simp: no_known_def)
qed

lemma names_taken_no_known:
  "names_taken flags n out (fl, n', out') \<Longrightarrow> no_known d flags \<Longrightarrow> no_known d fl"
  using no_known_less unfolding names_taken_def prod.case by blast

lemma printflags_loop_spec:
  assumes "printflags_loop verbose d flags n out = (fl, n', out')"
  shows "names_taken flags n out (fl, n', out') \<and> no_known d fl"
  using assms
proof (induction verbose d flags n out rule: printflags_loop.induct)
  case (1 verbose flags n out)
  then show ?case using names_taken_refl by (simp add: no_known_def)
next
  case (2 verbose v str d flags n out)
  have zero: "no_known ((v, str) # d) 0" by (auto simp: no_known_def)
  let ?step = "case str of
      Some s \<Rightarrow>
        if flags = v \<or> v \<noteq> 0 \<and> flags AND v = v
        then (flags AND NOT v, n + 1,
              out @ (if verbose \<and> flags = 0 then [X_val 0 XLAT_STYLE_FMT_U] else [])
              @ (if n \<noteq> 0 then [X_text ''|''] else if verbose then [X_text '' /* ''] else [])
              @ [X_name v s])
        else (flags, n, out)
    | None \<Rightarrow> (flags, n, out)"
  obtain f1 n1 o1 where step: "?step = (f1, n1, o1)" by (cases ?step)
  have taken: "names_taken flags n out (f1, n1, o1)"
  proof (cases "\<exists>s. str = Some s \<and> (flags = v \<or> v \<noteq> 0 \<and> flags AND v = v)")
    case True
    then obtain s where s: "str = Some s" "flags = v \<or> v \<noteq> 0 \<and> flags AND v = v" by blast
    then have v: "flags AND v = v" by auto
    let ?new = "(if verbose \<and> flags = 0 then [X_val 0 XLAT_STYLE_FMT_U] else [])
        @ (if n \<noteq> 0 then [X_text ''|''] else if verbose then [X_text '' /* ''] else []) @ [X_name v s]"
    have new: "f1 = flags AND NOT v" "n1 = n + 1" "o1 = out @ ?new" using step s by auto
    have "shown ?new = v" by simp
    then have "shown ?new OR f1 = flags" using take_flag [OF v] unfolding new(1) by simp
    moreover have "f1 AND flags = f1" unfolding new(1) by (intro bit_eqI) (auto simp: bit_simps)
    moreover have "\<forall>w st. X_val w st \<in> set ?new \<longrightarrow> w = 0" by simp
    moreover have "n \<le> n1" "n1 = n \<longleftrightarrow> ?new = []" unfolding new(2) by simp_all
    ultimately show ?thesis unfolding names_taken_def prod.case using new(3) by (intro exI [of _ ?new] conjI)
  next
    case False
    then have "?step = (flags, n, out)" by (cases str) auto
    with step show ?thesis using names_taken_refl by simp
  qed
  have gone: "(flags AND NOT v) AND v = 0" by (intro bit_eqI) (auto simp: bit_simps)
  have nk1: "no_known [(v, str)] f1"
    using step gone by (cases str) (auto simp: no_known_def split: if_splits)
  show ?case
  proof (cases "flags = 0 \<and> n \<noteq> 0")
    case True
    with "2.prems" zero names_taken_refl show ?thesis by auto
  next
    case False
    have body: "printflags_loop verbose ((v, str) # d) flags n out
        = (if f1 = 0 then (f1, n1, o1) else printflags_loop verbose d f1 n1 o1)"
      unfolding printflags_loop.simps(2) if_not_P [OF False] step by simp
    show ?thesis
    proof (cases "f1 = 0")
      case True
      with "2.prems" body have "(fl, n', out') = (f1, n1, o1)" by simp
      with taken zero True show ?thesis by simp
    next
      case f1: False
      with "2.prems" body have run: "printflags_loop verbose d f1 n1 o1 = (fl, n', out')" by simp
      have ih: "names_taken f1 n1 o1 (fl, n', out') \<and> no_known d fl"
        by (rule "2.IH" [OF False step [symmetric] refl refl f1 run])
      then have "no_known [(v, str)] fl" using names_taken_no_known nk1 by blast
      with ih names_taken_trans [OF taken] show ?thesis by (auto simp: no_known_def)
    qed
  qed
qed

lemma printflags_tables_spec:
  assumes "printflags_tables verbose xs flags n out = (fl, n', out')"
  shows "names_taken flags n out (fl, n', out') \<and> (\<forall>x \<in> set xs. no_known (x_data x) fl)"
  using assms
proof (induction verbose xs flags n out rule: printflags_tables.induct)
  case (1 verbose flags n out)
  then show ?case using names_taken_refl by simp
next
  case (2 verbose x xs flags n out)
  obtain f1 n1 o1 where step: "printflags_loop verbose (x_data x) flags n out = (f1, n1, o1)"
    by (cases "printflags_loop verbose (x_data x) flags n out")
  note one = printflags_loop_spec [OF step]
  from "2.prems" step have run: "printflags_tables verbose xs f1 n1 o1 = (fl, n', out')" by simp
  note ih = "2.IH" [OF step [symmetric] refl run]
  have "names_taken flags n out (fl, n', out')"
    using names_taken_trans [OF conjunct1 [OF one] conjunct1 [OF ih]] .
  moreover have "no_known (x_data x) fl"
    by (rule names_taken_no_known [OF conjunct1 [OF ih] conjunct2 [OF one]])
  ultimately show ?case using ih by simp
qed

text \<open>
  C24: What \<open>printflags_ex\<close> prints in the default style stands for exactly the given flags, whatever
  tables are given: the bits of the names and of the number together are the flags, and a number
  is printed only for bits for which no table has a name.  Nothing is printed only if the flags are
  0 and no default is given.
\<close>

theorem printflags_complete:
  assumes "abbrev_style vb style" "printflags_ex vb flags dflt style xlats = (n, out)"
  shows "shown out = flags \<and> (out = [] \<longrightarrow> flags = 0 \<and> dflt = None)
    \<and> (\<forall>v st x. X_val v st \<in> set out \<and> x \<in> set xlats \<longrightarrow> no_known (x_data x) v)"
proof -
  let ?st = "get_xlat_style vb style"
  have nv: "xlat_verbose ?st \<noteq> XLAT_STYLE_RAW" "xlat_verbose ?st \<noteq> XLAT_STYLE_VERBOSE"
    using assms(1) by (simp_all add: abbrev_style_def style_defs)
  obtain fl k names where run: "printflags_tables False xlats flags 0 [] = (fl, k, names)"
    by (cases "printflags_tables False xlats flags 0 []")
  note spec = printflags_tables_spec [OF run]
  have l: "shown names OR fl = flags" "k = 0 \<longleftrightarrow> names = []" "\<forall>v st. X_val v st \<in> set names \<longrightarrow> v = 0"
    using conjunct1 [OF spec] by (auto simp: names_taken_def)
  have nk: "\<forall>x \<in> set xlats. no_known (x_data x) fl" using spec by blast
  have nk0: "no_known d 0" for d by (auto simp: no_known_def)
  have "out = (if k \<noteq> 0 then names @ (if fl \<noteq> 0 then [X_text ''|'', X_val fl ?st] else [])
      else names @ (if fl \<noteq> 0 then X_val fl ?st # tprints_comment dflt
                    else if dflt \<noteq> None then [X_val 0 XLAT_STYLE_FMT_U] else []))"
    using assms(2) nv run by (auto simp: printflags_ex_def Let_def print_xlat_val_def)
  moreover have "shown (tprints_comment dflt) = 0" "X_val v st \<notin> set (tprints_comment dflt)" for v st
    by (simp_all add: tprints_comment_def split: option.splits)
  ultimately show ?thesis using l nk nk0 by (cases "k = 0"; cases "fl = 0") auto
qed

theorem printflags_complete_witness:
  "shown (snd (printflags_ex XLAT_STYLE_ABBREV 0xd None XLAT_STYLE_DEFAULT [sample_table XT_NORMAL])) = 0xd"
proof -
  let ?r = "printflags_ex XLAT_STYLE_ABBREV 0xd None XLAT_STYLE_DEFAULT [sample_table XT_NORMAL]"
  have "abbrev_style XLAT_STYLE_ABBREV XLAT_STYLE_DEFAULT"
    by (simp add: abbrev_style_def get_xlat_style_def xlat_verbose_def style_defs)
  from printflags_complete [OF this, of "0xd" None "[sample_table XT_NORMAL]" "fst ?r" "snd ?r"] show ?thesis
    by simp
qed

end
