(* ===== verification/Signal_Mask.thy ===== *)
theory Signal_Mask
  imports Number_Set Sysent Xlat
begin

text \<open>
  Signal sets as they are printed: the scan for the next bit of a bit array (\<open>next_set_bit\<close> of
  \<^verbatim>\<open>util.c\<close>) and the printing of signals and signal masks (\<^verbatim>\<open>signal.c\<close>), with the bounds of the
  static buffer into which the names are written.  Bit arrays are those of a little-endian host.
\<close>

section \<open>The next bit that is set\<close>

text \<open>How the loop over the bits of one byte ends.\<close>

datatype byte_scan = Bit_found nat | Bits_end | Next_byte nat

function scan_byte :: "u8 \<Rightarrow> u8 \<Rightarrow> nat \<Rightarrow> nat \<Rightarrow> byte_scan" where
  "scan_byte cur_byte bitmask cur_bit size_bits =
     (if cur_byte AND bitmask \<noteq> 0 then Bit_found cur_bit
      else let cur_bit = cur_bit + 1;
               bitmask = push_bit 1 bitmask
           in if cur_bit \<ge> size_bits then Bits_end
              else if bitmask = 0 then Next_byte cur_bit
              else scan_byte cur_byte bitmask cur_bit size_bits)"
  by auto
termination
  by (relation "measure (\<lambda>(b, m, c, n). n - c)") auto

declare scan_byte.simps [simp del]

lemma scan_byte_next: "scan_byte b m c n = Next_byte c' \<Longrightarrow> c < c' \<and> c' < n"
proof (induction b m c n rule: scan_byte.induct)
  case (1 b m c n)
  then show ?case
    by (subst (asm) (2) scan_byte.simps) (fastforce simp: Let_def not_le split: if_splits)
qed

text \<open>\<open>(cur_bit + 8) & (-8)\<close> is the first bit of the next byte.\<close>

function next_set_bit_loop :: "u8 list \<Rightarrow> nat \<Rightarrow> nat \<Rightarrow> nat \<Rightarrow> int" where
  "next_set_bit_loop array cur_bit pos size_bits =
     (if cur_bit \<ge> size_bits then - 1
      else let cur_byte = array ! pos
           in if cur_byte = 0 then next_set_bit_loop array ((cur_bit + 8) div 8 * 8) (pos + 1) size_bits
              else case scan_byte cur_byte (push_bit (cur_bit mod 8) 1) cur_bit size_bits of
                     Bit_found i \<Rightarrow> int i
                   | Bits_end \<Rightarrow> - 1
                   | Next_byte c \<Rightarrow> next_set_bit_loop array c (pos + 1) size_bits)"
  by auto
termination
proof (relation "measure (\<lambda>(a, c, p, n). n - c)", goal_cases)
  case (2 a c p n x)
  then have "c < (c + 8) div 8 * 8" by presburger
  with 2 show ?case by simp
next
  case (3 a c p n x c')
  have "c < c' \<and> c' < n" by (rule scan_byte_next [OF 3(4)])
  then show ?case by (simp add: diff_less_mono2)
qed simp

declare next_set_bit_loop.simps [simp del]

definition next_set_bit :: "u8 list \<Rightarrow> nat \<Rightarrow> nat \<Rightarrow> int" where
  "next_set_bit bit_array cur_bit size_bits = next_set_bit_loop bit_array cur_bit (cur_bit div 8) size_bits"

text \<open>
  In a byte at bit \<open>8 * p\<close>, the scan from its bit \<open>k\<close> on finds the first bit of the byte that is set.
\<close>

lemma scan_byte_spec:
  assumes "k < 8" "8 * p + k < n"
  shows "case scan_byte b (2 ^ k) (8 * p + k) n of
      Bit_found i \<Rightarrow> 8 * p + k \<le> i \<and> i < n \<and> i div 8 = p \<and> bit b (i mod 8)
        \<and> (\<forall>j. 8 * p + k \<le> j \<and> j < i \<longrightarrow> \<not> bit b (j mod 8))
    | Bits_end \<Rightarrow> n \<le> 8 * p + 8 \<and> (\<forall>j. 8 * p + k \<le> j \<and> j < n \<longrightarrow> \<not> bit b (j mod 8))
    | Next_byte c \<Rightarrow> c = 8 * p + 8 \<and> (\<forall>j. 8 * p + k \<le> j \<and> j < c \<longrightarrow> \<not> bit b (j mod 8))"
  using assms
proof (induction "8 - k" arbitrary: k)
  case (Suc d)
  have pk: "(8 * p + k) div 8 = p" "(8 * p + k) mod 8 = k" using Suc.prems by simp_all
  have split: "8 * p + k \<le> j \<longleftrightarrow> j = 8 * p + k \<or> 8 * p + Suc k \<le> j" for j by auto
  have push: "push_bit 1 (2 ^ k :: u8) = 2 ^ Suc k" by (simp add: push_bit_eq_mult)
  have and_bit: "b AND 2 ^ k \<noteq> 0 \<longleftrightarrow> bit b k" using Suc.prems by simp
  show ?case
  proof (cases "bit b k")
    case True
    then have "scan_byte b (2 ^ k) (8 * p + k) n = Bit_found (8 * p + k)"
      using and_bit by (subst scan_byte.simps) simp
    with True Suc.prems pk show ?thesis by auto
  next
    case False
    note nb = this
    show ?thesis
    proof (cases "n \<le> 8 * p + Suc k")
      case True
      then have "scan_byte b (2 ^ k) (8 * p + k) n = Bits_end"
        using nb and_bit by (subst scan_byte.simps) simp
      moreover have "\<forall>j. 8 * p + k \<le> j \<and> j < n \<longrightarrow> \<not> bit b (j mod 8)"
        using True nb pk by (auto simp: split)
      ultimately show ?thesis using True Suc.prems by simp
    next
      case more: False
      show ?thesis
      proof (cases "Suc k < 8")
        case True
        then have "unat (2 ^ Suc k :: u8) = 2 ^ Suc k" by (intro unat_exp) simp
        then have "2 ^ Suc k \<noteq> (0 :: u8)" by (metis power_not_zero unat_0 zero_neq_numeral)
        then have e: "scan_byte b (2 ^ k) (8 * p + k) n = scan_byte b (2 ^ Suc k) (8 * p + Suc k) n"
          using nb and_bit more push by (subst scan_byte.simps) (simp add: Let_def mult.commute)
        have "d = 8 - Suc k" using Suc.hyps(2) by simp
        from Suc.hyps(1) [OF this True] more nb pk show ?thesis
          unfolding e by (auto simp: split split: byte_scan.splits)
      next
        case False
        then have k: "k = 7" using Suc.prems by simp
        then have "2 ^ Suc k = (0 :: u8)" by simp
        then have "scan_byte b (2 ^ k) (8 * p + k) n = Next_byte (8 * p + 8)"
          using nb and_bit more push k by (subst scan_byte.simps) (simp add: Let_def)
        moreover have "\<not> bit b (j mod 8)" if "8 * p + k \<le> j" "j < 8 * p + 8" for j
        proof -
          have "j = 8 * p + k" using that k by simp
          then show ?thesis using nb pk(2) by simp
        qed
        ultimately show ?thesis by simp
      qed
    qed
  qed
qed simp

lemma div8_eq: "8 * p \<le> (j :: nat) \<Longrightarrow> j < 8 * p + 8 \<Longrightarrow> j div 8 = p"
  by (rule div_nat_eqI) simp_all

definition array_bit :: "u8 list \<Rightarrow> nat \<Rightarrow> bool" where
  "array_bit a i = bit (a ! (i div 8)) (i mod 8)"

lemma next_set_bit_loop_spec:
  "next_set_bit_loop a c (c div 8) n = (case find (array_bit a) [c..<n] of None \<Rightarrow> - 1 | Some i \<Rightarrow> int i)"
proof (induction "n - c" arbitrary: c rule: less_induct)
  case less
  let ?p = "c div 8" and ?k = "c mod 8"
  have c: "8 * ?p + ?k = c" "?k < 8" by simp_all
  show ?case
  proof (cases "n \<le> c")
    case True
    then show ?thesis by (subst next_set_bit_loop.simps) simp
  next
    case False
    then have cn: "8 * ?p + ?k < n" by simp
    note unfold = next_set_bit_loop.simps [of a c ?p n]
    have skip: "find (array_bit a) [c..<n] = find (array_bit a) [c'..<n]"
      if "c \<le> c'" "\<And>j. c \<le> j \<Longrightarrow> j < c' \<Longrightarrow> j < n \<Longrightarrow> \<not> array_bit a j" for c'
      using that
    proof (induction "c' - c" arbitrary: c)
      case (Suc d)
      then have "c < c'" by simp
      show ?case
      proof (cases "c < n")
        case True
        have "find (array_bit a) [Suc c..<n] = find (array_bit a) [c'..<n]"
          using Suc \<open>c < c'\<close> by (intro Suc.hyps(1)) auto
        then show ?thesis using True Suc.prems(2) [of c] \<open>c < c'\<close> by (simp add: upt_conv_Cons)
      qed (use \<open>c < c'\<close> in simp)
    qed simp
    have nextp: "(8 * ?p + 8) div 8 = ?p + 1" by simp
    show ?thesis
    proof (cases "a ! ?p = 0")
      case True
      have c8: "(c + 8) div 8 * 8 = 8 * ?p + 8" by presburger
      have "\<not> array_bit a j" if "c \<le> j" "j < 8 * ?p + 8" for j
      proof -
        have "8 * ?p \<le> j" using that(1) c(1) by linarith
        then have "j div 8 = ?p" using that(2) by (rule div8_eq)
        then show ?thesis using True by (simp add: array_bit_def)
      qed
      then have "find (array_bit a) [c..<n] = find (array_bit a) [8 * ?p + 8..<n]"
        by (intro skip) (use c in linarith, simp)
      moreover have "next_set_bit_loop a c ?p n = next_set_bit_loop a (8 * ?p + 8) ((8 * ?p + 8) div 8) n"
        unfolding unfold nextp c8 using True False by simp
      moreover have "n - (8 * ?p + 8) < n - c" using False c by linarith
      ultimately show ?thesis using less [of "8 * ?p + 8"] by simp
    next
      case nz: False
      note sp = scan_byte_spec [OF c(2) cn, of "a ! ?p", unfolded c(1)]
      have pm: "push_bit ?k (1 :: u8) = 2 ^ ?k" by simp
      have in_byte: "array_bit a j = bit (a ! ?p) (j mod 8)" if "j div 8 = ?p" for j
        using that by (simp add: array_bit_def)
      have same: "j div 8 = ?p" if "c \<le> j" "j < 8 * ?p + 8" for j
      proof (rule div8_eq)
        show "8 * ?p \<le> j" using that(1) c(1) by linarith
      qed (rule that(2))
      show ?thesis
      proof (cases "scan_byte (a ! ?p) (2 ^ ?k) c n")
        case (Bit_found i)
        with sp have i: "c \<le> i" "i < n" "i div 8 = ?p" "bit (a ! ?p) (i mod 8)"
            "\<And>j. c \<le> j \<Longrightarrow> j < i \<Longrightarrow> \<not> bit (a ! ?p) (j mod 8)" by simp_all
        have "\<not> array_bit a j" if "c \<le> j" "j < i" for j
        proof -
          have "i < 8 * (i div 8) + 8" by simp
          then have "j < 8 * ?p + 8" using that(2) unfolding i(3) by (rule less_trans [rotated])
          then have "j div 8 = ?p" by (rule same [OF that(1)])
          then show ?thesis using i(5) [OF that] by (simp add: in_byte)
        qed
        then have "find (array_bit a) [c..<n] = find (array_bit a) [i..<n]" by (intro skip i(1)) auto
        moreover have "find (array_bit a) [i..<n] = Some i" using i in_byte [OF i(3)] by (simp add: upt_conv_Cons)
        moreover have "next_set_bit_loop a c ?p n = int i"
          unfolding unfold pm using False nz Bit_found by simp
        ultimately show ?thesis by simp
      next
        case Bits_end
        with sp have e: "n \<le> 8 * ?p + 8" "\<And>j. c \<le> j \<Longrightarrow> j < n \<Longrightarrow> \<not> bit (a ! ?p) (j mod 8)" by simp_all
        have "\<not> array_bit a j" if "c \<le> j" "j < n" for j
          using e(2) [OF that] in_byte [OF same [OF that(1)]] e(1) that(2) by simp
        then have "find (array_bit a) [c..<n] = find (array_bit a) [n..<n]"
          using False by (intro skip) auto
        moreover have "next_set_bit_loop a c ?p n = - 1"
          unfolding unfold pm using False nz Bits_end by simp
        ultimately show ?thesis by simp
      next
        case (Next_byte c')
        with sp have e: "c' = 8 * ?p + 8" "\<And>j. c \<le> j \<Longrightarrow> j < c' \<Longrightarrow> \<not> bit (a ! ?p) (j mod 8)" by simp_all
        have "\<not> array_bit a j" if "c \<le> j" "j < c'" for j
          using e(2) [OF that] in_byte [OF same [OF that(1)]] e(1) that(2) by simp
        moreover have "c < c'" "c' < n" using scan_byte_next [OF Next_byte] by simp_all
        ultimately have "find (array_bit a) [c..<n] = find (array_bit a) [c'..<n]" by (intro skip) auto
        moreover have "next_set_bit_loop a c ?p n = next_set_bit_loop a c' (c' div 8) n"
          unfolding unfold pm using False nz Next_byte e(1) by simp
        ultimately show ?thesis using less [of c'] \<open>c < c'\<close> \<open>c' < n\<close> by (simp add: diff_less_mono2)
      qed
    qed
  qed
qed

section \<open>Writing into a buffer\<close>

text \<open>
  The string written so far into an array of \<open>size\<close> characters.  A character and \<open>stpcpy\<close> are not
  checked, so beyond the end the behaviour is undefined; \<open>xappendstr\<close> dies instead.
\<close>

definition put_char :: "nat \<Rightarrow> char \<Rightarrow> string \<Rightarrow> string outcome" where
  "put_char sz c s =
     (if length s < sz then Inr (s @ [c]) else Inl (Undefined_behaviour ''character beyond the buffer''))"

definition put_str :: "nat \<Rightarrow> string \<Rightarrow> string \<Rightarrow> string outcome" where
  "put_str sz str s =
     (if length s + length str < sz then Inr (s @ str) else Inl (Undefined_behaviour ''stpcpy beyond the buffer''))"

definition xappendstr :: "nat \<Rightarrow> string \<Rightarrow> string \<Rightarrow> string outcome" where
  "xappendstr sz str s =
     (if length s \<le> sz \<and> length str < sz - length s then Inr (s @ str)
      else Inl (Error_msg_and_die ''xappendstr''))"

section \<open>Signals\<close>

definition sprintsigname :: "'d config \<Rightarrow> int \<Rightarrow> string" where
  "sprintsigname cfg sig =
     (case signame cfg sig of Some str \<Rightarrow> str
      | None \<Rightarrow> if sig < 0 then ''-'' @ dec (nat (- sig)) else dec (nat sig))"

definition printsignal :: "'d config \<Rightarrow> u32 \<Rightarrow> int \<Rightarrow> piece list" where
  "printsignal cfg xlat_verbosity nr =
     (let str = signame cfg nr;
          number = [X_text (if nr < 0 then ''-'' @ dec (nat (- nr)) else dec (nat nr))]
      in (if str = None \<or> xlat_verbose xlat_verbosity \<noteq> XLAT_STYLE_ABBREV then number else [])
         @ (if str = None \<or> xlat_verbose xlat_verbosity = XLAT_STYLE_RAW then []
            else if xlat_verbose xlat_verbosity = XLAT_STYLE_VERBOSE then tprints_comment str
            else [X_text (the str)]))"

text \<open>The bytes of an array of 32-bit words.\<close>

definition bytes_of :: "u32 list \<Rightarrow> u8 list" where
  "bytes_of ws = map (\<lambda>i. ucast (drop_bit (8 * (i mod 4)) (ws ! (i div 4)))) [0..<4 * length ws]"

text \<open>The size of \<open>outstr\<close>.\<close>

definition sigmask_buf :: "'d config \<Rightarrow> nat" where
  "sigmask_buf cfg = 128 + 8 * (nsig_bytes cfg * 8 * 2 div 3)"

text \<open>
  The name of signal \<open>i\<close> in a mask, without \<open>SIG\<close>.  A signal of the table has a name.
\<close>

definition sigmask_name :: "'d config \<Rightarrow> u32 \<Rightarrow> nat \<Rightarrow> string \<Rightarrow> string outcome" where
  "sigmask_name cfg xlat_verbosity i s =
     (if i < length (signalent cfg)
      then (case signalent cfg ! i of
              Some name \<Rightarrow> put_str (sigmask_buf cfg) (drop 3 name) s
            | None \<Rightarrow> Inl (Undefined_behaviour ''signalent[i] is NULL''))
      else case asm_sigrt cfg of
             Some (rtmin, rtmax) \<Rightarrow>
               if i \<ge> rtmin \<and> i \<le> rtmax then xappendstr (sigmask_buf cfg) (''RT_'' @ dec (i - rtmin)) s
               else if xlat_verbose xlat_verbosity \<noteq> XLAT_STYLE_ABBREV
               then xappendstr (sigmask_buf cfg) (dec i) s else Inr s
           | None \<Rightarrow>
               if xlat_verbose xlat_verbosity \<noteq> XLAT_STYLE_ABBREV
               then xappendstr (sigmask_buf cfg) (dec i) s else Inr s)"

definition sigmask_item :: "'d config \<Rightarrow> u32 \<Rightarrow> char \<Rightarrow> nat \<Rightarrow> string \<Rightarrow> string outcome" where
  "sigmask_item cfg xlat_verbosity sep i s =
     (let v = xlat_verbose xlat_verbosity; n = sigmask_buf cfg
      in obind (put_char n sep s) (\<lambda>s.
         obind (if v \<noteq> XLAT_STYLE_ABBREV then xappendstr n (dec i) s else Inr s) (\<lambda>s.
         obind (if v = XLAT_STYLE_VERBOSE then xappendstr n '' /* '' s else Inr s) (\<lambda>s.
         obind (if v \<noteq> XLAT_STYLE_RAW then sigmask_name cfg xlat_verbosity i s else Inr s) (\<lambda>s.
         if v = XLAT_STYLE_VERBOSE then xappendstr n '' */'' s else Inr s)))))"

text \<open>The loop over the signals; \<open>n\<close> is the number of bits.\<close>

lemma next_set_bit_range:
  "next_set_bit a c n \<ge> 0 \<Longrightarrow> c \<le> nat (next_set_bit a c n) \<and> nat (next_set_bit a c n) < n"
  unfolding next_set_bit_def next_set_bit_loop_spec
  by (auto split: option.splits dest: find_upt_SomeD)

function sigmask_loop ::
  "'d config \<Rightarrow> u32 \<Rightarrow> u8 list \<Rightarrow> nat \<Rightarrow> nat \<Rightarrow> char \<Rightarrow> string \<Rightarrow> (char \<times> string) outcome" where
  "sigmask_loop cfg xlat_verbosity array n i sep s =
     (let j = next_set_bit array i n
      in if j \<ge> 0
         then obind (sigmask_item cfg xlat_verbosity sep (nat j + 1) s)
                (sigmask_loop cfg xlat_verbosity array n (nat j + 1) (CHR '' ''))
         else Inr (sep, s))"
  by auto
termination
proof (relation "measure (\<lambda>(cfg, v, a, n, i, sep, s). n - i)", goal_cases)
  case (2 cfg v a n i sep s j s')
  then show ?case using next_set_bit_range [of a i n] by auto
qed simp

declare sigmask_loop.simps [simp del]

text \<open>
  \<open>sprintsigmask_n\<close> on the first \<open>bytes\<close> bytes of an array of words.
\<close>

definition sprintsigmask_n :: "'d config \<Rightarrow> u32 \<Rightarrow> string \<Rightarrow> u32 list \<Rightarrow> nat \<Rightarrow> string outcome" where
  "sprintsigmask_n cfg xlat_verbosity prefix sig_mask bytes =
     (let n = sigmask_buf cfg;
          sz = (min bytes (nsig_bytes cfg) + 3) div 4;
          words = take sz sig_mask;
          inverted = (unat (popcount32 words sz 0) \<ge> sz * (4 * 8) * 2 div 3);
          words = (if inverted then map (NOT) words else words)
      in obind (put_str n prefix []) (\<lambda>s.
         obind (if inverted then put_char n (CHR ''~'') s else Inr s) (\<lambda>s.
         obind (sigmask_loop cfg xlat_verbosity (bytes_of words) (sz * (4 * 8)) 0 (CHR ''['') s) (\<lambda>(sep, s).
         obind (if sep = CHR ''['' then put_char n sep s else Inr s) (\<lambda>s.
         obind (put_char n (CHR '']'') s) (\<lambda>s.
         if length s < n then Inr s else Inl (Undefined_behaviour ''character beyond the buffer'')))))))"

section \<open>What the scan finds\<close>

text \<open>
  The scan for the next bit ends and is exact: from any bit on, it gives the first bit below the
  size that is set, and \<open>-1\<close> when there is none, although it skips zero bytes and keeps the byte
  and the bit position apart.
\<close>

lemma next_set_bit_exact:
  "next_set_bit a c n =
     (case find (\<lambda>i. bit (a ! (i div 8)) (i mod 8)) [c..<n] of None \<Rightarrow> - 1 | Some i \<Rightarrow> int i)"
proof -
  have "(\<lambda>i. bit (a ! (i div 8)) (i mod 8)) = array_bit a" by (simp add: array_bit_def fun_eq_iff)
  then show ?thesis by (simp only: next_set_bit_def next_set_bit_loop_spec)
qed

lemma find_filter: "(case find P [c..<n] of None \<Rightarrow> filter P [c..<n] = []
    | Some i \<Rightarrow> filter P [c..<n] = i # filter P [Suc i..<n])"
proof (induction "n - c" arbitrary: c)
  case (Suc d)
  then have "c < n" by simp
  show ?case
  proof (cases "P c")
    case True
    then show ?thesis using \<open>c < n\<close> by (simp add: upt_conv_Cons)
  next
    case False
    have "d = n - Suc c" using Suc.hyps(2) by simp
    note ih = Suc.hyps(1) [OF this]
    have u: "[c..<n] = c # [Suc c..<n]" using \<open>c < n\<close> by (simp add: upt_conv_Cons)
    show ?thesis using ih False by (simp only: u find.simps filter.simps if_False)
  qed
qed simp

fun sigmask_items :: "'d config \<Rightarrow> u32 \<Rightarrow> char \<Rightarrow> nat list \<Rightarrow> string \<Rightarrow> (char \<times> string) outcome" where
  "sigmask_items cfg v sep [] s = Inr (sep, s)"
| "sigmask_items cfg v sep (i # is) s =
     obind (sigmask_item cfg v sep i s) (sigmask_items cfg v (CHR '' '') is)"

text \<open>The loop writes the signals of all bits that are set, in order.\<close>

lemma sigmask_loop_items:
  "sigmask_loop cfg v a n i sep s = sigmask_items cfg v sep (map Suc (filter (array_bit a) [i..<n])) s"
proof (induction cfg v a n i sep s rule: sigmask_loop.induct)
  case (1 cfg v a n i sep s)
  have nx: "next_set_bit a i n = (case find (array_bit a) [i..<n] of None \<Rightarrow> - 1 | Some j \<Rightarrow> int j)"
    by (simp add: next_set_bit_def next_set_bit_loop_spec)
  show ?case
  proof (cases "find (array_bit a) [i..<n]")
    case None
    then have "filter (array_bit a) [i..<n] = []" using find_filter [of "array_bit a" i n] by simp
    with None nx show ?thesis by (simp add: sigmask_loop.simps [of cfg v a n i])
  next
    case (Some j)
    then have f: "filter (array_bit a) [i..<n] = j # filter (array_bit a) [Suc j..<n]"
      using find_filter [of "array_bit a" i n] by simp
    have "sigmask_loop cfg v a n (Suc j) (CHR '' '') s'
        = sigmask_items cfg v (CHR '' '') (map Suc (filter (array_bit a) [Suc j..<n])) s'" for s'
      using "1.IH" [OF refl, of s'] Some nx by simp
    then have "sigmask_loop cfg v a n (Suc j) (CHR '' '')
        = sigmask_items cfg v (CHR '' '') (map Suc (filter (array_bit a) [Suc j..<n]))" by (intro ext)
    with Some nx f show ?thesis by (simp add: sigmask_loop.simps [of cfg v a n i])
  qed
qed

lemma array_bit_bytes_of:
  assumes "i < 32 * length ws"
  shows "array_bit (bytes_of ws) i = bit (ws ! (i div 32)) (i mod 32)"
proof -
  have "i div 8 < 4 * length ws" using assms by (simp add: div_less_iff_less_mult)
  then have "bytes_of ws ! (i div 8) = ucast (drop_bit (8 * (i div 8 mod 4)) (ws ! (i div 8 div 4)))"
    by (simp add: bytes_of_def)
  moreover have "i div 8 div 4 = i div 32" by (simp add: div_mult2_eq [symmetric])
  moreover have "8 * (i div 8 mod 4) + i mod 8 = i mod 32"
    using mod_mult2_eq [of i 8 4] by simp
  ultimately show ?thesis by (simp add: array_bit_def bit_ucast_iff bit_drop_bit_eq)
qed

definition in_mask :: "u32 list \<Rightarrow> nat \<Rightarrow> bool" where
  "in_mask ws i = bit (ws ! (i div 32)) (i mod 32)"

text \<open>The bits that are shown: those of the mask, or the others when it is inverted.\<close>

lemma shown_bits:
  "filter (array_bit (bytes_of (if neg then map (NOT) ws else ws))) [0..<32 * length ws]
    = filter (\<lambda>i. in_mask ws i \<noteq> neg) [0..<32 * length ws]"
proof (rule filter_cong [OF refl])
  fix i assume "i \<in> set [0..<32 * length ws]"
  then have i: "i < 32 * length ws" by simp
  then have "i div 32 < length ws" by (simp add: div_less_iff_less_mult mult.commute)
  moreover have "i mod 32 < 32" by simp
  ultimately show "array_bit (bytes_of (if neg then map (NOT) ws else ws)) i = (in_mask ws i \<noteq> neg)"
    using array_bit_bytes_of [of i ws] array_bit_bytes_of [of i "map (NOT) ws"] i
    by (auto simp: in_mask_def bit_not_iff)
qed

lemma mask_count: "length (filter (in_mask ws) [0..<32 * length ws]) = card (slots_set ws)"
proof -
  have "slots_set ws = set (filter (in_mask ws) [0..<32 * length ws])"
    by (auto simp: in_slots_set_iff in_mask_def BITS_PER_SLOT_def div_less_iff_less_mult mult.commute)
  also have "card \<dots> = length (filter (in_mask ws) [0..<32 * length ws])"
    by (intro distinct_card) simp
  finally show ?thesis by simp
qed

lemma mask_popcount:
  assumes "32 * length ws < 2 ^ 32"
  shows "unat (popcount32 ws (length ws) 0) = length (filter (in_mask ws) [0..<32 * length ws])"
proof -
  have "length (filter (in_mask ws) [0..<32 * length ws]) \<le> 32 * length ws"
    using length_filter_le [of "in_mask ws" "[0..<32 * length ws]"] by simp
  then have "card (slots_set ws) < 2 ^ 32" using assms mask_count [of ws] by simp
  then show ?thesis by (simp add: popcount32_eq mask_count unat_of_nat)
qed

text \<open>
  Because a mask with two thirds of its bits set is shown inverted, at most two thirds of the
  signals are named.
\<close>

lemma shown_bound:
  fixes P :: "nat \<Rightarrow> bool"
  assumes "neg \<longleftrightarrow> length (filter P [0..<t]) \<ge> t * 2 div 3" "t = 0 \<or> t \<ge> 2"
  shows "length (filter (\<lambda>i. P i \<noteq> neg) [0..<t]) \<le> t * 2 div 3"
proof (cases neg)
  case False
  then show ?thesis using assms by simp
next
  case True
  have "length (filter P [0..<t]) + length (filter (\<lambda>i. \<not> P i) [0..<t]) = t"
    using sum_length_filter_compl [of P "[0..<t]"] by simp
  moreover have "t - t * 2 div 3 \<le> t * 2 div 3" using assms(2) by linarith
  ultimately show ?thesis using True assms(1) by simp
qed

definition sig_label :: "'d config \<Rightarrow> nat \<Rightarrow> string option" where
  "sig_label cfg i =
     (if i < length (signalent cfg) then map_option (drop 3) (signalent cfg ! i)
      else case asm_sigrt cfg of None \<Rightarrow> Some []
           | Some (rtmin, rtmax) \<Rightarrow> Some (if i \<ge> rtmin \<and> i \<le> rtmax then ''RT_'' @ dec (i - rtmin) else []))"

lemma sigmask_item_abbrev:
  assumes "xlat_verbose v = XLAT_STYLE_ABBREV" "sig_label cfg i = Some l" "length s + 1 + length l < sigmask_buf cfg"
  shows "sigmask_item cfg v sep i s = Inr (s @ sep # l)"
  using assms
  by (auto simp: sigmask_item_def sigmask_name_def sig_label_def put_char_def put_str_def xappendstr_def style_defs
      Let_def split: if_splits option.splits)

lemma sigmask_items_abbrev:
  assumes "xlat_verbose v = XLAT_STYLE_ABBREV" "\<forall>i \<in> set is. \<exists>l. sig_label cfg i = Some l \<and> length l \<le> 7"
    and "length s + 8 * length is < sigmask_buf cfg"
  shows "\<exists>t. sigmask_items cfg v sep is s = Inr (if is = [] then sep else CHR '' '', s @ t)
    \<and> t = (if is = [] then [] else sep # join (CHR '' '') (map (\<lambda>i. the (sig_label cfg i)) is))
    \<and> length t \<le> 8 * length is"
  using assms(2,3)
proof (induction "is" arbitrary: sep s)
  case (Cons i "is")
  obtain l where l: "sig_label cfg i = Some l" "length l \<le> 7" using Cons.prems(1) by auto
  have "sigmask_item cfg v sep i s = Inr (s @ sep # l)"
    using l Cons.prems(2) by (intro sigmask_item_abbrev [OF assms(1)]) simp_all
  moreover obtain t where "sigmask_items cfg v (CHR '' '') is (s @ sep # l)
        = Inr (if is = [] then CHR '' '' else CHR '' '', (s @ sep # l) @ t)"
      "t = (if is = [] then [] else CHR '' '' # join (CHR '' '') (map (\<lambda>i. the (sig_label cfg i)) is))"
      "length t \<le> 8 * length is"
    using Cons.IH [of "s @ sep # l" "CHR '' ''"] Cons.prems l(2) by auto
  ultimately show ?case using l by (cases "is") auto
qed simp

text \<open>
  C25: In the default style, \<open>sprintsigmask_n\<close> writes the prefix and, in brackets, the names of exactly
  the signals of the mask, or after a tilde the names of exactly the signals that are not in it,
  in increasing order; and the text fits the static buffer, for every mask, as long as the prefix
  has at most 16 characters and the names without \<open>SIG\<close> at most 7.
\<close>

theorem sigmask_exact:
  assumes "xlat_verbose v = XLAT_STYLE_ABBREV" "nsig_bytes cfg mod 4 = 0" "nsig_bytes cfg \<le> 2 ^ 20"
    and "length prefix \<le> 16" "length sig_mask = sz" "sz = (min bytes (nsig_bytes cfg) + 3) div 4"
    and "\<forall>i \<le> 8 * nsig_bytes cfg. 0 < i \<longrightarrow> (\<exists>l. sig_label cfg i = Some l \<and> length l \<le> 7)"
  shows "\<exists>neg. sprintsigmask_n cfg v prefix sig_mask bytes
    = Inr (prefix @ (if neg then ''~['' else ''['')
        @ join (CHR '' '') (map (\<lambda>i. the (sig_label cfg (Suc i))) (filter (\<lambda>i. in_mask sig_mask i \<noteq> neg) [0..<32 * sz]))
        @ '']'')"
proof -
  have "(min bytes (nsig_bytes cfg) + 3) div 4 \<le> (nsig_bytes cfg + 3) div 4" by (intro div_le_mono) simp
  moreover obtain w where w: "nsig_bytes cfg = 4 * w" using assms(2) by auto
  ultimately have "sz \<le> w" using assms(6) by simp
  then have sz: "32 * sz \<le> nsig_bytes cfg * 8" using w by simp
  define neg where "neg \<longleftrightarrow> unat (popcount32 sig_mask sz 0) \<ge> sz * (4 * 8) * 2 div 3"
  define bits where "bits = filter (\<lambda>i. in_mask sig_mask i \<noteq> neg) [0..<32 * sz]"
  let ?is = "map Suc bits" and ?n = "sigmask_buf cfg"
  have "unat (popcount32 sig_mask sz 0) = length (filter (in_mask sig_mask) [0..<32 * sz])"
    using mask_popcount [of sig_mask] assms(3,5) sz by simp
  then have "length bits \<le> 32 * sz * 2 div 3"
    unfolding bits_def by (intro shown_bound) (auto simp: neg_def mult.commute)
  also have "\<dots> \<le> nsig_bytes cfg * 8 * 2 div 3" using sz by (intro div_le_mono mult_le_mono1)
  finally have count: "8 * length ?is + 128 \<le> ?n" by (simp add: sigmask_buf_def)
  have labels: "\<forall>i \<in> set ?is. \<exists>l. sig_label cfg i = Some l \<and> length l \<le> 7"
    using assms(7) sz by (auto simp: bits_def)
  let ?s = "prefix @ (if neg then ''~'' else [])"
  obtain t where t: "sigmask_items cfg v (CHR ''['') ?is ?s = Inr (if ?is = [] then CHR ''['' else CHR '' '', ?s @ t)"
      "t = (if ?is = [] then [] else CHR ''['' # join (CHR '' '') (map (\<lambda>i. the (sig_label cfg i)) ?is))"
      "length t \<le> 8 * length ?is"
    using sigmask_items_abbrev [OF assms(1) labels, of ?s "CHR ''[''"] count assms(4)
    by (auto simp del: map_is_Nil_conv)
  have loop: "sigmask_loop cfg v (bytes_of (if neg then map (NOT) sig_mask else sig_mask)) (sz * (4 * 8)) 0 (CHR ''['') s
      = sigmask_items cfg v (CHR ''['') ?is s" for s
    unfolding sigmask_loop_items using shown_bits [of neg sig_mask] assms(5) by (simp add: bits_def mult.commute)
  have start: "put_str ?n prefix [] = Inr prefix" "(if neg then put_char ?n (CHR ''~'') prefix else Inr prefix) = Inr ?s"
    using assms(4) count by (simp_all add: put_str_def put_char_def)
  have len: "length (?s @ t) + 3 < ?n" using t(3) count assms(4) by simp
  have tk: "take sz sig_mask = sig_mask" using assms(5) by simp
  have "sprintsigmask_n cfg v prefix sig_mask bytes
      = Inr (?s @ (if ?is = [] then ''['' else t) @ '']'')"
    unfolding sprintsigmask_n_def Let_def assms(6) [symmetric] tk neg_def [symmetric] start obind_simps loop t(1)
      prod.case
    using len t(2) by (simp add: put_char_def)
  then show ?thesis using t(2) by (intro exI [of _ neg]) (simp add: comp_def bits_def)
qed

lemma dec_length:
  "0 < length (dec k)" "k < 100 \<Longrightarrow> length (dec k) \<le> 2" "10 \<le> k \<Longrightarrow> 2 \<le> length (dec k)"
proof -
  show p: "0 < length (dec k)" for k by (subst dec.simps) simp
  show "length (dec k) \<le> 2" if "k < 100"
  proof -
    have "k div 10 < 10" using that by (simp add: div_less_iff_less_mult)
    then show ?thesis by (simp add: dec.simps [of k] dec.simps [of "k div 10"])
  qed
  show "10 \<le> k \<Longrightarrow> 2 \<le> length (dec k)"
    using p [of "k div 10"] by (subst dec.simps) (simp add: Suc_le_eq)
qed

lemma sample_labels:
  assumes "i \<le> 64" "0 < i"
  shows "\<exists>l. sig_label sample_config i = Some l \<and> length l \<le> 7"
proof -
  have d: "length (dec (i - 32)) \<le> 2" using assms by (intro dec_length(2)) simp
  consider "i = 1" | "i = 2" | "3 \<le> i" using assms(2) by linarith
  then show ?thesis
    using assms d by cases (auto simp: sig_label_def sample_config_def)
qed

theorem sigmask_exact_witness:
  "\<exists>neg. sprintsigmask_n sample_config XLAT_STYLE_ABBREV ''mask '' [3, 0] 8
     = Inr (''mask '' @ (if neg then ''~['' else ''['')
         @ join (CHR '' '') (map (\<lambda>i. the (sig_label sample_config (Suc i))) (filter (\<lambda>i. in_mask [3, 0] i \<noteq> neg) [0..<32 * 2]))
         @ '']'')"
proof (rule sigmask_exact)
  show "xlat_verbose XLAT_STYLE_ABBREV = XLAT_STYLE_ABBREV" by (simp add: xlat_verbose_def style_defs)
  have n: "nsig_bytes sample_config = 8" by (simp add: sample_config_def)
  then show "nsig_bytes sample_config mod 4 = 0" "nsig_bytes sample_config \<le> 2 ^ 20"
      "2 = (min 8 (nsig_bytes sample_config) + 3) div 4" by simp_all
  show "\<forall>i \<le> 8 * nsig_bytes sample_config. 0 < i \<longrightarrow> (\<exists>l. sig_label sample_config i = Some l \<and> length l \<le> 7)"
    unfolding n using sample_labels by simp
qed simp_all

section \<open>The verbose style does not fit the buffer\<close>

lemma xappendstr_Inr: "xappendstr n str s = Inr s' \<Longrightarrow> s' = s @ str"
  by (simp add: xappendstr_def split: if_splits)

lemma sigmask_name_longer:
  assumes "sigmask_name cfg v i s = Inr s'"
  shows "length s \<le> length s'"
    "asm_sigrt cfg = Some (a, b) \<Longrightarrow> length (signalent cfg) \<le> i \<Longrightarrow> a \<le> i \<Longrightarrow> i \<le> b \<Longrightarrow> length s + 4 \<le> length s'"
  using assms dec_length(1) [of "i - a"]
  by (auto simp: sigmask_name_def put_str_def xappendstr_def Suc_le_eq split: if_splits option.splits)

lemma sigmask_item_verbose:
  assumes "xlat_verbose v = XLAT_STYLE_VERBOSE" "sigmask_item cfg v sep i s = Inr s'"
  shows "length s + 8 + length (dec i) \<le> length s'"
    "asm_sigrt cfg = Some (a, b) \<Longrightarrow> length (signalent cfg) \<le> i \<Longrightarrow> a \<le> i \<Longrightarrow> i \<le> b
      \<Longrightarrow> length s + 12 + length (dec i) \<le> length s'"
    "length s' \<le> sigmask_buf cfg"
proof -
  let ?n = "sigmask_buf cfg"
  from assms obtain x y s1 where x: "xappendstr ?n (dec i) (s @ [sep]) = Inr x" "xappendstr ?n '' /* '' x = Inr y"
      "sigmask_name cfg v i y = Inr s1" "xappendstr ?n '' */'' s1 = Inr s'"
    by (auto simp: sigmask_item_def Let_def obind_eq_Inr put_char_def style_defs split: if_splits)
  have s1: "sigmask_name cfg v i (s @ [sep] @ dec i @ '' /* '') = Inr s1" "xappendstr ?n '' */'' s1 = Inr s'"
    using x(3,4) xappendstr_Inr [OF x(1)] xappendstr_Inr [OF x(2)] by simp_all
  have s': "length s' = length s1 + 3" using xappendstr_Inr [OF s1(2)] by simp
  show "length s + 8 + length (dec i) \<le> length s'" using sigmask_name_longer(1) [OF s1(1)] s' by simp
  show "length s + 12 + length (dec i) \<le> length s'"
    if "asm_sigrt cfg = Some (a, b)" "length (signalent cfg) \<le> i" "a \<le> i" "i \<le> b"
    using sigmask_name_longer(2) [OF s1(1) that] s' by simp
  show "length s' \<le> ?n" using s1(2) by (auto simp: xappendstr_def split: if_splits)
qed

lemma sigmask_items_verbose:
  assumes "xlat_verbose v = XLAT_STYLE_VERBOSE" "asm_sigrt cfg = Some (a, b)" "length (signalent cfg) \<le> a" "10 \<le> a"
    and "sigmask_items cfg v sep is s = Inr (c, s')" "length s \<le> sigmask_buf cfg"
  shows "length s + (\<Sum>i\<leftarrow>is. if a \<le> i \<and> i \<le> b then 14 else 9) \<le> length s' \<and> length s' \<le> sigmask_buf cfg"
  using assms(5,6)
proof (induction "is" arbitrary: sep s)
  case (Cons i "is")
  then obtain s1 where s1: "sigmask_item cfg v sep i s = Inr s1" "sigmask_items cfg v (CHR '' '') is s1 = Inr (c, s')"
    by (auto simp: obind_eq_Inr)
  note item = sigmask_item_verbose [OF assms(1) s1(1)]
  have "length s + (if a \<le> i \<and> i \<le> b then 14 else 9) \<le> length s1"
  proof (cases "a \<le> i \<and> i \<le> b")
    case True
    then show ?thesis using item(2) [OF assms(2)] assms(3,4) dec_length(3) [of i] by simp
  next
    case False
    then have "length s + 9 \<le> length s1" using item(1) dec_length(1) [of i] by linarith
    with False show ?thesis by auto
  qed
  moreover have "length s1 + (\<Sum>i\<leftarrow>is. if a \<le> i \<and> i \<le> b then 14 else 9) \<le> length s' \<and> length s' \<le> sigmask_buf cfg"
    by (rule Cons.IH [OF s1(2) item(3)])
  ultimately show ?case by auto
qed simp

text \<open>
  C34: In the verbose style the static buffer is too small: with 64 signals, of which the upper half are
  real-time signals, a mask of all real-time signals and nine others does not fit, and
  \<open>sprintsigmask_n\<close> does not return; the size of the buffer counts 8 characters per name, the style
  writes at least 14 for a real-time signal.
\<close>

theorem sigmask_verbose_overflow:
  assumes "xlat_verbose v = XLAT_STYLE_VERBOSE" "nsig_bytes cfg = 8" "asm_sigrt cfg = Some (32, 64)"
    and "length (signalent cfg) \<le> 32"
  shows "\<exists>e. sprintsigmask_n cfg v prefix [0x1ff, 0xffffffff] 8 = Inl e"
proof (rule ccontr)
  assume "\<not> ?thesis"
  then obtain r where r: "sprintsigmask_n cfg v prefix [0x1ff, 0xffffffff] 8 = Inr r"
    by (cases "sprintsigmask_n cfg v prefix [0x1ff, 0xffffffff] 8") auto
  let ?ws = "[0x1ff, 0xffffffff] :: u32 list"
  let ?bits = "filter (in_mask ?ws) [0..<64]"
  have bits: "?bits = [0..<9] @ [32..<64]" by code_simp
  have "unat (popcount32 ?ws (length ?ws) 0) = length (filter (in_mask ?ws) [0..<32 * length ?ws])"
    by (rule mask_popcount) simp
  moreover have "length ?ws = 2" "(32 * 2 :: nat) = 64" by simp_all
  ultimately have "unat (popcount32 ?ws 2 0) = length ([0..<9] @ [32..<64])" by (simp only: bits)
  then have pop: "\<not> unat (popcount32 ?ws 2 0) \<ge> 2 * (4 * 8) * 2 div 3" by simp
  have items: "sigmask_loop cfg v (bytes_of ?ws) 64 0 (CHR ''['') s
      = sigmask_items cfg v (CHR ''['') (map Suc ?bits) s" for s
    unfolding sigmask_loop_items using shown_bits [of False ?ws] by simp
  from r pop items obtain s c s' where s: "put_str (sigmask_buf cfg) prefix [] = Inr s"
      "sigmask_items cfg v (CHR ''['') (map Suc ?bits) s = Inr (c, s')"
    by (auto simp: sprintsigmask_n_def Let_def assms(2) obind_eq_Inr)
  have "length s \<le> sigmask_buf cfg" using s(1) by (auto simp: put_str_def split: if_splits)
  from sigmask_items_verbose [OF assms(1,3,4) _ s(2) this]
  have "(\<Sum>i\<leftarrow>map Suc ([0..<9] @ [32..<64]). if 32 \<le> i \<and> i \<le> 64 then 14 else 9) \<le> sigmask_buf cfg"
    unfolding bits by simp
  moreover have "(\<Sum>i\<leftarrow>map Suc ([0..<9] @ [32..<64]). if 32 \<le> i \<and> i \<le> (64 :: nat) then 14 else 9) = (529 :: nat)"
    by code_simp
  ultimately show False by (simp add: sigmask_buf_def assms(2))
qed

theorem sigmask_verbose_overflow_witness:
  "\<exists>e. sprintsigmask_n sample_config XLAT_STYLE_VERBOSE ''mask '' [0x1ff, 0xffffffff] 8 = Inl e"
  by (rule sigmask_verbose_overflow) (simp_all add: xlat_verbose_def style_defs sample_config_def)

end
