(* ===== verification/Quote.thy ===== *)
theory Quote
  imports Ucopy Xlat
begin

text \<open>
  How strings of the tracee are printed (\<^verbatim>\<open>util.c\<close>, \<^verbatim>\<open>print_utils.h\<close>): \<open>string_quote\<close> with its three ways
  to escape a byte, the functions that print a quoted string, and \<open>printpathn\<close> and \<open>printstr_ex\<close>,
  which fetch the string with the functions of \<^verbatim>\<open>ucopy.c\<close>.  A printed text is a string of
  characters, what is quoted a list of bytes.
\<close>

section \<open>Bytes as text\<close>

definition QUOTE_0_TERMINATED :: u32 where "QUOTE_0_TERMINATED = 0x01"

definition QUOTE_OMIT_LEADING_TRAILING_QUOTES :: u32 where "QUOTE_OMIT_LEADING_TRAILING_QUOTES = 0x02"

definition QUOTE_OMIT_TRAILING_0 :: u32 where "QUOTE_OMIT_TRAILING_0 = 0x08"

definition QUOTE_EXPECT_TRAILING_0 :: u32 where "QUOTE_EXPECT_TRAILING_0 = 0x10"

definition QUOTE_EMIT_COMMENT :: u32 where "QUOTE_EMIT_COMMENT = 0x40"

definition QUOTE_OVERWRITE_HEXSTR :: u32 where "QUOTE_OVERWRITE_HEXSTR = 0x80"

definition QUOTE_HEXSTR_SHIFT :: nat where "QUOTE_HEXSTR_SHIFT = 8"

definition QUOTE_HEXSTR_MASK :: u32 where "QUOTE_HEXSTR_MASK = push_bit 8 3"

lemmas quote_flags = QUOTE_0_TERMINATED_def QUOTE_OMIT_LEADING_TRAILING_QUOTES_def QUOTE_OMIT_TRAILING_0_def
  QUOTE_EXPECT_TRAILING_0_def QUOTE_EMIT_COMMENT_def QUOTE_OVERWRITE_HEXSTR_def QUOTE_HEXSTR_SHIFT_def
  QUOTE_HEXSTR_MASK_def

text \<open>\<open>enum xflag_opts\<close>, and its numbers.\<close>

datatype xflag_opts = HEXSTR_NONE | HEXSTR_NON_ASCII | HEXSTR_ALL | HEXSTR_NON_ASCII_CHARS

definition xflag_of :: "u32 \<Rightarrow> xflag_opts" where
  "xflag_of w = (if w = 0 then HEXSTR_NONE else if w = 1 then HEXSTR_NON_ASCII
                 else if w = 2 then HEXSTR_ALL else HEXSTR_NON_ASCII_CHARS)"

definition chr :: "u8 \<Rightarrow> char" where
  "chr c = char_of (unat c)"

definition is_print :: "u8 \<Rightarrow> bool" where
  "is_print c \<longleftrightarrow> c \<ge> 0x20 \<and> c < 0x7f"

definition oct_digit :: "u8 \<Rightarrow> char" where
  "oct_digit c = char_of (48 + unat c)"

definition sprint_byte_oct :: "u8 \<Rightarrow> bool \<Rightarrow> string" where
  "sprint_byte_oct c unabbrev =
     (if unabbrev then [oct_digit (drop_bit 6 c), oct_digit (drop_bit 3 c AND 7)]
      else if drop_bit 3 c \<noteq> 0
      then (if drop_bit 6 c \<noteq> 0 then [oct_digit (drop_bit 6 c)] else []) @ [oct_digit (drop_bit 3 c AND 7)]
      else [])
     @ [oct_digit (c AND 7)]"

definition hex_char :: "u8 \<Rightarrow> char" where
  "hex_char c = ''0123456789abcdef'' ! unat c"

definition sprint_byte_hex :: "u8 \<Rightarrow> string" where
  "sprint_byte_hex val = [hex_char (drop_bit 4 val), hex_char (val AND 0xf)]"

section \<open>Quoting\<close>

text \<open>Whether the whole string has to be written in hexadecimal.\<close>

fun needs_hex :: "bool \<Rightarrow> u8 list \<Rightarrow> bool" where
  "needs_hex zterm [] = False"
| "needs_hex zterm (c # cs) =
     (if zterm \<and> c = 0 then False
      else if c > 0x7e then True
      else if c < 0x20 \<and> \<not> (9 \<le> c \<and> c < 14) then True
      else needs_hex zterm cs)"

text \<open>Both loops give the text, and whether they ended at a terminating zero.\<close>

fun quote_hex :: "bool \<Rightarrow> u8 list \<Rightarrow> string \<times> bool" where
  "quote_hex zterm [] = ([], False)"
| "quote_hex zterm (c # cs) =
     (if zterm \<and> c = 0 then ([], True)
      else case quote_hex zterm cs of (t, e) \<Rightarrow> (CHR 0x5C # CHR ''x'' # sprint_byte_hex c @ t, e))"

definition symbolic :: "u8 \<Rightarrow> char option" where
  "symbolic c =
     (if c = 0x22 \<or> c = 0x5c then Some (chr c)
      else if c = 12 then Some (CHR ''f'') else if c = 10 then Some (CHR ''n'')
      else if c = 13 then Some (CHR ''r'') else if c = 9 then Some (CHR ''t'')
      else if c = 11 then Some (CHR ''v'') else None)"

definition quote_byte :: "bool \<Rightarrow> string option \<Rightarrow> u8 \<Rightarrow> bool \<Rightarrow> string" where
  "quote_byte hexchars escape_chars c digit_follows =
     (case symbolic c of
        Some d \<Rightarrow> [CHR 0x5C, d]
      | None \<Rightarrow>
          if is_print c \<and> (case escape_chars of None \<Rightarrow> True | Some e \<Rightarrow> chr c \<notin> set e) then [chr c]
          else if hexchars then CHR 0x5C # CHR ''x'' # sprint_byte_hex c
          else CHR 0x5C # sprint_byte_oct c digit_follows)"

definition octal_byte :: "u8 \<Rightarrow> bool" where
  "octal_byte c \<longleftrightarrow> 0x30 \<le> c \<and> c \<le> 0x37"

fun quote_chars :: "bool \<Rightarrow> bool \<Rightarrow> bool \<Rightarrow> string option \<Rightarrow> u8 list \<Rightarrow> string \<times> bool" where
  "quote_chars zterm omit0 hexchars escape_chars [] = ([], False)"
| "quote_chars zterm omit0 hexchars escape_chars (c # cs) =
     (if zterm \<and> c = 0 then ([], True)
      else if cs = [] \<and> omit0 \<and> c = 0 then ([], True)
      else case quote_chars zterm omit0 hexchars escape_chars cs of
             (t, e) \<Rightarrow> (quote_byte hexchars escape_chars c (cs \<noteq> [] \<and> octal_byte (hd cs)) @ t, e))"

text \<open>
  The return value and the text.  \<open>instr\<close> has the \<open>size\<close> bytes to quote and the one after them,
  which is looked at when the string is to be zero-terminated.
\<close>

definition string_quote ::
  "xflag_opts \<Rightarrow> u8 list \<Rightarrow> nat \<Rightarrow> u32 \<Rightarrow> string option \<Rightarrow> int \<times> string" where
  "string_quote xflag instr sz style escape_chars =
     (let xstyle = (if style AND QUOTE_OVERWRITE_HEXSTR \<noteq> 0
                    then xflag_of (drop_bit QUOTE_HEXSTR_SHIFT (style AND QUOTE_HEXSTR_MASK)) else xflag);
          zterm = (style AND QUOTE_0_TERMINATED \<noteq> 0);
          bytes = take sz instr;
          usehex = (xstyle = HEXSTR_ALL \<or> xstyle = HEXSTR_NON_ASCII \<and> needs_hex zterm bytes);
          (text, ended) = (if usehex then quote_hex zterm bytes
                           else quote_chars zterm (style AND QUOTE_OMIT_TRAILING_0 \<noteq> 0)
                                  (xstyle = HEXSTR_NON_ASCII_CHARS) escape_chars bytes);
          comment = (style AND QUOTE_EMIT_COMMENT \<noteq> 0);
          quotes = (if style AND QUOTE_OMIT_LEADING_TRAILING_QUOTES \<noteq> 0 then [] else [CHR 0x22])
      in (if ended \<or> zterm \<and> instr ! sz = 0 then 0 else 1,
          (if comment then '' /* '' else []) @ quotes @ text @ quotes @ (if comment then '' */'' else [])))"

text \<open>
  What is printed around: \<open>tprint_unavailable\<close>, \<open>tprint_more_data_follows\<close>, \<open>tprint_null\<close>.
  \<open>malloc\<close> is asked only for long strings; \<open>mem\<close> tells whether it succeeds.
\<close>

definition ALLOCA_CUTOFF :: nat where "ALLOCA_CUTOFF = 4032"

definition alloc_size :: "u32 \<Rightarrow> u32 \<Rightarrow> u32" where
  "alloc_size sz style =
     4 * sz + 1 + (if style AND QUOTE_OMIT_LEADING_TRAILING_QUOTES \<noteq> 0 then 0 else 2)
     + (if style AND QUOTE_EMIT_COMMENT \<noteq> 0 then 7 else 0)"

definition print_quoted_string_ex ::
  "xflag_opts \<Rightarrow> bool \<Rightarrow> u8 list \<Rightarrow> u32 \<Rightarrow> u32 \<Rightarrow> string option \<Rightarrow> int \<times> string" where
  "print_quoted_string_ex xflag mem str sz style escape_chars =
     (let sz = (if sz \<noteq> 0 \<and> style AND QUOTE_0_TERMINATED \<noteq> 0 then sz - 1 else sz)
      in if 4 * sz div 4 \<noteq> sz then (- 1, ''???'')
         else if \<not> unat (alloc_size sz style) \<le> ALLOCA_CUTOFF \<and> \<not> mem then (- 1, ''???'')
         else case string_quote xflag str (unat sz) style escape_chars of
                (rc, outstr) \<Rightarrow>
                  (rc, outstr
                     @ (if style AND (QUOTE_0_TERMINATED OR QUOTE_EXPECT_TRAILING_0)
                           = QUOTE_0_TERMINATED OR QUOTE_EXPECT_TRAILING_0 \<and> rc \<noteq> 0
                        then ''...'' else [])))"

definition print_quoted_string ::
  "xflag_opts \<Rightarrow> bool \<Rightarrow> u8 list \<Rightarrow> u32 \<Rightarrow> u32 \<Rightarrow> int \<times> string" where
  "print_quoted_string xflag mem str sz style = print_quoted_string_ex xflag mem str sz style None"

definition print_quoted_cstring :: "xflag_opts \<Rightarrow> bool \<Rightarrow> u8 list \<Rightarrow> u32 \<Rightarrow> int \<times> string" where
  "print_quoted_cstring xflag mem str sz =
     (case print_quoted_string xflag mem str sz QUOTE_0_TERMINATED of
        (unterminated, out) \<Rightarrow> (unterminated, out @ (if unterminated \<noteq> 0 then ''...'' else [])))"

section \<open>Strings of the tracee\<close>

definition printaddr :: "u64 \<Rightarrow> string" where
  "printaddr addr = (if addr = 0 then ''NULL'' else ''0x'' @ hex_digits (unat addr))"

definition PATH_MAX :: u32 where "PATH_MAX = 4096"

text \<open>
  \<open>stack\<close> is what the local array \<open>path\<close> happens to hold.  The printing of the security context
  of the file is a build option that is off.
\<close>

definition printpathn ::
  "'m mem_kernel \<Rightarrow> nat \<Rightarrow> xflag_opts \<Rightarrow> bool \<Rightarrow> u8 list \<Rightarrow> 'm \<Rightarrow> u64 \<Rightarrow> u32 \<Rightarrow> ucopy
    \<Rightarrow> ((int \<times> string) \<times> ucopy) option" where
  "printpathn k current_wordsize xflag mem stack m addr n s =
     (if addr = 0 then Some ((- 1, ''NULL''), s)
      else let n = (if n > PATH_MAX - 1 then PATH_MAX - 1 else n)
           in case umovestr k current_wordsize m addr (n + 1) s of None \<Rightarrow> None
              | Some ((nul_seen, bs), s) \<Rightarrow>
                  if nul_seen < 0 then Some ((nul_seen, printaddr addr), s)
                  else let path = (bs @ drop (length bs) stack)[unat n := (if nul_seen = 0 then 1 else 0)]
                       in Some ((nul_seen, snd (print_quoted_cstring xflag mem path (n + 1))), s))"

definition printpath ::
  "'m mem_kernel \<Rightarrow> nat \<Rightarrow> xflag_opts \<Rightarrow> bool \<Rightarrow> u8 list \<Rightarrow> 'm \<Rightarrow> u64 \<Rightarrow> ucopy
    \<Rightarrow> ((int \<times> string) \<times> ucopy) option" where
  "printpath k current_wordsize xflag mem stack m addr s =
     printpathn k current_wordsize xflag mem stack m addr (PATH_MAX - 1) s"

text \<open>
  \<open>str\<close> is the static buffer of \<open>max_strlen + 1\<close> bytes with what the last call left there; the
  new contents are returned.
\<close>

definition printstr_ex ::
  "'m mem_kernel \<Rightarrow> nat \<Rightarrow> xflag_opts \<Rightarrow> u32 \<Rightarrow> u8 list \<Rightarrow> 'm \<Rightarrow> u64 \<Rightarrow> u64 \<Rightarrow> u32 \<Rightarrow> ucopy
    \<Rightarrow> ((int \<times> string \<times> u8 list) \<times> ucopy) option" where
  "printstr_ex k current_wordsize xflag max_strlen str m addr len style s =
     (if addr = 0 then Some ((- 1, ''NULL'', str), s)
      else let sz = max_strlen + 1;
               sz = (if ucast sz > len then ucast len else sz);
               expect = QUOTE_0_TERMINATED OR QUOTE_EXPECT_TRAILING_0
           in case (if style AND QUOTE_0_TERMINATED \<noteq> 0 then umovestr k current_wordsize m addr sz s
                    else umoven k current_wordsize m addr sz s) of None \<Rightarrow> None
              | Some ((rc, bs), s) \<Rightarrow>
                  let str = bs @ drop (length bs) str
                  in if rc < 0 then Some ((rc, printaddr addr, str), s)
                     else let str = (if sz > max_strlen then str else str[unat sz := 0xff]);
                              sz = (if sz > max_strlen then max_strlen else sz);
                              sz = (if style AND expect = expect \<and> ucast sz = len \<and> sz \<noteq> 0 then sz - 1 else sz);
                              (quoted, outstr) = string_quote xflag str (unat sz) style None;
                              ellipsis = (quoted \<noteq> 0 \<and> len \<noteq> 0 \<and> (style AND expect \<noteq> 0 \<or> len > ucast max_strlen))
                          in Some ((rc, outstr @ (if ellipsis then ''...'' else []), str), s))"

section \<open>Reading a quoted string back\<close>

text \<open>
  The escapes of C, with exactly two digits after \<open>\x\<close> and at most three octal digits.
\<close>

definition isoct :: "char \<Rightarrow> bool" where
  "isoct d \<longleftrightarrow> 48 \<le> (of_char d :: nat) \<and> (of_char d :: nat) \<le> 55"

definition oct_val :: "string \<Rightarrow> nat" where
  "oct_val ds = foldl (\<lambda>n d. 8 * n + (of_char d - 48)) 0 ds"

definition hex_escape :: "string \<Rightarrow> (u8 \<times> string) option" where
  "hex_escape r =
     (case r of
        a # b # r' \<Rightarrow>
          (case (hex_val a, hex_val b) of (Some x, Some y) \<Rightarrow> Some (of_nat (16 * x + y), r') | _ \<Rightarrow> None)
      | _ \<Rightarrow> None)"

definition symbols :: "(char \<times> u8) list" where
  "symbols = [(CHR 0x22, 0x22), (CHR 0x5C, 0x5c), (CHR ''f'', 12), (CHR ''n'', 10), (CHR ''r'', 13),
     (CHR ''t'', 9), (CHR ''v'', 11)]"

definition unescape :: "string \<Rightarrow> (u8 \<times> string) option" where
  "unescape s =
     (case s of [] \<Rightarrow> None
      | d # r \<Rightarrow>
          if isoct d
          then let ds = takeWhile isoct (take 3 s) in Some (of_nat (oct_val ds), drop (length ds) s)
          else if d = CHR ''x'' then hex_escape r
          else map_option (\<lambda>b. (b, r)) (map_of symbols d))"

lemma hex_escape_shorter: "hex_escape s = Some (b, r) \<Longrightarrow> length r < length s"
  by (auto simp: hex_escape_def split: list.splits option.splits)

lemma unescape_shorter:
  assumes "unescape s = Some (b, r)"
  shows "length r < length s"
proof (cases s)
  case Nil
  with assms show ?thesis by (simp add: unescape_def)
next
  case (Cons d s')
  with assms hex_escape_shorter [of s' b r] show ?thesis
    by (cases "isoct d"; cases "d = CHR ''x''") (auto simp: unescape_def Let_def less_Suc_eq)
qed

function unquote :: "string \<Rightarrow> u8 list option" where
  "unquote [] = Some []"
| "unquote (c # s) =
     (if c = CHR 0x5C
      then (case unescape s of None \<Rightarrow> None | Some (b, r) \<Rightarrow> map_option ((#) b) (unquote r))
      else map_option ((#) (of_char c)) (unquote s))"
  by pat_completeness auto
termination
proof (relation "measure length", goal_cases)
  case (2 c s x b r)
  then show ?case using unescape_shorter [of s b r] by simp
qed simp_all

declare unquote.simps(2) [simp del]

lemma of_char_chr [simp]: "(of_char (chr c) :: nat) = unat c" "(of_char (chr c) :: u8) = c"
proof -
  have "unat c < 256" using unsigned_less [where 'a = nat, of c] by simp
  then show n: "(of_char (chr c) :: nat) = unat c" by (simp add: chr_def)
  have "(of_char (chr c) :: u8) = of_nat (of_char (chr c))" by (simp only: of_nat_of_char)
  then show "(of_char (chr c) :: u8) = c" by (simp add: n)
qed

lemma of_char_oct_digit: "unat x < 8 \<Longrightarrow> (of_char (oct_digit x) :: nat) = 48 + unat x"
  by (simp add: oct_digit_def)

lemma unat_parts:
  "unat (drop_bit 6 c :: u8) = unat c div 64" "unat (drop_bit 3 c AND 7 :: u8) = unat c div 8 mod 8"
  "unat (c AND 7 :: u8) = unat c mod 8" "unat (drop_bit 3 c :: u8) = unat c div 8"
  "unat (drop_bit 4 c :: u8) = unat c div 16" "unat (c AND 0xf :: u8) = unat c mod 16"
proof -
  have m: "w AND 7 = take_bit 3 w" "w AND 0xf = take_bit 4 w" for w :: u8
    by (simp_all add: take_bit_eq_mask mask_eq_exp_minus_1)
  show "unat (drop_bit 6 c :: u8) = unat c div 64" "unat (drop_bit 3 c AND 7 :: u8) = unat c div 8 mod 8"
    "unat (c AND 7 :: u8) = unat c mod 8" "unat (drop_bit 3 c :: u8) = unat c div 8"
    "unat (drop_bit 4 c :: u8) = unat c div 16" "unat (c AND 0xf :: u8) = unat c mod 16"
    unfolding m by (simp_all add: drop_bit_eq_div take_bit_eq_mod unat_div_distrib unat_mod_distrib)
qed

lemma byte_less: "unat (c :: u8) < 256"
  using unsigned_less [where 'a = nat, of c] by simp

text \<open>The octal digits of a byte.\<close>

lemma oct_text:
  "list_all isoct (sprint_byte_oct c u)" "oct_val (sprint_byte_oct c u) = unat c" "sprint_byte_oct c u \<noteq> []"
  "length (sprint_byte_oct c u) \<le> 3" "u \<Longrightarrow> length (sprint_byte_oct c u) = 3"
proof -
  have small: "unat (drop_bit 6 c) < 8" "unat (drop_bit 3 c AND 7) < 8" "unat (c AND 7) < 8"
    unfolding unat_parts using byte_less [of c] by (simp_all add: div_less_iff_less_mult)
  note d = of_char_oct_digit [OF small(1)] of_char_oct_digit [OF small(2)] of_char_oct_digit [OF small(3)]
  show "list_all isoct (sprint_byte_oct c u)"
    using small by (simp add: sprint_byte_oct_def isoct_def d)
  have split: "unat c = 64 * (unat c div 64) + 8 * (unat c div 8 mod 8) + unat c mod 8"
  proof -
    have "unat c div 8 = 8 * (unat c div 64) + unat c div 8 mod 8"
      using mult_div_mod_eq [of 8 "unat c div 8"] by (simp add: div_mult2_eq [symmetric])
    moreover have "unat c = 8 * (unat c div 8) + unat c mod 8" by simp
    ultimately show ?thesis by linarith
  qed
  have z: "drop_bit 3 c = 0 \<longleftrightarrow> unat c div 8 = 0" "drop_bit 6 c = 0 \<longleftrightarrow> unat c div 64 = 0"
    using unat_parts(1,4) [of c] by (metis unat_eq_zero)+
  have "unat c div 64 = 0" if "unat c div 8 = 0" using that by (simp add: div_eq_0_iff)
  then show "oct_val (sprint_byte_oct c u) = unat c"
    using split by (cases "unat c div 8 = 0"; cases "unat c div 64 = 0")
      (simp_all add: sprint_byte_oct_def oct_val_def d unat_parts z)
  show "sprint_byte_oct c u \<noteq> []" "length (sprint_byte_oct c u) \<le> 3" "u \<Longrightarrow> length (sprint_byte_oct c u) = 3"
    by (simp_all add: sprint_byte_oct_def)
qed

lemma hex_text: "hex_escape (sprint_byte_hex c @ r) = Some (c, r)"
proof -
  have digit: "hex_val (''0123456789abcdef'' ! n) = Some n" if "n < 16" for n
  proof -
    have "n = 0 \<or> n = 1 \<or> n = 2 \<or> n = 3 \<or> n = 4 \<or> n = 5 \<or> n = 6 \<or> n = 7 \<or> n = 8 \<or> n = 9 \<or> n = 10
        \<or> n = 11 \<or> n = 12 \<or> n = 13 \<or> n = 14 \<or> n = 15" using that by presburger
    then show ?thesis
      by (elim disjE) (simp_all add: hex_val_def isdigit_def digit_val_def tolower_def)
  qed
  have "unat c div 16 < 16" using byte_less [of c] by (simp add: div_less_iff_less_mult)
  then have "hex_val (hex_char (drop_bit 4 c)) = Some (unat c div 16)" "hex_val (hex_char (c AND 0xf)) = Some (unat c mod 16)"
    by (simp_all add: hex_char_def unat_parts digit)
  moreover have "(of_nat (16 * (unat c div 16) + unat c mod 16) :: u8) = c" by (simp only: mult_div_mod_eq) simp
  ultimately show ?thesis by (simp add: hex_escape_def sprint_byte_hex_def)
qed

text \<open>One byte, followed by text that does not continue it.\<close>

lemma unquote_byte:
  assumes "df \<or> r = [] \<or> \<not> isoct (hd r)"
  shows "unquote (quote_byte hx esc c df @ r) = map_option ((#) c) (unquote r)"
proof (cases "symbolic c")
  case (Some d)
  have "chr 0x22 = CHR 0x22" "chr 0x5c = CHR 0x5C" by code_simp+
  with Some have "\<not> isoct d" "d \<noteq> CHR ''x''" "map_of symbols d = Some c"
    by (auto simp: symbolic_def isoct_def symbols_def split: if_splits)
  then have "unescape (d # r) = Some (c, r)" by (simp add: unescape_def)
  with Some show ?thesis by (simp add: quote_byte_def unquote.simps(2))
next
  case None
  then have c: "c \<noteq> 0x5c" by (auto simp: symbolic_def)
  consider "quote_byte hx esc c df = [chr c]" | "quote_byte hx esc c df = CHR 0x5C # CHR ''x'' # sprint_byte_hex c"
    | "quote_byte hx esc c df = CHR 0x5C # sprint_byte_oct c df"
    unfolding quote_byte_def None option.case by argo
  then show ?thesis
  proof cases
    case 1
    have "chr c \<noteq> CHR 0x5C"
    proof
      assume "chr c = CHR 0x5C"
      then have "of_char (chr c) = (of_char (CHR 0x5C) :: u8)" by simp
      with c show False by simp
    qed
    with 1 show ?thesis by (simp add: unquote.simps(2))
  next
    case 2
    have "unescape (CHR ''x'' # sprint_byte_hex c @ r) = Some (c, r)"
      by (simp add: unescape_def hex_text isoct_def)
    with 2 show ?thesis by (simp add: unquote.simps(2))
  next
    case 3
    let ?ds = "sprint_byte_oct c df"
    note o = oct_text [where c = c and u = df]
    have "takeWhile isoct (take 3 (?ds @ r)) = ?ds"
    proof (cases "length ?ds = 3")
      case True
      then show ?thesis using o(1) by (simp add: takeWhile_eq_all_conv list_all_iff)
    next
      case False
      then have r: "r = [] \<or> \<not> isoct (hd r)" using assms o(5) by auto
      have "take 3 (?ds @ r) = ?ds @ take (3 - length ?ds) r" using o(4) by simp
      moreover have "takeWhile isoct (take (3 - length ?ds) r) = []" using r by (cases r) (auto simp: take_Cons split: nat.splits)
      ultimately show ?thesis using o(1) by (simp add: takeWhile_append2 list_all_iff)
    qed
    moreover obtain d ds' where ds: "?ds = d # ds'" using o(3) by (cases ?ds) auto
    moreover have "isoct d" using o(1) ds by simp
    ultimately have "unescape (?ds @ r) = Some (c, r)"
      using o(2) by (simp add: unescape_def Let_def)
    with 3 show ?thesis by (simp add: unquote.simps(2))
  qed
qed

text \<open>What the loops quote, and that reading it back gives the same.\<close>

definition content :: "bool \<Rightarrow> bool \<Rightarrow> u8 list \<Rightarrow> u8 list" where
  "content zterm omit0 bytes =
     (if zterm then takeWhile (\<lambda>c. c \<noteq> 0) bytes
      else if omit0 \<and> bytes \<noteq> [] \<and> last bytes = 0 then butlast bytes else bytes)"

lemma unquote_hex:
  "unquote (fst (quote_hex zterm bytes)) = Some (content zterm False bytes)
   \<and> snd (quote_hex zterm bytes) = (zterm \<and> 0 \<in> set bytes)
   \<and> length (fst (quote_hex zterm bytes)) \<le> 4 * length bytes"
proof (induction bytes)
  case (Cons c cs)
  have "unescape (CHR ''x'' # sprint_byte_hex c @ r) = Some (c, r)" for r
    by (simp add: unescape_def hex_text isoct_def)
  with Cons show ?case
    by (auto simp: content_def unquote.simps(2) sprint_byte_hex_def split: prod.splits)
qed (simp add: content_def)

lemma quote_byte_length: "length (quote_byte hx esc c df) \<le> 4"
  using oct_text(4) [of c df] by (simp add: quote_byte_def sprint_byte_hex_def split: option.splits)

lemma quote_byte_first:
  "\<exists>d ds. quote_byte hx esc c df = d # ds \<and> (isoct d \<longrightarrow> octal_byte c)"
proof -
  have "isoct (chr c) \<Longrightarrow> octal_byte c"
    by (simp add: isoct_def octal_byte_def word_le_nat_alt)
  then show ?thesis
    by (auto simp: quote_byte_def isoct_def split: option.splits)
qed

lemma quote_chars_first:
  assumes "fst (quote_chars zterm omit0 hx esc cs) \<noteq> []" "isoct (hd (fst (quote_chars zterm omit0 hx esc cs)))"
  shows "cs \<noteq> [] \<and> octal_byte (hd cs)"
proof (cases cs)
  case (Cons c cs')
  obtain d ds where "quote_byte hx esc c (cs' \<noteq> [] \<and> octal_byte (hd cs')) = d # ds" "isoct d \<longrightarrow> octal_byte c"
    using quote_byte_first [of hx esc c] by blast
  with assms Cons show ?thesis by (auto split: if_splits prod.splits)
qed (use assms in simp)

lemma unquote_chars:
  "unquote (fst (quote_chars zterm omit0 hx esc bytes)) = Some (content zterm omit0 bytes)
   \<and> snd (quote_chars zterm omit0 hx esc bytes)
       = (if zterm then 0 \<in> set bytes else omit0 \<and> bytes \<noteq> [] \<and> last bytes = 0)
   \<and> length (fst (quote_chars zterm omit0 hx esc bytes)) \<le> 4 * length bytes"
proof (induction bytes)
  case (Cons c cs)
  let ?r = "quote_chars zterm omit0 hx esc cs" and ?df = "cs \<noteq> [] \<and> octal_byte (hd cs)"
  consider "zterm \<and> c = 0" | "\<not> zterm" "cs = []" "omit0" "c = 0"
    | "\<not> (zterm \<and> c = 0)" "\<not> (cs = [] \<and> omit0 \<and> c = 0)" by blast
  then show ?case
  proof cases
    case 3
    have q: "quote_chars zterm omit0 hx esc (c # cs) = (quote_byte hx esc c ?df @ fst ?r, snd ?r)"
      using 3 by (auto split: prod.splits)
    have "?df \<or> fst ?r = [] \<or> \<not> isoct (hd (fst ?r))" using quote_chars_first by blast
    from unquote_byte [OF this] Cons.IH
    have "unquote (fst (quote_chars zterm omit0 hx esc (c # cs))) = Some (c # content zterm omit0 cs)"
      unfolding q fst_conv by simp
    moreover have "c # content zterm omit0 cs = content zterm omit0 (c # cs)"
      using 3 by (auto simp: content_def)
    ultimately show ?thesis
      using 3 Cons.IH quote_byte_length [of hx esc c ?df] unfolding q fst_conv snd_conv by auto
  qed (auto simp: content_def)
qed (simp add: content_def)

text \<open>The text between the quotes.\<close>

definition quoted_text :: "xflag_opts \<Rightarrow> u8 list \<Rightarrow> u32 \<Rightarrow> string option \<Rightarrow> string \<times> bool" where
  "quoted_text xflag bytes style escape_chars =
     (let xstyle = (if style AND QUOTE_OVERWRITE_HEXSTR \<noteq> 0
                    then xflag_of (drop_bit QUOTE_HEXSTR_SHIFT (style AND QUOTE_HEXSTR_MASK)) else xflag);
          zterm = (style AND QUOTE_0_TERMINATED \<noteq> 0)
      in if xstyle = HEXSTR_ALL \<or> xstyle = HEXSTR_NON_ASCII \<and> needs_hex zterm bytes then quote_hex zterm bytes
         else quote_chars zterm (style AND QUOTE_OMIT_TRAILING_0 \<noteq> 0)
                (xstyle = HEXSTR_NON_ASCII_CHARS) escape_chars bytes)"

lemma quoted_text_spec:
  assumes "style AND QUOTE_OMIT_TRAILING_0 = 0 \<or> style AND QUOTE_0_TERMINATED \<noteq> 0"
  shows "unquote (fst (quoted_text xflag bytes style esc)) = Some (content (style AND QUOTE_0_TERMINATED \<noteq> 0) False bytes)"
    and "snd (quoted_text xflag bytes style esc) = (style AND QUOTE_0_TERMINATED \<noteq> 0 \<and> 0 \<in> set bytes)"
proof -
  let ?z = "style AND QUOTE_0_TERMINATED \<noteq> 0" and ?o = "style AND QUOTE_OMIT_TRAILING_0 \<noteq> 0"
  have same: "content ?z ?o bytes = content ?z False bytes" using assms by (auto simp: content_def)
  show "unquote (fst (quoted_text xflag bytes style esc)) = Some (content ?z False bytes)"
    using unquote_hex [of ?z bytes] unquote_chars [of ?z ?o _ esc bytes] by (simp add: quoted_text_def Let_def same)
  show "snd (quoted_text xflag bytes style esc) = (?z \<and> 0 \<in> set bytes)"
    using unquote_hex [of ?z bytes] unquote_chars [of ?z ?o _ esc bytes] assms by (auto simp: quoted_text_def Let_def)
qed

lemma quoted_text_length: "length (fst (quoted_text xflag bytes style esc)) \<le> 4 * length bytes"
  using unquote_hex [of "style AND QUOTE_0_TERMINATED \<noteq> 0" bytes]
    unquote_chars [of "style AND QUOTE_0_TERMINATED \<noteq> 0" "style AND QUOTE_OMIT_TRAILING_0 \<noteq> 0" _ esc bytes]
  by (simp add: quoted_text_def Let_def)

lemma string_quote_eq:
  "string_quote xflag instr sz style esc =
     (let (text, ended) = quoted_text xflag (take sz instr) style esc;
          comment = (style AND QUOTE_EMIT_COMMENT \<noteq> 0);
          quotes = (if style AND QUOTE_OMIT_LEADING_TRAILING_QUOTES \<noteq> 0 then [] else [CHR 0x22])
      in (if ended \<or> style AND QUOTE_0_TERMINATED \<noteq> 0 \<and> instr ! sz = 0 then 0 else 1,
          (if comment then '' /* '' else []) @ quotes @ text @ quotes @ (if comment then '' */'' else [])))"
  unfolding string_quote_def quoted_text_def Let_def by (rule refl)



section \<open>Printing a path\<close>

lemma quad_div: "unat (n :: u32) < 2 ^ 30 \<Longrightarrow> 4 * n div 4 = n"
proof -
  assume n: "unat n < 2 ^ 30"
  have "unat (4 * n) = 4 * unat n" using n by (simp add: unat_word_ariths)
  then have "unat (4 * n div 4) = unat n" by (simp add: unat_div_distrib)
  then show ?thesis by (simp add: word_unat_eq_iff)
qed

lemma string_quote_0:
  assumes "sz < length instr"
  shows "\<exists>text. string_quote xflag instr sz QUOTE_0_TERMINATED None
      = (if 0 \<in> set (take (Suc sz) instr) then 0 else 1, CHR 0x22 # text @ [CHR 0x22])
    \<and> unquote text = Some (takeWhile (\<lambda>c. c \<noteq> 0) (take sz instr))"
proof -
  let ?q = "quoted_text xflag (take sz instr) QUOTE_0_TERMINATED None"
  have "0 \<in> set (take (Suc sz) instr) \<longleftrightarrow> 0 \<in> set (take sz instr) \<or> instr ! sz = 0"
    using assms by (auto simp: take_Suc_conv_app_nth)
  moreover note quoted_text_spec [of QUOTE_0_TERMINATED xflag "take sz instr" None]
  ultimately show ?thesis
    by (intro exI [of _ "fst ?q"]) (simp add: string_quote_eq Let_def split_beta content_def quote_flags)
qed

lemma quoted_cstring:
  assumes "unat n < 2 ^ 30 - 1" "unat n < length path"
  shows "\<exists>text. print_quoted_cstring xflag True path (n + 1)
      = (if 0 \<in> set (take (Suc (unat n)) path) then (0, CHR 0x22 # text @ [CHR 0x22])
         else (1, CHR 0x22 # text @ CHR 0x22 # ''...''))
    \<and> unquote text = Some (takeWhile (\<lambda>c. c \<noteq> 0) (take (unat n) path))"
proof -
  have "unat (n + 1) = unat n + 1" using assms(1) by (simp add: unat_word_ariths)
  then have n1: "n + 1 \<noteq> 0" by (metis Suc_eq_plus1 nat.distinct(1) unat_0)
  have "print_quoted_string xflag True path (n + 1) QUOTE_0_TERMINATED
      = string_quote xflag path (unat n) QUOTE_0_TERMINATED None"
    using n1 quad_div [of n] assms(1)
    by (simp add: print_quoted_string_def print_quoted_string_ex_def Let_def quote_flags split_beta)
  then show ?thesis
    using string_quote_0 [OF assms(2), of xflag] by (auto simp: print_quoted_cstring_def)
qed

text \<open>What \<open>umovestr\<close> gives for a string that ends within the bytes asked for.\<close>

lemma umovestr_of_string:
  assumes "kernel_ok k mem" "readv_works k mem m" "cache_ok k mem m s"
    and "\<not> process_vm_readv_not_supported s" "\<not> tracee_addr_is_invalid wordsize addr"
    and "holds mem m addr (str @ [0])" "0 \<notin> set str" "length str < unat len"
  shows "\<exists>bs s'. umovestr k wordsize m addr len s = Some ((int (length str) + 1, bs), s')
    \<and> cache_ok k mem m s' \<and> length bs \<le> unat len \<and> take (length str + 1) bs = str @ [0]"
proof -
  let ?n = "length str"
  obtain rc bs s' where r: "umovestr k wordsize m addr len s = Some ((rc, bs), s')" "cache_ok k mem m s'"
      "length bs \<le> unat len" "holds mem m addr bs"
      "(\<exists>j. find_nul bs = Some j \<and> rc = int j + 1)
       \<or> rc = 0 \<and> find_nul bs = None \<and> length bs = unat len
       \<or> rc = - 1 \<and> find_nul bs = None \<and> length bs < unat len \<and> mem m (addr + of_nat (length bs)) = None"
    using umovestr_string [OF assms(1-5), of len] by blast
  have agree: "bs ! i = (str @ [0]) ! i" if "i < length bs" "i \<le> ?n" for i
  proof -
    have "mem m (addr + of_nat i) = Some (bs ! i)" using r(4) that(1) by (simp add: holds_def)
    moreover have "mem m (addr + of_nat i) = Some ((str @ [0]) ! i)" using assms(6) that(2) unfolding holds_def by simp
    ultimately show ?thesis by simp
  qed
  have zero: "find_nul bs \<noteq> None" if "?n < length bs"
    using agree [of ?n] that by (auto simp: find_nul_None in_set_conv_nth)
  have nz: "bs ! i \<noteq> 0" if "i < ?n" "i < length bs" for i
  proof -
    have "str ! i \<in> set str" using that(1) by (rule nth_mem)
    moreover have "bs ! i = str ! i" using agree [of i] that by (simp add: nth_append)
    ultimately show ?thesis using assms(7) by metis
  qed
  have "\<exists>j. find_nul bs = Some j \<and> rc = int j + 1"
  proof (rule ccontr)
    assume none: "\<not> ?thesis"
    then have fn: "find_nul bs = None" using r(5) by blast
    then have short: "length bs \<le> ?n" using zero by (meson not_le)
    with none r(5) assms(8) have "mem m (addr + of_nat (length bs)) = None" by auto
    moreover have "mem m (addr + of_nat (length bs)) \<noteq> None" using assms(6) short by (auto simp: holds_def)
    ultimately show False by simp
  qed
  then obtain j where j: "find_nul bs = Some j" "rc = int j + 1" by blast
  then have jl: "j < length bs" "bs ! j = 0" "\<forall>i < j. bs ! i \<noteq> 0" by (simp_all add: find_nul_Some)
  have "j = ?n"
  proof (rule antisym)
    show "j \<le> ?n" using jl agree [of ?n] by (metis linorder_not_le less_trans nth_append_length order_refl)
    show "?n \<le> j" using nz jl by (meson not_le)
  qed
  moreover have "take (?n + 1) bs = str @ [0]"
    using agree jl(1) \<open>j = ?n\<close> by (intro nth_equalityI) auto
  ultimately show ?thesis using r(1-3) j(2) by auto
qed



end
