(* ===== verification/Tcb_Table.thy ===== *)
theory Tcb_Table
  imports Syscall Ucopy Signal_Mask Seccomp_Filter
begin

text \<open>
  The table of trace control blocks of \<^verbatim>\<open>strace.c\<close>: allocation, lookup, attaching, dropping,
  detaching, and the switch of two control blocks at an \<open>execve\<close> of a thread.  The queue of
  pending events, a list of \<^verbatim>\<open>list.h\<close> threaded through the control blocks, is the list of their
  indices.
\<close>

section \<open>Events\<close>

datatype trace_event = TE_BREAK | TE_NEXT | TE_RESTART | TE_SYSCALL_STOP | TE_SIGNAL_DELIVERY_STOP | TE_SIGNALLED
  | TE_GROUP_STOP | TE_EXITED | TE_STOP_BEFORE_EXECVE | TE_STOP_BEFORE_EXIT | TE_SECCOMP

text \<open>\<open>si\<close> is the text that \<open>printsiginfo\<close> makes of the signal information.\<close>

record wait_data =
  te :: trace_event
  wd_status :: u32
  msg :: u64
  si :: string

definition init_trace_wait_data :: wait_data where
  "init_trace_wait_data = \<lparr>te = TE_BREAK, wd_status = 0, msg = 0, si = []\<rparr>"

text \<open>The macros of \<^verbatim>\<open>sys/wait.h\<close> on a status.\<close>

definition WIFEXITED :: "u32 \<Rightarrow> bool" where "WIFEXITED s \<longleftrightarrow> s AND 0x7f = 0"
definition WIFSTOPPED :: "u32 \<Rightarrow> bool" where "WIFSTOPPED s \<longleftrightarrow> s AND 0xff = 0x7f"
definition WIFSIGNALED :: "u32 \<Rightarrow> bool" where "WIFSIGNALED s \<longleftrightarrow> s AND 0x7f \<noteq> 0 \<and> s AND 0x7f \<noteq> 0x7f"
definition WEXITSTATUS :: "u32 \<Rightarrow> u32" where "WEXITSTATUS s = drop_bit 8 (s AND 0xff00)"
definition WSTOPSIG :: "u32 \<Rightarrow> u32" where "WSTOPSIG s = WEXITSTATUS s"
definition WTERMSIG :: "u32 \<Rightarrow> u32" where "WTERMSIG s = s AND 0x7f"
definition WCOREDUMP :: "u32 \<Rightarrow> bool" where "WCOREDUMP s \<longleftrightarrow> s AND 0x80 \<noteq> 0"

section \<open>State\<close>

text \<open>
  An entry of the table.  A control block is never moved, so that a pointer to it is its index.
  \<open>has_outf\<close> says that \<open>outf\<close> is not a null pointer; in the model every process has its own part
  of the log.
\<close>

record proc =
  blk :: tcb
  has_outf :: bool
  wait_data_idx :: nat
  delayed_wait_data :: "wait_data option"
  atime :: timespec

abbreviation ppid :: "proc \<Rightarrow> int" where
  "ppid p \<equiv> pid (blk p)"

text \<open>What strace asks the kernel to do with a process.\<close>

datatype restart_op = Restart ptrace_op | PTRACE_LISTEN | PTRACE_DETACH

datatype request = Ptrace restart_op int u32 | Interrupt int | Setoptions int u32 | Tkill int nat | Kill int nat

text \<open>
  The static variables of \<^verbatim>\<open>strace.c\<close>.  \<open>sess\<close> has those of the other modules, with the control
  block that is being worked on; \<open>requests\<close> logs the requests to the kernel, \<open>closed_logs\<close> what
  the processes that are gone have printed.
\<close>

record strace =
  tcbtab :: "proc list"
  nprocs :: nat
  current_tcp :: "nat option"
  sess :: session
  umove :: ucopy
  pid2tcb_cache :: "nat \<Rightarrow> nat option"
  pending_tcps :: "nat list"
  extra_tcp :: "nat option"
  wait_extra_data_idx :: nat
  tcb_wait_tab :: "wait_data list"
  strace_child :: int
  popen_pid :: int
  exit_code :: int
  interrupted :: int
  restart_failed :: bool
  requests :: "request list"
  closed_logs :: "(int \<times> out list) list"

text \<open>The settings made by the command line and by the tests at startup.\<close>

record run_setup =
  opts :: options
  followfork :: bool
  post_attach_sigstop :: u32
  detach_on_execve :: bool
  syscall_trap_sig :: u32
  seccomp_before_sysentry :: bool
  ptrace_setoptions :: u32

definition use_seize :: "run_setup \<Rightarrow> bool" where
  "use_seize su \<longleftrightarrow> post_attach_sigstop su = 0"

text \<open>
  The answers of the kernel: \<open>errno\<close> of a request (0 if it succeeds), what \<open>waitpid\<close> gives while
  detaching from a process, the registers and the clock.
\<close>

datatype waited = Waited u32 | Wait_failed nat

record answers =
  reply :: "request \<Rightarrow> nat"
  detach_waits :: "int \<Rightarrow> waited list"
  a_kernel :: kernel
  a_clock :: clock

definition ESRCH :: nat where "ESRCH = 3"
definition EINTR :: nat where "EINTR = 4"
definition ECHILD :: nat where "ECHILD = 10"
definition SIGTERM :: nat where "SIGTERM = 15"
definition SIGCONT :: nat where "SIGCONT = 18"
definition SIGSTOP :: nat where "SIGSTOP = 19"
definition SIGTSTP :: nat where "SIGTSTP = 20"
definition SIGTTIN :: nat where "SIGTTIN = 21"
definition SIGTTOU :: nat where "SIGTTOU = 22"

definition QUIET_ATTACH :: nat where "QUIET_ATTACH = 0"
definition QUIET_EXIT :: nat where "QUIET_EXIT = 1"
definition QUIET_THREAD_EXECVE :: nat where "QUIET_THREAD_EXECVE = 4"
definition STATUS_UNFINISHED :: nat where "STATUS_UNFINISHED = 2"
definition STATUS_DETACHED :: nat where "STATUS_DETACHED = 4"

definition upd_proc :: "nat \<Rightarrow> (proc \<Rightarrow> proc) \<Rightarrow> strace \<Rightarrow> strace" where
  "upd_proc i f st = st\<lparr>tcbtab := (tcbtab st)[i := f (tcbtab st ! i)]\<rparr>"

definition upd_blk :: "nat \<Rightarrow> (tcb \<Rightarrow> tcb) \<Rightarrow> strace \<Rightarrow> strace" where
  "upd_blk i f = upd_proc i (\<lambda>p. p\<lparr>blk := f (blk p)\<rparr>)"

definition the_blk :: "strace \<Rightarrow> nat \<Rightarrow> tcb" where
  "the_blk st i = blk (tcbtab st ! i)"

definition upd_sess :: "(session \<Rightarrow> session) \<Rightarrow> strace \<Rightarrow> strace" where
  "upd_sess f st = st\<lparr>sess := f (sess st)\<rparr>"

definition say :: "string \<Rightarrow> strace \<Rightarrow> strace" where
  "say m = upd_sess (upd_tracer (error_msg m))"

definition ask :: "answers \<Rightarrow> request \<Rightarrow> strace \<Rightarrow> nat \<times> strace" where
  "ask a r st = (reply a r, st\<lparr>requests := requests st @ [r]\<rparr>)"

text \<open>A function on a session works on the control block of process \<open>i\<close>.\<close>

definition load :: "nat \<Rightarrow> strace \<Rightarrow> session" where
  "load i st = upd_cur (\<lambda>_. the_blk st i) (sess st)"

definition store :: "nat \<Rightarrow> session \<Rightarrow> strace \<Rightarrow> strace" where
  "store i s st = (upd_blk i (\<lambda>_. cur_tcb s) st)\<lparr>sess := s\<rparr>"

definition on_proc :: "nat \<Rightarrow> (session \<Rightarrow> session) \<Rightarrow> strace \<Rightarrow> strace" where
  "on_proc i f st = store i (f (load i st)) st"

text \<open>Printing to a process without a stream is a call of \<open>vfprintf\<close> with a null pointer.\<close>

definition print_proc :: "nat \<Rightarrow> (session \<Rightarrow> session) \<Rightarrow> strace \<Rightarrow> strace outcome" where
  "print_proc i f st =
     (if has_outf (tcbtab st ! i) then Inr (on_proc i f st) else Inl (Undefined_behaviour ''current_tcp->outf''))"

text \<open>\<open>curcol\<close> is not 0: the last line the process has printed is not finished.\<close>

definition unfinished_line :: "tcb \<Rightarrow> bool" where
  "unfinished_line t \<longleftrightarrow> contents (outf t) \<noteq> [] \<and> last (contents (outf t)) \<noteq> Out_newline"

definition set_current_tcp :: "'d config \<Rightarrow> nat option \<Rightarrow> strace \<Rightarrow> strace outcome" where
  "set_current_tcp cfg c st =
     (case c of None \<Rightarrow> Inr (st\<lparr>current_tcp := None\<rparr>)
      | Some i \<Rightarrow> obind (set_personality cfg (currpers (the_blk st i)) (tr (tam (sess st))))
                    (\<lambda>t. Inr ((upd_sess (upd_tracer (\<lambda>_. t)) st)\<lparr>current_tcp := Some i\<rparr>)))"

section \<open>Allocation and lookup\<close>

definition zero_tcb :: "'d config \<Rightarrow> tcb" where
  "zero_tcb cfg = \<lparr>tcb_flags = 0, pid = 0, qual_flg = 0, currpers = 0, u_error = 0, scno = 0, true_scno = 0,
     u_arg = replicate MAX_ARGS 0, u_rval = 0, sys_func_rval = 0, outf = Log [], staged_output_data = None, auxstr = None,
     s_ent = None, s_prev_ent = None, priv_sysent = False,
     tcb_inject_vec = replicate (SUPPORTED_PERSONALITIES cfg) None,
     stime = \<lparr>tv_sec = 0, tv_nsec = 0\<rparr>, ltime = \<lparr>tv_sec = 0, tv_nsec = 0\<rparr>, etime = \<lparr>tv_sec = 0, tv_nsec = 0\<rparr>,
     delay_expiration_time = \<lparr>tv_sec = 0, tv_nsec = 0\<rparr>\<rparr>"

definition zero_proc :: "'d config \<Rightarrow> proc" where
  "zero_proc cfg = \<lparr>blk = zero_tcb cfg, has_outf = False, wait_data_idx = 0, delayed_wait_data = None,
     atime = \<lparr>tv_sec = 0, tv_nsec = 0\<rparr>\<rparr>"

text \<open>The new size is that of \<open>xgrowarray\<close> for an array of pointers.\<close>

definition expand_tcbtab :: "'d config \<Rightarrow> strace \<Rightarrow> strace outcome" where
  "expand_tcbtab cfg st =
     (let old = length (tcbtab st)
      in obind (xgrowarray (old = 0) (of_nat old) 8)
           (\<lambda>new. Inr (st\<lparr>tcbtab := tcbtab st @ replicate (unat new - old) (zero_proc cfg)\<rparr>)))"

fun find_pid :: "int \<Rightarrow> proc list \<Rightarrow> nat option" where
  "find_pid p [] = None"
| "find_pid p (x # xs) = (if ppid x = p then Some 0 else map_option Suc (find_pid p xs))"

definition load_comm :: "globals \<Rightarrow> int \<Rightarrow> strace \<Rightarrow> strace" where
  "load_comm g p = upd_sess (\<lambda>s. if is_number_in_set DECODE_PID_COMM (decode_pid_set g)
                                 then s\<lparr>comm_loads := comm_loads s @ [p]\<rparr> else s)"

definition alloctcb :: "'d config \<Rightarrow> globals \<Rightarrow> int \<Rightarrow> strace \<Rightarrow> (nat \<times> strace) outcome" where
  "alloctcb cfg g p st =
     obind (if nprocs st = length (tcbtab st) then expand_tcbtab cfg st else Inr st)
       (\<lambda>st. case find_pid 0 (tcbtab st) of
               None \<Rightarrow> Inl (Error_msg_and_die ''bug in alloctcb'')
             | Some i \<Rightarrow>
                 let st = upd_proc i (\<lambda>_. zero_proc cfg) st;
                     st = upd_blk i (\<lambda>t. t\<lparr>pid := p\<rparr>) st;
                     st = load_comm g p st;
                     st = upd_blk i (\<lambda>t. t\<lparr>currpers := cur_pers (sess st)\<rparr>) st
                 in Inr (i, st\<lparr>nprocs := nprocs st + 1\<rparr>))"

definition PID2TCB_CACHE_SIZE :: nat where "PID2TCB_CACHE_SIZE = 1024"

definition pid2tcb :: "int \<Rightarrow> strace \<Rightarrow> nat option \<times> strace" where
  "pid2tcb p st =
     (if p \<le> 0 then (None, st)
      else
        let slot = nat p mod PID2TCB_CACHE_SIZE;
            scan = (case find_pid p (tcbtab st) of
                      None \<Rightarrow> (None, st)
                    | Some i \<Rightarrow> (Some i, st\<lparr>pid2tcb_cache := (pid2tcb_cache st)(slot := Some i)\<rparr>))
        in case pid2tcb_cache st slot of
             Some i \<Rightarrow> if ppid (tcbtab st ! i) = p then (Some i, st) else scan
           | None \<Rightarrow> scan)"

definition after_successful_attach :: "u32 \<Rightarrow> nat \<Rightarrow> strace \<Rightarrow> strace" where
  "after_successful_attach flgs i st =
     upd_proc i (\<lambda>p. p\<lparr>blk := (raise_flag (TCB_ATTACHED OR TCB_STARTUP OR flgs) (blk p))\<lparr>outf := Log []\<rparr>,
                       has_outf := True\<rparr>) st"

section \<open>Restarting, dropping, detaching\<close>

definition ptrace_restart :: "answers \<Rightarrow> restart_op \<Rightarrow> nat \<Rightarrow> u32 \<Rightarrow> strace \<Rightarrow> (int \<times> strace) outcome" where
  "ptrace_restart a op i sig st =
     (case ask a (Ptrace op (pid (the_blk st i)) sig) st of (err, st) \<Rightarrow>
        if err = 0 \<or> err = ESRCH then Inr (0, st)
        else obind
          (case current_tcp st of
             Some c \<Rightarrow> if unfinished_line (the_blk st c)
                       then print_proc c (\<lambda>s. line_ended (print_out [Out_note ''<Cannot restart>'', Out_newline] s)) st
                       else Inr st
           | None \<Rightarrow> Inr st)
          (\<lambda>st. Inr (-1, say ''ptrace'' st)))"

definition droptcb :: "'d config \<Rightarrow> globals \<Rightarrow> run_setup \<Rightarrow> nat \<Rightarrow> strace \<Rightarrow> strace" where
  "droptcb cfg g su i st =
     (let p = tcbtab st ! i;
          t = blk p
      in if pid t = 0 then st
         else
           let st = st\<lparr>nprocs := nprocs st - 1\<rparr>;
               publish = (\<not> status_filtering g \<or> is_number_in_set STATUS_DETACHED (status_set g));
               t = (if status_filtering g then strace_close_memstream publish t else t);
               cut = ((output_separately (opts su) \<or> printing_tcp (sess st) = Some (pid t)) \<and> unfinished_line t \<and> publish);
               t = (if cut then tprint [Out_note '' <detached ...>'', Out_newline] t else t);
               st = (if has_outf p then st\<lparr>closed_logs := closed_logs st @ [(pid t, contents (outf t))]\<rparr> else st);
               st = (if current_tcp st = Some i then st\<lparr>current_tcp := None\<rparr> else st);
               st = (if printing_tcp (sess st) = Some (pid t) then upd_sess (\<lambda>s. s\<lparr>printing_tcp := None\<rparr>) st else st);
               st = st\<lparr>pending_tcps := removeAll i (pending_tcps st)\<rparr>
           in upd_proc i (\<lambda>_. zero_proc cfg) st)"

definition PTRACE_EVENT_EXEC :: u32 where "PTRACE_EVENT_EXEC = 4"
definition PTRACE_EVENT_EXIT :: u32 where "PTRACE_EVENT_EXIT = 6"
definition PTRACE_EVENT_SECCOMP :: u32 where "PTRACE_EVENT_SECCOMP = 7"
definition PTRACE_EVENT_STOP :: u32 where "PTRACE_EVENT_STOP = 128"

definition no_trap :: "run_setup \<Rightarrow> u32 \<Rightarrow> u32" where
  "no_trap su sig = (if sig = syscall_trap_sig su then 0 else sig)"

text \<open>The wait for the stop in which a process can be let go.\<close>

fun detach_loop :: "answers \<Rightarrow> run_setup \<Rightarrow> nat \<Rightarrow> waited list \<Rightarrow> strace \<Rightarrow> strace outcome" where
  "detach_loop a su i [] st = Inr (say ''waitpid'' st)"
| "detach_loop a su i (Wait_failed e # ws) st =
     (if e = EINTR then detach_loop a su i ws st else Inr (say ''waitpid'' st))"
| "detach_loop a su i (Waited status # ws) st =
     (if \<not> WIFSTOPPED status then Inr st
      else
        let sig = WSTOPSIG status
        in if use_seize su
           then obind (ptrace_restart a PTRACE_DETACH i
                         (no_trap su (if drop_bit 16 status = PTRACE_EVENT_STOP then 0 else sig)) st)
                  (\<lambda>(_, st). Inr st)
           else if sig = of_nat SIGSTOP
           then obind (ptrace_restart a PTRACE_DETACH i 0 st) (\<lambda>(_, st). Inr st)
           else obind (ptrace_restart a (Restart PTRACE_CONT) i (no_trap su sig) st)
                  (\<lambda>(err, st). if err < 0 then Inr st else detach_loop a su i ws st))"

definition quiet :: "globals \<Rightarrow> nat \<Rightarrow> bool" where
  "quiet g n = is_number_in_set n (quiet_set g)"

definition stop_and_detach :: "answers \<Rightarrow> run_setup \<Rightarrow> nat \<Rightarrow> strace \<Rightarrow> strace outcome" where
  "stop_and_detach a su i st =
     (let p = pid (the_blk st i);
          wait_loop = detach_loop a su i (detach_waits a p);
          failed = (\<lambda>err st. Inr (if err \<noteq> ESRCH then say ''detach'' st else st))
      in case ask a (Ptrace PTRACE_DETACH p 0) st of (err, st) \<Rightarrow>
           if err = 0 then Inr st
           else if err \<noteq> ESRCH then failed err st
           else case ask a (Tkill p 0) st of (err, st) \<Rightarrow>
             if err \<noteq> 0 then failed err st
             else case ask a (if use_seize su then Interrupt p else Tkill p SIGSTOP) st of (err, st) \<Rightarrow>
               if err = 0 then wait_loop st else failed err st)"

definition detach :: "'d config \<Rightarrow> globals \<Rightarrow> run_setup \<Rightarrow> answers \<Rightarrow> nat \<Rightarrow> strace \<Rightarrow> strace outcome" where
  "detach cfg g su a i st =
     (let t = the_blk st i
      in obind (if \<not> has t TCB_ATTACHED then Inr st
                else if has t TCB_IGNORE_ONE_SIGSTOP then detach_loop a su i (detach_waits a (pid t)) st
                else stop_and_detach a su i st)
           (\<lambda>st. Inr (droptcb cfg g su i
                        (if \<not> quiet g QUIET_ATTACH \<and> has t TCB_ATTACHED then say ''Process detached'' st else st))))"

section \<open>The switch at an execve\<close>

text \<open>The process id the kernel reports may be a thread's; the streams change hands with it.\<close>

definition swap_output :: "nat \<Rightarrow> nat \<Rightarrow> strace \<Rightarrow> strace" where
  "swap_output i j st =
     (let p = tcbtab st ! i;
          q = tcbtab st ! j;
          give = (\<lambda>from to. to\<lparr>blk := (blk to)\<lparr>outf := outf (blk from), staged_output_data := staged_output_data (blk from)\<rparr>,
                                has_outf := has_outf from\<rparr>)
      in upd_proc j (give p) (upd_proc i (give q) st))"

definition KERNEL_VERSION :: "nat \<Rightarrow> nat \<Rightarrow> nat \<Rightarrow> nat" where
  "KERNEL_VERSION a b c = push_bit 16 a + push_bit 8 b + c"

definition supersede :: "'d config \<Rightarrow> globals \<Rightarrow> run_setup \<Rightarrow> int \<Rightarrow> nat \<Rightarrow> nat \<Rightarrow> strace \<Rightarrow> strace outcome" where
  "supersede cfg g su p i j st =
     (let old_pid = pid (the_blk st j);
          st = (if unfinished_line (the_blk st j)
                then upd_blk j (tprint [Out_note '' <pid changed ...>'', Out_newline]) st else st);
          st = droptcb cfg g su i (swap_output i j st);
          st = upd_blk j (\<lambda>t. t\<lparr>pid := p\<rparr>) st;
          st = upd_sess (\<lambda>s. if printing_tcp s = Some old_pid then s\<lparr>printing_tcp := Some p\<rparr> else s) st
      in if cflag (opts su) = CFLAG_ONLY_STATS then Inr st
         else obind
           (if quiet g QUIET_THREAD_EXECVE then Inr st
            else print_proc j (\<lambda>s. line_ended (print_out [Out_note ''+++ superseded by execve +++'', Out_newline] (printleader s))) st)
           (\<lambda>st. Inr (upd_blk j (raise_flag TCB_REPRINT)
                        (if status_filtering g then upd_blk j strace_open_memstream st else st))))"

definition maybe_switch_tcbs ::
    "'d config \<Rightarrow> globals \<Rightarrow> run_setup \<Rightarrow> nat \<Rightarrow> int \<Rightarrow> strace \<Rightarrow> (nat option \<times> strace) outcome" where
  "maybe_switch_tcbs cfg g su i p st =
     (let old = msg (tcb_wait_tab st ! wait_data_idx (tcbtab st ! i))
      in if os_release cfg < KERNEL_VERSION 3 0 0 \<or> sint old \<le> 0 \<or> sint old = p \<or> unat old > 2 ^ 32 - 1 then Inr (None, st)
         else case pid2tcb (sint (ucast old :: u32)) st of
                (None, st) \<Rightarrow> Inr (None, st)
              | (Some j, st) \<Rightarrow> obind (supersede cfg g su p i j st) (\<lambda>st. Inr (Some j, st)))"

definition maybe_switch_current_tcp ::
    "'d config \<Rightarrow> globals \<Rightarrow> run_setup \<Rightarrow> nat \<Rightarrow> strace \<Rightarrow> (nat option \<times> strace) outcome" where
  "maybe_switch_current_tcp cfg g su c st =
     obind (maybe_switch_tcbs cfg g su c (pid (the_blk st c)) st)
       (\<lambda>(r, st). case r of None \<Rightarrow> Inr (None, st)
                  | Some j \<Rightarrow> obind (set_current_tcp cfg (Some j) st) (\<lambda>st. Inr (Some j, st)))"

section \<open>Facts about the state\<close>

lemmas strace_defs = upd_proc_def upd_blk_def the_blk_def upd_sess_def say_def load_def store_def on_proc_def

lemma upd_proc_frame [simp]:
  "length (tcbtab (upd_proc i f st)) = length (tcbtab st)"
  "nprocs (upd_proc i f st) = nprocs st" "current_tcp (upd_proc i f st) = current_tcp st" "sess (upd_proc i f st) = sess st"
  "pending_tcps (upd_proc i f st) = pending_tcps st" "extra_tcp (upd_proc i f st) = extra_tcp st"
  "wait_extra_data_idx (upd_proc i f st) = wait_extra_data_idx st" "tcb_wait_tab (upd_proc i f st) = tcb_wait_tab st"
  "interrupted (upd_proc i f st) = interrupted st" "requests (upd_proc i f st) = requests st"
  "strace_child (upd_proc i f st) = strace_child st" "exit_code (upd_proc i f st) = exit_code st"
  "pid2tcb_cache (upd_proc i f st) = pid2tcb_cache st" "restart_failed (upd_proc i f st) = restart_failed st"
  by (simp_all add: upd_proc_def)

lemma nth_upd_proc: "i < length (tcbtab st) \<Longrightarrow> tcbtab (upd_proc i f st) ! j = (if j = i then f (tcbtab st ! i) else tcbtab st ! j)"
  by (auto simp: upd_proc_def nth_list_update)

lemma nth_upd_other [simp]: "j \<noteq> i \<Longrightarrow> tcbtab (upd_proc i f st) ! j = tcbtab st ! j"
  by (simp add: upd_proc_def)

lemma upd_blk_frame [simp]:
  "length (tcbtab (upd_blk i f st)) = length (tcbtab st)"
  "nprocs (upd_blk i f st) = nprocs st" "current_tcp (upd_blk i f st) = current_tcp st" "sess (upd_blk i f st) = sess st"
  "pending_tcps (upd_blk i f st) = pending_tcps st" "extra_tcp (upd_blk i f st) = extra_tcp st"
  "wait_extra_data_idx (upd_blk i f st) = wait_extra_data_idx st" "tcb_wait_tab (upd_blk i f st) = tcb_wait_tab st"
  "interrupted (upd_blk i f st) = interrupted st" "requests (upd_blk i f st) = requests st"
  "strace_child (upd_blk i f st) = strace_child st" "exit_code (upd_blk i f st) = exit_code st"
  "pid2tcb_cache (upd_blk i f st) = pid2tcb_cache st" "restart_failed (upd_blk i f st) = restart_failed st"
  by (simp_all add: upd_blk_def)

lemma the_upd_blk: "i < length (tcbtab st) \<Longrightarrow> the_blk (upd_blk i f st) j = (if j = i then f (the_blk st i) else the_blk st j)"
  by (simp add: the_blk_def upd_blk_def nth_upd_proc)

lemma upd_sess_frame [simp]:
  "tcbtab (upd_sess f st) = tcbtab st" "nprocs (upd_sess f st) = nprocs st" "current_tcp (upd_sess f st) = current_tcp st"
  "pending_tcps (upd_sess f st) = pending_tcps st" "extra_tcp (upd_sess f st) = extra_tcp st"
  "wait_extra_data_idx (upd_sess f st) = wait_extra_data_idx st" "tcb_wait_tab (upd_sess f st) = tcb_wait_tab st"
  "interrupted (upd_sess f st) = interrupted st" "requests (upd_sess f st) = requests st"
  "strace_child (upd_sess f st) = strace_child st" "exit_code (upd_sess f st) = exit_code st"
  "pid2tcb_cache (upd_sess f st) = pid2tcb_cache st" "restart_failed (upd_sess f st) = restart_failed st"
  "sess (upd_sess f st) = f (sess st)" "the_blk (upd_sess f st) i = the_blk st i"
  by (simp_all add: upd_sess_def the_blk_def)

lemma say_frame [simp]:
  "tcbtab (say m st) = tcbtab st" "nprocs (say m st) = nprocs st" "current_tcp (say m st) = current_tcp st"
  "pending_tcps (say m st) = pending_tcps st" "extra_tcp (say m st) = extra_tcp st"
  "wait_extra_data_idx (say m st) = wait_extra_data_idx st" "tcb_wait_tab (say m st) = tcb_wait_tab st"
  "interrupted (say m st) = interrupted st" "requests (say m st) = requests st"
  "strace_child (say m st) = strace_child st" "exit_code (say m st) = exit_code st"
  "pid2tcb_cache (say m st) = pid2tcb_cache st" "restart_failed (say m st) = restart_failed st" "the_blk (say m st) i = the_blk st i"
  by (simp_all add: say_def)

lemma store_frame [simp]:
  "length (tcbtab (store i s st)) = length (tcbtab st)" "nprocs (store i s st) = nprocs st"
  "current_tcp (store i s st) = current_tcp st" "sess (store i s st) = s"
  "pending_tcps (store i s st) = pending_tcps st" "extra_tcp (store i s st) = extra_tcp st"
  "wait_extra_data_idx (store i s st) = wait_extra_data_idx st" "tcb_wait_tab (store i s st) = tcb_wait_tab st"
  "interrupted (store i s st) = interrupted st" "requests (store i s st) = requests st"
  "strace_child (store i s st) = strace_child st" "exit_code (store i s st) = exit_code st"
  "pid2tcb_cache (store i s st) = pid2tcb_cache st" "restart_failed (store i s st) = restart_failed st"
  by (simp_all add: store_def)

lemma the_store: "i < length (tcbtab st) \<Longrightarrow> the_blk (store i s st) j = (if j = i then cur_tcb s else the_blk st j)"
  using the_upd_blk [of i st "\<lambda>_. cur_tcb s" j] by (simp add: store_def the_blk_def)

lemma nth_store: "i < length (tcbtab st) \<Longrightarrow>
    tcbtab (store i s st) ! j = (if j = i then (tcbtab st ! i)\<lparr>blk := cur_tcb s\<rparr> else tcbtab st ! j)"
  by (simp add: store_def upd_blk_def nth_upd_proc)

lemma cur_load [simp]: "cur_tcb (load i st) = the_blk st i"
  by (simp add: load_def session_defs)

lemma ask_simps [simp]: "fst (ask a r st) = reply a r" "snd (ask a r st) = st\<lparr>requests := requests st @ [r]\<rparr>"
  by (simp_all add: ask_def)

section \<open>Lookup\<close>

lemma find_pid_Some: "find_pid p xs = Some i \<longleftrightarrow> i < length xs \<and> ppid (xs ! i) = p \<and> (\<forall>j < i. ppid (xs ! j) \<noteq> p)"
proof (induction xs arbitrary: i)
  case (Cons x xs)
  show ?case
  proof (cases i)
    case 0 then show ?thesis by auto
  next
    case (Suc k)
    with Cons.IH [of k] show ?thesis by (auto simp: less_Suc_eq_0_disj)
  qed
qed simp

lemma find_pid_None: "find_pid p xs = None \<longleftrightarrow> (\<forall>i < length xs. ppid (xs ! i) \<noteq> p)"
  by (induction xs) (auto simp: less_Suc_eq_0_disj)

text \<open>
  The well-formedness of the table: process ids are unique, \<open>nprocs\<close> counts the processes, every
  process has a stream, and every pointer kept anywhere points to a control block.
\<close>

definition live :: "strace \<Rightarrow> nat \<Rightarrow> bool" where
  "live st i \<longleftrightarrow> i < length (tcbtab st) \<and> pid (the_blk st i) \<noteq> 0"

definition pids_ok :: "strace \<Rightarrow> bool" where
  "pids_ok st \<longleftrightarrow> (\<forall>i j. live st i \<longrightarrow> live st j \<longrightarrow> pid (the_blk st i) = pid (the_blk st j) \<longrightarrow> i = j)"

definition cache_valid :: "strace \<Rightarrow> bool" where
  "cache_valid st \<longleftrightarrow> (\<forall>s i. pid2tcb_cache st s = Some i \<longrightarrow> i < length (tcbtab st))"

text \<open>The cache makes no difference: the answer is the one process with the id.\<close>

lemma pid2tcb_result:
  assumes "pids_ok st" "cache_valid st"
  shows "fst (pid2tcb p st) = (if p \<le> 0 then None else find_pid p (tcbtab st))"
    and "cache_valid (snd (pid2tcb p st))"
    and "snd (pid2tcb p st) = st\<lparr>pid2tcb_cache := pid2tcb_cache (snd (pid2tcb p st))\<rparr>"
proof -
  have hit: "find_pid p (tcbtab st) = Some i"
    if "p > 0" "pid2tcb_cache st s = Some i" "ppid (tcbtab st ! i) = p" for s i
  proof -
    have i: "live st i" using that assms(2) by (auto simp: live_def cache_valid_def the_blk_def)
    then have "j = i" if "j < length (tcbtab st)" "ppid (tcbtab st ! j) = p" for j
      using assms(1) that \<open>ppid (tcbtab st ! i) = p\<close> \<open>p > 0\<close> by (auto simp: pids_ok_def live_def the_blk_def)
    then show ?thesis using i that(3) unfolding find_pid_Some live_def by (metis less_irrefl less_trans)
  qed
  show "fst (pid2tcb p st) = (if p \<le> 0 then None else find_pid p (tcbtab st))"
    using hit by (auto simp: pid2tcb_def Let_def split: option.splits)
  show "cache_valid (snd (pid2tcb p st))"
    using assms(2) by (auto simp: pid2tcb_def Let_def cache_valid_def find_pid_Some split: option.splits if_splits)
  show "snd (pid2tcb p st) = st\<lparr>pid2tcb_cache := pid2tcb_cache (snd (pid2tcb p st))\<rparr>"
    by (auto simp: pid2tcb_def Let_def split: option.splits)
qed

end
