(* ===== verification/Event_Loop.thy ===== *)
theory Event_Loop
  imports Tcb_Table
begin

text \<open>
  The main loop of strace (\<^verbatim>\<open>strace.c\<close>): \<open>next_event\<close> collects what the kernel reports about the
  traced processes and hands the events out one by one, \<open>dispatch_event\<close> handles an event and
  restarts the process, delayed processes are restarted by the handler of the delay timer.
\<close>

section \<open>Messages about a process\<close>

definition print_line :: "string \<Rightarrow> session \<Rightarrow> session" where
  "print_line n s = line_ended (print_out [Out_note n, Out_newline] (printleader s))"

definition print_signalled ::
    "'d config \<Rightarrow> globals \<Rightarrow> run_setup \<Rightarrow> nat \<Rightarrow> int \<Rightarrow> u32 \<Rightarrow> strace \<Rightarrow> strace outcome" where
  "print_signalled cfg g su i p status st =
     (let st = (if p = strace_child st
                then st\<lparr>exit_code := uint (0x100 OR WTERMSIG status), strace_child := 0\<rparr> else st)
      in if cflag (opts su) \<noteq> CFLAG_ONLY_STATS \<and> is_number_in_set (unat (WTERMSIG status)) (signal_set g)
         then print_proc i (print_line (''+++ killed by '' @ sprintsigname cfg (uint (WTERMSIG status))
                 @ (if WCOREDUMP status then '' (core dumped) +++'' else '' +++''))) st
         else Inr st)"

definition print_exited ::
    "globals \<Rightarrow> run_setup \<Rightarrow> nat \<Rightarrow> int \<Rightarrow> u32 \<Rightarrow> strace \<Rightarrow> strace outcome" where
  "print_exited g su i p status st =
     (let st = (if p = strace_child st
                then st\<lparr>exit_code := uint (WEXITSTATUS status), strace_child := 0\<rparr> else st)
      in if cflag (opts su) \<noteq> CFLAG_ONLY_STATS \<and> \<not> quiet g QUIET_EXIT
         then print_proc i (print_line (''+++ exited with '' @ dec (unat (WEXITSTATUS status)) @ '' +++'')) st
         else Inr st)"

definition print_stopped ::
    "'d config \<Rightarrow> globals \<Rightarrow> run_setup \<Rightarrow> nat \<Rightarrow> string option \<Rightarrow> u32 \<Rightarrow> strace \<Rightarrow> strace outcome" where
  "print_stopped cfg g su i info sig st =
     (if cflag (opts su) \<noteq> CFLAG_ONLY_STATS \<and> \<not> hide_log (the_blk st i) \<and> is_number_in_set (unat sig) (signal_set g)
      then print_proc i (print_line
             (case info of Some t \<Rightarrow> ''--- '' @ sprintsigname cfg (uint sig) @ '' '' @ t @ '' ---''
              | None \<Rightarrow> ''--- stopped by '' @ sprintsigname cfg (uint sig) @ '' ---'')) st
      else Inr st)"

text \<open>The line of another process that is cut off, and the end of a call that will not return.\<close>

definition cut_other_line :: "'d config \<Rightarrow> run_setup \<Rightarrow> nat \<Rightarrow> strace \<Rightarrow> strace outcome" where
  "cut_other_line cfg su i st =
     (case printing_tcp (sess st) of None \<Rightarrow> Inr st
      | Some q \<Rightarrow>
          (case find_pid q (tcbtab st) of None \<Rightarrow> Inr st
           | Some j \<Rightarrow>
               if \<not> output_separately (opts su) \<and> j \<noteq> i \<and> unfinished_line (the_blk st j) \<and> staged_output_data (the_blk st j) = None
               then obind (set_current_tcp cfg (Some j) st)
                      (\<lambda>st. obind (print_proc j (print_out [Out_note ''<unfinished ...>'', Out_newline]) st)
                              (set_current_tcp cfg (Some i)))
               else Inr st))"

definition print_event_exit :: "'d config \<Rightarrow> globals \<Rightarrow> run_setup \<Rightarrow> nat \<Rightarrow> strace \<Rightarrow> strace outcome" where
  "print_event_exit cfg g su i st =
     (let t = the_blk st i
      in if entering t \<or> filtered t \<or> hide_log t \<or> cflag (opts su) = CFLAG_ONLY_STATS then Inr st
         else obind (cut_other_line cfg su i st)
           (print_proc i (\<lambda>s.
              let s = print_syscall_resume (opts su) s;
                  s = print_out ((if sys_func_rval (cur_tcb s) AND RVAL_DECODED = 0 then [Out_note ''<unfinished ...>''] else [])
                        @ [Out_pseudo_rval, Out_newline]) s;
                  s = (if status_filtering g
                       then upd_cur (strace_close_memstream (is_number_in_set STATUS_UNFINISHED (status_set g))) s else s)
              in line_ended s)))"

section \<open>Dispatching an event\<close>

definition syscall_delayed :: "tcb \<Rightarrow> bool" where "syscall_delayed t \<longleftrightarrow> has t TCB_DELAYED"
definition has_seccomp_filter :: "tcb \<Rightarrow> bool" where "has_seccomp_filter t \<longleftrightarrow> has t TCB_SECCOMP_FILTER"

text \<open>The end of \<open>dispatch_event\<close>: the process goes on, unless it is delayed or strace is to end.\<close>

definition finish_event ::
    "answers \<Rightarrow> wait_data \<Rightarrow> nat \<Rightarrow> restart_op \<Rightarrow> u32 \<Rightarrow> strace \<Rightarrow> (bool \<times> strace) outcome" where
  "finish_event a wd c op sig st =
     (if interrupted st \<noteq> 0 then Inr (False, st)
      else if syscall_delayed (the_blk st c)
      then let st = (if delayed_wait_data (tcbtab st ! c) \<noteq> None then say ''delayed wait data set already'' st else st)
           in Inr (True, upd_proc c (\<lambda>p. p\<lparr>delayed_wait_data := Some wd\<rparr>) st)
      else obind (ptrace_restart a op c sig st)
             (\<lambda>(err, st). if err < 0 then Inr (False, st\<lparr>exit_code := 1\<rparr>) else Inr (True, st)))"

definition handle_syscall ::
    "'d config \<Rightarrow> globals \<Rightarrow> run_setup \<Rightarrow> decoders \<Rightarrow> answers \<Rightarrow> nat \<Rightarrow> strace \<Rightarrow> (int \<times> u32 \<times> strace) outcome" where
  "handle_syscall cfg g su dc a c st =
     obind (trace_syscall cfg g (opts su) dc (a_kernel a) (a_clock a) 0 (load c st))
       (\<lambda>(res, sig, s). Inr (res, sig, store c s st))"

definition syscall_stop ::
    "'d config \<Rightarrow> globals \<Rightarrow> run_setup \<Rightarrow> decoders \<Rightarrow> answers \<Rightarrow> wait_data \<Rightarrow> nat \<Rightarrow> restart_op \<Rightarrow> strace
      \<Rightarrow> (bool \<times> strace) outcome" where
  "syscall_stop cfg g su dc a wd c op st =
     obind (handle_syscall cfg g su dc a c st)
       (\<lambda>(res, sig, st).
          if res < 0 then Inr (True, st)
          else finish_event a wd c
                 (if has_seccomp_filter (the_blk st c)
                  then Restart (if exiting (the_blk st c) then PTRACE_SYSCALL else PTRACE_CONT) else op) sig st)"

definition execve_stop ::
    "'d config \<Rightarrow> globals \<Rightarrow> run_setup \<Rightarrow> decoders \<Rightarrow> answers \<Rightarrow> wait_data \<Rightarrow> nat \<Rightarrow> restart_op \<Rightarrow> strace
      \<Rightarrow> (bool \<times> strace) outcome" where
  "execve_stop cfg g su dc a wd c op st =
     obind (maybe_switch_current_tcp cfg g su c (upd_blk c (drop_flag TCB_CHECK_EXEC_SYSCALL) st))
       (\<lambda>(switched, st).
          let c = (case switched of None \<Rightarrow> c | Some j \<Rightarrow> j)
          in obind
            (if switched = None \<and> entering (the_blk st c)
             then obind (handle_syscall cfg g su dc a c
                           (upd_blk c (raise_flag TCB_RECOVERING) (say ''Stray PTRACE_EVENT_EXEC'' st)))
                    (\<lambda>(res, sig, st). Inr (res, sig, upd_blk c (drop_flag TCB_RECOVERING) st))
             else Inr (0, 0, st))
            (\<lambda>(res, sig, st).
               if res < 0 then Inr (True, st)
               else if detach_on_execve su \<and> \<not> has (the_blk st c) TCB_SKIP_DETACH_ON_FIRST_EXEC
               then obind (detach cfg g su a c st) (\<lambda>st. Inr (True, st))
               else finish_event a wd c op sig
                      (if detach_on_execve su then upd_blk c (drop_flag TCB_SKIP_DETACH_ON_FIRST_EXEC) st else st)))"

definition default_op :: "'d config \<Rightarrow> globals \<Rightarrow> nat \<Rightarrow> strace \<Rightarrow> restart_op" where
  "default_op cfg g c st =
     Restart (if has_seccomp_filter (the_blk st c)
              then seccomp_filter_restart_operator cfg g False (cur_pers (sess st)) (exiting (the_blk st c))
                     (unat (scno (the_blk st c)))
              else PTRACE_SYSCALL)"

definition dispatch_current ::
    "'d config \<Rightarrow> globals \<Rightarrow> run_setup \<Rightarrow> decoders \<Rightarrow> answers \<Rightarrow> wait_data \<Rightarrow> nat \<Rightarrow> strace \<Rightarrow> (bool \<times> strace) outcome" where
  "dispatch_current cfg g su dc a wd c st =
     (let op = default_op cfg g c st;
          status = wd_status wd;
          p = pid (the_blk st c);
          stop = syscall_stop cfg g su dc a wd c op st
      in case te wd of
           TE_SECCOMP \<Rightarrow>
             if \<not> has_seccomp_filter (the_blk st c)
             then finish_event a wd c (Restart PTRACE_SYSCALL) 0 (upd_blk c (raise_flag TCB_SECCOMP_FILTER) st)
             else if seccomp_before_sysentry su then finish_event a wd c (Restart PTRACE_SYSCALL) 0 st
             else stop
         | TE_SYSCALL_STOP \<Rightarrow> stop
         | TE_SIGNAL_DELIVERY_STOP \<Rightarrow>
             obind (print_stopped cfg g su c (Some (si wd)) (WSTOPSIG status) st) (finish_event a wd c op (WSTOPSIG status))
         | TE_SIGNALLED \<Rightarrow>
             obind (print_signalled cfg g su c p status st) (\<lambda>st. Inr (True, droptcb cfg g su c st))
         | TE_GROUP_STOP \<Rightarrow>
             obind (print_stopped cfg g su c None (WSTOPSIG status) st)
               (if use_seize su then finish_event a wd c PTRACE_LISTEN 0 else finish_event a wd c op (WSTOPSIG status))
         | TE_EXITED \<Rightarrow>
             obind (print_exited g su c p status st) (\<lambda>st. Inr (True, droptcb cfg g su c st))
         | TE_STOP_BEFORE_EXECVE \<Rightarrow> execve_stop cfg g su dc a wd c op st
         | TE_STOP_BEFORE_EXIT \<Rightarrow> obind (print_event_exit cfg g su c st) (finish_event a wd c op 0)
         | _ \<Rightarrow> finish_event a wd c op 0 st)"

text \<open>Whether the main loop goes on.\<close>

definition dispatch_event ::
    "'d config \<Rightarrow> globals \<Rightarrow> run_setup \<Rightarrow> decoders \<Rightarrow> answers \<Rightarrow> wait_data option \<Rightarrow> strace \<Rightarrow> (bool \<times> strace) outcome" where
  "dispatch_event cfg g su dc a wd st =
     (case wd of None \<Rightarrow> Inr (False, st)
      | Some wd \<Rightarrow>
          if te wd = TE_BREAK then Inr (False, st)
          else if te wd = TE_NEXT then Inr (True, st)
          else case current_tcp st of None \<Rightarrow> Inl (Undefined_behaviour ''current_tcp'')
               | Some c \<Rightarrow> dispatch_current cfg g su dc a wd c st)"

section \<open>Delayed processes\<close>

definition restart_delayed_tcb ::
    "'d config \<Rightarrow> globals \<Rightarrow> run_setup \<Rightarrow> decoders \<Rightarrow> answers \<Rightarrow> nat \<Rightarrow> strace \<Rightarrow> (bool \<times> strace) outcome" where
  "restart_delayed_tcb cfg g su dc a i st =
     (let (wd, st) = (case delayed_wait_data (tcbtab st ! i) of Some wd \<Rightarrow> (wd, st)
                      | None \<Rightarrow> (init_trace_wait_data, say ''No delayed wait data found'' st));
          st = upd_blk i (drop_flag TCB_DELAYED) st;
          prev_tcp = current_tcp st
      in obind (dispatch_event cfg g su dc a (Some (wd\<lparr>te := TE_RESTART\<rparr>)) (st\<lparr>current_tcp := Some i\<rparr>))
           (\<lambda>(ret, st). Inr (ret, upd_proc i (\<lambda>p. p\<lparr>delayed_wait_data := None\<rparr>) (st\<lparr>current_tcp := prev_tcp\<rparr>))))"

text \<open>The loop over the table; \<open>tcp_next\<close> is the process whose delay ends first.\<close>

fun restart_loop ::
    "'d config \<Rightarrow> globals \<Rightarrow> run_setup \<Rightarrow> decoders \<Rightarrow> answers \<Rightarrow> nat list \<Rightarrow> nat option \<Rightarrow> strace
      \<Rightarrow> (bool \<times> nat option \<times> strace) outcome" where
  "restart_loop cfg g su dc a [] tcp_next st = Inr (True, tcp_next, st)"
| "restart_loop cfg g su dc a (i # is) tcp_next st =
     (let t = the_blk st i;
          x = delay_expiration_time t
      in if pid t \<noteq> 0 \<and> syscall_delayed t then
           if ts_cmp (c_now (a_clock a)) x > 0
           then obind (restart_delayed_tcb cfg g su dc a i st)
                  (\<lambda>(ret, st). if ret then restart_loop cfg g su dc a is tcp_next st else Inr (False, tcp_next, st))
           else restart_loop cfg g su dc a is
                  (case tcp_next of None \<Rightarrow> Some i
                   | Some n \<Rightarrow> if ts_cmp (delay_expiration_time (the_blk st n)) x > 0 then Some i else Some n) st
         else restart_loop cfg g su dc a is tcp_next st)"

definition restart_delayed_tcbs ::
    "'d config \<Rightarrow> globals \<Rightarrow> run_setup \<Rightarrow> decoders \<Rightarrow> answers \<Rightarrow> strace \<Rightarrow> (bool \<times> strace) outcome" where
  "restart_delayed_tcbs cfg g su dc a st =
     obind (restart_loop cfg g su dc a [0..<length (tcbtab st)] None st)
       (\<lambda>(ok, tcp_next, st).
          if \<not> ok then Inr (False, st)
          else case tcp_next of None \<Rightarrow> Inr (True, st)
               | Some n \<Rightarrow> obind (arm_delay_timer (a_clock a) (tam (load n st)))
                             (\<lambda>w. Inr (True, upd_sess (\<lambda>s. s\<lparr>tam := w\<rparr>) st)))"

definition timer_sighandler ::
    "'d config \<Rightarrow> globals \<Rightarrow> run_setup \<Rightarrow> decoders \<Rightarrow> answers \<Rightarrow> strace \<Rightarrow> strace outcome" where
  "timer_sighandler cfg g su dc a st =
     (let st = upd_sess (\<lambda>s. s\<lparr>tam := delay_timer_expired (tam s)\<rparr>) st
      in if restart_failed st then Inr st
         else obind (restart_delayed_tcbs cfg g su dc a st)
                (\<lambda>(ok, st). Inr (if ok then st else st\<lparr>restart_failed := True\<rparr>)))"

section \<open>Collecting events\<close>

text \<open>
  What a call of \<open>wait4\<close> gives: the status of a process with its system time, its signal
  information and its event message (if \<open>PTRACE_GETSIGINFO\<close> and \<open>PTRACE_GETEVENTMSG\<close> succeed),
  0 if there is nothing to report, or an error.
\<close>

datatype wait_answer = Wait_pid int u32 timespec "string option" "u64 option" | Wait_none | Wait_err nat

definition startup_tcb ::
    "'d config \<Rightarrow> globals \<Rightarrow> run_setup \<Rightarrow> answers \<Rightarrow> nat \<Rightarrow> strace \<Rightarrow> strace outcome" where
  "startup_tcb cfg g su a i st =
     (let st = upd_blk i (drop_flag TCB_STARTUP) st;
          (err, st) = (if use_seize su then (0, st) else ask a (Setoptions (pid (the_blk st i)) (ptrace_setoptions su)) st)
      in if err \<noteq> 0 \<and> err \<noteq> ESRCH then Inl (Error_msg_and_die ''PTRACE_SETOPTIONS'')
         else obind
           (if has (the_blk st i) TCB_GRABBED
            then obind (on_tracer (get_scno cfg g (ptrace_get_syscall_info_supported (opts su)) (a_kernel a)) (load i st))
                   (\<lambda>(r, s). let st = store i s st
                             in Inr (if r = 1 then upd_blk i (\<lambda>t. t\<lparr>s_prev_ent := s_ent t\<rparr>) st else st))
            else Inr st)
           (\<lambda>st. Inr (if cflag (opts su) \<noteq> CFLAG_NONE
                      then upd_proc i (\<lambda>p. p\<lparr>atime := stime (blk p)\<rparr>) st else st)))"

definition maybe_allocate_tcb ::
    "'d config \<Rightarrow> globals \<Rightarrow> run_setup \<Rightarrow> answers \<Rightarrow> int \<Rightarrow> u32 \<Rightarrow> strace \<Rightarrow> (nat option \<times> strace) outcome" where
  "maybe_allocate_tcb cfg g su a p status st =
     (if \<not> WIFSTOPPED status then
        if detach_on_execve su \<and> p = strace_child st then Inr (None, st\<lparr>strace_child := 0\<rparr>)
        else Inr (None, if quiet g QUIET_EXIT then st else say ''Exit of unknown pid ignored'' st)
      else if followfork su then
        obind (alloctcb cfg g p st)
          (\<lambda>(i, st). let st = after_successful_attach (post_attach_sigstop su) i st
                     in Inr (Some i, if quiet g QUIET_ATTACH then st else say ''Process attached'' st))
      else
        let (_, st) = ask a (Ptrace PTRACE_DETACH p 0) st
        in Inr (None, if quiet g QUIET_ATTACH then st else say ''Detached unknown pid'' st))"

text \<open>The event that a status stands for.\<close>

definition is_group_stop_sig :: "u32 \<Rightarrow> bool" where
  "is_group_stop_sig sig \<longleftrightarrow> sig \<in> of_nat ` set [SIGSTOP, SIGTSTP, SIGTTIN, SIGTTOU]"

definition stop_event :: "run_setup \<Rightarrow> tcb \<Rightarrow> u32 \<Rightarrow> string option \<Rightarrow> trace_event" where
  "stop_event su t status info =
     (let sig = WSTOPSIG status;
          event = drop_bit 16 status
      in if event = 0 then
           (if sig = of_nat SIGSTOP \<and> has t TCB_IGNORE_ONE_SIGSTOP then TE_RESTART
            else if sig = syscall_trap_sig su then TE_SYSCALL_STOP
            else case info of None \<Rightarrow> TE_GROUP_STOP | Some _ \<Rightarrow> TE_SIGNAL_DELIVERY_STOP)
         else if event = PTRACE_EVENT_STOP then (if is_group_stop_sig sig then TE_GROUP_STOP else TE_RESTART)
         else if event = PTRACE_EVENT_EXEC then TE_STOP_BEFORE_EXECVE
         else if event = PTRACE_EVENT_EXIT then TE_STOP_BEFORE_EXIT
         else if event = PTRACE_EVENT_SECCOMP then TE_SECCOMP
         else TE_RESTART)"

definition event_of :: "run_setup \<Rightarrow> tcb \<Rightarrow> u32 \<Rightarrow> string option \<Rightarrow> trace_event" where
  "event_of su t status info =
     (if WIFSIGNALED status then TE_SIGNALLED else if WIFEXITED status then TE_EXITED else stop_event su t status info)"

definition ignored_sigstop :: "tcb \<Rightarrow> u32 \<Rightarrow> bool" where
  "ignored_sigstop t status \<longleftrightarrow> \<not> WIFSIGNALED status \<and> \<not> WIFEXITED status \<and> drop_bit 16 status = 0
     \<and> WSTOPSIG status = of_nat SIGSTOP \<and> has t TCB_IGNORE_ONE_SIGSTOP"

text \<open>The members of the wait data that the code sets for that event.\<close>

definition wait_data_of :: "run_setup \<Rightarrow> tcb \<Rightarrow> u32 \<Rightarrow> string option \<Rightarrow> u64 option \<Rightarrow> wait_data" where
  "wait_data_of su t status info m =
     (let e = event_of su t status info
      in \<lparr>te = e, wd_status = status,
          msg = (if e = TE_STOP_BEFORE_EXECVE then case m of None \<Rightarrow> 0 | Some v \<Rightarrow> v else 0),
          si = (if e = TE_SIGNAL_DELIVERY_STOP then case info of None \<Rightarrow> [] | Some v \<Rightarrow> v else [])\<rparr>)"

text \<open>The growth of \<open>xgrowarray\<close> from a size, for members larger than \<open>DEFAULT_ALLOC_SIZE\<close>.\<close>

function tcb_wait_tab_check_size :: "nat \<Rightarrow> wait_data list \<Rightarrow> wait_data list" where
  "tcb_wait_tab_check_size sz tab =
     (if sz < length tab then tab
      else tcb_wait_tab_check_size sz (tab @ replicate (length tab div 2 + 1) init_trace_wait_data))"
  by pat_completeness auto
termination by (relation "measure (\<lambda>(sz, tab). Suc sz - length tab)") auto

declare tcb_wait_tab_check_size.simps [simp del]

text \<open>A second event of a process that is queued already is kept apart and ends the collecting.\<close>

definition queue_event :: "nat \<Rightarrow> wait_data \<Rightarrow> nat \<Rightarrow> strace \<Rightarrow> strace" where
  "queue_event i wd pos st =
     (let st = st\<lparr>tcb_wait_tab := (tcb_wait_tab_check_size pos (tcb_wait_tab st))[pos := wd]\<rparr>;
          st = (if te wd = TE_BREAK then say ''Tracing event hasn't been determined'' st else st)
      in if i \<in> set (pending_tcps st) then st\<lparr>wait_extra_data_idx := pos, extra_tcp := Some i\<rparr>
         else (upd_proc i (\<lambda>p. p\<lparr>wait_data_idx := pos\<rparr>) st)\<lparr>pending_tcps := pending_tcps st @ [i]\<rparr>)"

definition note_status ::
    "'d config \<Rightarrow> globals \<Rightarrow> run_setup \<Rightarrow> answers \<Rightarrow> nat \<Rightarrow> int \<Rightarrow> u32 \<Rightarrow> timespec \<Rightarrow> string option \<Rightarrow> u64 option
      \<Rightarrow> strace \<Rightarrow> (bool \<times> strace) outcome" where
  "note_status cfg g su a pos p status ru info m st =
     (case pid2tcb p st of (which, st) \<Rightarrow>
        obind (case which of Some i \<Rightarrow> Inr (Some i, st) | None \<Rightarrow> maybe_allocate_tcb cfg g su a p status st)
          (\<lambda>(which, st).
             case which of None \<Rightarrow> Inr (False, st)
             | Some i \<Rightarrow>
                 let st = (if cflag (opts su) \<noteq> CFLAG_NONE then upd_blk i (\<lambda>t. t\<lparr>stime := ru\<rparr>) st else st);
                     wd = wait_data_of su (the_blk st i) status info m;
                     st = (if ignored_sigstop (the_blk st i) status
                           then upd_blk i (drop_flag TCB_IGNORE_ONE_SIGSTOP) st else st)
                 in Inr (True, queue_event i wd pos st)))"

definition wait_failed :: "bool \<Rightarrow> nat \<Rightarrow> strace \<Rightarrow> (bool \<times> strace) outcome" where
  "wait_failed nohang e st =
     (if e = EINTR \<or> nohang then Inr (True, st)
      else if nprocs st = 0 \<and> e = ECHILD then Inr (False, st)
      else Inl (Error_msg_and_die ''wait4(__WALL)''))"

text \<open>
  The loop of \<open>next_event\<close> over the answers of \<open>wait4\<close>; when there are none left, there are no
  children left.  \<open>False\<close> means that the main loop is to end.
\<close>

fun collect ::
    "'d config \<Rightarrow> globals \<Rightarrow> run_setup \<Rightarrow> answers \<Rightarrow> bool \<Rightarrow> wait_answer list \<Rightarrow> nat \<Rightarrow> strace \<Rightarrow> (bool \<times> strace) outcome" where
  "collect cfg g su a nohang [] pos st = wait_failed nohang ECHILD st"
| "collect cfg g su a nohang (Wait_err e # ws) pos st = wait_failed nohang e st"
| "collect cfg g su a nohang (Wait_none # ws) pos st = Inr (True, st)"
| "collect cfg g su a nohang (Wait_pid p status ru info m # ws) pos st =
     (if p = popen_pid st then Inr (True, if WIFSTOPPED status then st else st\<lparr>popen_pid := 0\<rparr>)
      else obind (note_status cfg g su a pos p status ru info m st)
             (\<lambda>(queued, st).
                if extra_tcp st \<noteq> None then Inr (True, st)
                else collect cfg g su a True ws (if queued then pos + 1 else pos) st))"

text \<open>The end of \<open>next_event\<close> for a process whose event is handed out.\<close>

definition hand_out ::
    "'d config \<Rightarrow> globals \<Rightarrow> run_setup \<Rightarrow> answers \<Rightarrow> nat \<Rightarrow> strace \<Rightarrow> (wait_data option \<times> strace) outcome" where
  "hand_out cfg g su a i st =
     obind (if has (the_blk st i) TCB_STARTUP then startup_tcb cfg g su a i st else Inr st)
       (\<lambda>st. let st = upd_sess (upd_tracer clear_regs) st
             in obind (set_current_tcp cfg (Some i) st)
                  (\<lambda>st. Inr (Some (tcb_wait_tab st ! wait_data_idx (tcbtab st ! i)), st)))"

definition next_pending ::
    "'d config \<Rightarrow> globals \<Rightarrow> run_setup \<Rightarrow> answers \<Rightarrow> strace \<Rightarrow> (wait_data option \<times> strace) outcome" where
  "next_pending cfg g su a st =
     (case pending_tcps st of
        [] \<Rightarrow> let wd = init_trace_wait_data\<lparr>te := TE_NEXT\<rparr>
              in Inr (Some wd, st\<lparr>tcb_wait_tab := (tcb_wait_tab_check_size 0 (tcb_wait_tab st))[0 := wd]\<rparr>)
      | i # is \<Rightarrow> hand_out cfg g su a i (st\<lparr>pending_tcps := is\<rparr>))"

text \<open>
  What happens in one round of the main loop: whether the delay timer expires in its window (and
  the time then), what \<open>wait4\<close> gives, and the other answers.
\<close>

record round =
  tick :: "clock option"
  waits :: "wait_answer list"
  ans :: answers

definition wait_events ::
    "'d config \<Rightarrow> globals \<Rightarrow> run_setup \<Rightarrow> decoders \<Rightarrow> round \<Rightarrow> strace \<Rightarrow> (wait_data option \<times> strace) outcome" where
  "wait_events cfg g su dc r st =
     (let unblock_delay_timer = delay_timer_is_armed (tam (sess st))
      in obind (case tick r of
                  Some c \<Rightarrow> if unblock_delay_timer then timer_sighandler cfg g su dc ((ans r)\<lparr>a_clock := c\<rparr>) st else Inr st
                | None \<Rightarrow> Inr st)
           (\<lambda>st. if unblock_delay_timer \<and> restart_failed st then Inr (None, st)
                 else obind (collect cfg g su (ans r) False (waits r) 0 st)
                        (\<lambda>(go, st). if go then next_pending cfg g su (ans r) st else Inr (None, st))))"

definition next_event ::
    "'d config \<Rightarrow> globals \<Rightarrow> run_setup \<Rightarrow> decoders \<Rightarrow> round \<Rightarrow> strace \<Rightarrow> (wait_data option \<times> strace) outcome" where
  "next_event cfg g su dc r st =
     (if interrupted st \<noteq> 0 then Inr (None, st)
      else if syscall_limit (sess st) = 0
      then Inr (None, (if quiet g QUIET_ATTACH then st else say ''System call limit has been reached'' st)\<lparr>strace_child := 0\<rparr>)
      else
        let st = st\<lparr>umove := invalidate_umove_cache (umove st)\<rparr>
        in if pending_tcps st \<noteq> [] then next_pending cfg g su (ans r) st
           else case extra_tcp st of
             Some i \<Rightarrow> hand_out cfg g su (ans r) i
                         (upd_proc i (\<lambda>p. p\<lparr>wait_data_idx := wait_extra_data_idx st\<rparr>) (st\<lparr>extra_tcp := None\<rparr>))
           | None \<Rightarrow> if popen_pid st \<noteq> 0 \<and> nprocs st = 0 then Inr (None, st)
                     else wait_events cfg g su dc r st)"

section \<open>The main loop\<close>

definition main_round ::
    "'d config \<Rightarrow> globals \<Rightarrow> run_setup \<Rightarrow> decoders \<Rightarrow> round \<Rightarrow> strace \<Rightarrow> (bool \<times> strace) outcome" where
  "main_round cfg g su dc r st =
     obind (next_event cfg g su dc r st) (\<lambda>(wd, st). dispatch_event cfg g su dc (ans r) wd st)"

text \<open>The loop for a number of rounds; \<open>True\<close> if it has not ended yet.\<close>

fun main_loop ::
    "'d config \<Rightarrow> globals \<Rightarrow> run_setup \<Rightarrow> decoders \<Rightarrow> round list \<Rightarrow> strace \<Rightarrow> (bool \<times> strace) outcome" where
  "main_loop cfg g su dc [] st = Inr (True, st)"
| "main_loop cfg g su dc (r # rs) st =
     obind (main_round cfg g su dc r st) (\<lambda>(go, st). if go then main_loop cfg g su dc rs st else Inr (False, st))"

definition PTRACE_O_EXITKILL :: u32 where "PTRACE_O_EXITKILL = 0x100000"

fun cleanup_loop ::
    "'d config \<Rightarrow> globals \<Rightarrow> run_setup \<Rightarrow> answers \<Rightarrow> nat \<Rightarrow> nat list \<Rightarrow> strace \<Rightarrow> strace outcome" where
  "cleanup_loop cfg g su a fatal_sig [] st = Inr st"
| "cleanup_loop cfg g su a fatal_sig (i # is) st =
     (let p = pid (the_blk st i)
      in if p = 0 then cleanup_loop cfg g su a fatal_sig is st
         else
           let st = (if p = strace_child st then snd (ask a (Kill p fatal_sig) (snd (ask a (Kill p SIGCONT) st))) else st)
           in obind (detach cfg g su a i st) (cleanup_loop cfg g su a fatal_sig is))"

definition cleanup :: "'d config \<Rightarrow> globals \<Rightarrow> run_setup \<Rightarrow> answers \<Rightarrow> nat \<Rightarrow> strace \<Rightarrow> strace outcome" where
  "cleanup cfg g su a fatal_sig st =
     (if ptrace_setoptions su AND PTRACE_O_EXITKILL \<noteq> 0 then Inr st
      else cleanup_loop cfg g su a (if fatal_sig = 0 then SIGTERM else fatal_sig) [0..<length (tcbtab st)] st)"

text \<open>
  How strace ends: with an exit status, or by a signal sent to itself and, should it survive that,
  with the exit status that a shell gives to the signal.
\<close>

datatype ending = Exit int | Raise int int

definition terminate ::
    "'d config \<Rightarrow> globals \<Rightarrow> run_setup \<Rightarrow> answers \<Rightarrow> strace \<Rightarrow> (ending \<times> strace) outcome" where
  "terminate cfg g su a st =
     obind (cleanup cfg g su a (nat (interrupted st)) st)
       (\<lambda>st'. let code = (if interrupted st \<noteq> 0 then 0x100 OR interrupted st else exit_code st')
              in Inr (if code > 0xff then Raise (code AND 0xff) ((code AND 0xff) + 128) else Exit code, st'))"

section \<open>What handling an event leaves alone\<close>

text \<open>The queue and the wait data of all processes but \<open>c\<close>.\<close>

definition same_queue :: "nat \<Rightarrow> strace \<Rightarrow> strace \<Rightarrow> bool" where
  "same_queue c st st' \<longleftrightarrow> pending_tcps st' = pending_tcps st \<and> extra_tcp st' = extra_tcp st
     \<and> wait_extra_data_idx st' = wait_extra_data_idx st \<and> tcb_wait_tab st' = tcb_wait_tab st
     \<and> length (tcbtab st') = length (tcbtab st)
     \<and> (\<forall>j. j \<noteq> c \<longrightarrow> wait_data_idx (tcbtab st' ! j) = wait_data_idx (tcbtab st ! j))"

lemma same_queue_refl [simp]: "same_queue c st st" by (simp add: same_queue_def)

lemma same_queue_trans: "same_queue c a b \<Longrightarrow> same_queue c b d \<Longrightarrow> same_queue c a d" by (simp add: same_queue_def)

lemma same_queue_pending: "same_queue c a b \<Longrightarrow> pending_tcps b = pending_tcps a" by (simp add: same_queue_def)

lemma wait_data_idx_upd:
  "(\<And>p. wait_data_idx (f p) = wait_data_idx p) \<Longrightarrow> wait_data_idx (tcbtab (upd_proc i f st) ! j) = wait_data_idx (tcbtab st ! j)"
  by (cases "i < length (tcbtab st)") (auto simp: upd_proc_def nth_list_update list_update_beyond)

lemma wait_data_idx_blk: "wait_data_idx (tcbtab (upd_blk i f st) ! j) = wait_data_idx (tcbtab st ! j)"
  by (simp add: upd_blk_def wait_data_idx_upd)

lemma same_queue_upd:
  "same_queue c st (upd_proc c f st)" "same_queue c st (upd_blk d h st)" "same_queue c st (upd_sess k st)"
  "same_queue c st (say m st)" "same_queue c st (store d s st)" "same_queue c st (snd (ask a r st))"
  "same_queue c st (st\<lparr>current_tcp := e\<rparr>)" "same_queue c st (st\<lparr>exit_code := x\<rparr>)" "same_queue c st (st\<lparr>nprocs := n\<rparr>)"
  "same_queue c st (st\<lparr>exit_code := x, strace_child := y\<rparr>)" "same_queue c st (st\<lparr>closed_logs := l\<rparr>)"
  by (simp_all add: same_queue_def wait_data_idx_blk store_def)

lemma same_queue_print: "print_proc d f st = Inr st' \<Longrightarrow> same_queue c st st'"
  using same_queue_upd(5) by (auto simp: print_proc_def on_proc_def split: if_splits)

lemma same_queue_current: "set_current_tcp cfg e st = Inr st' \<Longrightarrow> same_queue c st st'"
  using same_queue_trans [OF same_queue_upd(3) same_queue_upd(7)]
  by (auto simp: set_current_tcp_def obind_eq_Inr same_queue_upd(7) split: option.splits)

lemma same_queue_restart: "ptrace_restart a op d sig st = Inr (r, st') \<Longrightarrow> same_queue c st st'"
proof -
  let ?q = "snd (ask a (Ptrace op (pid (the_blk st d)) sig) st)"
  assume r: "ptrace_restart a op d sig st = Inr (r, st')"
  have "same_queue c ?q st'"
    using r same_queue_trans [OF same_queue_print same_queue_upd(4)] same_queue_upd(4)
    by (fastforce simp: ptrace_restart_def ask_def obind_eq_Inr split: if_splits option.splits)
  then show ?thesis by (rule same_queue_trans [OF same_queue_upd(6)])
qed

lemma same_queue_drop: "c \<notin> set (pending_tcps st) \<Longrightarrow> same_queue c st (droptcb cfg g su c st)"
  by (auto simp: same_queue_def droptcb_def Let_def)

lemma same_queue_swap: "same_queue i st (swap_output i j st)"
  by (simp add: same_queue_def swap_output_def Let_def wait_data_idx_upd)

lemma same_queue_supersede:
  assumes "supersede cfg g su p i j st = Inr st'" "i \<notin> set (pending_tcps st)"
  shows "same_queue i st st'"
proof -
  define s1 where "s1 = (if unfinished_line (the_blk st j)
                then upd_blk j (tprint [Out_note '' <pid changed ...>'', Out_newline]) st else st)"
  define s2 where "s2 = upd_sess (\<lambda>s. if printing_tcp s = Some (pid (the_blk st j)) then s\<lparr>printing_tcp := Some p\<rparr> else s)
      (upd_blk j (\<lambda>t. t\<lparr>pid := p\<rparr>) (droptcb cfg g su i (swap_output i j s1)))"
  have "same_queue i st s1" by (simp add: s1_def same_queue_upd)
  also have "same_queue i s1 (swap_output i j s1)" by (rule same_queue_swap)
  also (same_queue_trans) have "same_queue i (swap_output i j s1) (droptcb cfg g su i (swap_output i j s1))"
    using same_queue_pending [OF calculation] assms(2) by (simp add: same_queue_drop)
  also (same_queue_trans) have "same_queue i \<dots> s2"
    unfolding s2_def by (rule same_queue_trans [OF same_queue_upd(2) same_queue_upd(3)])
  also (same_queue_trans) have "same_queue i s2 st'"
  proof -
    note r1 = same_queue_upd(2) [of i _ j]
    note r2 = same_queue_trans [OF r1 r1]
    note r3 = same_queue_trans [OF same_queue_print r1] same_queue_trans [OF same_queue_print r2]
    show ?thesis
      using assms(1)
      by (auto simp: supersede_def Let_def obind_eq_Inr simp flip: s1_def s2_def split: if_splits intro: r1 r2 r3)
  qed
  finally (same_queue_trans) show ?thesis .
qed

lemma pid2tcb_frame: "pid2tcb p st = (r, st') \<Longrightarrow> \<exists>f. st' = st\<lparr>pid2tcb_cache := f\<rparr>"
  by (auto simp: pid2tcb_def Let_def split: option.splits if_splits) (metis strace.surjective strace.update_convs(6))+

lemma same_queue_cache: "pid2tcb p st = (r, st') \<Longrightarrow> same_queue c st st'"
  by (auto simp: same_queue_def dest!: pid2tcb_frame)

lemma same_queue_switch:
  assumes "maybe_switch_current_tcp cfg g su c st = Inr (r, st')" "c \<notin> set (pending_tcps st)"
  shows "same_queue c st st'"
proof -
  have "same_queue c st u" if "maybe_switch_tcbs cfg g su c p st = Inr (r, u)" for p r u
  proof -
    obtain j v where v: "pid2tcb (sint (ucast (msg (tcb_wait_tab st ! wait_data_idx (tcbtab st ! c))) :: u32)) st = (j, v)"
      by fastforce
    note q = same_queue_cache [OF v, of c]
    have "same_queue c v u" if "supersede cfg g su p c k v = Inr u" for k
      using same_queue_supersede [OF that] same_queue_pending [OF q] assms(2) by simp
    then show ?thesis
      using that v q by (auto simp: maybe_switch_tcbs_def Let_def obind_eq_Inr split: if_splits option.splits intro: same_queue_trans)
  qed
  then show ?thesis
    using assms(1) by (fastforce simp: maybe_switch_current_tcp_def obind_eq_Inr split: option.splits
        intro: same_queue_trans same_queue_current)
qed

lemma same_queue_finish: "finish_event a wd d op sig st = Inr (go, st') \<Longrightarrow> same_queue c st st'"
proof -
  have d: "same_queue c u (upd_proc d (\<lambda>p. p\<lparr>delayed_wait_data := x\<rparr>) u)" for u x
    by (simp add: same_queue_def wait_data_idx_upd)
  note d2 = same_queue_trans [OF same_queue_upd(4) d]
  assume "finish_event a wd d op sig st = Inr (go, st')"
  then show ?thesis
    by (auto simp: finish_event_def Let_def obind_eq_Inr split: if_splits
        intro: d d2 same_queue_restart same_queue_trans [OF same_queue_restart same_queue_upd(8)])
qed

lemma same_queue_handle: "handle_syscall cfg g su dc a d st = Inr (res, sig, st') \<Longrightarrow> same_queue c st st'"
  by (auto simp: handle_syscall_def obind_eq_Inr same_queue_upd)

lemma same_queue_syscall_stop:
  assumes "syscall_stop cfg g su dc a wd d op st = Inr (go, st')"
  shows "same_queue c st st'"
proof -
  from assms obtain res sig u where u: "handle_syscall cfg g su dc a d st = Inr (res, sig, u)"
    "u = st' \<or> (\<exists>op. finish_event a wd d op sig u = Inr (go, st'))"
    by (auto simp: syscall_stop_def obind_eq_Inr split: if_splits)
  note q = same_queue_handle [OF u(1), of c]
  from u(2) q same_queue_trans [OF q same_queue_finish] show ?thesis by blast
qed

lemma same_queue_execve_stop:
  assumes "execve_stop cfg g su dc a wd c op st = Inr (go, st')" "c \<notin> set (pending_tcps st)" "\<not> detach_on_execve su"
  shows "same_queue c st st'"
proof -
  let ?st = "upd_blk c (drop_flag TCB_CHECK_EXEC_SYSCALL) st"
  from assms(1) obtain r u where u: "maybe_switch_current_tcp cfg g su c ?st = Inr (r, u)"
    and rest: "same_queue c u st'"
  proof (clarsimp simp: execve_stop_def obind_eq_Inr Let_def, goal_cases)
    case (1 r u res sig v)
    note rec = same_queue_trans [OF same_queue_trans [OF same_queue_upd(4) same_queue_upd(2)] same_queue_handle]
    have "same_queue c u v"
      using 1(3) by (auto simp: obind_eq_Inr split: if_splits intro: same_queue_trans [OF rec same_queue_upd(2)])
    moreover have "same_queue c v st'"
      using 1(4) assms(3) by (auto split: if_splits intro: same_queue_finish)
    ultimately show ?case using 1(1,2) same_queue_trans by blast
  qed
  have "same_queue c ?st u" using same_queue_switch [OF u] assms(2) by simp
  then show ?thesis using same_queue_trans same_queue_upd(2) rest by blast
qed

lemma same_queue_prints:
  "print_stopped cfg g su d info sig st = Inr st' \<Longrightarrow> same_queue c st st'"
  "print_signalled cfg g su d p status st = Inr st' \<Longrightarrow> same_queue c st st'"
  "print_exited g su d p status st = Inr st' \<Longrightarrow> same_queue c st st'"
  "print_event_exit cfg g su d st = Inr st' \<Longrightarrow> same_queue c st st'"
proof -
  show "print_stopped cfg g su d info sig st = Inr st' \<Longrightarrow> same_queue c st st'"
    by (auto simp: print_stopped_def split: if_splits intro: same_queue_print)
  note pr = same_queue_trans [OF same_queue_upd(10) same_queue_print]
  show "print_signalled cfg g su d p status st = Inr st' \<Longrightarrow> same_queue c st st'"
    by (auto simp: print_signalled_def Let_def split: if_splits intro: pr same_queue_upd(10) same_queue_print)
  show "print_exited g su d p status st = Inr st' \<Longrightarrow> same_queue c st st'"
    by (auto simp: print_exited_def Let_def split: if_splits intro: pr same_queue_upd(10) same_queue_print)
  note cut = same_queue_trans [OF same_queue_trans [OF same_queue_current same_queue_print] same_queue_current]
  have "cut_other_line cfg su d st = Inr u \<Longrightarrow> same_queue c st u" for u
    by (auto simp: cut_other_line_def obind_eq_Inr split: option.splits if_splits intro: cut)
  then show "print_event_exit cfg g su d st = Inr st' \<Longrightarrow> same_queue c st st'"
    by (auto simp: print_event_exit_def Let_def obind_eq_Inr split: if_splits intro: same_queue_trans [OF _ same_queue_print])
qed

lemma same_queue_dispatch:
  assumes "dispatch_current cfg g su dc a wd c st = Inr (go, st')" "c \<notin> set (pending_tcps st)" "\<not> detach_on_execve su"
  shows "same_queue c st st'"
proof -
  have drop: "same_queue c st u \<Longrightarrow> same_queue c st (droptcb cfg g su c u)" for u
    using same_queue_drop [of c u cfg g su] same_queue_pending assms(2) same_queue_trans by metis
  note fin = same_queue_trans [OF _ same_queue_finish]
  show ?thesis
    using assms
    by (auto simp: dispatch_current_def Let_def obind_eq_Inr split: trace_event.splits if_splits
        intro: same_queue_finish same_queue_syscall_stop same_queue_execve_stop
          drop [OF same_queue_prints(2)] drop [OF same_queue_prints(3)]
          fin [OF same_queue_prints(1)] fin [OF same_queue_prints(4)] fin [OF same_queue_upd(2)])
qed

section \<open>The queue of events\<close>

lemma same_queue_startup:
  assumes "startup_tcb cfg g su a i st = Inr st'"
  shows "same_queue c st st'"
proof -
  let ?b = "upd_blk i (drop_flag TCB_STARTUP) st"
  obtain err s1 where s1: "(if use_seize su then (0, ?b) else ask a (Setoptions (pid (the_blk ?b i)) (ptrace_setoptions su)) ?b) = (err, s1)"
    by fastforce
  have "s1 = ?b \<or> (\<exists>r. s1 = snd (ask a r ?b))" using s1 by (auto simp: ask_def split: if_splits)
  then have 1: "same_queue c st s1"
    using same_queue_trans [OF same_queue_upd(2) same_queue_upd(6)] same_queue_upd(2) by blast
  have atime: "same_queue c u (upd_proc i (\<lambda>p. p\<lparr>atime := stime (blk p)\<rparr>) u)" for u
    by (simp add: same_queue_def wait_data_idx_upd)
  let ?x = "obind (on_tracer (get_scno cfg g (ptrace_get_syscall_info_supported (opts su)) (a_kernel a)) (load i s1))
     (\<lambda>(r, s). let st = store i s s1 in Inr (if r = 1 then upd_blk i (\<lambda>t. t\<lparr>s_prev_ent := s_ent t\<rparr>) st else st))"
  from assms s1 have "obind (if has (the_blk s1 i) TCB_GRABBED then ?x else Inr s1)
      (\<lambda>st. Inr (if cflag (opts su) \<noteq> CFLAG_NONE then upd_proc i (\<lambda>p. p\<lparr>atime := stime (blk p)\<rparr>) st else st)) = Inr st'"
    unfolding startup_tcb_def Let_def s1 prod.case by (metis sum.distinct(1))
  then obtain u where "(if has (the_blk s1 i) TCB_GRABBED then ?x else Inr s1) = Inr u"
    and st': "(if cflag (opts su) \<noteq> CFLAG_NONE then upd_proc i (\<lambda>p. p\<lparr>atime := stime (blk p)\<rparr>) u else u) = st'"
    unfolding obind_eq_Inr [of "if _ then _ else _"] by blast
  then have u: "u = s1 \<or> ?x = Inr u" "st' = u \<or> st' = upd_proc i (\<lambda>p. p\<lparr>atime := stime (blk p)\<rparr>) u"
    by (metis sum.inject(2))+
  have "same_queue c s1 u"
    using u(1) same_queue_upd(5) same_queue_trans [OF same_queue_upd(5) same_queue_upd(2)]
    by (auto simp: obind_eq_Inr Let_def)
  with 1 have "same_queue c st u" by (rule same_queue_trans)
  with u(2) atime same_queue_trans show ?thesis by blast
qed

lemma hand_out_queue:
  assumes "hand_out cfg g su a i st = Inr (wd, st')"
  shows "wd = Some (tcb_wait_tab st ! wait_data_idx (tcbtab st ! i))" "current_tcp st' = Some i" "same_queue c st st'"
proof -
  from assms obtain u v where u: "u = st \<or> startup_tcb cfg g su a i st = Inr u"
    and v: "set_current_tcp cfg (Some i) (upd_sess (upd_tracer clear_regs) u) = Inr v"
    and st': "st' = v" "wd = Some (tcb_wait_tab v ! wait_data_idx (tcbtab v ! i))"
    by (auto simp: hand_out_def obind_eq_Inr Let_def split: if_splits)
  have q: "same_queue c st v" for c
  proof -
    have "same_queue c st u" using u same_queue_startup same_queue_refl by blast
    with same_queue_trans [OF same_queue_upd(3) same_queue_current [OF v]] show ?thesis by (metis same_queue_trans)
  qed
  then show "same_queue c st st'" by (simp add: st'(1))
  show "wd = Some (tcb_wait_tab st ! wait_data_idx (tcbtab st ! i))"
    using q [of "Suc i"] by (simp add: st'(2) same_queue_def)
  show "current_tcp st' = Some i" using v by (auto simp: st'(1) set_current_tcp_def obind_eq_Inr)
qed

text \<open>The events that a number of rounds hand out, with the processes they are about.\<close>

fun handed ::
    "'d config \<Rightarrow> globals \<Rightarrow> run_setup \<Rightarrow> decoders \<Rightarrow> round list \<Rightarrow> strace \<Rightarrow> (nat option \<times> wait_data option) list" where
  "handed cfg g su dc [] st = []"
| "handed cfg g su dc (r # rs) st =
     (case next_event cfg g su dc r st of Inl e \<Rightarrow> []
      | Inr (wd, st) \<Rightarrow> (current_tcp st, wd) #
          (case dispatch_event cfg g su dc (ans r) wd st of Inl e \<Rightarrow> []
           | Inr (go, st) \<Rightarrow> if go then handed cfg g su dc rs st else []))"

definition queued :: "strace \<Rightarrow> (nat option \<times> wait_data option) list" where
  "queued st = map (\<lambda>i. (Some i, Some (tcb_wait_tab st ! wait_data_idx (tcbtab st ! i)))) (pending_tcps st)"

lemma same_queue_queued:
  "same_queue c st st' \<Longrightarrow> c \<notin> set (pending_tcps st) \<Longrightarrow> queued st' = queued st"
  by (auto simp: same_queue_def queued_def)

lemma round_of_queue:
  assumes "pending_tcps st = i # is" "distinct (pending_tcps st)" "\<not> detach_on_execve su"
    and "main_round cfg g su dc r st = Inr (True, st')"
  shows "\<exists>v. next_event cfg g su dc r st = Inr (snd (hd (queued st)), v) \<and> current_tcp v = Some i
      \<and> dispatch_event cfg g su dc (ans r) (snd (hd (queued st))) v = Inr (True, st')
      \<and> queued st' = tl (queued st) \<and> pending_tcps st' = is
      \<and> tcb_wait_tab st' = tcb_wait_tab st \<and> extra_tcp st' = extra_tcp st"
proof -
  let ?u = "st\<lparr>umove := invalidate_umove_cache (umove st), pending_tcps := is\<rparr>"
  from assms(4) obtain wd v where v: "next_event cfg g su dc r st = Inr (wd, v)"
    "dispatch_event cfg g su dc (ans r) wd v = Inr (True, st')"
    by (auto simp: main_round_def obind_eq_Inr)
  have ni: "interrupted st = 0" "syscall_limit (sess st) \<noteq> 0"
    using v by (auto simp: next_event_def dispatch_event_def split: if_splits)
  have h: "hand_out cfg g su (ans r) i ?u = Inr (wd, v)"
    using v(1) ni assms(1) by (simp add: next_event_def next_pending_def)
  have wd: "wd = snd (hd (queued st))" using hand_out_queue(1) [OF h] by (simp add: queued_def assms(1))
  have nin: "i \<notin> set is" using assms(1,2) by simp
  have qv: "same_queue i ?u v" "current_tcp v = Some i" using hand_out_queue [OF h] by blast+
  have "same_queue i v st'"
    using v(2) qv(2) same_queue_dispatch [OF _ _ assms(3)] same_queue_pending [OF qv(1)] nin
    by (auto simp: dispatch_event_def split: option.splits if_splits)
  with qv(1) have q: "same_queue i ?u st'" by (rule same_queue_trans)
  have "queued st' = tl (queued st)" using same_queue_queued [OF q] nin by (simp add: queued_def assms(1))
  with v wd qv(2) q show ?thesis by (auto simp: same_queue_def)
qed

lemma round_needs_no_wait:
  "pending_tcps st \<noteq> [] \<Longrightarrow> main_round cfg g su dc (r\<lparr>tick := t, waits := w\<rparr>) st = main_round cfg g su dc r st"
  by (simp add: main_round_def next_event_def next_pending_def)


text \<open>Two processes, each in a stop in which it is only to be restarted.\<close>

definition sample_proc :: "int \<Rightarrow> nat \<Rightarrow> proc" where
  "sample_proc p k = (zero_proc sample_build)\<lparr>blk := (zero_tcb sample_build)\<lparr>pid := p, tcb_flags := TCB_ATTACHED\<rparr>,
     has_outf := True, wait_data_idx := k\<rparr>"

definition stop_of :: "trace_event \<Rightarrow> wait_data" where
  "stop_of e = init_trace_wait_data\<lparr>te := e, wd_status := 0x80057f\<rparr>"

definition sample_strace :: strace where
  "sample_strace = \<lparr>tcbtab = [sample_proc 100 0, sample_proc 101 1], nprocs = 2, current_tcp = None, sess = sample_session,
     umove = initial_ucopy, pid2tcb_cache = (\<lambda>_. None), pending_tcps = [0, 1], extra_tcp = None, wait_extra_data_idx = 0,
     tcb_wait_tab = [stop_of TE_RESTART, stop_of TE_RESTART], strace_child = 100, popen_pid = 0, exit_code = 0,
     interrupted = 0, restart_failed = False, requests = [], closed_logs = []\<rparr>"

definition sample_setup :: run_setup where
  "sample_setup = \<lparr>opts = sample_options, followfork = True, post_attach_sigstop = 0, detach_on_execve = False,
     syscall_trap_sig = 0x85, seccomp_before_sysentry = False, ptrace_setoptions = 0\<rparr>"

definition sample_round :: round where
  "sample_round = \<lparr>tick = None, waits = [], ans = \<lparr>reply = (\<lambda>_. 0), detach_waits = (\<lambda>_. []),
     a_kernel = Syscall_Regs.sample_kernel, a_clock = sample_clock\<rparr>\<rparr>"

lemmas sample_event_defs = sample_strace_def sample_proc_def stop_of_def sample_setup_def sample_round_def
  zero_proc_def zero_tcb_def init_trace_wait_data_def

lemma sample_rounds:
  "\<exists>st'. main_loop sample_build (initial_globals sample_build) sample_setup sample_decoders [sample_round, sample_round] sample_strace
     = Inr (True, st')"
  by (simp add: main_round_def next_event_def next_pending_def hand_out_def dispatch_event_def dispatch_current_def
      finish_event_def ptrace_restart_def ask_def set_current_tcp_def set_personality_def default_op_def
      has_seccomp_filter_def syscall_delayed_def has_def tcb_flag_defs strace_defs session_defs
      sample_event_defs sample_session_def sample_tampering_def sample_tracer_def clear_regs_def)


end
