(* ===== verification/Event_Delay.thy ===== *)
theory Event_Delay
  imports Event_Loop
begin

text \<open>
  Processes that an injection delays (\<^verbatim>\<open>strace.c\<close>, \<^verbatim>\<open>delay.c\<close>): the handler of the delay timer
  restarts those whose time has come and sets the timer for the next one.  What happens to the
  signal of an injection that both delays a system call and sends a signal.
\<close>

section \<open>Restarting one process\<close>

definition expired :: "answers \<Rightarrow> strace \<Rightarrow> nat \<Rightarrow> bool" where
  "expired a st i \<longleftrightarrow> pid (the_blk st i) \<noteq> 0 \<and> syscall_delayed (the_blk st i)
     \<and> ts_cmp (c_now (a_clock a)) (delay_expiration_time (the_blk st i)) > 0"

definition waiting :: "answers \<Rightarrow> strace \<Rightarrow> nat \<Rightarrow> bool" where
  "waiting a st i \<longleftrightarrow> pid (the_blk st i) \<noteq> 0 \<and> syscall_delayed (the_blk st i)
     \<and> \<not> ts_cmp (c_now (a_clock a)) (delay_expiration_time (the_blk st i)) > 0"

text \<open>The kernel accepts every request, or the process is gone.\<close>

definition accepts :: "answers \<Rightarrow> bool" where
  "accepts a \<longleftrightarrow> (\<forall>r. reply a r = 0 \<or> reply a r = ESRCH)"

text \<open>What a restart leaves alone.\<close>

definition same_control :: "strace \<Rightarrow> strace \<Rightarrow> bool" where
  "same_control st st' \<longleftrightarrow> length (tcbtab st') = length (tcbtab st) \<and> interrupted st' = interrupted st
     \<and> current_tcp st' = current_tcp st \<and> cur_pers (sess st') = cur_pers (sess st)
     \<and> delay_timer_is_armed (tam (sess st')) = delay_timer_is_armed (tam (sess st))
     \<and> delay_timer_value (tam (sess st')) = delay_timer_value (tam (sess st))"

lemma same_control_refl [simp]: "same_control st st" by (simp add: same_control_def)

lemma same_control_trans: "same_control a b \<Longrightarrow> same_control b c \<Longrightarrow> same_control a c" by (simp add: same_control_def)

definition restart_request :: "'d config \<Rightarrow> globals \<Rightarrow> strace \<Rightarrow> nat \<Rightarrow> request" where
  "restart_request cfg g st i = Ptrace (default_op cfg g i st) (pid (the_blk st i)) 0"

lemma ptrace_restart_accepted:
  "accepts a \<Longrightarrow> ptrace_restart a op i sig st = Inr (0, snd (ask a (Ptrace op (pid (the_blk st i)) sig) st))"
  by (auto simp: accepts_def ptrace_restart_def ask_def)

lemma undelayed [simp]:
  "\<not> syscall_delayed (drop_flag TCB_DELAYED t)" "has_seccomp_filter (drop_flag TCB_DELAYED t) = has_seccomp_filter t"
  "exiting (drop_flag TCB_DELAYED t) = exiting t"
  by (simp_all add: syscall_delayed_def has_seccomp_filter_def exiting_def has_drop tcb_flag_defs)

lemma drop_flag_members [simp]:
  "pid (drop_flag f t) = pid t" "scno (drop_flag f t) = scno t" "delay_expiration_time (drop_flag f t) = delay_expiration_time t"
  by (simp_all add: drop_flag_def)

lemma restart_delayed_tcb_ok:
  assumes "accepts a" "interrupted st = 0" "i < length (tcbtab st)"
  shows "\<exists>st'. restart_delayed_tcb cfg g su dc a i st = Inr (True, st')
    \<and> requests st' = requests st @ [restart_request cfg g st i] \<and> same_control st st'
    \<and> (\<forall>j. the_blk st' j = (if j = i then drop_flag TCB_DELAYED (the_blk st i) else the_blk st j))"
proof -
  obtain wd u where u: "(case delayed_wait_data (tcbtab st ! i) of Some wd \<Rightarrow> (wd, st)
      | None \<Rightarrow> (init_trace_wait_data, say ''No delayed wait data found'' st)) = (wd, u)" by fastforce
  have u2: "tcbtab u = tcbtab st" "requests u = requests st" "same_control st u"
    using u by (auto simp: same_control_def say_def session_defs error_msg_def upd_sess_def split: option.splits)
  define v where "v = (upd_blk i (drop_flag TCB_DELAYED) u)\<lparr>current_tcp := Some i\<rparr>"
  define w where "w = snd (ask a (Ptrace (default_op cfg g i v) (pid (the_blk v i)) 0) v)"
  have blk: "the_blk v j = (if j = i then drop_flag TCB_DELAYED (the_blk st i) else the_blk st j)" for j
    using the_upd_blk [of i u "drop_flag TCB_DELAYED" j] assms(3) u2(1) by (simp add: v_def the_blk_def)
  have v: "interrupted v = 0" "\<not> syscall_delayed (the_blk v i)" "current_tcp v = Some i"
    using assms(2) u2(3) by (simp_all add: blk, simp_all add: v_def same_control_def)
  have op: "default_op cfg g i v = default_op cfg g i st" "pid (the_blk v i) = pid (the_blk st i)"
    using u2(3) by (simp_all add: default_op_def blk, simp_all add: v_def same_control_def)
  have "dispatch_event cfg g su dc a (Some (wd\<lparr>te := TE_RESTART\<rparr>)) v = Inr (True, w)"
    using v ptrace_restart_accepted [OF assms(1), of _ i _ v]
    by (simp add: dispatch_event_def dispatch_current_def finish_event_def w_def)
  then have "restart_delayed_tcb cfg g su dc a i st
      = Inr (True, upd_proc i (\<lambda>p. p\<lparr>delayed_wait_data := None\<rparr>) (w\<lparr>current_tcp := current_tcp u\<rparr>))" (is "_ = Inr (True, ?s)")
    by (simp add: restart_delayed_tcb_def u v_def)
  moreover have "requests ?s = requests st @ [restart_request cfg g st i]"
    by (simp add: w_def op restart_request_def) (simp add: v_def u2)
  moreover have "same_control st ?s"
    using u2(3) by (simp add: same_control_def w_def v_def)
  moreover have "the_blk ?s j = the_blk v j" for j
    by (cases "i < length (tcbtab w)") (auto simp: the_blk_def w_def upd_proc_def list_update_beyond nth_list_update)
  ultimately show ?thesis using blk by auto
qed

section \<open>The timer handler\<close>

lemma ts_cmp_trans: "ts_cmp a b \<le> 0 \<Longrightarrow> ts_cmp b c \<le> 0 \<Longrightarrow> ts_cmp a c \<le> 0"
  by (auto simp: ts_cmp_def split: if_splits)

lemma ts_cmp_total: "ts_cmp a b > 0 \<Longrightarrow> ts_cmp b a \<le> 0"
  by (auto simp: ts_cmp_def split: if_splits)

text \<open>The candidate for the next timer is the earliest of those seen so far.\<close>

definition earliest :: "strace \<Rightarrow> nat set \<Rightarrow> nat option \<Rightarrow> bool" where
  "earliest st S n \<longleftrightarrow> (case n of None \<Rightarrow> S = {}
     | Some n \<Rightarrow> n \<in> S \<and> (\<forall>i \<in> S. ts_cmp (delay_expiration_time (the_blk st n)) (delay_expiration_time (the_blk st i)) \<le> 0))"

lemma earliest_insert:
  assumes "earliest st S n"
  shows "earliest st (insert i S) (case n of None \<Rightarrow> Some i
    | Some n \<Rightarrow> if ts_cmp (delay_expiration_time (the_blk st n)) (delay_expiration_time (the_blk st i)) > 0 then Some i else Some n)"
proof (cases n)
  case (Some m)
  let ?x = "\<lambda>i. delay_expiration_time (the_blk st i)"
  have m: "m \<in> S" "\<And>j. j \<in> S \<Longrightarrow> ts_cmp (?x m) (?x j) \<le> 0" using assms Some by (auto simp: earliest_def)
  show ?thesis
  proof (cases "ts_cmp (?x m) (?x i) > 0")
    case True
    then have "ts_cmp (?x i) (?x j) \<le> 0" if "j \<in> S" for j using ts_cmp_trans [OF ts_cmp_total] m(2) that by blast
    moreover have "ts_cmp (?x i) (?x i) \<le> 0" by (simp add: ts_cmp_def)
    ultimately show ?thesis using True Some by (simp add: earliest_def)
  next
    case False
    then show ?thesis using Some m by (simp add: earliest_def)
  qed
qed (use assms in \<open>simp add: earliest_def ts_cmp_def\<close>)

lemma restart_loop_ok:
  assumes "accepts a" "interrupted st = 0" "distinct is" "\<forall>i \<in> set is. i < length (tcbtab st)"
    and "earliest st S n" "S \<inter> set is = {}"
  shows "\<exists>n' st'. restart_loop cfg g su dc a is n st = Inr (True, n', st')
    \<and> requests st' = requests st @ map (restart_request cfg g st) (filter (expired a st) is) \<and> same_control st st'
    \<and> (\<forall>j. the_blk st' j = (if j \<in> set is \<and> expired a st j then drop_flag TCB_DELAYED (the_blk st j) else the_blk st j))
    \<and> earliest st (S \<union> {i \<in> set is. waiting a st i}) n'"
  using assms(2-6)
proof (induction "is" arbitrary: st n S)
  case Nil then show ?case by simp
next
  case (Cons i "is")
  show ?case
  proof (cases "expired a st i")
    case True
    from Cons.prems(3) have i: "i < length (tcbtab st)" by simp
    obtain u where u: "restart_delayed_tcb cfg g su dc a i st = Inr (True, u)"
      "requests u = requests st @ [restart_request cfg g st i]" "same_control st u"
      "\<And>j. the_blk u j = (if j = i then drop_flag TCB_DELAYED (the_blk st i) else the_blk st j)"
      using restart_delayed_tcb_ok [OF assms(1) Cons.prems(1) i] by blast
    have rest: "the_blk u j = the_blk st j" if "j \<noteq> i" for j using u(4) that by simp
    have nth: "i \<notin> set is" "i \<notin> S" using Cons.prems(2,5) by auto
    have same: "expired a u j = expired a st j" "waiting a u j = waiting a st j"
        "restart_request cfg g u j = restart_request cfg g st j" if "j \<in> set is" for j
    proof -
      have "the_blk u j = the_blk st j" using rest nth(1) that by metis
      then show "expired a u j = expired a st j" "waiting a u j = waiting a st j"
          "restart_request cfg g u j = restart_request cfg g st j"
        using u(3) by (simp_all add: expired_def waiting_def restart_request_def default_op_def same_control_def)
    qed
    have "delay_expiration_time (the_blk u j) = delay_expiration_time (the_blk st j)" for j using u(4) by simp
    then have early: "earliest u T m = earliest st T m" for T m by (cases m) (simp_all add: earliest_def)
    have pre: "interrupted u = 0" "distinct is" "\<forall>j \<in> set is. j < length (tcbtab u)" "earliest u S n" "S \<inter> set is = {}"
      using Cons.prems u(3) early by (auto simp: same_control_def)
    from Cons.IH [OF pre] obtain n' v where v: "restart_loop cfg g su dc a is n u = Inr (True, n', v)"
      "requests v = requests u @ map (restart_request cfg g u) (filter (expired a u) is)" "same_control u v"
      "\<And>j. the_blk v j = (if j \<in> set is \<and> expired a u j then drop_flag TCB_DELAYED (the_blk u j) else the_blk u j)"
      "earliest u (S \<union> {j \<in> set is. waiting a u j}) n'" by blast
    have "filter (expired a u) is = filter (expired a st) is" by (rule filter_cong) (simp_all add: same)
    then have "requests v = requests st @ map (restart_request cfg g st) (filter (expired a st) (i # is))"
      using v(2) u(2) True same(3) by simp
    moreover have "the_blk v j = (if j \<in> set (i # is) \<and> expired a st j then drop_flag TCB_DELAYED (the_blk st j) else the_blk st j)" for j
      using v(4) u(4) same(1) nth(1) True by auto
    moreover have "{j \<in> set (i # is). waiting a st j} = {j \<in> set is. waiting a u j}"
      using same(2) True by (auto simp: expired_def waiting_def)
    moreover have "restart_loop cfg g su dc a (i # is) n st = Inr (True, n', v)"
      using True u(1) v(1) by (simp add: Let_def expired_def)
    moreover have "same_control st v" using u(3) v(3) by (rule same_control_trans)
    ultimately show ?thesis using v(5) early by auto
  next
    case False
    let ?n = "if waiting a st i then case n of None \<Rightarrow> Some i
      | Some n \<Rightarrow> if ts_cmp (delay_expiration_time (the_blk st n)) (delay_expiration_time (the_blk st i)) > 0 then Some i else Some n
      else n"
    let ?S = "if waiting a st i then insert i S else S"
    have step: "restart_loop cfg g su dc a (i # is) n st = restart_loop cfg g su dc a is ?n st"
      using False by (auto simp: expired_def waiting_def Let_def)
    have "earliest st ?S ?n" using earliest_insert [OF Cons.prems(4)] Cons.prems(4) by simp
    moreover have "?S \<inter> set is = {}" using Cons.prems(2,5) by auto
    moreover have "?S \<union> {j \<in> set is. waiting a st j} = S \<union> {j \<in> set (i # is). waiting a st j}" by auto
    ultimately show ?thesis
      using Cons.IH [of st ?S ?n] Cons.prems(1-3) False unfolding step by auto
  qed
qed

text \<open>
  C15: When the delay timer expires, the handler restarts exactly the processes whose delay is over,
  each once and with no signal, in the order of the table, and takes their mark away; all others
  are left alone.  If processes are still delayed, the timer is armed again for the one whose delay
  ends first, so that none of them is forgotten.
\<close>

theorem delayed_restarted:
  assumes "accepts a" "interrupted st = 0" "c_timer_settime_ok (a_clock a)"
  shows "\<exists>st'. restart_delayed_tcbs cfg g su dc a st = Inr (True, st')
    \<and> requests st' = requests st @ map (restart_request cfg g st) (filter (expired a st) [0..<length (tcbtab st)])
    \<and> (\<forall>i < length (tcbtab st). the_blk st' i = (if expired a st i then drop_flag TCB_DELAYED (the_blk st i) else the_blk st i))
    \<and> ((\<exists>i < length (tcbtab st). waiting a st i) \<longrightarrow> delay_timer_is_armed (tam (sess st'))
        \<and> (\<exists>n < length (tcbtab st). waiting a st n \<and> delay_timer_value (tam (sess st')) = delay_expiration_time (the_blk st n)
            \<and> (\<forall>i < length (tcbtab st). waiting a st i \<longrightarrow>
                 ts_cmp (delay_expiration_time (the_blk st n)) (delay_expiration_time (the_blk st i)) \<le> 0)))"
proof -
  let ?is = "[0..<length (tcbtab st)]"
  have "earliest st {} None" by (simp add: earliest_def)
  from restart_loop_ok [OF assms(1,2) _ _ this, of ?is cfg g su dc] obtain n' u where
    u: "restart_loop cfg g su dc a ?is None st = Inr (True, n', u)"
      "requests u = requests st @ map (restart_request cfg g st) (filter (expired a st) ?is)" "same_control st u"
      "\<And>j. the_blk u j = (if j \<in> set ?is \<and> expired a st j then drop_flag TCB_DELAYED (the_blk st j) else the_blk st j)"
      "earliest st {i \<in> set ?is. waiting a st i} n'" by auto
  show ?thesis
  proof (cases n')
    case None
    then have "\<not> waiting a st i" if "i < length (tcbtab st)" for i using u(5) that by (simp add: earliest_def)
    with None u(1,2,4) show ?thesis by (auto simp: restart_delayed_tcbs_def)
  next
    case (Some m)
    then have m: "m < length (tcbtab st)" "waiting a st m"
      "\<And>i. i < length (tcbtab st) \<Longrightarrow> waiting a st i \<Longrightarrow>
         ts_cmp (delay_expiration_time (the_blk st m)) (delay_expiration_time (the_blk st i)) \<le> 0"
      using u(5) by (auto simp: earliest_def)
    have x: "delay_expiration_time (the_blk u m) = delay_expiration_time (the_blk st m)" using u(4) by simp
    show ?thesis
      using u(1,2,4) m Some assms(3) x
      by (auto simp: restart_delayed_tcbs_def arm_delay_timer_def)
  qed
qed

text \<open>A process whose delay is over next to one that has to wait.\<close>

definition delayed_proc :: "int \<Rightarrow> int \<Rightarrow> proc" where
  "delayed_proc p t = (sample_proc p 0)\<lparr>blk := (zero_tcb sample_build)\<lparr>pid := p, tcb_flags := TCB_ATTACHED OR TCB_DELAYED,
     delay_expiration_time := \<lparr>tv_sec = t, tv_nsec = 0\<rparr>\<rparr>, delayed_wait_data := Some (stop_of TE_SYSCALL_STOP)\<rparr>"

definition late_answers :: answers where
  "late_answers = (ans sample_round)\<lparr>a_clock := sample_clock\<lparr>c_now := \<lparr>tv_sec = 50, tv_nsec = 0\<rparr>\<rparr>\<rparr>"

theorem delayed_restarted_witness:
  "\<exists>st'. restart_delayed_tcbs sample_build (initial_globals sample_build) sample_setup sample_decoders late_answers
       (sample_strace\<lparr>tcbtab := [delayed_proc 100 40, delayed_proc 101 60]\<rparr>) = Inr (True, st')
     \<and> requests st' = [Ptrace (Restart PTRACE_SYSCALL) 100 0] \<and> delay_timer_is_armed (tam (sess st'))"
proof -
  let ?st = "sample_strace\<lparr>tcbtab := [delayed_proc 100 40, delayed_proc 101 60]\<rparr>"
  have pre: "accepts late_answers" "interrupted ?st = 0" "c_timer_settime_ok (a_clock late_answers)"
    by (simp_all add: accepts_def late_answers_def sample_round_def sample_strace_def sample_clock_def)
  have "expired late_answers ?st 0" "\<not> expired late_answers ?st 1" "waiting late_answers ?st 1"
    by (simp_all add: expired_def waiting_def the_blk_def delayed_proc_def late_answers_def syscall_delayed_def has_def
        tcb_flag_defs ts_cmp_def sample_proc_def)
  moreover have "restart_request sample_build (initial_globals sample_build) ?st 0 = Ptrace (Restart PTRACE_SYSCALL) 100 0"
    by (simp add: restart_request_def default_op_def the_blk_def delayed_proc_def sample_proc_def has_seccomp_filter_def has_def
        tcb_flag_defs)
  moreover have "[0..<length (tcbtab ?st)] = [0, 1]" "length (tcbtab ?st) = 2" "requests ?st = []"
    by (simp_all add: upt_rec sample_strace_def)
  ultimately show ?thesis
    using delayed_restarted [OF pre, of sample_build "initial_globals sample_build" sample_setup sample_decoders] by fastforce
qed

section \<open>A signal that gets lost\<close>

text \<open>
  C36: An injection that both sends a signal and delays the system call does not send the signal.
  The signal that \<open>trace_syscall\<close> returns is not among the data that \<open>dispatch_event\<close> keeps for a
  delayed process, and when the delay is over the process is restarted as for \<open>TE_RESTART\<close>, with
  signal 0.
\<close>

theorem delay_loses_signal:
  assumes "handle_syscall cfg g su dc a c st = Inr (res, sig, u)" "0 \<le> res" "syscall_delayed (the_blk u c)"
    and "c < length (tcbtab st)" "current_tcp st = Some c" "interrupted st = 0" "te wd = TE_SYSCALL_STOP" "accepts b"
  shows "\<exists>st2 st3 op. dispatch_event cfg g su dc a (Some wd) st = Inr (True, st2) \<and> requests st2 = requests st
    \<and> restart_delayed_tcb cfg g su dc b c st2 = Inr (True, st3)
    \<and> requests st3 = requests st @ [Ptrace op (pid (the_blk u c)) 0]"
proof -
  obtain s where u: "u = store c s st" using assms(1) by (auto simp: handle_syscall_def obind_eq_Inr)
  let ?v = "if delayed_wait_data (tcbtab u ! c) \<noteq> None then say ''delayed wait data set already'' u else u"
  let ?w = "upd_proc c (\<lambda>p. p\<lparr>delayed_wait_data := Some wd\<rparr>) ?v"
  have "dispatch_event cfg g su dc a (Some wd) st = Inr (True, ?w)"
    using assms(1-3,5-7)
    by (simp add: dispatch_event_def dispatch_current_def syscall_stop_def finish_event_def Let_def u)
  moreover have w: "interrupted ?w = 0" "c < length (tcbtab ?w)" "requests ?w = requests st"
    using assms(4,6) by (simp_all add: u)
  moreover have "the_blk ?w c = the_blk u c" using assms(4) by (simp add: the_blk_def nth_upd_proc u)
  ultimately show ?thesis
    using restart_delayed_tcb_ok [OF assms(8) w(1,2), of cfg g su dc] unfolding restart_request_def by fastforce
qed

text \<open>An injection into \<open>getpid\<close> that sends signal 9 and delays the call, and the call.\<close>

definition both_injected :: globals where
  "both_injected = (initial_globals sample_build)
     \<lparr>trace_set := Some (replicate 3 \<lparr>vec = [], nslots = 0, not = True\<rparr>),
      inject_set := Some (replicate 3 \<lparr>vec = [], nslots = 0, not = True\<rparr>),
      inject_vec := [Some [zero_opts, zero_opts, zero_opts, \<lparr>inj_first = 1, inj_last = INJECT_LAST_INF, inj_step = 1,
         inj_data = zero_data\<lparr>inj_flags := INJECT_F_SIGNAL OR INJECT_F_DELAY_ENTER, inj_signo := 9, delay_idx := 0\<rparr>\<rparr>], None, None],
      g_tables := \<lparr>retvals = empty_arena, delays = \<lparr>avec = [\<lparr>ts_enter = \<lparr>tv_sec = 1, tv_nsec = 0\<rparr>, ts_exit = \<lparr>tv_sec = 0, tv_nsec = 0\<rparr>\<rparr>], asize = 1\<rparr>,
                   pokes = empty_arena\<rparr>\<rparr>"

lemma build_facts:
  "qual_flags both_injected 0 3 = QUAL_TRACE OR QUAL_INJECT" "nsyscall_vec sample_build 0 = 4"
  "sysent_vec sample_build ! 0 ! 3 = sample_entry ''getpid'' TRACE_PURE" "SUPPORTED_PERSONALITIES sample_build = 3"
  "shuffle_scno_pers sample_build n p = n" "scno_pers_is_valid sample_build 3 0" "scno_in_range sample_build 0 3"
  by (simp_all add: qual_flags_def both_injected_def is_number_in_set_array_def BITS_PER_SLOT_def initial_globals_def
   nsyscall_vec_def sample_build_def sample_config_def SUPPORTED_PERSONALITIES_def scno_pers_is_valid_def scno_in_range_def sample_entry_def
   scno_pers_in_range_def TRACE_PURE_def TRACE_INDIRECT_SUBCALL_def)

definition entered :: session where
  "entered = upd_cur (\<lambda>t. t\<lparr>qual_flg := QUAL_TRACE OR QUAL_INJECT, scno := 3, true_scno := 3, u_arg := [1, 2, 3, 4, 5, 6],
     s_ent := Some (sample_entry ''getpid'' TRACE_PURE)\<rparr>) (upd_tracer (\<lambda>u. u\<lparr>ptrace_sci := sample_sci\<rparr>) (load 0 sample_strace))"

lemma sample_decode: "syscall_entering_decode sample_build both_injected sample_options sample_decoders Syscall_Regs.sample_kernel (load 0 sample_strace)
    = Inr (1, entered)"
  by (simp add: entered_def syscall_entering_decode_def on_tracer_def get_scno_def get_syscall_regs_def strace_get_syscall_info_def
     Syscall_Regs.sample_kernel_def session_defs strace_defs sample_event_defs sample_session_def sample_tampering_def sample_tracer_def
     sample_options_def clear_regs_def sample_sci_def ptrace_syscall_info_is_valid_def update_personality_def set_personality_def
     get_personality_from_syscall_info_def PTRACE_SYSCALL_INFO_ENTRY_def PTRACE_SYSCALL_INFO_EXIT_def Let_def AUDIT_ARCH_I386_def X32_SYSCALL_BIT_def
        PTRACE_SYSCALL_INFO_SECCOMP_def select_sysent_def get_syscall_args_def decode_subcall_def tcp_sysent_def entering_def has_def tcb_flag_defs
        build_facts sample_entry_def shuffle_scno_def recovering_def MAX_ARGS_def TRACE_PURE_def COMPAT_SYSCALL_TYPES_def)

lemma sample_tamper: "\<exists>w. tamper_with_syscall_entering sample_build both_injected Syscall_Regs.sample_kernel sample_clock 0 
    (tam (upd_cur (drop_flag TCB_FILTERED) (upd_cur hidden_log_step entered))) = Inr (9, w) \<and> syscall_delayed (the_tcb w) \<and> \<not> raw (the_tcb w) \<and> pid (the_tcb w) = 100"
  by (simp add: entered_def hidden_log_step_def Let_def hide_log_def check_exec_syscall_def tamper_with_syscall_entering_def count_invocation_def copy_inject_vec_def tcb_inject_opts_def put_inject_opts_def
     opts_step_def both_injected_def apply_injection_def when_flag_def has_inj_def inject_flag_defs delay_tcb_def arm_delay_timer_def sample_clock_def
     is_delay_timer_created_def initial_globals_def zero_data_def INJECT_LAST_INF_def  recovering_def
     session_defs strace_defs sample_event_defs sample_session_def sample_tampering_def sample_tracer_def clear_regs_def has_def tcb_flag_defs
     drop_flag_def raise_flag_def syscall_delayed_def build_facts raw_def QUAL_TRACE_def QUAL_INJECT_def QUAL_RAW_def)

lemma sample_stop: "\<exists>s. trace_syscall sample_build both_injected sample_options sample_decoders Syscall_Regs.sample_kernel sample_clock 0 (load 0 sample_strace)
    = Inr (64, 9, s) \<and> syscall_delayed (cur_tcb s) \<and> pid (cur_tcb s) = 100"
proof -
  let ?s = "upd_cur (drop_flag TCB_FILTERED) (upd_cur hidden_log_step entered)"
  obtain w where w: "tamper_with_syscall_entering sample_build both_injected Syscall_Regs.sample_kernel sample_clock 0 (tam ?s) = Inr (9, w)"
    "syscall_delayed (the_tcb w)" "\<not> raw (the_tcb w)" "pid (the_tcb w) = 100" using sample_tamper by blast
  have h: "\<not> hide_log (cur_tcb (upd_cur hidden_log_step entered))" "traced (cur_tcb (upd_cur hidden_log_step entered))" "inject (cur_tcb ?s)"
    by (simp_all add: entered_def hidden_log_step_def Let_def hide_log_def check_exec_syscall_def traced_def inject_def session_defs strace_defs
       sample_event_defs has_def tcb_flag_defs drop_flag_def QUAL_TRACE_def QUAL_INJECT_def sample_session_def sample_tampering_def sample_tracer_def clear_regs_def)
  have e: "entering (the_blk sample_strace 0)"
    by (simp add: sample_event_defs the_blk_def entering_def has_def tcb_flag_defs)
  have f: "\<not> tracing_fds both_injected" "\<not> tracing_paths sample_options" "cflag sample_options = CFLAG_NONE" "\<not> Tflag sample_options"
      "sys_func_of sample_decoders d t = (64, None, [Out_args])" for d t
    by (simp_all add: both_injected_def initial_globals_def sample_options_def sample_decoders_def RVAL_DECODED_def)
  show ?thesis
    using w
    by (simp add: trace_syscall_def e sample_decode syscall_entering_trace_def h f Let_def print_call_def)
      (simp add: f strace_open_memstream_def syscall_entering_finish_def session_defs tprint_def syscall_delayed_def RVAL_DECODED_def raw_def Let_def
       has_def raise_flag_def bit.conj_disj_distrib2 or_eq_0_iff)
qed

theorem delay_loses_signal_witness:
  "\<exists>st2 st3 op. dispatch_event sample_build both_injected sample_setup sample_decoders (ans sample_round)
       (Some (stop_of TE_SYSCALL_STOP)) (sample_strace\<lparr>current_tcp := Some 0\<rparr>) = Inr (True, st2) \<and> requests st2 = []
     \<and> restart_delayed_tcb sample_build both_injected sample_setup sample_decoders late_answers 0 st2 = Inr (True, st3)
     \<and> requests st3 = [Ptrace op 100 0]"
proof -
  let ?st = "sample_strace\<lparr>current_tcp := Some 0\<rparr>"
  obtain s where s: "trace_syscall sample_build both_injected sample_options sample_decoders Syscall_Regs.sample_kernel sample_clock 0
      (load 0 sample_strace) = Inr (64, 9, s)" "syscall_delayed (cur_tcb s)" "pid (cur_tcb s) = 100" using sample_stop by blast
  have "load 0 ?st = load 0 sample_strace" by (simp add: load_def the_blk_def)
  then have h: "handle_syscall sample_build both_injected sample_setup sample_decoders (ans sample_round) 0 ?st = Inr (64, 9, store 0 s ?st)"
    using s(1) by (simp add: handle_syscall_def sample_setup_def sample_round_def)
  have st: "0 < length (tcbtab ?st)" "interrupted ?st = 0" "requests ?st = []" by (simp_all add: sample_strace_def)
  have d: "syscall_delayed (the_blk (store 0 s ?st) 0)" "pid (the_blk (store 0 s ?st) 0) = 100"
    using s(2,3) the_store [OF st(1), of s 0] by simp_all
  have a: "accepts late_answers" by (simp add: accepts_def late_answers_def sample_round_def)
  from delay_loses_signal [OF h _ d(1) st(1) _ st(2) _ a, of "stop_of TE_SYSCALL_STOP"] d(2) st(3)
  show ?thesis by (simp add: stop_of_def)
qed

end
