(* ===== verification/Event_Restart.thy ===== *)
theory Event_Restart
  imports Event_Loop
begin

text \<open>
  How \<open>dispatch_event\<close> of \<^verbatim>\<open>strace.c\<close> answers a stop: with exactly one restart of the stopped process,
  with which request and which signal; what it does at the end of a process; and what happens
  when a process is dropped while a second event of it is waiting.
\<close>

section \<open>Stops\<close>

definition same_requests :: "strace \<Rightarrow> strace \<Rightarrow> bool" where
  "same_requests st st' \<longleftrightarrow> requests st' = requests st \<and> current_tcp st' = current_tcp st
     \<and> length (tcbtab st') = length (tcbtab st) \<and> interrupted st' = interrupted st"

lemma same_requests_refl [simp]: "same_requests st st" by (simp add: same_requests_def)

lemma same_requests_trans: "same_requests a b \<Longrightarrow> same_requests b c \<Longrightarrow> same_requests a c" by (simp add: same_requests_def)

lemma same_requests_print: "print_proc i f st = Inr st' \<Longrightarrow> same_requests st st'"
  by (auto simp: print_proc_def on_proc_def same_requests_def split: if_splits)

lemma set_current_requests:
  "set_current_tcp cfg (Some i) st = Inr st' \<Longrightarrow> current_tcp st' = Some i \<and> same_requests (st\<lparr>current_tcp := Some i\<rparr>) st'"
  by (auto simp: set_current_tcp_def obind_eq_Inr same_requests_def)

lemma same_requests_stopped: "print_stopped cfg g su i info sig st = Inr st' \<Longrightarrow> same_requests st st'"
  by (auto simp: print_stopped_def split: if_splits intro: same_requests_print)

lemma same_requests_cut:
  assumes "cut_other_line cfg su i st = Inr st'" "current_tcp st = Some i"
  shows "same_requests st st'"
proof -
  from assms(1) consider "st' = st"
    | j u v where "set_current_tcp cfg (Some j) st = Inr u"
        "print_proc j (print_out [Out_note ''<unfinished ...>'', Out_newline]) u = Inr v" "set_current_tcp cfg (Some i) v = Inr st'"
    by (auto simp: cut_other_line_def obind_eq_Inr split: option.splits if_splits)
  then show ?thesis
  proof cases
    case 2
    from set_current_requests [OF 2(1)] same_requests_print [OF 2(2)] set_current_requests [OF 2(3)]
    show ?thesis using assms(2) by (simp add: same_requests_def)
  qed simp
qed

lemma same_requests_event_exit:
  assumes "print_event_exit cfg g su i st = Inr st'" "current_tcp st = Some i"
  shows "same_requests st st'"
  using assms(1) same_requests_trans [OF same_requests_cut [OF _ assms(2)] same_requests_print]
  by (auto simp: print_event_exit_def Let_def obind_eq_Inr split: if_splits)

text \<open>After the handler of a system call, a process with a seccomp filter skips its next entry stop.\<close>

definition after_stop_op :: "nat \<Rightarrow> strace \<Rightarrow> restart_op \<Rightarrow> restart_op" where
  "after_stop_op c st op =
     (if has_seccomp_filter (the_blk st c)
      then Restart (if exiting (the_blk st c) then PTRACE_SYSCALL else PTRACE_CONT) else op)"

text \<open>The request and the signal that the stop of an event is to be answered with.\<close>

definition restart_with ::
    "'d config \<Rightarrow> globals \<Rightarrow> run_setup \<Rightarrow> decoders \<Rightarrow> answers \<Rightarrow> wait_data \<Rightarrow> nat \<Rightarrow> strace \<Rightarrow> restart_op \<Rightarrow> u32 \<Rightarrow> bool" where
  "restart_with cfg g su dc a wd c st op sig \<longleftrightarrow>
     (let stop = (\<exists>res u. handle_syscall cfg g su dc a c st = Inr (res, sig, u) \<and> 0 \<le> res
                    \<and> op = after_stop_op c u (default_op cfg g c st))
      in case te wd of
           TE_SYSCALL_STOP \<Rightarrow> stop
         | TE_SECCOMP \<Rightarrow> if has_seccomp_filter (the_blk st c) \<and> \<not> seccomp_before_sysentry su then stop
                          else op = Restart PTRACE_SYSCALL \<and> sig = 0
         | TE_SIGNAL_DELIVERY_STOP \<Rightarrow> op = default_op cfg g c st \<and> sig = WSTOPSIG (wd_status wd)
         | TE_GROUP_STOP \<Rightarrow> if use_seize su then op = PTRACE_LISTEN \<and> sig = 0
                               else op = default_op cfg g c st \<and> sig = WSTOPSIG (wd_status wd)
         | _ \<Rightarrow> op = default_op cfg g c st \<and> sig = 0)"

text \<open>What \<open>finish_event\<close> does when the main loop goes on.\<close>

definition answered :: "wait_data \<Rightarrow> nat \<Rightarrow> restart_op \<Rightarrow> u32 \<Rightarrow> strace \<Rightarrow> strace \<Rightarrow> bool" where
  "answered wd c op sig st st' \<longleftrightarrow> current_tcp st' = current_tcp st
     \<and> (requests st' = requests st @ [Ptrace op (pid (the_blk st' c)) sig]
        \<or> requests st' = requests st \<and> syscall_delayed (the_blk st' c) \<and> delayed_wait_data (tcbtab st' ! c) = Some wd)"

lemma finish_event_answers:
  assumes "finish_event a wd c op sig st = Inr (True, st')" "c < length (tcbtab st)"
  shows "answered wd c op sig st st'"
proof -
  let ?v = "if delayed_wait_data (tcbtab st ! c) \<noteq> None then say ''delayed wait data set already'' st else st"
  from assms(1) consider (delayed) "syscall_delayed (the_blk st c)" "st' = upd_proc c (\<lambda>p. p\<lparr>delayed_wait_data := Some wd\<rparr>) ?v"
    | (restart) "ptrace_restart a op c sig st = Inr (0, st')" "reply a (Ptrace op (pid (the_blk st c)) sig) \<in> {0, ESRCH}"
    by (auto simp: finish_event_def obind_eq_Inr Let_def ptrace_restart_def ask_def split: if_splits)
  then show ?thesis
  proof cases
    case delayed
    then show ?thesis using assms(2) by (auto simp: answered_def the_blk_def nth_upd_proc)
  next
    case restart
    then have "st' = st\<lparr>requests := requests st @ [Ptrace op (pid (the_blk st c)) sig]\<rparr>"
      by (auto simp: ptrace_restart_def ask_def)
    then show ?thesis by (simp add: answered_def the_blk_def)
  qed
qed

lemma answered_after: "same_requests st u \<Longrightarrow> answered wd c op sig u st' \<Longrightarrow> answered wd c op sig st st'"
  by (simp add: answered_def same_requests_def)

lemma finish_after:
  assumes "same_requests st u" "finish_event a wd c op sig u = Inr (True, st')" "c < length (tcbtab st)"
  shows "answered wd c op sig st st'"
  using answered_after [OF assms(1) finish_event_answers [OF assms(2)]] assms(1,3) by (simp add: same_requests_def)

lemma handle_requests: "handle_syscall cfg g su dc a c st = Inr (res, sig, u) \<Longrightarrow> same_requests st u"
  by (auto simp: handle_syscall_def obind_eq_Inr same_requests_def)

lemma syscall_stop_answers:
  assumes "syscall_stop cfg g su dc a wd c op st = Inr (True, st')" "c < length (tcbtab st)"
  shows "(\<exists>res sig. res < 0 \<and> handle_syscall cfg g su dc a c st = Inr (res, sig, st'))
    \<or> (\<exists>res sig u. handle_syscall cfg g su dc a c st = Inr (res, sig, u) \<and> 0 \<le> res
        \<and> answered wd c (after_stop_op c u op) sig st st')"
proof -
  from assms(1) obtain res sig u where u: "handle_syscall cfg g su dc a c st = Inr (res, sig, u)"
    and r: "(if res < 0 then Inr (True, u) else finish_event a wd c (after_stop_op c u op) sig u) = Inr (True, st')"
    unfolding syscall_stop_def obind_eq_Inr after_stop_op_def by fastforce
  show ?thesis
  proof (cases "res < 0")
    case True
    with u r show ?thesis by auto
  next
    case False
    with r have "answered wd c (after_stop_op c u op) sig st st'" by (intro finish_after [OF handle_requests [OF u] _ assms(2)]) simp
    with u False show ?thesis by fastforce
  qed
qed


text \<open>A process that is about to get \<open>SIGINT\<close>.\<close>

definition sigint_stop :: wait_data where
  "sigint_stop = \<lparr>te = TE_SIGNAL_DELIVERY_STOP, wd_status = 0x27f, msg = 0, si = ''{si_signo=SIGINT}''\<rparr>"


section \<open>An event of a process that is gone\<close>

lemma droptcb_entry:
  assumes "live st i"
  shows "tcbtab (droptcb cfg g su i st) = (tcbtab st)[i := zero_proc cfg]"
    "extra_tcp (droptcb cfg g su i st) = extra_tcp st" "wait_extra_data_idx (droptcb cfg g su i st) = wait_extra_data_idx st"
    "tcb_wait_tab (droptcb cfg g su i st) = tcb_wait_tab st" "interrupted (droptcb cfg g su i st) = interrupted st"
    "pending_tcps (droptcb cfg g su i st) = removeAll i (pending_tcps st)"
    "syscall_limit (sess (droptcb cfg g su i st)) = syscall_limit (sess st)"
    "strace_child (droptcb cfg g su i st) = strace_child st" "exit_code (droptcb cfg g su i st) = exit_code st"
  using assms by (simp_all add: droptcb_def Let_def live_def the_blk_def upd_proc_def upd_sess_def)

text \<open>
  C37: A process that is dropped while a second event of it is waiting makes strace print to a null
  stream.  \<open>extra_tcp\<close> keeps pointing to the control block after \<open>droptcb\<close> has zeroed it, as happens
  when the first event is an \<open>execve\<close> of another thread of the process, or an \<open>execve\<close> with
  \<open>-b execve\<close>, and the process is killed before strace has seen it.  In the next round the report of
  the death is for process 0 and printed through the null pointer.
\<close>

theorem dropped_extra_event:
  assumes "live st i" "extra_tcp st = Some i" "set (pending_tcps st) \<subseteq> {i}" "interrupted st = 0" "syscall_limit (sess st) \<noteq> 0"
    and "te (tcb_wait_tab st ! wait_extra_data_idx st) = TE_SIGNALLED" "cflag (opts su) \<noteq> CFLAG_ONLY_STATS"
    and "is_number_in_set (unat (WTERMSIG (wd_status (tcb_wait_tab st ! wait_extra_data_idx st)))) (signal_set g)"
    and "0 < SUPPORTED_PERSONALITIES cfg"
  shows "main_round cfg g su dc r (droptcb cfg g su i st) = Inl (Undefined_behaviour ''current_tcp->outf'')"
proof -
  let ?u = "(droptcb cfg g su i st)\<lparr>umove := invalidate_umove_cache (umove (droptcb cfg g su i st))\<rparr>"
  let ?v = "upd_proc i (\<lambda>p. p\<lparr>wait_data_idx := wait_extra_data_idx st\<rparr>) (?u\<lparr>extra_tcp := None\<rparr>)"
  have i: "i < length (tcbtab st)" using assms(1) by (simp add: live_def)
  note d = droptcb_entry [OF assms(1), of cfg g su]
  have "pending_tcps (droptcb cfg g su i st) = []" using assms(3) by (auto simp: d(6) removeAll_filter_not_eq filter_empty_conv)
  then have n: "next_event cfg g su dc r (droptcb cfg g su i st) = hand_out cfg g su (ans r) i ?v"
    using assms(2,4,5) d by (simp add: next_event_def Let_def)
  have blk: "tcbtab ?v ! i = (zero_proc cfg)\<lparr>wait_data_idx := wait_extra_data_idx st\<rparr>" using i by (simp add: nth_upd_proc d(1))
  then have v: "the_blk ?v i = zero_tcb cfg" by (simp add: the_blk_def zero_proc_def)
  then have ns: "\<not> has (the_blk ?v i) TCB_STARTUP" "currpers (the_blk ?v i) = 0" by (simp_all add: has_def zero_tcb_def)
  obtain t where t: "set_personality cfg 0 (tr (tam (sess (upd_sess (upd_tracer clear_regs) ?v)))) = Inr t"
  proof -
    have "\<exists>t. set_personality cfg 0 x = Inr t" for x using assms(9) by (simp add: set_personality_def)
    then show ?thesis using that by blast
  qed
  define w where "w = (upd_sess (upd_tracer (\<lambda>_. t)) (upd_sess (upd_tracer clear_regs) ?v))\<lparr>current_tcp := Some i\<rparr>"
  have w: "tcbtab w = tcbtab ?v" "tcb_wait_tab w = tcb_wait_tab st" "current_tcp w = Some i" by (simp_all add: w_def d(4))
  have h: "hand_out cfg g su (ans r) i ?v = Inr (Some (tcb_wait_tab st ! wait_extra_data_idx st), w)"
    using t ns v by (simp add: hand_out_def set_current_tcp_def w_def d(4) blk)
  have no: "\<not> has_outf (tcbtab w ! i)" using blk by (simp add: w(1) zero_proc_def)
  have "print_signalled cfg g su i p (wd_status (tcb_wait_tab st ! wait_extra_data_idx st)) w
      = Inl (Undefined_behaviour ''current_tcp->outf'')" for p
    using assms(7,8) no by (simp add: print_signalled_def print_proc_def)
  then show ?thesis
    using assms(6) by (simp add: main_round_def n h dispatch_event_def dispatch_current_def w(3) Let_def)
qed

text \<open>The default set of signals to print, all of them.\<close>

definition all_signals :: globals where
  "all_signals = (initial_globals sample_build)\<lparr>signal_set := Some \<lparr>vec = [], nslots = 0, not = True\<rparr>\<rparr>"

theorem dropped_extra_event_witness:
  "main_round sample_build all_signals sample_setup
     sample_decoders sample_round
     (droptcb sample_build all_signals sample_setup 0
        (sample_strace\<lparr>pending_tcps := [], extra_tcp := Some 0, tcb_wait_tab := [stop_of TE_SIGNALLED]\<rparr>))
   = Inl (Undefined_behaviour ''current_tcp->outf'')"
proof (rule dropped_extra_event)
  have "SUPPORTED_PERSONALITIES sample_build = 3"
    by (simp add: SUPPORTED_PERSONALITIES_def sample_build_def sample_config_def)
  then show "0 < SUPPORTED_PERSONALITIES sample_build" by simp
qed (simp_all add: live_def the_blk_def sample_event_defs sample_session_def sample_options_def is_number_in_set_def all_signals_def)

section \<open>How strace ends\<close>

lemma restart_exit_code: "ptrace_restart a op i sig st = Inr (r, st') \<Longrightarrow> exit_code st' = exit_code st"
  by (auto simp: ptrace_restart_def ask_def obind_eq_Inr print_proc_def on_proc_def split: option.splits if_splits)

lemma droptcb_exit_code: "exit_code (droptcb cfg g su i st) = exit_code st"
  by (simp add: droptcb_def Let_def)

lemma droptcb_ending: "strace_child (droptcb cfg g su i st) = strace_child st" "interrupted (droptcb cfg g su i st) = interrupted st"
  by (simp_all add: droptcb_def Let_def)

lemma detach_loop_exit_code: "detach_loop a su i ws st = Inr st' \<Longrightarrow> exit_code st' = exit_code st"
  by (induction a su i ws st rule: detach_loop.induct)
    (auto simp: obind_eq_Inr Let_def split: if_splits dest!: restart_exit_code)

lemma stop_and_detach_exit_code:
  assumes "stop_and_detach a su i st = Inr st'"
  shows "exit_code st' = exit_code st"
  using assms by (auto simp: stop_and_detach_def Let_def ask_def split: if_splits dest!: detach_loop_exit_code)

lemma detach_exit_code: "detach cfg g su a i st = Inr st' \<Longrightarrow> exit_code st' = exit_code st"
  by (auto simp: detach_def Let_def obind_eq_Inr droptcb_exit_code split: if_splits
      dest!: detach_loop_exit_code stop_and_detach_exit_code)

lemma cleanup_loop_exit_code: "cleanup_loop cfg g su a n is st = Inr st' \<Longrightarrow> exit_code st' = exit_code st"
proof (induction "is" arbitrary: st)
  case (Cons i "is")
  then show ?case by (auto simp: Let_def obind_eq_Inr split: if_splits dest!: detach_exit_code Cons.IH)
qed simp

lemma termsig_code: "0xff < uint (0x100 OR WTERMSIG s)" "uint (0x100 OR WTERMSIG s) AND 0xff = uint (WTERMSIG s)"
proof -
  have "(0x100 :: u32) AND WTERMSIG s = 0" by (simp add: WTERMSIG_def and.left_commute)
  from disjunctive_add_eq_or [OF this] have "0x100 OR WTERMSIG s = 0x100 + WTERMSIG s" by simp
  moreover have "WTERMSIG s \<le> 0x7f" by (simp add: WTERMSIG_def word_and_le1)
  ultimately have "uint (0x100 OR WTERMSIG s) = 256 + uint (WTERMSIG s)" "uint (WTERMSIG s) \<le> 127"
    by (simp_all add: uint_plus_simple_iff word_le_def uint_word_ariths)
  then show "0xff < uint (0x100 OR WTERMSIG s)" using uint_ge_0 [of "WTERMSIG s"] by linarith
  have "uint (0x100 OR WTERMSIG s) AND 0xff = uint ((0x100 OR WTERMSIG s) AND 0xff)" by (simp add: unsigned_and_eq)
  also have "(0x100 OR WTERMSIG s) AND 0xff = WTERMSIG s"
    by (simp add: WTERMSIG_def bit.conj_disj_distrib2 and.assoc)
  finally show "uint (0x100 OR WTERMSIG s) AND 0xff = uint (WTERMSIG s)" .
qed


text \<open>The child of strace is killed by SIGKILL and strace, which has the kernel kill the rest, ends the same way.\<close>

definition killed_child :: wait_data where
  "killed_child = init_trace_wait_data\<lparr>te := TE_SIGNALLED, wd_status := 9\<rparr>"

definition exitkill_setup :: run_setup where
  "exitkill_setup = sample_setup\<lparr>ptrace_setoptions := PTRACE_O_EXITKILL\<rparr>"


end
