(* ===== verification/Process_Id.thy ===== *)
theory Process_Id
  imports Event_Loop
begin

text \<open>
  The handlers of a system call stop (\<^verbatim>\<open>syscall.c\<close>) change almost everything in the control block of
  the process they are called for, but not its id, which the table of processes rests on.
\<close>

section \<open>A stop leaves the process id alone\<close>

abbreviation tpid :: "tracer \<Rightarrow> int" where "tpid st \<equiv> pid (tcp st)"

lemma personality_pid: "update_personality cfg g p st = Inr st' \<Longrightarrow> tpid st' = tpid st"
  by (auto simp: update_personality_def set_personality_def obind_eq_Inr Let_def tprint_def split: if_splits)

lemma syscall_info_pid:
  assumes "strace_get_syscall_info cfg g k st = Inr (ok, st')"
  shows "tpid st' = tpid st"
  using assms
  by (auto simp: strace_get_syscall_info_def obind_eq_Inr Let_def split: if_splits option.splits dest!: personality_pid)

lemma syscall_regs_pid:
  assumes "get_syscall_regs cfg g supported k st = Inr (r, st')"
  shows "tpid st' = tpid st"
proof -
  obtain q u where q: "get_regs k st = (q, u)" by fastforce
  show ?thesis
    using assms q get_regs_frame [OF q]
    by (auto simp: get_syscall_regs_def obind_eq_Inr split: if_splits dest!: syscall_info_pid)
qed

lemma get_scno_pid:
  assumes "get_scno cfg g supported k st = Inr (r, st')"
  shows "tpid st' = tpid st"
proof -
  let ?st = "upd_tcp (\<lambda>t. t\<lparr>scno := -1, s_ent := None, qual_flg := QUAL_RAW OR DEFAULT_QUAL_FLAGS\<rparr>) st"
  have sel: "tpid (select_sysent cfg g u) = tpid u" for u by (simp add: select_sysent_def Let_def)
  from assms obtain r1 u where u: "get_syscall_regs cfg g supported k ?st = Inr (r1, u)"
    and rest: "(if r1 < 0 then Inr (-1, u)
      else obind (if ptrace_syscall_info_is_valid supported u
                  then Inr (1, upd_tcp (\<lambda>t. t\<lparr>scno := sci_nr (ptrace_sci u)\<rparr>) u) else arch_get_scno cfg g u)
             (\<lambda>(rc, st). if rc \<noteq> 1 then Inr (rc, st) else Inr (1, select_sysent cfg g st))) = Inr (r, st')"
    unfolding get_scno_def Let_def obind_eq_Inr by (elim exE conjE) (simp only: split: prod.splits)
  have "tpid v = tpid u" if "arch_get_scno cfg g u = Inr (rc, v)" for v rc
    using that by (auto simp: arch_get_scno_def obind_eq_Inr split: prod.splits dest!: personality_pid)
  then have "tpid st' = tpid u" using rest by (auto simp: obind_eq_Inr sel split: if_splits)
  then show ?thesis using syscall_regs_pid [OF u] by simp
qed

lemma get_syscall_args_pid: "get_syscall_args supported st = (r, st') \<Longrightarrow> tpid st' = tpid st"
  by (auto simp: get_syscall_args_def arch_get_syscall_args_def split: if_splits)

lemma get_syscall_result_pid: "get_syscall_result cfg g supported k st = Inr (r, st') \<Longrightarrow> tpid st' = tpid st"
  by (auto simp: get_syscall_result_def get_error_def arch_get_error_def obind_eq_Inr Let_def split: if_splits
      dest!: syscall_regs_pid)

lemma decode_subcall_pid: "decode_subcall cfg g dc p t = Inr t' \<Longrightarrow> pid t' = pid t"
  by (auto simp: decode_subcall_def decode_ipc_subcall_def decode_socket_subcall_def become_def Let_def
      split: if_splits option.splits)

lemma printing_pid:
  "pid (tprint xs t) = pid t" "pid (raise_flag f t) = pid t" "pid (drop_flag f t) = pid t"
  "pid (strace_open_memstream t) = pid t" "pid (strace_close_memstream b t) = pid t" "pid (hidden_log_step t) = pid t"
  "pid (free_tcb_priv_data t) = pid t"
  by (simp_all add: tprint_def raise_flag_def drop_flag_def strace_open_memstream_def strace_close_memstream_def
      hidden_log_step_def free_tcb_priv_data_def Let_def split: option.splits)

lemma session_pid:
  "pid (cur_tcb (upd_cur f s)) = pid (f (cur_tcb s))" "pid (cur_tcb (print_out xs s)) = pid (cur_tcb s)"
  "pid (cur_tcb (printleader s)) = pid (cur_tcb s)" "pid (cur_tcb (line_ended s)) = pid (cur_tcb s)"
  by (simp_all add: session_defs printing_pid)

lemma entering_decode_pid:
  assumes "syscall_entering_decode cfg g opt dc k s = Inr (r, s')"
  shows "pid (cur_tcb s') = pid (cur_tcb s)"
proof -
  have tr: "pid (cur_tcb (upd_tracer (\<lambda>_. u) s)) = tpid u" for u s by (simp add: upd_tracer_def upd_tr_def)
  from assms obtain r1 u where u: "get_scno cfg g (ptrace_get_syscall_info_supported opt) k (tr (tam s)) = Inr (r1, u)"
    by (auto simp: syscall_entering_decode_def on_tracer_def obind_eq_Inr)
  note p = get_scno_pid [OF u]
  obtain r2 v where v: "get_syscall_args (ptrace_get_syscall_info_supported opt) u = (r2, v)" by fastforce
  note q = get_syscall_args_pid [OF v]
  have tu: "tr (tam (upd_tracer (\<lambda>_. x) s)) = x" for x s by (simp add: upd_tracer_def upd_tr_def)
  show ?thesis
    using assms u v p q
    by (auto simp: syscall_entering_decode_def on_tracer_def obind_eq_Inr session_pid tr tu split: if_splits
        dest!: decode_subcall_pid)
qed

lemma print_call_pid: "print_call dc s = (r, s') \<Longrightarrow> pid (cur_tcb s') = pid (cur_tcb s)"
  by (auto simp: print_call_def Let_def session_pid split: prod.splits)

lemma entering_trace_pid:
  assumes "syscall_entering_trace cfg g opt dc k c signo s = Inr (r, sig, s')"
  shows "pid (cur_tcb s') = pid (cur_tcb s)"
proof -
  define s0 where "s0 = upd_cur (drop_flag TCB_FILTERED) (upd_cur hidden_log_step s)"
  define m where "m = (if inject (cur_tcb s0) then obind (tamper_with_syscall_entering cfg g k c signo (tam s0))
       (\<lambda>(signo, w). Inr (signo, s0\<lparr>tam := w\<rparr>)) else Inr (signo, s0))"
  define out where "out = (\<lambda>s. print_out [Out_syscall (cur_name s)] (printleader s))"
  have p0: "pid (cur_tcb s0) = pid (cur_tcb s)" by (simp add: s0_def session_pid printing_pid)
  have pm: "pid (cur_tcb s1) = pid (cur_tcb s)" if "m = Inr (x, s1)" for x s1
    using that p0 by (auto simp: m_def obind_eq_Inr frame_def split: if_splits dest!: tamper_entering_frame)
  have po: "pid (cur_tcb (out u)) = pid (cur_tcb u)" for u by (simp add: out_def session_pid)
  have "syscall_entering_trace cfg g opt dc k c signo s =
     (let s = upd_cur hidden_log_step s; t = cur_tcb s
      in if hide_log t \<or> \<not> traced t \<or> (tracing_paths opt \<or> tracing_fds g) \<and> \<not> pathtrace_match dc t
         then Inr (0, signo, upd_cur (raise_flag TCB_FILTERED) s)
         else obind m (\<lambda>(signo, s). if cflag opt = CFLAG_ONLY_STATS then Inr (0, signo, s)
                else case print_call dc (out (if status_filtering g then upd_cur strace_open_memstream s else s)) of
                  (res, s) \<Rightarrow> Inr (sint res, signo, s)))"
    by (simp only: syscall_entering_trace_def Let_def m_def s0_def out_def)
  with assms show ?thesis
    by (auto simp: Let_def obind_eq_Inr session_pid printing_pid po pm split: if_splits prod.splits dest!: print_call_pid)
qed

lemma entering_finish_pid: "pid (cur_tcb (syscall_entering_finish opt c res s)) = pid (cur_tcb s)"
  by (simp add: syscall_entering_finish_def Let_def session_pid printing_pid)

lemma exiting_decode_pid:
  assumes "syscall_exiting_decode cfg g opt k c s = Inr (r, ts, s')"
  shows "pid (cur_tcb s') = pid (cur_tcb s)"
proof -
  have tr: "pid (cur_tcb (upd_tracer (\<lambda>_. u) s)) = tpid u" for u s by (simp add: upd_tracer_def upd_tr_def)
  have comm: "tam (maybe_load_task_comm g s) = tam s" for s by (simp add: maybe_load_task_comm_def)
  have res: "pid (cur_tcb v) = pid (cur_tcb u)"
    if "on_tracer (get_syscall_result cfg g (ptrace_get_syscall_info_supported opt) k) u = Inr (r, v)" for u v r
    using that by (auto simp: on_tracer_def obind_eq_Inr tr dest!: get_syscall_result_pid)
  have rest: "pid (cur_tcb s2) = tpid x"
    if "obind (update_personality cfg g p x)
          (\<lambda>st. obind (on_tracer (get_syscall_result cfg g (ptrace_get_syscall_info_supported opt) k) (upd_tracer (\<lambda>_. st) s1))
                  (\<lambda>(res, s). Inr (res, ts, s))) = Inr (r, ts', s2)" for p x s1 s2 ts ts'
    using that by (auto simp: obind_eq_Inr tr dest!: res personality_pid)
  show ?thesis
    using assms unfolding syscall_exiting_decode_def Let_def
    by (auto simp: comm session_pid printing_pid split: if_splits dest!: rest)
qed

lemma count_call_tam: "count_call cfg opt ts s = Inr s' \<Longrightarrow> tam s' = tam s"
  by (auto simp: count_call_def split: option.splits)

lemma unavailable_pid: "exiting_unavailable cfg g opt ts res s = Inr (r, s') \<Longrightarrow> pid (cur_tcb s') = pid (cur_tcb s)"
  by (auto simp: exiting_unavailable_def obind_eq_Inr Let_def session_pid printing_pid split: if_splits dest!: count_call_tam)

lemma print_result_pid: "pid (cur_tcb (print_result g opt ts r s)) = pid (cur_tcb s)"
  by (simp add: print_result_def Let_def session_pid upd_tracer_def upd_tr_def)

lemma publish_pid: "exiting_publish cfg g opt ts r s = Inr (x, s') \<Longrightarrow> pid (cur_tcb s') = pid (cur_tcb s)"
  by (auto simp: exiting_publish_def obind_eq_Inr Let_def session_pid printing_pid print_result_pid split: if_splits dest!: count_call_tam)

lemma resume_pid: "pid (cur_tcb (print_syscall_resume opt s)) = pid (cur_tcb s)"
  by (simp add: print_syscall_resume_def Let_def session_pid printing_pid)

lemma exiting_trace_pid:
  assumes "syscall_exiting_trace cfg g opt dc k c ts res s = Inr (r, s')"
  shows "pid (cur_tcb s') = pid (cur_tcb s)"
proof -
  define m where "m = (if syscall_tampered (cur_tcb s) \<or> inject_delay_exit (cur_tcb s) \<or> inject_poke_exit (cur_tcb s)
       then obind (tamper_with_syscall_exiting cfg g (ptrace_get_syscall_info_supported opt) k c (tam s))
              (\<lambda>(_, w). Inr (s\<lparr>tam := w\<rparr>)) else Inr s)"
  have pm: "pid (cur_tcb s1) = pid (cur_tcb s)" if "m = Inr s1" for s1
    using that by (auto simp: m_def obind_eq_Inr frame_def split: if_splits dest!: tamper_exiting_frame)
  have ea: "pid (cur_tcb v) = pid (cur_tcb u)" if "exit_decode_args opt dc u = (x, v)" for u v x
    using that by (auto simp: exit_decode_args_def split: if_splits dest!: print_call_pid)
  from assms obtain s1 where s1: "m = Inr s1"
    unfolding syscall_exiting_trace_def m_def [symmetric] by (auto simp: obind_eq_Inr)
  define u where "u = (if cflag opt \<noteq> CFLAG_ONLY_STATS then print_syscall_resume opt s1 else s1)"
  have pu: "pid (cur_tcb u) = pid (cur_tcb s)" using pm [OF s1] by (simp add: u_def resume_pid)
  define v where "v = (\<lambda>x. upd_cur (\<lambda>t. t\<lparr>s_prev_ent := x\<rparr>) (upd_cur (\<lambda>t. t\<lparr>s_prev_ent := None\<rparr>) u))"
  have pv: "pid (cur_tcb (v x)) = pid (cur_tcb s)" for x by (simp add: v_def session_pid pu)
  from assms s1 obtain x where x: "(if res \<noteq> 1 then exiting_unavailable cfg g opt ts res (upd_cur (\<lambda>t. t\<lparr>s_prev_ent := None\<rparr>) u)
      else case exit_decode_args opt dc (v x) of (sys_res, s) \<Rightarrow> exiting_publish cfg g opt ts sys_res s) = Inr (r, s')"
    unfolding syscall_exiting_trace_def m_def [symmetric] s1 Let_def obind_simps u_def [symmetric] v_def by blast
  obtain sr w where w: "exit_decode_args opt dc (v x) = (sr, w)" by fastforce
  from x ea [OF w] pv pu show ?thesis
    by (auto simp: w session_pid split: if_splits dest!: unavailable_pid publish_pid)
qed

lemma exiting_finish_pid: "pid (cur_tcb (syscall_exiting_finish opt s)) = pid (cur_tcb s)"
  by (simp add: syscall_exiting_finish_def Let_def session_pid printing_pid)

lemma trace_syscall_pid:
  assumes "trace_syscall cfg g opt dc k c signo s = Inr (r, sig, s')"
  shows "pid (cur_tcb s') = pid (cur_tcb s)"
proof (cases "entering (cur_tcb s)")
  case True
  with assms show ?thesis
    by (auto simp: trace_syscall_def obind_eq_Inr entering_finish_pid split: if_splits
        dest!: entering_decode_pid entering_trace_pid)
next
  case False
  with assms show ?thesis
    by (auto simp: trace_syscall_def obind_eq_Inr exiting_finish_pid split: if_splits
        dest!: exiting_decode_pid exiting_trace_pid)
qed

end
