(* ===== verification/Table_Invariant.thy ===== *)
theory Table_Invariant
  imports Process_Id
begin

text \<open>
  The invariant of the table of processes and that every function of the main loop
  (\<^verbatim>\<open>strace.c\<close>) keeps it: process ids stay unique, \<open>nprocs\<close> and all pointers fit the table.
\<close>

section \<open>The invariant of the table\<close>

definition slots :: "strace \<Rightarrow> int list" where
  "slots st = map ppid (tcbtab st)"

text \<open>How many control blocks are in use.\<close>

definition in_use :: "int list \<Rightarrow> nat" where
  "in_use ps = length (filter (\<lambda>p. p \<noteq> 0) ps)"

definition unique_pids :: "int list \<Rightarrow> bool" where
  "unique_pids ps \<longleftrightarrow> (\<forall>i < length ps. \<forall>j < length ps. ps ! i \<noteq> 0 \<longrightarrow> ps ! i = ps ! j \<longrightarrow> i = j)"

definition pointers :: "strace \<Rightarrow> nat set" where
  "pointers st = set_option (current_tcp st) \<union> set_option (extra_tcp st) \<union> set (pending_tcps st) \<union> ran (pid2tcb_cache st)"

text \<open>
  The ids of the processes differ, \<open>nprocs\<close> is at least their number and at most the size of the
  table, which fits \<open>size_t\<close>, and every pointer to a control block points into the table.
\<close>

definition table_ok :: "strace \<Rightarrow> bool" where
  "table_ok st \<longleftrightarrow> unique_pids (slots st) \<and> in_use (slots st) \<le> nprocs st \<and> nprocs st \<le> length (tcbtab st)
     \<and> length (tcbtab st) < 2 ^ 64 \<and> (\<forall>i \<in> pointers st. i < length (tcbtab st))"

lemma length_slots [simp]: "length (slots st) = length (tcbtab st)" by (simp add: slots_def)

lemma nth_slots: "i < length (tcbtab st) \<Longrightarrow> slots st ! i = pid (the_blk st i)" by (simp add: slots_def the_blk_def)

lemma table_ok_pids: "table_ok st \<Longrightarrow> pids_ok st"
  by (auto simp: table_ok_def unique_pids_def pids_ok_def live_def nth_slots)

lemma table_ok_cache: "table_ok st \<Longrightarrow> cache_valid st"
  by (auto simp: table_ok_def cache_valid_def pointers_def ran_def)

lemma slots_upd_proc: "slots (upd_proc i f st) = (slots st)[i := ppid (f (tcbtab st ! i))]"
  by (simp add: slots_def upd_proc_def map_update)

lemma slots_same:
  "ppid (f (tcbtab st ! i)) = ppid (tcbtab st ! i) \<Longrightarrow> slots (upd_proc i f st) = slots st"
  by (cases "i < length (tcbtab st)") (simp_all add: slots_def upd_proc_def map_update list_update_same_conv list_update_beyond not_less)

text \<open>A step that keeps the table as it is; it may turn to another process of the table.\<close>

definition same_table :: "strace \<Rightarrow> strace \<Rightarrow> bool" where
  "same_table st st' \<longleftrightarrow> slots st' = slots st \<and> nprocs st' = nprocs st \<and> pid2tcb_cache st' = pid2tcb_cache st
     \<and> pending_tcps st' = pending_tcps st \<and> extra_tcp st' = extra_tcp st
     \<and> (current_tcp st' = current_tcp st \<or> (\<forall>i \<in> set_option (current_tcp st'). i < length (tcbtab st)))"

lemma same_table_length: "same_table st st' \<Longrightarrow> length (tcbtab st') = length (tcbtab st)"
  by (metis same_table_def length_slots)

lemma same_table_refl [simp]: "same_table st st" by (simp add: same_table_def)

lemma same_table_trans: "same_table a b \<Longrightarrow> same_table b c \<Longrightarrow> same_table a c"
  using same_table_length [of a b] by (auto simp: same_table_def)

lemma same_table_ok: "same_table st st' \<Longrightarrow> table_ok st \<Longrightarrow> table_ok st'"
  using same_table_length [of st st'] by (auto simp: same_table_def table_ok_def pointers_def)

lemma same_table_upd:
  "(\<And>t. pid (h t) = pid t) \<Longrightarrow> same_table st (upd_blk i h st)"
  "same_table st (upd_sess k st)" "same_table st (say m st)" "same_table st (snd (ask a r st))"
  "same_table st (st\<lparr>exit_code := x\<rparr>)" "same_table st (st\<lparr>exit_code := x, strace_child := y\<rparr>)"
  "same_table st (st\<lparr>strace_child := y\<rparr>)" "same_table st (st\<lparr>popen_pid := y\<rparr>)" "same_table st (st\<lparr>restart_failed := b\<rparr>)"
  "same_table st (st\<lparr>umove := z\<rparr>)" "same_table st (upd_proc i (\<lambda>p. p\<lparr>delayed_wait_data := d\<rparr>) st)"
  "same_table st (upd_proc i (\<lambda>p. p\<lparr>wait_data_idx := k'\<rparr>) st)" "same_table st (upd_proc i (\<lambda>p. p\<lparr>atime := q (blk p)\<rparr>) st)"
  "pid (cur_tcb s) = pid (the_blk st i) \<Longrightarrow> same_table st (store i s st)"
  "same_table st (st\<lparr>tcb_wait_tab := tab\<rparr>)"
proof -
  show "(\<And>t. pid (h t) = pid t) \<Longrightarrow> same_table st (upd_blk i h st)"
    using slots_same [of "\<lambda>p. p\<lparr>blk := h (blk p)\<rparr>" st i] by (simp add: same_table_def upd_blk_def)
  assume "pid (cur_tcb s) = pid (the_blk st i)"
  then have "slots (upd_blk i (\<lambda>_. cur_tcb s) st) = slots st" by (simp add: upd_blk_def slots_same the_blk_def)
  then show "same_table st (store i s st)" by (simp add: same_table_def store_def slots_def)
qed (simp_all add: same_table_def slots_same, simp_all add: slots_def)

lemma same_table_current: "set_current_tcp cfg (Some i) st = Inr st' \<Longrightarrow> i < length (tcbtab st) \<Longrightarrow> same_table st st'"
  by (auto simp: set_current_tcp_def obind_eq_Inr same_table_def slots_def)

lemma same_table_print:
  "print_proc i f st = Inr st' \<Longrightarrow> (\<And>s. pid (cur_tcb (f s)) = pid (cur_tcb s)) \<Longrightarrow> same_table st st'"
  by (auto simp: print_proc_def on_proc_def split: if_splits intro!: same_table_upd(14))

lemma same_table_restart: "ptrace_restart a op i sig st = Inr (r, st') \<Longrightarrow> same_table st st'"
proof -
  let ?q = "snd (ask a (Ptrace op (pid (the_blk st i)) sig) st)"
  assume "ptrace_restart a op i sig st = Inr (r, st')"
  then have "st' = ?q \<or> (\<exists>u. st' = say ''ptrace'' u \<and> (u = ?q
      \<or> (\<exists>c. print_proc c (\<lambda>s. line_ended (print_out [Out_note ''<Cannot restart>'', Out_newline] s)) ?q = Inr u)))"
    by (auto simp: ptrace_restart_def ask_def obind_eq_Inr split: if_splits option.splits)
  moreover have "same_table ?q u" if "print_proc c (\<lambda>s. line_ended (print_out xs s)) ?q = Inr u" for c u xs
    using that by (rule same_table_print) (simp add: session_pid)
  ultimately show ?thesis using same_table_trans [OF same_table_upd(4)] same_table_upd(3,4) same_table_trans by blast
qed

lemma same_table_finish: "finish_event a wd i op sig st = Inr (go, st') \<Longrightarrow> same_table st st'"
  using same_table_trans [OF same_table_upd(3) same_table_upd(11)] same_table_upd(11) same_table_restart
    same_table_trans [OF same_table_restart same_table_upd(5)]
  by (fastforce simp: finish_event_def Let_def obind_eq_Inr split: if_splits)

lemma same_table_handle: "handle_syscall cfg g su dc a i st = Inr (res, sig, st') \<Longrightarrow> same_table st st'"
  by (auto simp: handle_syscall_def obind_eq_Inr intro!: same_table_upd(14) dest!: trace_syscall_pid)

lemma same_table_syscall_stop:
  assumes "syscall_stop cfg g su dc a wd d op st = Inr (go, st')"
  shows "same_table st st'"
proof -
  from assms obtain res sig u where u: "handle_syscall cfg g su dc a d st = Inr (res, sig, u)"
    "u = st' \<or> (\<exists>op. finish_event a wd d op sig u = Inr (go, st'))"
    by (auto simp: syscall_stop_def obind_eq_Inr split: if_splits)
  note q = same_table_handle [OF u(1)]
  from u(2) q same_table_trans [OF q same_table_finish] show ?thesis by blast
qed

lemma print_line_pid: "pid (cur_tcb (print_line n s)) = pid (cur_tcb s)"
  by (simp add: print_line_def session_pid)

lemma same_table_line: "print_proc i (print_line n) st = Inr st' \<Longrightarrow> same_table st st'"
  by (erule same_table_print) (simp add: print_line_pid)

lemma same_table_prints:
  "print_stopped cfg g su d info sig st = Inr st' \<Longrightarrow> same_table st st'"
  "print_signalled cfg g su d p status st = Inr st' \<Longrightarrow> same_table st st'"
  "print_exited g su d p status st = Inr st' \<Longrightarrow> same_table st st'"
proof -
  show "print_stopped cfg g su d info sig st = Inr st' \<Longrightarrow> same_table st st'"
    by (auto simp: print_stopped_def split: if_splits intro: same_table_line)
  note pr = same_table_trans [OF same_table_upd(6) same_table_line]
  show "print_signalled cfg g su d p status st = Inr st' \<Longrightarrow> same_table st st'"
    by (auto simp: print_signalled_def Let_def split: if_splits intro: pr same_table_upd(6) same_table_line)
  show "print_exited g su d p status st = Inr st' \<Longrightarrow> same_table st st'"
    by (auto simp: print_exited_def Let_def split: if_splits intro: pr same_table_upd(6) same_table_line)
qed

lemma same_table_cut:
  assumes "cut_other_line cfg su i st = Inr st'" "i < length (tcbtab st)"
  shows "same_table st st'"
proof (cases "st' = st")
  case False
  with assms(1) obtain q j u v where j: "find_pid q (tcbtab st) = Some j" "set_current_tcp cfg (Some j) st = Inr u"
    "print_proc j (print_out [Out_note ''<unfinished ...>'', Out_newline]) u = Inr v" "set_current_tcp cfg (Some i) v = Inr st'"
    by (auto simp: cut_other_line_def obind_eq_Inr split: option.splits if_splits)
  have "j < length (tcbtab st)" using j(1) by (simp add: find_pid_Some)
  with j(2) have 1: "same_table st u" by (rule same_table_current)
  have 2: "same_table u v" using j(3) by (rule same_table_print) (simp add: session_pid)
  have 3: "same_table v st'"
    using same_table_current [OF j(4)] assms(2) same_table_length [OF 1] same_table_length [OF 2] by simp
  from same_table_trans [OF same_table_trans [OF 1 2] 3] show ?thesis .
qed simp

lemma same_table_event_exit:
  assumes "print_event_exit cfg g su i st = Inr st'" "i < length (tcbtab st)"
  shows "same_table st st'"
proof -
  define f where "f = (\<lambda>s. let s = print_syscall_resume (opts su) s;
                  s = print_out ((if sys_func_rval (cur_tcb s) AND RVAL_DECODED = 0 then [Out_note ''<unfinished ...>''] else [])
                        @ [Out_pseudo_rval, Out_newline]) s;
                  s = (if status_filtering g
                       then upd_cur (strace_close_memstream (is_number_in_set STATUS_UNFINISHED (status_set g))) s else s)
              in line_ended s)"
  have f: "pid (cur_tcb (f s)) = pid (cur_tcb s)" for s
    by (simp add: f_def Let_def session_pid printing_pid resume_pid)
  from assms(1) have "st' = st \<or> (\<exists>u. cut_other_line cfg su i st = Inr u \<and> print_proc i f u = Inr st')"
    unfolding print_event_exit_def f_def [symmetric] by (auto simp: Let_def obind_eq_Inr split: if_splits)
  with same_table_cut [OF _ assms(2)] same_table_print [OF _ f] same_table_trans same_table_refl show ?thesis by blast
qed

section \<open>Dropping, detaching and switching\<close>

lemma in_use_update:
  "i < length ps \<Longrightarrow> in_use (ps[i := p]) + (if ps ! i \<noteq> 0 then 1 else 0) = in_use ps + (if p \<noteq> 0 then 1 else 0)"
proof (induction ps arbitrary: i)
  case (Cons x ps)
  show ?case
  proof (cases i)
    case (Suc k)
    then show ?thesis using Cons.IH [of k] Cons.prems by (auto simp: in_use_def)
  qed (simp add: in_use_def)
qed simp

lemma unique_update:
  assumes "unique_pids ps" "p = 0 \<or> (\<forall>j < length ps. j \<noteq> i \<longrightarrow> ps ! j \<noteq> p)"
  shows "unique_pids (ps[i := p])"
proof (cases "i < length ps")
  case True
  with assms show ?thesis unfolding unique_pids_def by (auto simp: nth_list_update)
qed (use assms in \<open>simp add: list_update_beyond\<close>)

lemma droptcb_slots:
  "slots (droptcb cfg g su i st) = (if pid (the_blk st i) = 0 then slots st else (slots st)[i := 0])"
  "nprocs (droptcb cfg g su i st) = (if pid (the_blk st i) = 0 then nprocs st else nprocs st - 1)"
  "pid2tcb_cache (droptcb cfg g su i st) = pid2tcb_cache st"
  "set (pending_tcps (droptcb cfg g su i st)) \<subseteq> set (pending_tcps st)"
  "extra_tcp (droptcb cfg g su i st) = extra_tcp st"
  "current_tcp (droptcb cfg g su i st) = current_tcp st \<or> current_tcp (droptcb cfg g su i st) = None"
proof -
  have z: "ppid (zero_proc cfg) = 0" by (simp add: zero_proc_def zero_tcb_def)
  have u: "slots (upd_sess f s) = slots s" "slots (s\<lparr>nprocs := n\<rparr>) = slots s" "slots (s\<lparr>closed_logs := l\<rparr>) = slots s"
    "slots (s\<lparr>current_tcp := c\<rparr>) = slots s" "slots (s\<lparr>pending_tcps := q\<rparr>) = slots s" for f s n l c q by (simp_all add: slots_def)
  show "slots (droptcb cfg g su i st) = (if pid (the_blk st i) = 0 then slots st else (slots st)[i := 0])"
    by (simp add: droptcb_def Let_def the_blk_def slots_upd_proc z u)
  show "set (pending_tcps (droptcb cfg g su i st)) \<subseteq> set (pending_tcps st)"
    by (simp add: droptcb_def Let_def)
qed (simp_all add: droptcb_def Let_def the_blk_def)

lemma droptcb_length: "length (tcbtab (droptcb cfg g su i st)) = length (tcbtab st)"
  using droptcb_slots(1) [of cfg g su i st] by (metis length_list_update length_slots)

lemma droptcb_table:
  assumes "table_ok st" "i < length (tcbtab st)"
  shows "table_ok (droptcb cfg g su i st)"
proof -
  let ?d = "droptcb cfg g su i st"
  have ptr: "pointers ?d \<subseteq> pointers st"
    using droptcb_slots(3-6) [of cfg g su i st] by (auto simp: pointers_def)
  have ps: "unique_pids (slots ?d)" using assms(1) unique_update [of "slots st" 0 i]
    by (simp add: droptcb_slots(1) table_ok_def)
  have "in_use (slots ?d) \<le> nprocs ?d"
    using assms in_use_update [of i "slots st" 0] by (auto simp: droptcb_slots(1,2) table_ok_def nth_slots)
  with ps ptr assms(1) show ?thesis by (auto simp: table_ok_def droptcb_length droptcb_slots(2))
qed

text \<open>What a step may do to a good table: it stays good and does not shrink.\<close>

definition table_kept :: "strace \<Rightarrow> strace \<Rightarrow> bool" where
  "table_kept st st' \<longleftrightarrow> table_ok st' \<and> length (tcbtab st) \<le> length (tcbtab st')"

lemma same_table_kept: "same_table st st' \<Longrightarrow> table_ok st \<Longrightarrow> table_kept st st'"
  using same_table_ok same_table_length by (auto simp: table_kept_def)

lemma table_kept_trans: "table_kept a b \<Longrightarrow> table_kept b c \<Longrightarrow> table_kept a c"
  by (auto simp: table_kept_def)

lemma kept_same: "table_kept a b \<Longrightarrow> same_table b c \<Longrightarrow> table_kept a c"
  using same_table_ok same_table_length by (auto simp: table_kept_def)

lemma same_kept: "same_table a b \<Longrightarrow> table_kept b c \<Longrightarrow> table_kept a c"
  using same_table_length by (auto simp: table_kept_def)

lemma droptcb_kept: "table_ok st \<Longrightarrow> i < length (tcbtab st) \<Longrightarrow> table_kept st (droptcb cfg g su i st)"
  by (simp add: table_kept_def droptcb_table droptcb_length)

lemma same_table_detach_loop: "detach_loop a su i ws st = Inr st' \<Longrightarrow> same_table st st'"
proof (induction a su i ws st rule: detach_loop.induct)
  case (3 a su i status ws st)
  then show ?case
    by (auto simp: obind_eq_Inr Let_def split: if_splits dest!: same_table_restart intro: same_table_trans)
qed (auto simp: same_table_upd split: if_splits)

lemma same_table_stop_and_detach:
  assumes "stop_and_detach a su i st = Inr st'"
  shows "same_table st st'"
proof -
  have q: "same_table u (u\<lparr>requests := r\<rparr>)" for u r by (simp add: same_table_def slots_def)
  note q2 = same_table_trans [OF q q] same_table_trans [OF same_table_trans [OF q q] q] same_table_trans [OF q same_table_upd(3)]
    same_table_trans [OF same_table_trans [OF q q] same_table_upd(3)]
    same_table_trans [OF same_table_trans [OF same_table_trans [OF q q] q] same_table_upd(3)]
    same_table_trans [OF same_table_trans [OF same_table_trans [OF q q] q] same_table_detach_loop]
  show ?thesis
    using assms by (auto simp: stop_and_detach_def Let_def ask_def split: if_splits intro: q q2)
qed

lemma detach_kept:
  assumes "detach cfg g su a i st = Inr st'" "table_ok st" "i < length (tcbtab st)"
  shows "table_kept st st'"
proof -
  from assms(1) obtain u where u: "u = st \<or> detach_loop a su i (detach_waits a (pid (the_blk st i))) st = Inr u
      \<or> stop_and_detach a su i st = Inr u" "st' = droptcb cfg g su i u \<or> (\<exists>m. st' = droptcb cfg g su i (say m u))"
    by (auto simp: detach_def Let_def obind_eq_Inr split: if_splits)
  have s: "same_table st u" using u(1) same_table_detach_loop same_table_stop_and_detach same_table_refl by blast
  then obtain v where v: "same_table st v" "st' = droptcb cfg g su i v"
    using u(2) same_table_trans [OF s same_table_upd(3)] by blast
  have "table_kept v st'"
    using droptcb_kept [OF same_table_ok [OF v(1) assms(2)]] assms(3) same_table_length [OF v(1)] by (simp add: v(2))
  with v(1) show ?thesis by (rule same_kept)
qed

lemma swap_output_table: "same_table st (swap_output i j st)"
proof -
  have "slots (swap_output i j st) = slots st"
    by (simp add: swap_output_def Let_def slots_same)
  then show ?thesis by (simp add: same_table_def swap_output_def Let_def)
qed

lemma pid2tcb_kept:
  assumes "pid2tcb p st = (r, st')" "table_ok st"
  shows "table_kept st st'" "slots st' = slots st" "r = Some j \<Longrightarrow> j < length (tcbtab st) \<and> pid (the_blk st j) = p \<and> p > 0"
    "r = None \<Longrightarrow> p > 0 \<Longrightarrow> \<forall>j < length (tcbtab st). pid (the_blk st j) \<noteq> p" "tcbtab st' = tcbtab st"
proof -
  note res = pid2tcb_result [OF table_ok_pids [OF assms(2)] table_ok_cache [OF assms(2)], of p]
  have st': "st' = st\<lparr>pid2tcb_cache := pid2tcb_cache st'\<rparr>" "cache_valid st'" using res(2,3) assms(1) by simp_all
  then obtain c where c: "st' = st\<lparr>pid2tcb_cache := c\<rparr>" by blast
  then have t: "tcbtab st' = tcbtab st" "nprocs st' = nprocs st" "current_tcp st' = current_tcp st" "extra_tcp st' = extra_tcp st"
    "pending_tcps st' = pending_tcps st" by simp_all
  show "tcbtab st' = tcbtab st" by (rule t)
  then show sl: "slots st' = slots st" by (simp add: slots_def)
  show "table_kept st st'"
    using assms(2) st'(2) t sl by (auto simp: table_kept_def table_ok_def pointers_def cache_valid_def ran_def)
  show "r = Some j \<Longrightarrow> j < length (tcbtab st) \<and> pid (the_blk st j) = p \<and> p > 0"
  proof -
    assume "r = Some j"
    then have "p > 0" "find_pid p (tcbtab st) = Some j" using res(1) assms(1) by (auto split: if_splits)
    then show ?thesis by (simp add: find_pid_Some the_blk_def)
  qed
  show "r = None \<Longrightarrow> p > 0 \<Longrightarrow> \<forall>j < length (tcbtab st). pid (the_blk st j) \<noteq> p"
  proof -
    assume "r = None" "p > 0"
    then have "find_pid p (tcbtab st) = None" using res(1) assms(1) by simp
    then show ?thesis by (simp add: find_pid_None the_blk_def)
  qed
qed

lemma rename_kept:
  assumes "table_ok st" "i < length (tcbtab st)" "j < length (tcbtab st)" "i \<noteq> j"
    and "pid (the_blk st i) = p" "pid (the_blk st j) \<noteq> 0"
  shows "table_kept st (upd_blk j (\<lambda>t. t\<lparr>pid := p\<rparr>) (droptcb cfg g su i st))"
proof -
  let ?d = "droptcb cfg g su i st" and ?u = "upd_blk j (\<lambda>t. t\<lparr>pid := p\<rparr>) (droptcb cfg g su i st)"
  have d: "table_ok ?d" using assms(1,2) by (rule droptcb_table)
  have s: "slots ?u = (slots ?d)[j := p]" by (simp add: upd_blk_def slots_upd_proc)
  have jd: "slots ?d ! j \<noteq> 0" using assms(3,4,6) by (simp add: droptcb_slots(1) nth_slots)
  have "slots ?d ! k \<noteq> p" if "k < length (tcbtab st)" "k \<noteq> j" "p \<noteq> 0" for k
  proof (cases "k = i")
    case True
    then show ?thesis using assms(2,5) that(3) by (simp add: droptcb_slots(1))
  next
    case False
    then show ?thesis
      using assms(1,2,5) that by (auto simp: droptcb_slots(1) table_ok_def unique_pids_def nth_slots)
  qed
  then have "unique_pids (slots ?u)" using d unique_update [of "slots ?d" p j] by (auto simp: s table_ok_def droptcb_length)
  moreover have "in_use (slots ?u) \<le> nprocs ?u"
    using in_use_update [of j "slots ?d" p] assms(3) jd d by (auto simp: s table_ok_def droptcb_length split: if_splits)
  ultimately show ?thesis using d by (auto simp: table_kept_def table_ok_def pointers_def droptcb_length)
qed

lemma sint_low32:
  fixes w :: u64
  assumes "0 < sint (ucast w :: u32)" "unat w \<le> 2 ^ 32 - 1"
  shows "sint (ucast w :: u32) = sint w"
proof -
  let ?x = "ucast w :: u32"
  have "int (unat w) \<le> int (2 ^ 32 - 1)" using assms(2) by (rule of_nat_mono)
  then have w: "uint w < 2 ^ 32" by simp
  have "uint ?x = take_bit 32 (uint w)" by (simp add: unsigned_ucast_eq)
  also have "\<dots> = uint w" using w by (intro take_bit_int_eq_self) simp_all
  finally have u: "uint ?x = uint w" .
  have "sint ?x < 2 ^ 31" using sint_lt [of ?x] by simp
  then have "take_bit 32 (sint ?x) = sint ?x" using assms(1) by (intro take_bit_int_eq_self) simp_all
  then have "uint ?x = sint ?x" using uint_sint [of ?x] by simp
  moreover have "sint w = uint w" using w by (intro sint_eq_uint_small) simp
  ultimately show ?thesis using u by simp
qed

lemma supersede_kept:
  assumes "supersede cfg g su p i j st = Inr st'" "table_ok st" "i < length (tcbtab st)" "j < length (tcbtab st)" "i \<noteq> j"
    and "pid (the_blk st i) = p" "pid (the_blk st j) \<noteq> 0"
  shows "table_kept st st'"
proof -
  define s1 where "s1 = (if unfinished_line (the_blk st j)
      then upd_blk j (tprint [Out_note '' <pid changed ...>'', Out_newline]) st else st)"
  define s2 where "s2 = swap_output i j s1"
  define s3 where "s3 = upd_blk j (\<lambda>t. t\<lparr>pid := p\<rparr>) (droptcb cfg g su i s2)"
  have "same_table st s1" by (simp add: s1_def same_table_upd printing_pid)
  then have t2: "same_table st s2" using same_table_trans [OF _ swap_output_table] by (simp add: s2_def)
  then have sl: "slots s2 = slots st" "length (tcbtab s2) = length (tcbtab st)" by (simp_all add: same_table_def same_table_length)
  have pids: "pid (the_blk s2 i) = p" "pid (the_blk s2 j) \<noteq> 0"
    using assms(3,4,6,7) nth_slots [of i st] nth_slots [of j st] nth_slots [of i s2] nth_slots [of j s2] sl by simp_all
  have "table_kept s2 s3"
    unfolding s3_def using same_table_ok [OF t2 assms(2)] assms(3-5) pids by (intro rename_kept) (simp_all add: sl)
  with t2 have k: "table_kept st s3" by (rule same_kept)
  define s4 where "s4 = upd_sess (\<lambda>s. if printing_tcp s = Some (pid (the_blk st j)) then s\<lparr>printing_tcp := Some p\<rparr> else s) s3"
  have k: "table_kept st s4" using kept_same [OF k same_table_upd(2)] by (simp add: s4_def)
  have pr: "same_table s4 v" if "print_proc j (\<lambda>s. line_ended (print_out xs (printleader s))) s4 = Inr v" for v xs
    using that by (rule same_table_print) (simp add: session_pid)
  have fin: "same_table v (upd_blk j (raise_flag TCB_REPRINT) (if b then upd_blk j strace_open_memstream v else v))" for v b
    using same_table_trans [OF same_table_upd(1) same_table_upd(1)] by (simp add: same_table_upd(1) printing_pid)
  from assms(1) have "(if cflag (opts su) = CFLAG_ONLY_STATS then Inr s4
      else obind (if quiet g QUIET_THREAD_EXECVE then Inr s4
                  else print_proc j (\<lambda>s. line_ended (print_out [Out_note ''+++ superseded by execve +++'', Out_newline] (printleader s))) s4)
        (\<lambda>st. Inr (upd_blk j (raise_flag TCB_REPRINT) (if status_filtering g then upd_blk j strace_open_memstream st else st)))) = Inr st'"
    unfolding supersede_def Let_def s1_def [symmetric] s2_def [symmetric] s3_def [symmetric] s4_def [symmetric] .
  then have "same_table s4 st'"
    using fin [of s4] same_table_trans [OF pr fin] by (fastforce simp: obind_eq_Inr split: if_splits)
  with k show ?thesis by (rule kept_same)
qed

lemma switch_kept:
  assumes "maybe_switch_current_tcp cfg g su c st = Inr (r, st')" "table_ok st" "c < length (tcbtab st)"
  shows "table_kept st st' \<and> (\<forall>j. r = Some j \<longrightarrow> j < length (tcbtab st'))"
proof -
  let ?p = "pid (the_blk st c)" and ?old = "msg (tcb_wait_tab st ! wait_data_idx (tcbtab st ! c))"
  obtain q v where v: "pid2tcb (sint (ucast ?old :: u32)) st = (q, v)" by fastforce
  note k = pid2tcb_kept [OF v assms(2)]
  have sw: "table_kept st u \<and> (\<forall>j. r = Some j \<longrightarrow> j < length (tcbtab u))" if "maybe_switch_tcbs cfg g su c ?p st = Inr (r, u)" for r u
  proof (cases "r = None")
    case True
    then show ?thesis
      using that v k(1) assms(2) same_table_kept [OF same_table_refl]
      by (auto simp: maybe_switch_tcbs_def Let_def obind_eq_Inr split: if_splits option.splits)
  next
    case False
    with that v obtain j where j: "q = Some j" "r = Some j" "supersede cfg g su ?p c j v = Inr u" "0 < sint ?old" "sint ?old \<noteq> ?p"
      "unat ?old \<le> 2 ^ 32 - 1"
      by (auto simp: maybe_switch_tcbs_def Let_def obind_eq_Inr split: if_splits option.splits)
    have pj: "j < length (tcbtab st)" "pid (the_blk st j) = sint (ucast ?old :: u32)" "0 < sint (ucast ?old :: u32)"
      using k(3) [OF j(1)] by simp_all
    have "c \<noteq> j" using j(5) pj(2) sint_low32 [OF pj(3) j(6)] by auto
    moreover have "the_blk v x = the_blk st x" for x by (simp add: the_blk_def k(5))
    ultimately have "table_kept v u"
      using supersede_kept [OF j(3)] k(1,5) assms(3) pj by (simp add: table_kept_def)
    with k(1) have "table_kept st u" by (rule table_kept_trans)
    then show ?thesis using j(2) pj(1) by (simp add: table_kept_def)
  qed
  from assms(1) obtain r1 u where u: "maybe_switch_tcbs cfg g su c ?p st = Inr (r1, u)"
    "r1 = None \<and> st' = u \<and> r = None \<or> (\<exists>j. r1 = Some j \<and> r = Some j \<and> set_current_tcp cfg (Some j) u = Inr st')"
    by (auto simp: maybe_switch_current_tcp_def obind_eq_Inr split: option.splits)
  from sw [OF u(1)] u(2) show ?thesis
    using same_table_current [of cfg _ u st'] kept_same [of st u st'] same_table_length [of u st'] by auto
qed

section \<open>Dispatching keeps the table\<close>

lemma execve_stop_kept:
  assumes "execve_stop cfg g su dc a wd c op st = Inr (go, st')" "table_ok st" "c < length (tcbtab st)"
  shows "table_kept st st'"
proof -
  let ?st = "upd_blk c (drop_flag TCB_CHECK_EXEC_SYSCALL) st"
  have s0: "same_table st ?st" by (rule same_table_upd(1)) (rule printing_pid(3))
  from assms(1) obtain r u where u: "maybe_switch_current_tcp cfg g su c ?st = Inr (r, u)" by (auto simp: execve_stop_def obind_eq_Inr)
  define d where "d = (case r of None \<Rightarrow> c | Some j \<Rightarrow> j)"
  have sw: "table_kept ?st u \<and> (\<forall>j. r = Some j \<longrightarrow> j < length (tcbtab u))"
    using switch_kept [OF u same_table_ok [OF s0 assms(2)]] assms(3) by simp
  then have k: "table_kept st u" "d < length (tcbtab u)"
    using same_kept [OF s0] assms(3) by (auto simp: d_def table_kept_def split: option.splits)
  from assms(1) u obtain res sig v where
    v: "(if r = None \<and> entering (the_blk u d)
         then obind (handle_syscall cfg g su dc a d (upd_blk d (raise_flag TCB_RECOVERING) (say ''Stray PTRACE_EVENT_EXEC'' u)))
                (\<lambda>(res, sig, st). Inr (res, sig, upd_blk d (drop_flag TCB_RECOVERING) st))
         else Inr (0, 0, u)) = Inr (res, sig, v)"
    and rest: "(if res < 0 then Inr (True, v)
        else if detach_on_execve su \<and> \<not> has (the_blk v d) TCB_SKIP_DETACH_ON_FIRST_EXEC
        then obind (detach cfg g su a d v) (\<lambda>st. Inr (True, st))
        else finish_event a wd d op sig (if detach_on_execve su then upd_blk d (drop_flag TCB_SKIP_DETACH_ON_FIRST_EXEC) v else v))
       = Inr (go, st')"
    unfolding execve_stop_def u obind_simps prod.case Let_def d_def [symmetric] obind_eq_Inr [of "if _ then _ else _"]
    by (elim exE conjE) (simp only: split: prod.splits)
  have rec: "same_table u (upd_blk d (raise_flag TCB_RECOVERING) (say m u))" for m
    by (rule same_table_trans [OF same_table_upd(3) same_table_upd(1)]) (rule printing_pid(2))
  have fin: "same_table b (upd_blk d (drop_flag TCB_RECOVERING) b)" for b by (rule same_table_upd(1)) (rule printing_pid(3))
  have "same_table u v"
    using v by (auto simp: obind_eq_Inr split: if_splits
        intro: same_table_trans [OF same_table_trans [OF rec same_table_handle] fin])
  then have kv: "table_kept st v" "d < length (tcbtab v)" using kept_same [OF k(1)] k(2) same_table_length by simp_all
  have "table_kept v st'" if "detach cfg g su a d v = Inr st'" using detach_kept [OF that] kv by (simp add: table_kept_def)
  moreover have "same_table v (upd_blk d (drop_flag TCB_SKIP_DETACH_ON_FIRST_EXEC) v)" by (rule same_table_upd(1)) (rule printing_pid(3))
  ultimately show ?thesis
    using rest kv(1) table_kept_trans [OF kv(1)] kept_same [OF kv(1) same_table_finish]
      kept_same [OF kv(1) same_table_trans [OF _ same_table_finish]]
    by (auto simp: obind_eq_Inr split: if_splits)
qed

lemma dispatch_kept:
  assumes "dispatch_current cfg g su dc a wd c st = Inr (go, st')" "table_ok st" "c < length (tcbtab st)"
  shows "table_kept st st'"
proof -
  note same = same_table_kept [OF _ assms(2)]
  have drop: "table_kept st (droptcb cfg g su c u)" if "same_table st u" for u
    using same_kept [OF that droptcb_kept [OF same_table_ok [OF that assms(2)]]] assms(3) same_table_length [OF that] by simp
  note fin = same [OF same_table_trans [OF _ same_table_finish]]
  have sec: "same_table st (upd_blk c (raise_flag TCB_SECCOMP_FILTER) st)" by (rule same_table_upd(1)) (rule printing_pid(2))
  show ?thesis
  proof (cases "te wd = TE_STOP_BEFORE_EXECVE")
    case True
    with assms show ?thesis by (auto simp: dispatch_current_def Let_def intro: execve_stop_kept)
  next
    case False
    with assms(1) show ?thesis
      by (auto simp: dispatch_current_def Let_def obind_eq_Inr split: trace_event.splits if_splits
          intro: same [OF same_table_finish] same [OF same_table_syscall_stop] fin [OF sec]
            drop [OF same_table_prints(2)] drop [OF same_table_prints(3)]
            fin [OF same_table_prints(1)] fin [OF same_table_event_exit [OF _ assms(3)]])
  qed
qed

lemma dispatch_event_kept:
  assumes "dispatch_event cfg g su dc a wd st = Inr (go, st')" "table_ok st"
  shows "table_kept st st'"
proof -
  have "c < length (tcbtab st)" if "current_tcp st = Some c" for c
    using that assms(2) by (simp add: table_ok_def pointers_def)
  then show ?thesis
    using assms dispatch_kept same_table_kept [OF same_table_refl]
    by (auto simp: dispatch_event_def split: option.splits if_splits)
qed

lemma restart_delayed_kept:
  assumes "restart_delayed_tcb cfg g su dc a i st = Inr (ret, st')" "table_ok st" "i < length (tcbtab st)"
  shows "table_kept st st'"
proof -
  define u where "u = (case delayed_wait_data (tcbtab st ! i) of Some _ \<Rightarrow> st | None \<Rightarrow> say ''No delayed wait data found'' st)"
  define v where "v = (upd_blk i (drop_flag TCB_DELAYED) u)\<lparr>current_tcp := Some i\<rparr>"
  have su: "same_table st u" by (simp add: u_def same_table_upd split: option.splits)
  have cu: "current_tcp u = current_tcp st" by (simp add: u_def split: option.splits)
  have "same_table st (upd_blk i (drop_flag TCB_DELAYED) u)"
    by (rule same_table_trans [OF su same_table_upd(1)]) (rule printing_pid(3))
  then have sv: "same_table st v" using assms(3) by (auto simp: same_table_def v_def slots_def)
  from assms(1) obtain wd w where w: "dispatch_event cfg g su dc a wd v = Inr (ret, w)"
    "st' = upd_proc i (\<lambda>p. p\<lparr>delayed_wait_data := None\<rparr>) (w\<lparr>current_tcp := current_tcp st\<rparr>)"
    by (auto simp: restart_delayed_tcb_def Let_def obind_eq_Inr v_def u_def split: option.splits)
  have kw: "table_kept st w" using same_kept [OF sv dispatch_event_kept [OF w(1) same_table_ok [OF sv assms(2)]]] .
  moreover have "\<forall>j \<in> set_option (current_tcp st). j < length (tcbtab w)"
    using kw assms(2) by (force simp: table_kept_def table_ok_def pointers_def)
  then have "same_table w (w\<lparr>current_tcp := current_tcp st\<rparr>)" by (simp add: same_table_def slots_def)
  ultimately show ?thesis unfolding w(2) by (blast intro: kept_same same_table_upd(11))
qed

lemma restart_loop_kept:
  "restart_loop cfg g su dc a is n st = Inr (ok, n', st') \<Longrightarrow> table_ok st \<Longrightarrow> \<forall>i \<in> set is. i < length (tcbtab st) \<Longrightarrow> table_kept st st'"
proof (induction "is" arbitrary: n st)
  case Nil
  then show ?case using same_table_kept [OF same_table_refl] by simp
next
  case (Cons i "is")
  have ih: "table_kept st st'" if "restart_loop cfg g su dc a is m st = Inr (ok, n', st')" for m
    using Cons.IH [OF that] Cons.prems(2,3) by simp
  show ?case
  proof (cases "pid (the_blk st i) \<noteq> 0 \<and> syscall_delayed (the_blk st i)
      \<and> ts_cmp (c_now (a_clock a)) (delay_expiration_time (the_blk st i)) > 0")
    case True
    then obtain ret u where u: "restart_delayed_tcb cfg g su dc a i st = Inr (ret, u)"
      "if ret then restart_loop cfg g su dc a is n u = Inr (ok, n', st') else st' = u"
      using Cons.prems(1) by (auto simp: Let_def obind_eq_Inr split: if_splits)
    have k: "table_kept st u" using restart_delayed_kept [OF u(1)] Cons.prems(2,3) by simp
    then have "\<forall>i \<in> set is. i < length (tcbtab u)" "table_ok u" using Cons.prems(3) by (auto simp: table_kept_def)
    then have "table_kept u st'" if ret using that u(2) Cons.IH [of n u] by simp
    with k u(2) show ?thesis using table_kept_trans by (cases ret) auto
  next
    case False
    then have "\<exists>m. restart_loop cfg g su dc a is m st = Inr (ok, n', st')"
      using Cons.prems(1) by (auto simp: Let_def split: if_splits)
    with ih show ?thesis by blast
  qed
qed

lemma timer_kept:
  assumes "timer_sighandler cfg g su dc a st = Inr st'" "table_ok st"
  shows "table_kept st st'"
proof -
  let ?u = "upd_sess (\<lambda>s. s\<lparr>tam := delay_timer_expired (tam s)\<rparr>) st"
  have ok: "table_ok ?u" using same_table_ok [OF same_table_upd(2) assms(2)] .
  have k: "table_kept ?u v" if "restart_delayed_tcbs cfg g su dc a ?u = Inr (b, v)" for b v
  proof -
    from that obtain x n w where l: "restart_loop cfg g su dc a [0..<length (tcbtab ?u)] None ?u = Inr (x, n, w)"
      "v = w \<or> (\<exists>f. v = upd_sess f w)"
      by (auto simp: restart_delayed_tcbs_def obind_eq_Inr split: if_splits option.splits)
    have "table_kept ?u w" using restart_loop_kept [OF l(1) ok] by simp
    with l(2) show ?thesis using kept_same [OF _ same_table_upd(2)] by blast
  qed
  have "table_kept ?u st'"
    using assms(1) k same_table_kept [OF same_table_refl ok] kept_same [OF _ same_table_upd(9)]
    by (fastforce simp: timer_sighandler_def Let_def obind_eq_Inr split: if_splits)
  then show ?thesis using same_kept [OF same_table_upd(2)] by blast
qed

section \<open>Allocation\<close>

lemma expand_slots:
  assumes "expand_tcbtab cfg st = Inr st'" "table_ok st"
  shows "\<exists>n. slots st' = slots st @ replicate (Suc n) 0" "length (tcbtab st') < 2 ^ 64"
    "st' = st\<lparr>tcbtab := tcbtab st'\<rparr>"
proof -
  let ?old = "length (tcbtab st)"
  from assms(1) obtain new where new: "xgrowarray (?old = 0) (of_nat ?old) 8 = Inr new"
    and st': "st' = st\<lparr>tcbtab := tcbtab st @ replicate (unat new - ?old) (zero_proc cfg)\<rparr>"
    by (auto simp: expand_tcbtab_def Let_def obind_eq_Inr)
  have lt: "?old < 2 ^ 64" using assms(2) by (simp add: table_ok_def)
  have gr: "?old < unat new"
  proof (cases "?old = 0")
    case True
    with new show ?thesis
      by (auto simp: xgrowarray_def Let_def obind_eq_Inr ROUNDUP_DIV_def DEFAULT_ALLOC_SIZE_def split: if_splits)
  next
    case False
    have "unat (of_nat ?old :: u64) = ?old" using lt by (simp add: unat_of_nat)
    with False new xgrowarray_step [of "of_nat ?old" 8 new] show ?thesis by simp
  qed
  have z: "ppid (zero_proc cfg) = 0" by (simp add: zero_proc_def zero_tcb_def)
  have "unat new - ?old = Suc (unat new - ?old - 1)" using gr by simp
  then have "slots st' = slots st @ replicate (Suc (unat new - ?old - 1)) 0"
    unfolding st' slots_def by (simp add: z del: replicate.simps)
  then show "\<exists>n. slots st' = slots st @ replicate (Suc n) 0" by blast
  show "length (tcbtab st') < 2 ^ 64" using gr unsigned_less [of new] by (simp add: st')
  show "st' = st\<lparr>tcbtab := tcbtab st'\<rparr>" by (simp add: st')
qed

lemma expand_kept:
  assumes "expand_tcbtab cfg st = Inr st'" "table_ok st"
  shows "table_kept st st'" "nprocs st' < length (tcbtab st')"
proof -
  obtain n where n: "slots st' = slots st @ replicate (Suc n) 0" using expand_slots(1) [OF assms] by blast
  note e = expand_slots(2,3) [OF assms]
  obtain t where "st' = st\<lparr>tcbtab := t\<rparr>" using e(2) by blast
  then have same: "nprocs st' = nprocs st" "pointers st' = pointers st" by (simp_all add: pointers_def)
  have len: "length (tcbtab st') = length (tcbtab st) + Suc n" using arg_cong [OF n, of length] by simp
  then show "nprocs st' < length (tcbtab st')" using same assms(2) by (simp add: table_ok_def)
  have "in_use (slots st') = in_use (slots st)" by (simp add: n in_use_def)
  moreover have "unique_pids (slots st')"
    using assms(2) by (auto simp: n table_ok_def unique_pids_def nth_append nth_Cons split: nat.splits if_splits)
  ultimately show "table_kept st st'" using assms(2) e(1) len same by (auto simp: table_kept_def table_ok_def)
qed

lemma free_slot: "in_use ps < length ps \<Longrightarrow> \<exists>i < length ps. ps ! i = 0"
proof (rule ccontr)
  assume "in_use ps < length ps" "\<not> (\<exists>i < length ps. ps ! i = 0)"
  moreover from this(2) have "filter (\<lambda>p. p \<noteq> 0) ps = ps" by (auto simp: filter_id_conv in_set_conv_nth)
  ultimately show False by (simp add: in_use_def)
qed

text \<open>An allocation takes a free control block, in the table or behind its end.\<close>

lemma alloctcb_table:
  assumes "table_ok st" "\<forall>j < length (tcbtab st). pid (the_blk st j) \<noteq> p" "p \<noteq> 0"
  shows "alloctcb cfg g p st = Inl Out_of_memory
    \<or> (\<exists>i st' u. alloctcb cfg g p st = Inr (i, st') \<and> table_kept st st' \<and> i < length (tcbtab st')
        \<and> slots st' = (slots u)[i := p] \<and> slots u ! i = 0 \<and> (\<exists>n. slots u = slots st @ replicate n 0))"
proof (cases "if nprocs st = length (tcbtab st) then expand_tcbtab cfg st else Inr st")
  case (Inl e)
  then have "e = Out_of_memory"
    by (auto simp: expand_tcbtab_def xgrowarray_def xreallocarray_eq Let_def obind_def split: if_splits sum.splits)
  with Inl show ?thesis by (simp add: alloctcb_def)
next
  case (Inr u)
  have u: "table_kept st u" "nprocs u < length (tcbtab u)" "\<exists>n. slots u = slots st @ replicate n 0"
  proof -
    show "table_kept st u" using Inr expand_kept(1) assms(1) same_table_kept [OF same_table_refl] by (auto split: if_splits)
    have "nprocs st \<le> length (tcbtab st)" using assms(1) by (simp add: table_ok_def)
    then show "nprocs u < length (tcbtab u)" using Inr expand_kept(2) [OF _ assms(1)] by (auto split: if_splits)
    show "\<exists>n. slots u = slots st @ replicate n 0"
    proof (cases "nprocs st = length (tcbtab st)")
      case True
      then have "expand_tcbtab cfg st = Inr u" using Inr by simp
      from expand_slots(1) [OF this assms(1)] show ?thesis by blast
    next
      case False
      then have "slots u = slots st @ replicate 0 0" using Inr by simp
      then show ?thesis by blast
    qed
  qed
  have ok: "table_ok u" using u(1) by (simp add: table_kept_def)
  then have "\<exists>i < length (tcbtab u). slots u ! i = 0" using free_slot [of "slots u"] u(2) by (simp add: table_ok_def)
  then have "find_pid 0 (tcbtab u) \<noteq> None" by (auto simp: find_pid_None slots_def)
  then obtain i where f: "find_pid 0 (tcbtab u) = Some i" by blast
  then have i: "i < length (tcbtab u)" "slots u ! i = 0" by (auto simp: find_pid_Some slots_def)
  define st' where "st' = snd (the (case alloctcb cfg g p st of Inr x \<Rightarrow> Some x | Inl _ \<Rightarrow> None))"
  have a: "alloctcb cfg g p st = Inr (i, st')" by (simp add: st'_def alloctcb_def Inr f Let_def)
  have same: "nprocs st' = Suc (nprocs u)" "pointers st' = pointers u" "length (tcbtab st') = length (tcbtab u)"
    by (simp_all add: st'_def alloctcb_def Inr f Let_def load_comm_def pointers_def)
  have nz: "slots u ! j \<noteq> p" if "j < length (tcbtab u)" for j
  proof -
    obtain n where n: "slots u = slots st @ replicate n 0" using u(3) by blast
    have "j < length (slots st) + n" using that arg_cong [OF n, of length] by simp
    then show ?thesis using assms(2,3) by (cases "j < length (slots st)") (simp_all add: n nth_append nth_slots)
  qed
  have s: "slots st' = (slots u)[i := p]"
    using i(1)
    by (simp add: st'_def alloctcb_def Inr f Let_def load_comm_def upd_blk_def slots_def upd_proc_def upd_sess_def map_update)
  have "unique_pids (slots st')" using unique_update [of "slots u" p i] ok nz by (simp add: s table_ok_def)
  moreover have "in_use (slots st') \<le> nprocs st'"
    using in_use_update [of i "slots u" p] i ok assms(3) by (simp add: s same table_ok_def)
  ultimately have "table_ok st'" using ok u(2) same by (simp add: table_ok_def)
  then have "table_kept st st'" using u(1) same by (simp add: table_kept_def)
  with a s i u(3) same(3) show ?thesis by auto
qed

section \<open>The main loop keeps the table\<close>

definition reports_ok :: "wait_answer list \<Rightarrow> bool" where
  "reports_ok ws \<longleftrightarrow> (\<forall>w \<in> set ws. case w of Wait_pid p _ _ _ _ \<Rightarrow> 0 < p | _ \<Rightarrow> True)"

lemma attach_kept: "same_table st (after_successful_attach f i st)"
  by (simp add: after_successful_attach_def same_table_def slots_same printing_pid)

lemma allocate_kept:
  assumes "maybe_allocate_tcb cfg g su a p status st = Inr (r, st')" "table_ok st"
    and "\<forall>j < length (tcbtab st). pid (the_blk st j) \<noteq> p" "0 < p"
  shows "table_kept st st' \<and> (\<forall>i. r = Some i \<longrightarrow> i < length (tcbtab st'))"
proof -
  note k0 = same_table_kept [OF _ assms(2)]
  have q: "same_table st (st\<lparr>requests := x\<rparr>)" for x by (simp add: same_table_def slots_def)
  consider (none) "r = None" "same_table st st'"
    | (new) i u where "alloctcb cfg g p st = Inr (i, u)" "r = Some i"
        "st' = after_successful_attach (post_attach_sigstop su) i u \<or> (\<exists>m. st' = say m (after_successful_attach (post_attach_sigstop su) i u))"
  proof (cases "WIFSTOPPED status \<and> followfork su")
    case True
    with assms(1) new show ?thesis by (auto simp: maybe_allocate_tcb_def Let_def obind_eq_Inr split: if_splits)
  next
    case False
    with assms(1) have "r = None" "same_table st st'"
      by (auto simp: maybe_allocate_tcb_def Let_def ask_def same_table_upd split: if_splits
          intro: q same_table_trans [OF q same_table_upd(3)])
    then show ?thesis by (rule none)
  qed
  then show ?thesis
  proof cases
    case none
    then show ?thesis using k0 by simp
  next
    case (new i u)
    have u: "table_kept st u" "i < length (tcbtab u)"
      using alloctcb_table [OF assms(2,3), of cfg g] assms(4) new(1) by auto
    have "same_table u st'" using new(3) attach_kept same_table_trans [OF attach_kept same_table_upd(3)] by blast
    then show ?thesis using kept_same [OF u(1)] u(2) new(2) same_table_length by auto
  qed
qed

lemma queue_kept:
  assumes "table_ok st" "i < length (tcbtab st)"
  shows "table_kept st (queue_event i wd pos st)"
proof -
  have "length (tcbtab (queue_event i wd pos st)) = length (tcbtab st)" "nprocs (queue_event i wd pos st) = nprocs st"
    by (simp_all add: queue_event_def Let_def)
  moreover have "slots (queue_event i wd pos st) = slots st"
  proof -
    have "slots (u\<lparr>wait_extra_data_idx := k, extra_tcp := e\<rparr>) = slots u" "slots (u\<lparr>pending_tcps := q\<rparr>) = slots u"
      "slots (u\<lparr>tcb_wait_tab := t\<rparr>) = slots u" "slots (say n u) = slots u" for u k e q t n by (simp_all add: slots_def)
    then show ?thesis by (simp add: queue_event_def Let_def slots_same)
  qed
  moreover have "pointers (queue_event i wd pos st) \<subseteq> insert i (pointers st)"
    by (auto simp: queue_event_def Let_def pointers_def)
  ultimately show ?thesis using assms by (auto simp: table_kept_def table_ok_def)
qed

lemma note_status_kept:
  assumes "note_status cfg g su a pos p status ru info m st = Inr (b, st')" "table_ok st" "0 < p"
  shows "table_kept st st'"
proof -
  obtain r u where u: "pid2tcb p st = (r, u)" by fastforce
  note k = pid2tcb_kept [OF u assms(2)]
  have uok: "table_ok u" "length (tcbtab u) = length (tcbtab st)" using k(1,5) by (simp_all add: table_kept_def)
  define after :: "nat option \<times> strace \<Rightarrow> (bool \<times> strace) outcome" where "after = (\<lambda>(which, v). case which of None \<Rightarrow> Inr (False, v)
      | Some i \<Rightarrow>
          let st = (if cflag (opts su) \<noteq> CFLAG_NONE then upd_blk i (\<lambda>t. t\<lparr>stime := ru\<rparr>) v else v);
              wd = wait_data_of su (the_blk st i) status info m;
              st = (if ignored_sigstop (the_blk st i) status then upd_blk i (drop_flag TCB_IGNORE_ONE_SIGSTOP) st else st)
          in Inr (True, queue_event i wd pos st))"
  have "obind (case r of Some i \<Rightarrow> Inr (Some i, u) | None \<Rightarrow> maybe_allocate_tcb cfg g su a p status u) after = Inr (b, st')"
    using assms(1) unfolding note_status_def u prod.case after_def .
  then obtain which v where v: "(case r of Some i \<Rightarrow> Inr (Some i, u) | None \<Rightarrow> maybe_allocate_tcb cfg g su a p status u) = Inr (which, v)"
    and rest: "after (which, v) = Inr (b, st')" by (auto simp: obind_eq_Inr)
  have st': "which = None \<and> st' = v \<or> (\<exists>i wd w. which = Some i \<and> st' = queue_event i wd pos w \<and> same_table v w)"
  proof (cases which)
    case (Some i)
    define x where "x = (if cflag (opts su) \<noteq> CFLAG_NONE then upd_blk i (\<lambda>t. t\<lparr>stime := ru\<rparr>) v else v)"
    define w where "w = (if ignored_sigstop (the_blk x i) status then upd_blk i (drop_flag TCB_IGNORE_ONE_SIGSTOP) x else x)"
    have "same_table v x" "same_table x w" by (simp_all add: x_def w_def same_table_upd(1) printing_pid)
    then have "same_table v w" by (rule same_table_trans)
    moreover have "st' = queue_event i (wait_data_of su (the_blk x i) status info m) pos w"
      using rest unfolding after_def prod.case Some option.case Let_def x_def [symmetric] w_def [symmetric] by simp
    ultimately show ?thesis using Some by blast
  qed (use rest in \<open>simp add: after_def\<close>)
  have kv: "table_kept u v \<and> (\<forall>i. which = Some i \<longrightarrow> i < length (tcbtab v))"
  proof (cases r)
    case None
    then have "\<forall>j < length (tcbtab u). pid (the_blk u j) \<noteq> p" using k(4) [OF None assms(3)] by (simp add: the_blk_def k(5))
    with None v show ?thesis using allocate_kept [OF _ uok(1) _ assms(3)] by simp
  next
    case (Some j)
    with v k(3) [OF Some] uok show ?thesis using same_table_kept [OF same_table_refl uok(1)] by auto
  qed
  then have sv: "table_kept st v" using table_kept_trans [OF k(1)] by blast
  from st' show ?thesis
  proof (elim disjE exE conjE)
    fix i wd w
    assume w: "which = Some i" "st' = queue_event i wd pos w" "same_table v w"
    have kw: "table_kept st w" using sv w(3) by (rule kept_same)
    have "i < length (tcbtab w)" using kv w(1,3) same_table_length by simp
    then have "table_kept w st'" using kw queue_kept w(2) by (simp add: table_kept_def)
    with kw show ?thesis by (rule table_kept_trans)
  qed (use sv in simp)
qed

lemma collect_kept:
  "collect cfg g su a nohang ws pos st = Inr (b, st') \<Longrightarrow> table_ok st \<Longrightarrow> reports_ok ws \<Longrightarrow> table_kept st st'"
proof (induction ws arbitrary: nohang pos st)
  case Nil
  then show ?case by (auto simp: wait_failed_def split: if_splits intro: same_table_kept [OF same_table_refl])
next
  case (Cons w ws)
  show ?case
  proof (cases w)
    case (Wait_pid p status ru info m)
    have p: "0 < p" "reports_ok ws" using Cons.prems(3) by (simp_all add: reports_ok_def Wait_pid)
    show ?thesis
    proof (cases "p = popen_pid st")
      case True
      with Cons.prems show ?thesis
        using same_table_kept [OF same_table_refl] same_table_kept [OF same_table_upd(8)] by (auto simp: Wait_pid split: if_splits)
    next
      case False
      from Cons.prems(1) False obtain q u where u: "note_status cfg g su a pos p status ru info m st = Inr (q, u)"
        "if extra_tcp u \<noteq> None then st' = u else collect cfg g su a True ws (if q then pos + 1 else pos) u = Inr (b, st')"
        by (auto simp: obind_eq_Inr Wait_pid split: if_splits)
      have k: "table_kept st u" using note_status_kept [OF u(1) Cons.prems(2) p(1)] .
      then have "table_kept u st'" if "extra_tcp u = None"
        using Cons.IH [OF _ _ p(2)] u(2) that by (simp add: table_kept_def)
      with k u(2) show ?thesis using table_kept_trans by (cases "extra_tcp u = None") auto
    qed
  qed (use Cons.prems in \<open>auto simp: wait_failed_def split: if_splits intro: same_table_kept [OF same_table_refl]\<close>)
qed

lemma same_table_startup:
  assumes "startup_tcb cfg g su a i st = Inr st'"
  shows "same_table st st'"
proof -
  let ?b = "upd_blk i (drop_flag TCB_STARTUP) st"
  obtain err s1 where s1: "(if use_seize su then (0, ?b) else ask a (Setoptions (pid (the_blk ?b i)) (ptrace_setoptions su)) ?b) = (err, s1)"
    by fastforce
  have b: "same_table st ?b" by (rule same_table_upd(1)) (rule printing_pid(3))
  have "s1 = ?b \<or> (\<exists>r. s1 = snd (ask a r ?b))" using s1 by (auto simp: ask_def split: if_splits)
  then have 1: "same_table st s1" using b same_table_trans [OF b same_table_upd(4)] by blast
  define m where "m = on_tracer (get_scno cfg g (ptrace_get_syscall_info_supported (opts su)) (a_kernel a)) (load i s1)"
  have pm: "pid (cur_tcb s) = pid (the_blk s1 i)" if "m = Inr (r, s)" for r s
    using that by (auto simp: m_def on_tracer_def obind_eq_Inr upd_tracer_def upd_tr_def dest!: get_scno_pid)
  have st: "same_table s1 (if r = (1 :: int) then upd_blk i (\<lambda>t. t\<lparr>s_prev_ent := s_ent t\<rparr>) (store i s s1) else store i s s1)"
    if "m = Inr (r, s)" for r s
    using same_table_upd(14) [OF pm [OF that]] same_table_trans [OF same_table_upd(14) [OF pm [OF that]] same_table_upd(1)] by simp
  define fin where "fin = (\<lambda>st. if cflag (opts su) \<noteq> CFLAG_NONE then upd_proc i (\<lambda>p. p\<lparr>atime := stime (blk p)\<rparr>) st else st)"
  have fin: "same_table u (fin u)" for u using same_table_upd(13) [of u i stime] by (simp add: fin_def)
  from assms have "obind (if has (the_blk s1 i) TCB_GRABBED
      then obind m (\<lambda>(r, s). let st = store i s s1 in Inr (if r = 1 then upd_blk i (\<lambda>t. t\<lparr>s_prev_ent := s_ent t\<rparr>) st else st))
      else Inr s1) (\<lambda>st. Inr (fin st)) = Inr st'"
    unfolding startup_tcb_def Let_def s1 prod.case m_def fin_def by (metis sum.distinct(1))
  then obtain u where u: "u = s1 \<or> (\<exists>r s. m = Inr (r, s) \<and> u = (if r = 1 then upd_blk i (\<lambda>t. t\<lparr>s_prev_ent := s_ent t\<rparr>) (store i s s1) else store i s s1))"
    "st' = fin u"
    by (cases "has (the_blk s1 i) TCB_GRABBED") (auto simp: obind_eq_Inr Let_def)
  have "same_table s1 u" using u(1) st by auto
  from same_table_trans [OF same_table_trans [OF 1 this] fin] show ?thesis by (simp add: u(2))
qed

lemma hand_out_kept:
  assumes "hand_out cfg g su a i st = Inr (wd, st')" "table_ok st" "i < length (tcbtab st)"
  shows "table_kept st st'"
proof -
  from assms(1) obtain u where u: "u = st \<or> startup_tcb cfg g su a i st = Inr u"
    and v: "set_current_tcp cfg (Some i) (upd_sess (upd_tracer clear_regs) u) = Inr st'"
    by (auto simp: hand_out_def obind_eq_Inr Let_def split: if_splits)
  have su: "same_table st u" using u same_table_startup same_table_refl by blast
  then have "i < length (tcbtab (upd_sess (upd_tracer clear_regs) u))" using assms(3) same_table_length by simp
  with v have "same_table (upd_sess (upd_tracer clear_regs) u) st'" by (rule same_table_current)
  with su same_table_upd(2) have "same_table st st'" by (metis same_table_trans)
  then show ?thesis using assms(2) by (rule same_table_kept)
qed

text \<open>Taking a process from the queue leaves fewer pointers.\<close>

lemma fewer_pointers:
  "slots st' = slots st \<Longrightarrow> nprocs st' = nprocs st \<Longrightarrow> pointers st' \<subseteq> pointers st \<Longrightarrow> table_ok st \<Longrightarrow> table_kept st st'"
  using length_slots [of st] length_slots [of st'] by (auto simp: table_kept_def table_ok_def)

lemma next_pending_kept:
  assumes "next_pending cfg g su a st = Inr (wd, st')" "table_ok st"
  shows "table_kept st st'"
proof (cases "pending_tcps st")
  case Nil
  with assms show ?thesis using same_table_kept [OF same_table_upd(15)] by (auto simp: next_pending_def Let_def)
next
  case (Cons i "is")
  have k: "table_kept st (st\<lparr>pending_tcps := is\<rparr>)"
    using assms(2) by (intro fewer_pointers) (auto simp: slots_def pointers_def Cons)
  have "i < length (tcbtab st)" using assms(2) Cons by (simp add: table_ok_def pointers_def)
  with assms(1) Cons k have "table_kept (st\<lparr>pending_tcps := is\<rparr>) st'"
    by (auto simp: next_pending_def table_kept_def dest!: hand_out_kept)
  with k show ?thesis by (rule table_kept_trans)
qed

lemma wait_events_kept:
  assumes "wait_events cfg g su dc r st = Inr (wd, st')" "table_ok st" "reports_ok (waits r)"
  shows "table_kept st st'"
proof -
  from assms(1) obtain u where u: "u = st \<or> (\<exists>a. timer_sighandler cfg g su dc a st = Inr u)"
    and rest: "st' = u \<or> (\<exists>go v. collect cfg g su (ans r) False (waits r) 0 u = Inr (go, v)
        \<and> (st' = v \<or> next_pending cfg g su (ans r) v = Inr (wd, st')))"
    by (auto simp: wait_events_def Let_def obind_eq_Inr split: if_splits option.splits)
  have k: "table_kept st u" using u timer_kept [OF _ assms(2)] same_table_kept [OF same_table_refl assms(2)] by blast
  then have ok: "table_ok u" by (simp add: table_kept_def)
  from rest have "table_kept u st'"
  proof (elim disjE exE conjE)
    fix go v
    assume "collect cfg g su (ans r) False (waits r) 0 u = Inr (go, v)" "next_pending cfg g su (ans r) v = Inr (wd, st')"
    then show ?thesis using collect_kept [OF _ ok assms(3)] next_pending_kept table_kept_trans by (metis table_kept_def)
  qed (use same_table_kept [OF same_table_refl ok] collect_kept [OF _ ok assms(3)] in auto)
  with k show ?thesis by (rule table_kept_trans)
qed

lemma next_event_kept:
  assumes "next_event cfg g su dc r st = Inr (wd, st')" "table_ok st" "reports_ok (waits r)"
  shows "table_kept st st'"
proof -
  let ?u = "st\<lparr>umove := invalidate_umove_cache (umove st)\<rparr>"
  have u: "same_table st ?u" by (rule same_table_upd(10))
  note ok = same_table_ok [OF u assms(2)]
  have x: "table_kept ?u st'"
    if "extra_tcp st = Some i" "hand_out cfg g su (ans r) i (upd_proc i (\<lambda>p. p\<lparr>wait_data_idx := k\<rparr>) (?u\<lparr>extra_tcp := None\<rparr>)) = Inr (wd, st')" for i k
  proof -
    have "table_kept ?u (?u\<lparr>extra_tcp := None\<rparr>)" using ok by (intro fewer_pointers) (auto simp: slots_def pointers_def)
    then have v: "table_kept ?u (upd_proc i (\<lambda>p. p\<lparr>wait_data_idx := k\<rparr>) (?u\<lparr>extra_tcp := None\<rparr>))"
      by (rule kept_same) (rule same_table_upd(12))
    have "i < length (tcbtab st)" using assms(2) that(1) by (simp add: table_ok_def pointers_def)
    with v have "table_kept (upd_proc i (\<lambda>p. p\<lparr>wait_data_idx := k\<rparr>) (?u\<lparr>extra_tcp := None\<rparr>)) st'"
      by (intro hand_out_kept [OF that(2)]) (simp_all add: table_kept_def)
    with v show ?thesis by (rule table_kept_trans)
  qed
  have lim: "table_kept st (st\<lparr>strace_child := 0\<rparr>)" "table_kept st ((say n st)\<lparr>strace_child := 0\<rparr>)" for n
    using same_table_kept [OF same_table_trans [OF same_table_upd(3) same_table_upd(7)] assms(2)]
      same_table_kept [OF same_table_upd(7) assms(2)] by simp_all
  show ?thesis
  proof (cases "interrupted st \<noteq> 0 \<or> syscall_limit (sess st) = 0")
    case True
    with assms(1,2) lim show ?thesis
      using same_table_kept [OF same_table_refl assms(2)] by (auto simp: next_event_def split: if_splits)
  next
    case False
    then have "table_kept ?u st'"
      using assms(1) next_pending_kept [OF _ ok] wait_events_kept [OF _ ok assms(3)] same_table_kept [OF same_table_refl ok] x
      by (auto simp: next_event_def Let_def split: if_splits option.splits)
    with u show ?thesis by (rule same_kept)
  qed
qed

lemma main_loop_kept:
  "main_loop cfg g su dc rs st = Inr (go, st') \<Longrightarrow> table_ok st \<Longrightarrow> \<forall>r \<in> set rs. reports_ok (waits r) \<Longrightarrow> table_ok st'"
proof (induction rs arbitrary: st)
  case (Cons r rs)
  from Cons.prems(1) obtain wd u b v where n: "next_event cfg g su dc r st = Inr (wd, u)"
    and d: "dispatch_event cfg g su dc (ans r) wd u = Inr (b, v)" and rest: "if b then main_loop cfg g su dc rs v = Inr (go, st') else st' = v"
    by (auto simp: main_round_def obind_eq_Inr split: if_splits)
  have "table_ok u" using next_event_kept [OF n Cons.prems(2)] Cons.prems(3) by (simp add: table_kept_def)
  with dispatch_event_kept [OF d] have "table_ok v" by (simp add: table_kept_def)
  with rest Cons.IH Cons.prems(3) show ?case by (cases b) auto
qed simp

end
