(* ===== verification/Process_Table.thy ===== *)
theory Process_Table
  imports Table_Invariant
begin

text \<open>
  The table of processes as its users see it: the lookup with its cache finds the process with an
  id and nothing else, and an allocation always finds a free control block.
\<close>

section \<open>The table as a map from process ids\<close>

text \<open>
  What the users of the table rely on: looking up, adding and removing a process are the
  operations of a finite map from ids to control blocks.
\<close>

datatype table_op = Report int | Gone int

text \<open>A process that reports is looked up and added if it is new; one that is gone is removed.\<close>

fun serve :: "(int \<Rightarrow> 's \<Rightarrow> nat option \<times> 's) \<Rightarrow> (int \<Rightarrow> 's \<Rightarrow> (nat \<times> 's) outcome) \<Rightarrow> (nat \<Rightarrow> 's \<Rightarrow> 's)
    \<Rightarrow> table_op list \<Rightarrow> 's \<Rightarrow> 's outcome" where
  "serve look add rm [] s = Inr s"
| "serve look add rm (Report p # ops) s =
     (case look p s of (Some i, s) \<Rightarrow> serve look add rm ops s
      | (None, s) \<Rightarrow> obind (add p s) (\<lambda>(i, s). serve look add rm ops s))"
| "serve look add rm (Gone p # ops) s =
     (case look p s of (Some i, s) \<Rightarrow> serve look add rm ops (rm i s) | (None, s) \<Rightarrow> serve look add rm ops s)"

fun tracked_after :: "table_op list \<Rightarrow> int set \<Rightarrow> int set" where
  "tracked_after [] T = T"
| "tracked_after (Report p # ops) T = tracked_after ops (insert p T)"
| "tracked_after (Gone p # ops) T = tracked_after ops (T - {p})"

locale process_table =
  fixes look :: "int \<Rightarrow> 's \<Rightarrow> nat option \<times> 's"
    and add :: "int \<Rightarrow> 's \<Rightarrow> (nat \<times> 's) outcome"
    and rm :: "nat \<Rightarrow> 's \<Rightarrow> 's"
    and abs :: "'s \<Rightarrow> int \<rightharpoonup> nat"
    and wf :: "'s \<Rightarrow> bool"
  assumes look_abs: "wf s \<Longrightarrow> fst (look p s) = abs s p"
    and look_keeps: "wf s \<Longrightarrow> wf (snd (look p s)) \<and> abs (snd (look p s)) = abs s"
    and add_abs: "wf s \<Longrightarrow> 0 < p \<Longrightarrow> abs s p = None \<Longrightarrow> add p s = Inr (i, s') \<Longrightarrow>
      wf s' \<and> i \<notin> ran (abs s) \<and> abs s' = (abs s)(p \<mapsto> i)"
    and rm_abs: "wf s \<Longrightarrow> abs s p = Some i \<Longrightarrow> wf (rm i s) \<and> abs (rm i s) = (abs s)(p := None)"
begin

definition keeps_blocks :: "table_op list \<Rightarrow> 's \<Rightarrow> 's \<Rightarrow> bool" where
  "keeps_blocks ops s s' \<longleftrightarrow> (\<forall>p. Gone p \<notin> set ops \<longrightarrow> abs s p \<noteq> None \<longrightarrow> abs s' p = abs s p)"

lemma serve_report:
  assumes "wf s" "0 < p" "serve look add rm (Report p # ops) s = Inr s'"
  obtains u where "wf u" "serve look add rm ops u = Inr s'" "dom (abs u) = insert p (dom (abs s))"
    "\<forall>q. abs s q \<noteq> None \<longrightarrow> abs u q = abs s q"
proof -
  obtain r v where v: "look p s = (r, v)" by fastforce
  have k: "wf v" "abs v = abs s" "r = abs s p" using look_keeps [OF assms(1), of p] look_abs [OF assms(1), of p] v by simp_all
  show ?thesis
  proof (cases r)
    case (Some i)
    then have "dom (abs v) = insert p (dom (abs s))" using k by (auto simp: dom_def)
    moreover have "serve look add rm ops v = Inr s'" using assms(3) by (simp add: v Some)
    ultimately show ?thesis using that [of v] k by simp
  next
    case None
    with assms(3) v obtain i u where u: "add p v = Inr (i, u)" "serve look add rm ops u = Inr s'"
      by (auto simp: obind_eq_Inr)
    from add_abs [OF k(1) assms(2) _ u(1)] None k have "wf u" "abs u = (abs s)(p \<mapsto> i)" "abs s p = None" by simp_all
    then show ?thesis using that [of u] u(2) by auto
  qed
qed

lemma serve_gone:
  assumes "wf s" "serve look add rm (Gone p # ops) s = Inr s'"
  obtains u where "wf u" "serve look add rm ops u = Inr s'" "dom (abs u) = dom (abs s) - {p}"
    "\<forall>q. q \<noteq> p \<longrightarrow> abs u q = abs s q"
proof -
  obtain r v where v: "look p s = (r, v)" by fastforce
  have k: "wf v" "abs v = abs s" "r = abs s p" using look_keeps [OF assms(1), of p] look_abs [OF assms(1), of p] v by simp_all
  show ?thesis
  proof (cases r)
    case None
    then have "dom (abs v) = dom (abs s) - {p}" using k by (auto simp: dom_def)
    moreover have "serve look add rm ops v = Inr s'" using assms(2) by (simp add: v None)
    ultimately show ?thesis using that [of v] k by simp
  next
    case (Some i)
    from rm_abs [OF k(1), of p i] Some k have "wf (rm i v)" "abs (rm i v) = (abs s)(p := None)" by simp_all
    then show ?thesis using that [of "rm i v"] assms(2) v Some by auto
  qed
qed

lemma serve_refines:
  assumes "wf s" "\<forall>p. Report p \<in> set ops \<longrightarrow> 0 < p" "serve look add rm ops s = Inr s'"
  shows "wf s' \<and> dom (abs s') = tracked_after ops (dom (abs s)) \<and> keeps_blocks ops s s'"
  using assms
proof (induction ops arbitrary: s)
  case (Cons x ops)
  show ?case
  proof (cases x)
    case (Report p)
    with Cons.prems serve_report [of s p ops s'] obtain u where u: "wf u" "serve look add rm ops u = Inr s'"
      "dom (abs u) = insert p (dom (abs s))" "\<forall>q. abs s q \<noteq> None \<longrightarrow> abs u q = abs s q" by auto
    with Cons.IH [OF u(1) _ u(2)] Cons.prems(2) Report show ?thesis by (auto simp: keeps_blocks_def)
  next
    case (Gone p)
    with Cons.prems serve_gone [of s p ops s'] obtain u where u: "wf u" "serve look add rm ops u = Inr s'"
      "dom (abs u) = dom (abs s) - {p}" "\<forall>q. q \<noteq> p \<longrightarrow> abs u q = abs s q" by auto
    with Cons.IH [OF u(1) _ u(2)] Cons.prems(2) Gone show ?thesis by (auto simp: keeps_blocks_def)
  qed
qed (simp add: keeps_blocks_def)

end

definition pid_map :: "strace \<Rightarrow> int \<rightharpoonup> nat" where
  "pid_map st p = (if p \<le> 0 then None else find_pid p (tcbtab st))"

lemma pid_map_Some:
  assumes "table_ok st"
  shows "pid_map st p = Some i \<longleftrightarrow> 0 < p \<and> i < length (tcbtab st) \<and> slots st ! i = p"
proof -
  have f: "find_pid p (tcbtab st) = Some i \<longleftrightarrow> i < length (tcbtab st) \<and> slots st ! i = p \<and> (\<forall>j < i. slots st ! j \<noteq> p)"
    unfolding find_pid_Some slots_def by (metis nth_map order.strict_trans)
  have u: "slots st ! j \<noteq> p" if "0 < p" "i < length (tcbtab st)" "slots st ! i = p" "j < i" for j
  proof
    assume "slots st ! j = p"
    moreover have "j < length (tcbtab st)" using that(2,4) by simp
    ultimately have "i = j"
      using assms that unfolding table_ok_def unique_pids_def length_slots by (metis less_irrefl)
    then show False using that(4) by simp
  qed
  show ?thesis
  proof (cases "0 < p \<and> i < length (tcbtab st) \<and> slots st ! i = p")
    case True
    with f u show ?thesis by (simp add: pid_map_def)
  next
    case False
    with f show ?thesis by (auto simp: pid_map_def)
  qed
qed

lemma pid_map_eqI:
  assumes "\<And>q i. pid_map st q = Some i \<longleftrightarrow> m q = Some i"
  shows "pid_map st = m"
proof
  fix q
  show "pid_map st q = m q" using assms [of q] by (cases "m q"; cases "pid_map st q") auto
qed

interpretation proc: process_table pid2tcb "alloctcb cfg g" "droptcb cfg g su" pid_map table_ok for cfg g su
proof unfold_locales
  fix s :: strace and p
  assume ok: "table_ok s"
  note res = pid2tcb_result [OF table_ok_pids [OF ok] table_ok_cache [OF ok], of p]
  show "fst (pid2tcb p s) = pid_map s p" by (simp add: res(1) pid_map_def)
  obtain r u where u: "pid2tcb p s = (r, u)" by fastforce
  show "table_ok (snd (pid2tcb p s)) \<and> pid_map (snd (pid2tcb p s)) = pid_map s"
    using pid2tcb_kept(1,5) [OF u ok] by (auto simp: u table_kept_def pid_map_def fun_eq_iff)
next
  fix s s' :: strace and p i
  assume ok: "table_ok s" and p: "0 < p" and new: "pid_map s p = None" and a: "alloctcb cfg g p s = Inr (i, s')"
  have "\<forall>j < length (tcbtab s). pid (the_blk s j) \<noteq> p"
    using new p by (auto simp: pid_map_def find_pid_None the_blk_def)
  from alloctcb_table [OF ok this, of cfg g] p a obtain u n where
    u: "table_kept s s'" "i < length (tcbtab s')" "slots s' = (slots u)[i := p]" "slots u ! i = 0" "slots u = slots s @ replicate n 0"
    by auto
  have ok': "table_ok s'" using u(1) by (simp add: table_kept_def)
  have len: "length (tcbtab s') = length (tcbtab s) + n" using arg_cong [OF u(3), of length] arg_cong [OF u(5), of length] by simp
  have sl: "slots s' ! j = (if j = i then p else if j < length (tcbtab s) then slots s ! j else 0)" if "j < length (tcbtab s')" for j
    using that u(2) len by (simp add: u(3,5) nth_append)
  have free: "i < length (tcbtab s) \<Longrightarrow> slots s ! i = 0" using u(4,5) by (simp add: nth_append)
  have "i \<notin> ran (pid_map s)" using free by (auto simp: ran_def pid_map_Some [OF ok])
  moreover have "pid_map s' = (pid_map s)(p \<mapsto> i)"
  proof (rule pid_map_eqI)
    fix q j
    have old: "slots s ! k \<noteq> p" if "k < length (tcbtab s)" for k using new that p pid_map_Some [OF ok, of p k] by auto
    show "pid_map s' q = Some j \<longleftrightarrow> ((pid_map s)(p \<mapsto> i)) q = Some j"
      using sl [of j] free old [of j] u(2) p len by (auto simp: pid_map_Some [OF ok] pid_map_Some [OF ok'] split: if_splits)
  qed
  ultimately show "table_ok s' \<and> i \<notin> ran (pid_map s) \<and> pid_map s' = (pid_map s)(p \<mapsto> i)" using ok' by simp
next
  fix s :: strace and p i
  assume ok: "table_ok s" and s: "pid_map s p = Some i"
  let ?d = "droptcb cfg g su i s"
  have i: "0 < p" "i < length (tcbtab s)" "slots s ! i = p" using s pid_map_Some [OF ok] by auto
  have ok': "table_ok ?d" using ok i(2) by (rule droptcb_table)
  have sl: "slots ?d = (slots s)[i := 0]" using i nth_slots [OF i(2)] by (simp add: droptcb_slots(1))
  have uniq: "slots s ! j = p \<Longrightarrow> j < length (tcbtab s) \<Longrightarrow> j = i" for j
    using ok i by (auto simp: table_ok_def unique_pids_def)
  have "pid_map ?d = (pid_map s)(p := None)"
  proof (rule pid_map_eqI)
    fix q j
    show "pid_map ?d q = Some j \<longleftrightarrow> ((pid_map s)(p := None)) q = Some j"
    proof (cases "j = i")
      case True
      then show ?thesis using i by (simp add: pid_map_Some [OF ok] pid_map_Some [OF ok'] droptcb_length sl)
    next
      case False
      then show ?thesis using uniq [of j] by (auto simp: pid_map_Some [OF ok] pid_map_Some [OF ok'] droptcb_length sl)
    qed
  qed
  with ok' show "table_ok ?d \<and> pid_map ?d = (pid_map s)(p := None)" by simp
qed

text \<open>
  C11: Whatever the kernel reports, the table of processes stays sound through any number of rounds
  of the main loop, with their stops, exits, forks, switches at an execve, delayed restarts and
  failing requests: the ids of the processes differ, \<open>nprocs\<close> and the pointers kept in the queue,
  the cache and \<open>current_tcp\<close> fit the table.  So \<open>pid2tcb\<close> finds exactly the process with an id,
  cached or not, and \<open>alloctcb\<close> gives a process that is not tracked a control block of its own,
  unless memory runs out; it never ends strace with its message \<open>bug in alloctcb\<close>.
\<close>

theorem table_sound:
  assumes "main_loop cfg g su dc rs st = Inr (go, st')" "table_ok st" "\<forall>r \<in> set rs. reports_ok (waits r)"
  shows "table_ok st'
    \<and> (\<forall>p i. fst (pid2tcb p st') = Some i \<longleftrightarrow> 0 < p \<and> i < length (tcbtab st') \<and> pid (the_blk st' i) = p)
    \<and> (\<forall>p. 0 < p \<longrightarrow> fst (pid2tcb p st') = None \<longrightarrow>
         alloctcb cfg g p st' = Inl Out_of_memory
         \<or> (\<exists>i u. alloctcb cfg g p st' = Inr (i, u) \<and> table_ok u \<and> fst (pid2tcb p u) = Some i
               \<and> (\<forall>q. q \<noteq> p \<longrightarrow> fst (pid2tcb q u) = fst (pid2tcb q st'))))"
proof (intro conjI allI impI)
  show ok: "table_ok st'" using assms by (rule main_loop_kept)
  show "fst (pid2tcb p st') = Some i \<longleftrightarrow> 0 < p \<and> i < length (tcbtab st') \<and> pid (the_blk st' i) = p" for p i
    using nth_slots [of i st'] by (auto simp: proc.look_abs [OF ok] pid_map_Some [OF ok])
  fix p :: int
  assume p: "0 < p" "fst (pid2tcb p st') = None"
  then have new: "pid_map st' p = None" using proc.look_abs [OF ok] by simp
  then have "\<forall>j < length (tcbtab st'). pid (the_blk st' j) \<noteq> p"
    using p(1) by (auto simp: pid_map_def find_pid_None the_blk_def)
  from alloctcb_table [OF ok this, of cfg g] p(1)
  consider "alloctcb cfg g p st' = Inl Out_of_memory" | i u where "alloctcb cfg g p st' = Inr (i, u)" by blast
  then show "alloctcb cfg g p st' = Inl Out_of_memory
      \<or> (\<exists>i u. alloctcb cfg g p st' = Inr (i, u) \<and> table_ok u \<and> fst (pid2tcb p u) = Some i
            \<and> (\<forall>q. q \<noteq> p \<longrightarrow> fst (pid2tcb q u) = fst (pid2tcb q st')))"
  proof cases
    case (2 i u)
    from proc.add_abs [OF ok p(1) new 2] have u: "table_ok u" "pid_map u = (pid_map st')(p \<mapsto> i)" by simp_all
    then show ?thesis using 2 by (simp add: proc.look_abs [OF ok] proc.look_abs [OF u(1)])
  qed simp
qed

lemma sample_table: "slots sample_strace = [100, 101]" "nprocs sample_strace = 2" "length (tcbtab sample_strace) = 2"
  "pointers sample_strace = {0, 1}"
  by (auto simp: slots_def sample_event_defs pointers_def)

lemma sample_table_ok: "table_ok sample_strace"
proof -
  have "unique_pids [100, 101]" by (auto simp: unique_pids_def less_Suc_eq)
  then show ?thesis by (simp add: table_ok_def sample_table in_use_def)
qed

theorem table_sound_witness:
  "\<exists>st'. main_loop sample_build (initial_globals sample_build) sample_setup sample_decoders [sample_round, sample_round] sample_strace
     = Inr (True, st') \<and> table_ok st'"
proof -
  obtain st' where st': "main_loop sample_build (initial_globals sample_build) sample_setup sample_decoders
      [sample_round, sample_round] sample_strace = Inr (True, st')" using sample_rounds by blast
  have "\<forall>r \<in> set [sample_round, sample_round]. reports_ok (waits r)" by (simp add: sample_round_def reports_ok_def)
  from table_sound [OF st' sample_table_ok this] st' show ?thesis by blast
qed

text \<open>
  C14: The table of processes with its cache is a finite map.  Whatever processes come and go, the
  ids that \<open>pid2tcb\<close> finds are those of the set of tracked processes that a specification without
  table, cache and reused control blocks computes, and as long as a process is not gone its
  control block stays the same one.
\<close>

theorem process_table_refines:
  assumes "table_ok st" "\<forall>p. Report p \<in> set ops \<longrightarrow> 0 < p"
    and "serve pid2tcb (alloctcb cfg g) (droptcb cfg g su) ops st = Inr st'"
  shows "table_ok st' \<and> {p. fst (pid2tcb p st') \<noteq> None} = tracked_after ops {p. fst (pid2tcb p st) \<noteq> None}
    \<and> (\<forall>p. Gone p \<notin> set ops \<longrightarrow> fst (pid2tcb p st) \<noteq> None \<longrightarrow> fst (pid2tcb p st') = fst (pid2tcb p st))"
proof -
  note r = proc.serve_refines [OF assms]
  then have "table_ok st'" by simp
  with r show ?thesis
    by (simp add: proc.look_abs [OF assms(1)] proc.look_abs [OF \<open>table_ok st'\<close>] dom_def proc.keeps_blocks_def)
qed

lemma no_growth: "nprocs u \<noteq> length (tcbtab u) \<Longrightarrow> alloctcb cfg g p u \<noteq> Inl Out_of_memory"
  by (simp add: alloctcb_def Let_def split: option.splits)

theorem process_table_refines_witness:
  "\<exists>st'. serve pid2tcb (alloctcb sample_build (initial_globals sample_build))
       (droptcb sample_build (initial_globals sample_build) sample_setup) [Gone 100, Report 200, Report 101] sample_strace = Inr st'
     \<and> {p. fst (pid2tcb p st') \<noteq> None} = {101, 200}"
proof -
  let ?g = "initial_globals sample_build" and ?ops = "[Gone 100, Report 200, Report 101]"
  let ?serve = "serve pid2tcb (alloctcb sample_build (initial_globals sample_build)) (droptcb sample_build (initial_globals sample_build) sample_setup)"
  have m: "pid_map sample_strace = [100 \<mapsto> 0, 101 \<mapsto> 1]"
  proof (rule pid_map_eqI)
    fix q and i :: nat
    have "i < 2 \<longleftrightarrow> i = 0 \<or> i = 1" by auto
    then show "pid_map sample_strace q = Some i \<longleftrightarrow> [100 \<mapsto> 0, 101 \<mapsto> 1] q = Some i"
      by (auto simp: pid_map_Some [OF sample_table_ok] sample_table split: if_splits)
  qed
  obtain r u where u: "pid2tcb 100 sample_strace = (r, u)" by fastforce
  have r: "r = Some 0" using proc.look_abs [OF sample_table_ok, of 100] m u by simp
  let ?d = "droptcb sample_build ?g sample_setup 0 u"
  have ku: "table_ok u" "pid_map u = [100 \<mapsto> 0, 101 \<mapsto> 1]" using proc.look_keeps [OF sample_table_ok, of 100] m u by simp_all
  have p0: "pid_map u 100 = Some 0" by (simp add: ku(2))
  have d: "table_ok ?d" "pid_map ?d = [101 \<mapsto> 1]"
    using proc.rm_abs [OF ku(1) p0, of sample_build ?g sample_setup] by (simp_all add: ku(2))
  have nu: "nprocs u = 2" "tcbtab u = tcbtab sample_strace"
    using u by (auto simp: pid2tcb_def Let_def sample_table split: option.splits if_splits)
  have np: "nprocs ?d \<noteq> length (tcbtab ?d)"
    using nu by (simp add: droptcb_slots(2) droptcb_length sample_table the_blk_def) (simp add: sample_event_defs)
  obtain q v where v: "pid2tcb 200 ?d = (q, v)" by fastforce
  have q: "q = None" "table_ok v" "pid_map v = [101 \<mapsto> 1]"
    using proc.look_abs [OF d(1), of 200] proc.look_keeps [OF d(1), of 200] d(2) v by simp_all
  have nv: "nprocs v \<noteq> length (tcbtab v)" using v np by (auto simp: pid2tcb_def Let_def split: option.splits if_splits)
  have "\<forall>j < length (tcbtab v). pid (the_blk v j) \<noteq> 200"
    using q(3) by (auto simp: pid_map_def find_pid_None the_blk_def fun_upd_def fun_eq_iff dest: spec [of _ 200] split: if_splits)
  from alloctcb_table [OF q(2) this, of sample_build ?g] no_growth [OF nv, of sample_build ?g 200]
  obtain i w where w: "alloctcb sample_build ?g 200 v = Inr (i, w)" by auto
  from proc.add_abs [OF q(2) _ _ w] have kw: "table_ok w" "pid_map w = [101 \<mapsto> 1, 200 \<mapsto> i]" by (simp_all add: q(3))
  obtain z x where x: "pid2tcb 101 w = (z, x)" by fastforce
  have "z = Some 1" using proc.look_abs [OF kw(1), of 101] kw(2) x by simp
  then have s: "?serve ?ops sample_strace = Inr x" by (simp add: u r v q(1) w x)
  from process_table_refines [OF sample_table_ok _ s]
  have "{p. fst (pid2tcb p x) \<noteq> None} = tracked_after ?ops {p. fst (pid2tcb p sample_strace) \<noteq> None}" by auto
  also have "{p. fst (pid2tcb p sample_strace) \<noteq> None} = {100, 101}" by (auto simp: proc.look_abs [OF sample_table_ok] m)
  finally show ?thesis using s by auto
qed

end
