(* ===== verification/Pathtrace.thy ===== *)
theory Pathtrace
  imports Quote Signal_Mask Tcb
begin

text \<open>
  The filter of the option \<open>-P\<close>, \<^verbatim>\<open>pathtrace.c\<close>: the set of selected paths, the path a file descriptor
  stands for, and whether the arguments of a system call have to do with a selected path or
  descriptor.  Paths are lists of bytes without the terminating zero; what the kernel knows about
  descriptors and files is the parameter \<open>files\<close>.
\<close>

section \<open>The set of paths\<close>

text \<open>\<open>paths_selected\<close> holds the used part of the array, \<open>path_size\<close> is its capacity.\<close>

record path_set =
  paths_selected :: "u8 list list"
  path_size :: u64

definition global_path_set :: path_set where
  "global_path_set = \<lparr>paths_selected = [], path_size = 0\<rparr>"

text \<open>The string in a character array.\<close>

definition cstr :: "u8 list \<Rightarrow> u8 list" where
  "cstr bs = takeWhile (\<lambda>b. b \<noteq> 0) bs"

definition pathmatch :: "u8 list \<Rightarrow> path_set option \<Rightarrow> bool" where
  "pathmatch path ps = (case ps of None \<Rightarrow> False | Some s \<Rightarrow> list_ex (\<lambda>p. cstr path = p) (paths_selected s))"

definition storepath :: "u8 list \<Rightarrow> path_set \<Rightarrow> path_set outcome" where
  "storepath path s =
     (if pathmatch path (Some s) then Inr s
      else obind (if of_nat (length (paths_selected s)) \<ge> path_size s
                  then xgrowarray (path_size s = 0) (path_size s) 8 else Inr (path_size s))
             (\<lambda>sz. Inr (s\<lparr>paths_selected := paths_selected s @ [path], path_size := sz\<rparr>)))"

text \<open>
  \<open>readlink\<close> of \<^verbatim>\<open>/proc/PID/fd/FD\<close> into a buffer of a size, inode and device of the file behind that
  link and of the file that a path names, \<open>realpath\<close>, and \<open>get_proc_pid\<close>.
\<close>

record files =
  fs_readlink :: "int \<Rightarrow> int \<Rightarrow> nat \<Rightarrow> u8 list option"
  fs_stat_fd :: "int \<Rightarrow> int \<Rightarrow> (u64 \<times> u64) option"
  fs_lstat :: "u8 list \<Rightarrow> (u64 \<times> u64) option"
  fs_realpath :: "u8 list \<Rightarrow> u8 list option"
  get_proc_pid :: "int \<Rightarrow> int"

definition QUIET_PATH_RESOLVE :: nat where "QUIET_PATH_RESOLVE = 2"

text \<open>The new set, with the message if there is one.\<close>

definition pathtrace_select_set ::
    "files \<Rightarrow> globals \<Rightarrow> xflag_opts \<Rightarrow> u8 list \<Rightarrow> path_set \<Rightarrow> (string list \<times> path_set) outcome" where
  "pathtrace_select_set fs g xflag path s =
     obind (storepath path s)
       (\<lambda>s. case fs_realpath fs path of None \<Rightarrow> Inr ([], s)
            | Some rpath \<Rightarrow>
                if path = rpath then Inr ([], s)
                else
                  let quoted = (\<lambda>p. snd (string_quote xflag (p @ [0]) (length p + 1) QUOTE_0_TERMINATED None));
                      msgs = (if is_number_in_set QUIET_PATH_RESOLVE (quiet_set g) then []
                              else [''Requested path '' @ quoted path @ '' resolved into '' @ quoted rpath])
                  in obind (storepath rpath s) (\<lambda>s. Inr (msgs, s)))"

text \<open>The options \<open>-P\<close> of the command line.\<close>

fun pathtrace_select_all ::
    "files \<Rightarrow> globals \<Rightarrow> xflag_opts \<Rightarrow> u8 list list \<Rightarrow> path_set \<Rightarrow> path_set outcome" where
  "pathtrace_select_all fs g xflag [] s = Inr s"
| "pathtrace_select_all fs g xflag (p # ps) s =
     obind (pathtrace_select_set fs g xflag p s) (\<lambda>(msgs, s). pathtrace_select_all fs g xflag ps s)"

section \<open>Paths of descriptors\<close>

definition del_sfx :: "u8 list" where
  "del_sfx = [0x20, 0x28, 0x64, 0x65, 0x6c, 0x65, 0x74, 0x65, 0x64, 0x29, 0]"

text \<open>The result, the buffer, and \<open>deleted\<close>.\<close>

definition get_proc_pid_fd_path :: "files \<Rightarrow> int \<Rightarrow> int \<Rightarrow> nat \<Rightarrow> int \<times> u8 list \<times> bool" where
  "get_proc_pid_fd_path fs proc_pid fd bufsize =
     (if fd < 0 then (-1, [], False)
      else case fs_readlink fs proc_pid fd (bufsize - 1) of None \<Rightarrow> (-1, [], False)
           | Some l \<Rightarrow>
               let n = length l;
                   buf = l @ [0];
                   del = n + 1 - length del_sfx
               in if n \<le> length del_sfx \<or> drop del buf \<noteq> del_sfx then (int n, buf, False)
                  else case fs_stat_fd fs proc_pid fd of None \<Rightarrow> (int n, buf, False)
                       | Some st_link \<Rightarrow>
                           if fs_lstat fs l = Some st_link then (int n, buf, False)
                           else (int del + 1, buf[del := 0], True))"

definition getfdpath_pid :: "files \<Rightarrow> int \<Rightarrow> int \<Rightarrow> nat \<Rightarrow> int \<times> u8 list \<times> bool" where
  "getfdpath_pid fs p fd bufsize =
     (if fd < 0 then (-1, [], False)
      else let proc_pid = get_proc_pid fs p
           in if proc_pid = 0 then (-1, [], False) else get_proc_pid_fd_path fs proc_pid fd bufsize)"

definition fdmatch :: "files \<Rightarrow> tcb \<Rightarrow> int \<Rightarrow> path_set option \<Rightarrow> number_set option \<Rightarrow> bool" where
  "fdmatch fs t fd ps fdset =
     (if fdset \<noteq> None \<and> fd \<ge> 0 \<and> is_number_in_set (nat fd) fdset then True
      else if ps = None then False
      else case getfdpath_pid fs (pid t) fd (unat PATH_MAX + 1) of (n, path, _) \<Rightarrow> n \<ge> 0 \<and> pathmatch path ps)"

section \<open>Arguments in the memory of the tracee\<close>

text \<open>\<open>stack\<close> is what the local array \<open>path\<close> happens to hold.\<close>

definition upathmatch ::
    "'m mem_kernel \<Rightarrow> nat \<Rightarrow> 'm \<Rightarrow> u8 list \<Rightarrow> path_set option \<Rightarrow> u64 \<Rightarrow> ucopy \<Rightarrow> (bool \<times> ucopy) option" where
  "upathmatch k current_wordsize m stack ps upath s =
     (if ps = None then Some (False, s)
      else case umovestr k current_wordsize m upath (PATH_MAX + 1) s of None \<Rightarrow> None
           | Some ((rc, bs), s) \<Rightarrow> Some (rc > 0 \<and> pathmatch (bs @ drop (length bs) stack) ps, s))"

text \<open>An integer of the tracee, which is little-endian, and an argument that is an \<open>int\<close>.\<close>

definition le_word :: "u8 list \<Rightarrow> u64" where
  "le_word bs = foldr (\<lambda>b w. ucast b OR push_bit 8 w) bs 0"

definition int_of :: "u64 \<Rightarrow> int" where
  "int_of w = sint (ucast w :: u32)"

definition fetch_indirect_syscall_args ::
    "'m mem_kernel \<Rightarrow> nat \<Rightarrow> 'm \<Rightarrow> u64 \<Rightarrow> nat \<Rightarrow> ucopy \<Rightarrow> (u64 list option \<times> ucopy) option" where
  "fetch_indirect_syscall_args k current_wordsize m addr n s =
     (let w = (if current_wordsize = 8 then 8 else 4)
      in case umoven k current_wordsize m addr (of_nat (w * n)) s of None \<Rightarrow> None
         | Some ((rc, bs), s) \<Rightarrow>
             Some (if rc \<noteq> 0 then None else Some (map (\<lambda>i. le_word (take w (drop (w * i) bs))) [0..<n]), s))"

text \<open>The loop over the bits of one set of \<open>select\<close>.\<close>

function match_bits :: "(int \<Rightarrow> bool) \<Rightarrow> u8 list \<Rightarrow> nat \<Rightarrow> nat \<Rightarrow> bool" where
  "match_bits f fds j nfds =
     (let j = next_set_bit fds j nfds
      in if j < 0 then False else if f j then True else match_bits f fds (nat j + 1) nfds)"
  by pat_completeness auto
termination
proof (relation "measure (\<lambda>(f, fds, j, nfds). nfds - j)")
  fix f :: "int \<Rightarrow> bool" and fds j nfds x
  assume "x = next_set_bit fds j nfds" "\<not> x < 0"
  then show "((f, fds, nat x + 1, nfds), (f, fds, j, nfds)) \<in> measure (\<lambda>(f, fds, j, nfds). nfds - j)"
    using next_set_bit_range [of fds j nfds] by auto
qed simp

declare match_bits.simps [simp del]

definition MAX_FDS :: nat where "MAX_FDS = 1024 * 1024"

definition fdsize_of :: "nat \<Rightarrow> nat \<Rightarrow> u32" where
  "fdsize_of current_wordsize nfds =
     (of_nat ((nfds + 7) div 8) + of_nat current_wordsize - 1) AND - of_nat current_wordsize"

fun match_sets ::
    "'m mem_kernel \<Rightarrow> nat \<Rightarrow> 'm \<Rightarrow> (int \<Rightarrow> bool) \<Rightarrow> nat \<Rightarrow> u64 list \<Rightarrow> ucopy \<Rightarrow> (bool \<times> ucopy) option" where
  "match_sets k current_wordsize m f nfds [] s = Some (False, s)"
| "match_sets k current_wordsize m f nfds (a # as) s =
     (if a = 0 then match_sets k current_wordsize m f nfds as s
      else case umoven k current_wordsize m a (fdsize_of current_wordsize nfds) s of None \<Rightarrow> None
           | Some ((rc, fds), s) \<Rightarrow>
               if rc < 0 then match_sets k current_wordsize m f nfds as s
               else if match_bits f fds 0 nfds then Some (True, s)
               else match_sets k current_wordsize m f nfds as s)"

definition match_xselect_args ::
    "'m mem_kernel \<Rightarrow> nat \<Rightarrow> 'm \<Rightarrow> (int \<Rightarrow> bool) \<Rightarrow> u64 list \<Rightarrow> ucopy \<Rightarrow> (bool \<times> ucopy) option" where
  "match_xselect_args k current_wordsize m f args s =
     (let nfds = int_of (args ! 0)
      in if nfds \<le> 0 then Some (False, s)
         else match_sets k current_wordsize m f (min (nat nfds) MAX_FDS) (map (\<lambda>i. args ! i) [1, 2, 3]) s)"

text \<open>The loop over the array of \<open>struct pollfd\<close>, by the addresses of its members.\<close>

fun match_pollfds ::
    "'m mem_kernel \<Rightarrow> nat \<Rightarrow> 'm \<Rightarrow> (int \<Rightarrow> bool) \<Rightarrow> u64 list \<Rightarrow> ucopy \<Rightarrow> (bool \<times> ucopy) option" where
  "match_pollfds k current_wordsize m f [] s = Some (False, s)"
| "match_pollfds k current_wordsize m f (cur # as) s =
     (case umoven k current_wordsize m cur 8 s of None \<Rightarrow> None
      | Some ((rc, bs), s) \<Rightarrow>
          if rc \<noteq> 0 then Some (False, s)
          else if f (int_of (le_word (take 4 bs))) then Some (True, s)
          else match_pollfds k current_wordsize m f as s)"

definition match_poll ::
    "'m mem_kernel \<Rightarrow> nat \<Rightarrow> 'm \<Rightarrow> (int \<Rightarrow> bool) \<Rightarrow> u64 \<Rightarrow> u64 \<Rightarrow> ucopy \<Rightarrow> (bool \<times> ucopy) option" where
  "match_poll k current_wordsize m f start n s =
     (let nfds = min (unat (ucast n :: u32)) MAX_FDS;
          end_addr = start + 8 * of_nat nfds
      in if nfds = 0 \<or> end_addr < start then Some (False, s)
         else match_pollfds k current_wordsize m f (map (\<lambda>i. start + 8 * of_nat i) [0..<nfds]) s)"

text \<open>The index after a 64-bit argument.\<close>

definition getllval_next :: "nat \<Rightarrow> nat \<Rightarrow> nat" where
  "getllval_next current_klongsize i = (if current_klongsize < 8 then i + 2 else i + 1)"

section \<open>Matching a system call\<close>

definition por :: "('s \<Rightarrow> (bool \<times> 's) option) \<Rightarrow> ('s \<Rightarrow> (bool \<times> 's) option) \<Rightarrow> 's \<Rightarrow> (bool \<times> 's) option" where
  "por f h s = Option.bind (f s) (\<lambda>(r, s). if r then Some (True, s) else h s)"

text \<open>The cases of the switch, by the names of their system calls.\<close>

definition sens_fd_fd :: "string list" where
  "sens_fd_fd = [''dup2'', ''dup3'', ''kexec_file_load'', ''sendfile'', ''sendfile64'', ''tee'']"

definition sens_fd_path :: "string list" where
  "sens_fd_path = [''execveat'', ''faccessat'', ''faccessat2'', ''fchmodat'', ''fchmodat2'', ''fchownat'', ''fspick'',
     ''fstatat64'', ''futimesat'', ''inotify_add_watch'', ''mkdirat'', ''mknodat'', ''mount_setattr'',
     ''name_to_handle_at'', ''newfstatat'', ''open_tree'', ''openat'', ''openat2'', ''readlinkat'', ''statx'',
     ''unlinkat'', ''utimensat_time32'', ''utimensat_time64'']"

definition sens_path_path :: "string list" where
  "sens_path_path = [''link'', ''mount'', ''pivotroot'']"

definition sens_x_path :: "string list" where
  "sens_x_path = [''quotactl'', ''symlink'']"

definition sens_fd_path_fd_path :: "string list" where
  "sens_fd_path_fd_path = [''linkat'', ''move_mount'', ''renameat2'', ''renameat'']"

definition sens_mmap :: "string list" where
  "sens_mmap = [''mmap'', ''mmap_4koff'', ''mmap_pgoff'', ''ARCH_mmap'']"

definition sens_fd_x_fd :: "string list" where
  "sens_fd_x_fd = [''copy_file_range'', ''splice'']"

definition sens_select :: "string list" where
  "sens_select = [''pselect6_time32'', ''pselect6_time64'', ''select'']"

definition sens_poll :: "string list" where
  "sens_poll = [''poll_time32'', ''poll_time64'', ''ppoll_time32'', ''ppoll_time64'']"

definition sens_nothing :: "string list" where
  "sens_nothing = [''bpf'', ''epoll_create'', ''epoll_create1'', ''eventfd2'', ''eventfd'', ''fanotify_init'', ''fsopen'',
     ''inotify_init'', ''inotify_init1'', ''io_uring_setup'', ''landlock_create_ruleset'', ''memfd_create'',
     ''memfd_secret'', ''mq_open'', ''perf_event_open'', ''pidfd_open'', ''pipe'', ''pipe2'', ''printargs'', ''socket'',
     ''socketpair'', ''timerfd_create'', ''userfaultfd'']"

definition pathtrace_match_set ::
    "files \<Rightarrow> 'm mem_kernel \<Rightarrow> nat \<Rightarrow> nat \<Rightarrow> 'm \<Rightarrow> u8 list \<Rightarrow> tcb \<Rightarrow> path_set option \<Rightarrow> number_set option
      \<Rightarrow> ucopy \<Rightarrow> (bool \<times> ucopy) option" where
  "pathtrace_match_set fs k current_wordsize current_klongsize m stack t ps fdset s =
     (let flags = sys_flags (tcp_sysent t);
          sn = sen (tcp_sysent t);
          matches = (\<lambda>fd. fdmatch fs t fd ps fdset);
          fd = (\<lambda>i s. Some (matches (int_of (u_arg t ! i)), s));
          path = (\<lambda>i. upathmatch k current_wordsize m stack ps (u_arg t ! i));
          fetched = (\<lambda>n h s. Option.bind (fetch_indirect_syscall_args k current_wordsize m (u_arg t ! 0) n s)
                       (\<lambda>(args, s). case args of None \<Rightarrow> Some (False, s) | Some args \<Rightarrow> h args s))
      in if flags AND (TRACE_FILE OR TRACE_DESC OR TRACE_NETWORK) = 0 then Some (False, s)
         else if sn \<in> set sens_fd_fd then por (fd 0) (fd 1) s
         else if sn \<in> set sens_fd_path then por (fd 0) (path 1) s
         else if sn \<in> set sens_path_path then por (path 0) (path 1) s
         else if sn \<in> set sens_x_path then path 1 s
         else if sn \<in> set sens_fd_path_fd_path then por (fd 0) (por (fd 2) (por (path 1) (path 3))) s
         else if sn = ''old_mmap'' then fetched 6 (\<lambda>args s. Some (matches (int_of (args ! 4)), s)) s
         else if sn \<in> set sens_mmap then fd 4 s
         else if sn = ''symlinkat'' then por (fd 1) (path 2) s
         else if sn \<in> set sens_fd_x_fd then por (fd 0) (fd 2) s
         else if sn = ''epoll_ctl'' then fd 2 s
         else if sn = ''fanotify_mark''
         then let argn = getllval_next current_klongsize 2 in por (fd argn) (path (argn + 1)) s
         else if sn = ''oldselect'' then fetched 5 (match_xselect_args k current_wordsize m matches) s
         else if sn \<in> set sens_select then match_xselect_args k current_wordsize m matches (u_arg t) s
         else if sn \<in> set sens_poll then match_poll k current_wordsize m matches (u_arg t ! 0) (u_arg t ! 1) s
         else if sn = ''fsconfig''
         then let cmd = ucast (u_arg t ! 1) :: u32
              in if cmd = 3 \<or> cmd = 4 then por (fd 4) (path 3) s
                 else if cmd = 5 then fd 4 s else Some (False, s)
         else if sn \<in> set sens_nothing then Some (False, s)
         else if flags AND TRACE_FILE \<noteq> 0 then path 0 s
         else fd 0 s)"

section \<open>Selecting paths\<close>

text \<open>The array has room for its paths, which are strings and differ.\<close>

definition path_set_ok :: "path_set \<Rightarrow> bool" where
  "path_set_ok s \<longleftrightarrow> length (paths_selected s) \<le> unat (path_size s) \<and> distinct (paths_selected s)
     \<and> (\<forall>p \<in> set (paths_selected s). 0 \<notin> set p)"

lemma cstr_id [simp]: "0 \<notin> set p \<Longrightarrow> cstr p = p"
  by (auto simp: cstr_def takeWhile_eq_all_conv)

lemma cstr_append: "0 \<notin> set p \<Longrightarrow> cstr (p @ 0 # rest) = p"
  by (auto simp: cstr_def takeWhile_append2)

lemma pathmatch_iff: "pathmatch p (Some s) \<longleftrightarrow> cstr p \<in> set (paths_selected s)"
  by (auto simp: pathmatch_def list_ex_iff)

lemma storepath_ok:
  assumes "path_set_ok s" "storepath p s = Inr s'" "0 \<notin> set p"
  shows "path_set_ok s' \<and> set (paths_selected s') = insert p (set (paths_selected s))"
proof (cases "pathmatch p (Some s)")
  case True
  with assms show ?thesis by (auto simp: storepath_def pathmatch_iff)
next
  case False
  let ?n = "length (paths_selected s)"
  from assms(2) False obtain sz where sz: "(if of_nat ?n \<ge> path_size s then xgrowarray (path_size s = 0) (path_size s) 8
      else Inr (path_size s)) = Inr sz" and s': "s' = s\<lparr>paths_selected := paths_selected s @ [p], path_size := sz\<rparr>"
    by (auto simp: storepath_def obind_eq_Inr)
  have n: "?n \<le> unat (path_size s)" using assms(1) by (simp add: path_set_ok_def)
  have "unat (path_size s) < 2 ^ 64" using unsigned_less [of "path_size s"] by simp
  with n have "?n < 2 ^ 64" by (rule le_less_trans)
  then have un: "unat (of_nat ?n :: u64) = ?n" by (simp add: unat_of_nat)
  have "?n < unat sz"
  proof (cases "of_nat ?n \<ge> path_size s")
    case True
    then have full: "unat (path_size s) = ?n" using n un by (simp add: word_le_nat_alt)
    show ?thesis
    proof (cases "path_size s = 0")
      case True
      with sz full show ?thesis
        by (auto simp: xgrowarray_def Let_def obind_eq_Inr ROUNDUP_DIV_def DEFAULT_ALLOC_SIZE_def split: if_splits)
    next
      case False
      with sz True xgrowarray_step [of "path_size s" 8 sz] full show ?thesis by simp
    qed
  next
    case False
    with sz un show ?thesis by (simp add: word_le_nat_alt)
  qed
  then show ?thesis using assms(1,3) False by (auto simp: s' path_set_ok_def pathmatch_iff)
qed

text \<open>What the options select: the paths as given and as they resolve.\<close>

definition chosen :: "files \<Rightarrow> u8 list list \<Rightarrow> u8 list set" where
  "chosen fs ps = set ps \<union> {r. \<exists>p \<in> set ps. fs_realpath fs p = Some r}"

lemma select_set_ok:
  assumes "path_set_ok s" "pathtrace_select_set fs g xflag p s = Inr (msgs, s')" "0 \<notin> set p"
    and "\<And>r. fs_realpath fs p = Some r \<Longrightarrow> 0 \<notin> set r"
  shows "path_set_ok s' \<and> set (paths_selected s') = set (paths_selected s) \<union> chosen fs [p]"
proof -
  from assms(2) obtain u where u: "storepath p s = Inr u"
    "case fs_realpath fs p of None \<Rightarrow> s' = u | Some r \<Rightarrow> (if p = r then s' = u else storepath r u = Inr s')"
    by (cases "fs_realpath fs p") (auto simp: pathtrace_select_set_def obind_eq_Inr Let_def split: if_splits)
  note su = storepath_ok [OF assms(1) u(1) assms(3)]
  show ?thesis
  proof (cases "fs_realpath fs p")
    case None
    with u(2) su show ?thesis by (auto simp: chosen_def)
  next
    case (Some r)
    show ?thesis
    proof (cases "p = r")
      case True
      with u(2) Some su show ?thesis by (auto simp: chosen_def)
    next
      case False
      then have "storepath r u = Inr s'" using u(2) Some by simp
      with storepath_ok [of u r s'] su assms(4) [OF Some] Some show ?thesis by (auto simp: chosen_def)
    qed
  qed
qed

lemma select_all_ok:
  assumes "\<forall>p \<in> chosen fs ps. 0 \<notin> set p" "path_set_ok s" "pathtrace_select_all fs g xflag ps s = Inr s'"
  shows "path_set_ok s' \<and> set (paths_selected s') = set (paths_selected s) \<union> chosen fs ps"
  using assms
proof (induction ps arbitrary: s)
  case (Cons p ps)
  from Cons.prems(3) obtain msgs u where u: "pathtrace_select_set fs g xflag p s = Inr (msgs, u)"
    "pathtrace_select_all fs g xflag ps u = Inr s'" by (auto simp: obind_eq_Inr)
  have "path_set_ok u \<and> set (paths_selected u) = set (paths_selected s) \<union> chosen fs [p]"
    using Cons.prems(1) by (intro select_set_ok [OF Cons.prems(2) u(1)]) (auto simp: chosen_def)
  moreover have "\<forall>p \<in> chosen fs ps. 0 \<notin> set p" using Cons.prems(1) by (auto simp: chosen_def)
  ultimately show ?case using Cons.IH [OF _ _ u(2)] by (auto simp: chosen_def)
qed (simp add: chosen_def)

section \<open>Reading keeps to process_vm_readv\<close>

text \<open>\<open>ENOSYS\<close> means that the kernel does not have the system call.\<close>

definition readv_implemented :: "'m mem_kernel \<Rightarrow> 'm \<Rightarrow> bool" where
  "readv_implemented k m \<longleftrightarrow> (\<forall>a n. k_vm_readv k m a n \<noteq> Inl errno.ENOSYS)"

abbreviation readv_off :: "ucopy \<Rightarrow> bool" where
  "readv_off s \<equiv> process_vm_readv_not_supported s"

lemma process_read_mem_off:
  assumes "process_read_mem k m a n s = (r, s')" "readv_implemented k m"
  shows "readv_off s' = readv_off s"
proof -
  have "k_vm_readv k m a n \<noteq> Inl errno.ENOSYS" using assms(2) by (simp add: readv_implemented_def)
  with assms(1) show ?thesis by (auto simp: process_read_mem_def split: sum.splits)
qed

lemma cache_page_off:
  "cache_page k m a s = (r, s') \<Longrightarrow> readv_implemented k m \<Longrightarrow> readv_off s' = readv_off s"
  by (auto simp: cache_page_def Let_def set_cached_raddr_idx_def split: option.splits prod.splits sum.splits
      dest!: process_read_mem_off)

lemma vm_read_loop_off:
  assumes "vm_read_loop k m ps a n acc s = Some y" "readv_implemented k m"
  shows "readv_off (snd y) = readv_off s"
proof -
  have "readv_implemented k m \<longrightarrow> readv_off (snd y) = readv_off s"
  proof (rule vm_read_loop.raw_induct [where P = "\<lambda>k m ps a n acc s y. readv_implemented k m \<longrightarrow> readv_off (snd y) = readv_off s", OF _ assms(1)], goal_cases)
    case (1 f k m ps a n acc s y)
    show ?case
    proof
      assume imp: "readv_implemented k m"
      obtain r s1 where r: "cache_page k m ps s = (r, s1)" by fastforce
      note off = cache_page_off [OF r imp]
      show "readv_off (snd y) = readv_off s"
      proof (cases r)
        case (Inl e)
        with 1(2) off r show ?thesis by auto
      next
        case (Inr i)
        with 1(2) off r 1(1) [THEN mp, OF _ imp] show ?thesis by (auto simp: Let_def split: if_splits)
      qed
    qed
  qed
  then show ?thesis using assms(2) by simp
qed

lemma vm_read_mem_off:
  "vm_read_mem k m a n s = Some (r, s') \<Longrightarrow> readv_implemented k m \<Longrightarrow> readv_off s' = readv_off s"
  by (auto simp: vm_read_mem_def Let_def split: if_splits dest!: vm_read_loop_off process_read_mem_off)

lemma errors_off [simp]:
  "readv_off (ulog w s) = readv_off s" "readv_off (ptrace_error w e n s) = readv_off s" "readv_off (umovestr_error x n s) = readv_off s"
  by (simp_all add: ulog_def ptrace_error_def umovestr_error_def Let_def)

lemma umoven_peekdata_off:
  assumes "umoven_peekdata k m a res n acc s = Some y"
  shows "readv_off (snd y) = readv_off s"
proof -
  have "readv_off (snd y) = readv_off s"
  proof (rule umoven_peekdata.raw_induct [where P = "\<lambda>k m a res n acc s y. readv_off (snd y) = readv_off s", OF _ assms(1)], goal_cases)
    case (1 f k m a res n acc s y)
    from 1(2) show ?case by (auto simp: Let_def split: if_splits sum.splits dest!: 1(1))
  qed
  then show ?thesis .
qed

lemma umovestr_peekdata_off:
  assumes "umovestr_peekdata k m a res n acc s = Some y"
  shows "readv_off (snd y) = readv_off s"
proof -
  have "readv_off (snd y) = readv_off s"
  proof (rule umovestr_peekdata.raw_induct [where P = "\<lambda>k m a res n acc s y. readv_off (snd y) = readv_off s", OF _ assms(1)], goal_cases)
    case (1 f k m a res n acc s y)
    from 1(2) show ?case by (auto simp: Let_def split: if_splits sum.splits option.splits dest!: 1(1))
  qed
  then show ?thesis .
qed

lemma umovestr_loop_off:
  assumes "umovestr_loop k m a n acc s = Some y" "readv_implemented k m"
  shows "readv_off (snd y) = readv_off s"
proof -
  have "readv_implemented k m \<longrightarrow> readv_off (snd y) = readv_off s"
  proof (rule umovestr_loop.raw_induct [where P = "\<lambda>k m a n acc s y. readv_implemented k m \<longrightarrow> readv_off (snd y) = readv_off s", OF _ assms(1)], goal_cases)
    case (1 f k m a n acc s y)
    show ?case
    proof
      assume imp: "readv_implemented k m"
      show "readv_off (snd y) = readv_off s"
      proof (cases "n = 0")
        case False
        with 1(2) obtain r s1 where v: "vm_read_mem k m a (chunk_len (k_pagesize k) a n) s = Some (r, s1)"
          by (auto simp: bind_eq_Some_conv)
        with 1(2) False vm_read_mem_off [OF v imp] show ?thesis
          by (auto split: if_splits option.splits dest!: 1(1) [THEN mp, OF _ imp] umovestr_peekdata_off)
      qed (use 1(2) in auto)
    qed
  qed
  then show ?thesis using assms(2) by simp
qed

lemma umoven_off: "umoven k ws m a n s = Some (x, s') \<Longrightarrow> readv_implemented k m \<Longrightarrow> readv_off s' = readv_off s"
  by (auto simp: umoven_def split: if_splits option.splits sum.splits prod.splits
      dest!: vm_read_mem_off umoven_peekdata_off)

lemma umovestr_off: "umovestr k ws m a n s = Some (x, s') \<Longrightarrow> readv_implemented k m \<Longrightarrow> readv_off s' = readv_off s"
  by (auto simp: umovestr_def split: if_splits dest!: umovestr_loop_off umovestr_peekdata_off)

section \<open>Matching is exact\<close>

text \<open>The state between two reads: a valid cache, and \<open>process_vm_readv\<close> in use.\<close>

definition reads_ok :: "'m mem_kernel \<Rightarrow> ('m \<Rightarrow> u64 \<Rightarrow> u8 option) \<Rightarrow> 'm \<Rightarrow> ucopy \<Rightarrow> bool" where
  "reads_ok k mem m s \<longleftrightarrow> cache_ok k mem m s \<and> \<not> readv_off s"

text \<open>A test whose answer does not depend on what was read before.\<close>

definition answers ::
    "'m mem_kernel \<Rightarrow> ('m \<Rightarrow> u64 \<Rightarrow> u8 option) \<Rightarrow> 'm \<Rightarrow> (ucopy \<Rightarrow> (bool \<times> ucopy) option) \<Rightarrow> bool \<Rightarrow> bool" where
  "answers k mem m f b \<longleftrightarrow> (\<forall>s. reads_ok k mem m s \<longrightarrow> (\<exists>s'. f s = Some (b, s') \<and> reads_ok k mem m s'))"

lemma answers_const [simp]: "answers k mem m (\<lambda>s. Some (c, s)) b \<longleftrightarrow> b = c \<or> (\<forall>s. \<not> reads_ok k mem m s)"
  by (auto simp: answers_def)

lemma answers_por:
  assumes "answers k mem m f b" "answers k mem m h c"
  shows "answers k mem m (por f h) (b \<or> c)"
  unfolding answers_def
proof (intro allI impI)
  fix s assume "reads_ok k mem m s"
  then obtain s1 where 1: "f s = Some (b, s1)" "reads_ok k mem m s1" using assms(1) by (auto simp: answers_def)
  then obtain s2 where "h s1 = Some (c, s2)" "reads_ok k mem m s2" using assms(2) by (auto simp: answers_def)
  with 1 show "\<exists>s'. por f h s = Some (b \<or> c, s') \<and> reads_ok k mem m s'" by (cases b) (auto simp: por_def)
qed

definition readable :: "('m \<Rightarrow> u64 \<Rightarrow> u8 option) \<Rightarrow> 'm \<Rightarrow> nat \<Rightarrow> u64 \<Rightarrow> nat \<Rightarrow> bool" where
  "readable mem m wordsize a n \<longleftrightarrow> \<not> tracee_addr_is_invalid wordsize a \<and> accessible mem m a n"

text \<open>The string at an address, if there is one of at most \<open>PATH_MAX\<close> bytes, is a selected path.\<close>

definition path_at :: "('m \<Rightarrow> u64 \<Rightarrow> u8 option) \<Rightarrow> 'm \<Rightarrow> nat \<Rightarrow> u64 \<Rightarrow> u8 list \<Rightarrow> bool" where
  "path_at mem m wordsize a p \<longleftrightarrow> \<not> tracee_addr_is_invalid wordsize a \<and> 0 \<notin> set p \<and> length p \<le> unat PATH_MAX
     \<and> holds mem m a (p @ [0])"

lemma find_nul_split: "find_nul bs = Some j \<Longrightarrow> \<exists>rest. bs = take j bs @ 0 # rest \<and> 0 \<notin> set (take j bs) \<and> j < length bs"
proof (induction bs arbitrary: j)
  case (Cons b bs)
  show ?case
  proof (cases "b = 0")
    case True
    with Cons.prems show ?thesis by simp
  next
    case False
    with Cons.prems obtain i where "find_nul bs = Some i" "j = Suc i" by auto
    with Cons.IH [of i] False show ?thesis by auto
  qed
qed simp

lemma path_at_unique:
  assumes "path_at mem m ws a p" "path_at mem m ws a q"
  shows "p = q"
proof -
  have at: "mem m (a + of_nat i) = Some ((r @ [0]) ! i)" if "path_at mem m ws a r" "i \<le> length r" for r i
    using that by (auto simp: path_at_def holds_def)
  have len: "length r \<le> length t" if "path_at mem m ws a r" "path_at mem m ws a t" for r t
  proof (rule ccontr)
    assume "\<not> length r \<le> length t"
    then have "(r @ [0]) ! length t = 0" "length t < length r" using at [OF that(1), of "length t"] at [OF that(2), of "length t"] by auto
    then have "0 \<in> set r" by (metis nth_append nth_mem)
    with that(1) show False by (simp add: path_at_def)
  qed
  have n: "length p = length q" using len assms by (meson antisym)
  show ?thesis
  proof (rule nth_equalityI)
    fix i assume "i < length p"
    then show "p ! i = q ! i" using at [OF assms(1), of i] at [OF assms(2), of i] n by (simp add: nth_append)
  qed (rule n)
qed

lemma upathmatch_exact:
  assumes "kernel_ok k mem" "readv_works k mem m" "readv_implemented k m" "path_set_ok ps"
  shows "answers k mem m (upathmatch k ws m stack (Some ps) a) (\<exists>p \<in> set (paths_selected ps). path_at mem m ws a p)"
  unfolding answers_def
proof (intro allI impI)
  fix s assume ok: "reads_ok k mem m s"
  let ?sel = "\<exists>p \<in> set (paths_selected ps). path_at mem m ws a p"
  have max: "unat (PATH_MAX + 1) = unat PATH_MAX + 1" by (simp add: PATH_MAX_def)
  show "\<exists>s'. upathmatch k ws m stack (Some ps) a s = Some (?sel, s') \<and> reads_ok k mem m s'"
  proof (cases "tracee_addr_is_invalid ws a")
    case True
    with ok show ?thesis by (simp add: upathmatch_def umovestr_def path_at_def)
  next
    case False
    have c: "cache_ok k mem m s" "\<not> readv_off s" using ok by (simp_all add: reads_ok_def)
    obtain rc bs s' where r: "umovestr k ws m a (PATH_MAX + 1) s = Some ((rc, bs), s')" "cache_ok k mem m s'"
        "length bs \<le> unat (PATH_MAX + 1)" "holds mem m a bs"
        "(\<exists>j. find_nul bs = Some j \<and> rc = int j + 1) \<or> rc = 0 \<and> find_nul bs = None \<and> length bs = unat (PATH_MAX + 1)
         \<or> rc = - 1 \<and> find_nul bs = None \<and> length bs < unat (PATH_MAX + 1) \<and> mem m (a + of_nat (length bs)) = None"
      using umovestr_string [OF assms(1,2) c False, of "PATH_MAX + 1"] by blast
    have ok': "reads_ok k mem m s'" using r(2) umovestr_off [OF r(1) assms(3)] c(2) by (simp add: reads_ok_def)
    have "(rc > 0 \<and> pathmatch (bs @ drop (length bs) stack) (Some ps)) = ?sel"
    proof (cases "find_nul bs")
      case (Some j)
      then obtain rest where sp: "bs = take j bs @ 0 # rest" "0 \<notin> set (take j bs)" "j < length bs" using find_nul_split by blast
      let ?p = "take j bs"
      have c1: "cstr (bs @ drop (length bs) stack) = ?p"
        by (subst sp(1)) (simp add: cstr_append [OF sp(2)])
      have c2: "path_at mem m ws a ?p"
      proof -
        have "bs ! j = (?p @ 0 # rest) ! j" by (subst sp(1)) (rule refl)
        then have "bs ! j = 0" using sp(3) by (simp add: nth_append)
        then have "holds mem m a (?p @ [0])" using r(4) sp(3) by (auto simp: holds_def nth_append less_Suc_eq)
        then show ?thesis using False sp r(3) max by (simp add: path_at_def)
      qed
      have "rc > 0" using r(5) Some by auto
      then show ?thesis unfolding pathmatch_iff c1 using c2 path_at_unique [OF _ c2] by blast
    next
      case None
      have "\<not> path_at mem m ws a p" for p
      proof
        assume p: "path_at mem m ws a p"
        then have h: "mem m (a + of_nat i) = Some ((p @ [0]) ! i)" if "i \<le> length p" for i
          using that by (auto simp: path_at_def holds_def)
        have "length p < length bs"
        proof (rule ccontr)
          assume "\<not> length p < length bs"
          then have "mem m (a + of_nat (length bs)) \<noteq> None" "length bs < unat (PATH_MAX + 1)"
            using h [of "length bs"] p max by (auto simp: path_at_def)
          with r(5) None show False by auto
        qed
        then have "bs ! length p = 0" using h [of "length p"] r(4) by (auto simp: holds_def)
        with \<open>length p < length bs\<close> None find_nul_None show False by (metis nth_mem)
      qed
      with r(5) None show ?thesis by auto
    qed
    with r(1) ok' show ?thesis by (simp add: upathmatch_def)
  qed
qed

lemma umoven_reads:
  assumes "kernel_ok k mem" "readv_works k mem m" "readv_implemented k m" "reads_ok k mem m s"
  obtains bs s' where "reads_ok k mem m s'"
    "umoven k ws m a n s = Some ((if readable mem m ws a (unat n) then 0 else - 1, bs), s')"
    "readable mem m ws a (unat n) \<Longrightarrow> length bs = unat n \<and> holds mem m a bs"
proof -
  have c: "cache_ok k mem m s" "\<not> readv_off s" using assms(4) by (simp_all add: reads_ok_def)
  obtain rc bs s' where r: "umoven k ws m a n s = Some ((rc, bs), s')" "cache_ok k mem m s'" "holds mem m a bs"
      "rc = 0 \<and> length bs = unat n \<or> rc = - 1"
      "accessible mem m a (unat n) \<and> \<not> tracee_addr_is_invalid ws a \<longrightarrow> rc = 0"
    using umoven_copied [OF assms(1) c(1), of ws a n] assms(2) by blast
  have "tracee_addr_is_invalid ws a \<Longrightarrow> rc = - 1" using r(1) by (auto simp: umoven_def)
  moreover have "accessible mem m a (unat n)" if "rc = 0" using r(3,4) that by (auto simp: accessible_def holds_def)
  ultimately have "rc = (if readable mem m ws a (unat n) then 0 else - 1)" using r(4,5) by (auto simp: readable_def)
  moreover have "reads_ok k mem m s'" using r(2) umoven_off [OF r(1) assms(3)] c(2) by (simp add: reads_ok_def)
  ultimately show ?thesis using that [of s' bs] r(1,3,4) by (auto split: if_splits)
qed

text \<open>The bits of a set and the bytes of an object in memory.\<close>

definition bit_at :: "('m \<Rightarrow> u64 \<Rightarrow> u8 option) \<Rightarrow> 'm \<Rightarrow> u64 \<Rightarrow> nat \<Rightarrow> bool" where
  "bit_at mem m a i \<longleftrightarrow> (case mem m (a + of_nat (i div 8)) of None \<Rightarrow> False | Some b \<Rightarrow> bit b (i mod 8))"

definition bytes_at :: "('m \<Rightarrow> u64 \<Rightarrow> u8 option) \<Rightarrow> 'm \<Rightarrow> u64 \<Rightarrow> nat \<Rightarrow> u8 list" where
  "bytes_at mem m a n = map (\<lambda>i. the (mem m (a + of_nat i))) [0..<n]"

lemma bytes_at_holds: "holds mem m a bs \<Longrightarrow> n \<le> length bs \<Longrightarrow> bytes_at mem m a n = take n bs"
  by (rule nth_equalityI) (auto simp: bytes_at_def holds_def)

lemma match_bits_iff: "match_bits f fds j n \<longleftrightarrow> (\<exists>i. j \<le> i \<and> i < n \<and> array_bit fds i \<and> f (int i))"
proof (induction f fds j n rule: match_bits.induct)
  case (1 f fds j n)
  have nx: "next_set_bit fds j n = (case find (array_bit fds) [j..<n] of None \<Rightarrow> - 1 | Some i \<Rightarrow> int i)"
    by (simp add: next_set_bit_def next_set_bit_loop_spec)
  show ?case
  proof (cases "find (array_bit fds) [j..<n]")
    case None
    then have "next_set_bit fds j n = - 1" by (simp add: nx)
    then have "\<not> match_bits f fds j n" by (subst match_bits.simps) simp
    then show ?thesis using find_upt_NoneD [OF None] by auto
  next
    case (Some x)
    note x = find_upt_SomeD [OF Some]
    have nx: "next_set_bit fds j n = int x" using Some by (simp add: nx)
    have step: "match_bits f fds j n \<longleftrightarrow> f (int x) \<or> match_bits f fds (x + 1) n"
      by (subst match_bits.simps) (auto simp: nx)
    have order: "i = x \<or> x + 1 \<le> i" if "j \<le> i" "array_bit fds i" for i
      using x that by (metis Suc_eq_plus1 less_Suc_eq_le not_less_less_Suc_eq not_less)
    show ?thesis
    proof (cases "f (int x)")
      case True
      with step x show ?thesis by blast
    next
      case False
      then have "match_bits f fds (x + 1) n \<longleftrightarrow> (\<exists>i. x + 1 \<le> i \<and> i < n \<and> array_bit fds i \<and> f (int i))"
        using "1.IH" [OF nx [symmetric]] by simp
      moreover have "j \<le> i" if "x + 1 \<le> i" for i using x that by linarith
      ultimately show ?thesis using step False order by metis
    qed
  qed
qed

lemma unat_sum_le: "unat (a + b :: 'a::len word) \<le> unat a + unat b"
  by (simp add: unat_word_ariths)

lemma fdsize_of_enough:
  assumes "ws = 4 \<or> ws = 8" "n \<le> MAX_FDS"
  shows "(n + 7) div 8 \<le> unat (fdsize_of ws n)"
proof -
  let ?x = "of_nat ((n + 7) div 8) + of_nat ws - 1 :: u32" and ?r = "of_nat ws - 1 :: u32"
  have x: "?x = of_nat ((n + 7) div 8 + (ws - 1))" using assms(1) by auto
  have small: "(n + 7) div 8 + (ws - 1) < 2 ^ 32" using assms by (auto simp: MAX_FDS_def)
  then have ux: "unat ?x = (n + 7) div 8 + (ws - 1)" unfolding x by (simp add: unat_of_nat del: of_nat_add)
  have neg: "- of_nat ws = NOT ?r" by (simp add: not_eq_complement)
  have "unat (?x AND ?r) \<le> unat ?r" using word_and_le1 [of ?x ?r] by (simp add: word_le_nat_alt)
  also have "unat ?r = ws - 1" using assms(1) by auto
  finally have r: "unat (?x AND ?r) \<le> ws - 1" .
  have "unat ?x \<le> unat (?x AND NOT ?r) + unat (?x AND ?r)"
    using unat_sum_le [of "?x AND NOT ?r" "?x AND ?r"] split_mask [of ?x ?r] by (simp only: add.commute)
  with r ux have "(n + 7) div 8 \<le> unat (?x AND NOT ?r)" by simp
  then show ?thesis by (simp add: fdsize_of_def neg)
qed

lemma array_bit_at: "holds mem m a bs \<Longrightarrow> i div 8 < length bs \<Longrightarrow> array_bit bs i = bit_at mem m a i"
  by (simp add: array_bit_def bit_at_def holds_def)

lemma match_sets_exact:
  assumes "kernel_ok k mem" "readv_works k mem m" "readv_implemented k m" "ws = 4 \<or> ws = 8" "n \<le> MAX_FDS"
  shows "answers k mem m (match_sets k ws m f n as)
    (\<exists>a \<in> set as. a \<noteq> 0 \<and> readable mem m ws a (unat (fdsize_of ws n)) \<and> (\<exists>i < n. bit_at mem m a i \<and> f (int i)))"
proof (induction "as")
  case (Cons a "as")
  show ?case unfolding answers_def
  proof (intro allI impI)
    fix s assume ok: "reads_ok k mem m s"
    let ?hit = "\<lambda>a. a \<noteq> 0 \<and> readable mem m ws a (unat (fdsize_of ws n)) \<and> (\<exists>i < n. bit_at mem m a i \<and> f (int i))"
    have rest: "\<exists>s'. match_sets k ws m f n as u = Some (\<exists>a \<in> set as. ?hit a, s') \<and> reads_ok k mem m s'" if "reads_ok k mem m u" for u
      using Cons.IH that by (simp add: answers_def)
    obtain bs s1 where r: "reads_ok k mem m s1"
      "umoven k ws m a (fdsize_of ws n) s = Some ((if readable mem m ws a (unat (fdsize_of ws n)) then 0 else - 1, bs), s1)"
      "readable mem m ws a (unat (fdsize_of ws n)) \<Longrightarrow> length bs = unat (fdsize_of ws n) \<and> holds mem m a bs"
      using umoven_reads [OF assms(1-3) ok, of ws a "fdsize_of ws n"] by blast
    have bits: "match_bits f bs 0 n \<longleftrightarrow> (\<exists>i < n. bit_at mem m a i \<and> f (int i))" if rd: "readable mem m ws a (unat (fdsize_of ws n))"
    proof -
      have "array_bit bs i = bit_at mem m a i" if "i < n" for i
        using r(3) [OF rd] fdsize_of_enough [OF assms(4,5)] that by (intro array_bit_at) auto
      then show ?thesis by (auto simp: match_bits_iff)
    qed
    show "\<exists>s'. match_sets k ws m f n (a # as) s = Some (\<exists>a \<in> set (a # as). ?hit a, s') \<and> reads_ok k mem m s'"
    proof (cases "?hit a")
      case True
      then show ?thesis using r(1,2) bits by simp
    next
      case False
      then have "(\<exists>a \<in> set (a # as). ?hit a) = (\<exists>a \<in> set as. ?hit a)" by auto
      moreover have "match_sets k ws m f n (a # as) s = match_sets k ws m f n as (if a = 0 then s else s1)"
        using False r(2) bits by auto
      ultimately show ?thesis using rest [of "if a = 0 then s else s1"] ok r(1) by simp
    qed
  qed
qed simp

definition fd_at :: "('m \<Rightarrow> u64 \<Rightarrow> u8 option) \<Rightarrow> 'm \<Rightarrow> u64 \<Rightarrow> int" where
  "fd_at mem m a = int_of (le_word (bytes_at mem m a 4))"

lemma unat_eight: "unat (8 :: u32) = 8" by simp

lemma match_pollfds_exact:
  assumes "kernel_ok k mem" "readv_works k mem m" "readv_implemented k m"
  shows "answers k mem m (match_pollfds k ws m f as)
    (\<exists>n < length as. (\<forall>i \<le> n. readable mem m ws (as ! i) 8) \<and> f (fd_at mem m (as ! n)))"
proof (induction "as")
  case (Cons a "as")
  show ?case unfolding answers_def
  proof (intro allI impI)
    fix s assume ok: "reads_ok k mem m s"
    let ?hit = "\<lambda>as. \<exists>n < length as. (\<forall>i \<le> n. readable mem m ws (as ! i) 8) \<and> f (fd_at mem m (as ! n))"
    have split: "?hit (a # as) \<longleftrightarrow> readable mem m ws a 8 \<and> (f (fd_at mem m a) \<or> ?hit as)"
    proof -
      have all: "(\<forall>i \<le> Suc n. P i) \<longleftrightarrow> P 0 \<and> (\<forall>i \<le> n. P (Suc i))" for P n by (metis Suc_le_mono le0 not0_implies_Suc)
      show ?thesis by (simp add: ex_less_Suc_shift all) blast
    qed
    obtain bs s1 where r: "reads_ok k mem m s1"
      "umoven k ws m a 8 s = Some ((if readable mem m ws a 8 then 0 else - 1, bs), s1)"
      "readable mem m ws a 8 \<Longrightarrow> length bs = 8 \<and> holds mem m a bs"
      using umoven_reads [OF assms ok, of ws a 8, unfolded unat_eight] by blast
    obtain s2 where s2: "match_pollfds k ws m f as s1 = Some (?hit as, s2)" "reads_ok k mem m s2"
      using Cons.IH r(1) by (auto simp: answers_def)
    have fd: "readable mem m ws a 8 \<Longrightarrow> int_of (le_word (take 4 bs)) = fd_at mem m a"
      using r(3) bytes_at_holds [of mem m a bs 4] by (simp add: fd_at_def)
    show "\<exists>s'. match_pollfds k ws m f (a # as) s = Some (?hit (a # as), s') \<and> reads_ok k mem m s'"
      unfolding split using r(1,2) s2 fd by (cases "readable mem m ws a 8"; cases "f (fd_at mem m a)") auto
  qed
qed simp

section \<open>What a system call refers to\<close>

text \<open>The words of an array of the tracee, if all of it can be read.\<close>

definition args_at :: "('m \<Rightarrow> u64 \<Rightarrow> u8 option) \<Rightarrow> 'm \<Rightarrow> nat \<Rightarrow> u64 \<Rightarrow> nat \<Rightarrow> u64 list option" where
  "args_at mem m ws a n =
     (let w = (if ws = 8 then 8 else 4)
      in if readable mem m ws a (w * n)
         then Some (map (\<lambda>i. le_word (bytes_at mem m (a + of_nat (w * i)) w)) [0..<n]) else None)"

text \<open>The descriptors in the sets of \<open>select\<close> and in the array of \<open>poll\<close>.\<close>

definition select_fds :: "('m \<Rightarrow> u64 \<Rightarrow> u8 option) \<Rightarrow> 'm \<Rightarrow> nat \<Rightarrow> u64 list \<Rightarrow> int set" where
  "select_fds mem m ws args =
     (let n = min (nat (int_of (args ! 0))) MAX_FDS
      in {int i | i a. i < n \<and> a \<in> {args ! 1, args ! 2, args ! 3} \<and> a \<noteq> 0
            \<and> readable mem m ws a (unat (fdsize_of ws n)) \<and> bit_at mem m a i})"

definition poll_fds :: "('m \<Rightarrow> u64 \<Rightarrow> u8 option) \<Rightarrow> 'm \<Rightarrow> nat \<Rightarrow> u64 \<Rightarrow> u64 \<Rightarrow> int set" where
  "poll_fds mem m ws start len =
     (let n = min (unat (ucast len :: u32)) MAX_FDS
      in {fd_at mem m (start + 8 * of_nat j) | j. j < n \<and> start \<le> start + 8 * of_nat n
            \<and> (\<forall>i \<le> j. readable mem m ws (start + 8 * of_nat i) 8)})"

lemma fetch_exact:
  assumes "kernel_ok k mem" "readv_works k mem m" "readv_implemented k m" "reads_ok k mem m s" "n \<le> 6"
  shows "\<exists>s'. fetch_indirect_syscall_args k ws m a n s = Some (args_at mem m ws a n, s') \<and> reads_ok k mem m s'"
proof -
  define w :: nat where "w = (if ws = 8 then 8 else 4)"
  have w: "w = 8 \<or> w = 4" by (simp add: w_def)
  have "w * n \<le> 8 * 6" using w assms(5) by (intro mult_mono) auto
  then have un: "unat (of_nat (w * n) :: u32) = w * n" by (simp add: unat_of_nat del: of_nat_mult)
  obtain bs s' where r: "reads_ok k mem m s'"
    "umoven k ws m a (of_nat (w * n)) s = Some ((if readable mem m ws a (w * n) then 0 else - 1, bs), s')"
    "readable mem m ws a (w * n) \<Longrightarrow> length bs = w * n \<and> holds mem m a bs"
    using umoven_reads [OF assms(1-4), of ws a "of_nat (w * n)", unfolded un] by blast
  have "take w (drop (w * i) bs) = bytes_at mem m (a + of_nat (w * i)) w"
    if rd: "readable mem m ws a (w * n)" and "i < n" for i
  proof -
    have "w * Suc i \<le> w * n" using \<open>i < n\<close> by (intro mult_le_mono2) simp
    then have "w \<le> length (drop (w * i) bs)" using r(3) [OF rd] by simp
    moreover have "w * i \<le> length bs" using r(3) [OF rd] \<open>i < n\<close> by simp
    ultimately show ?thesis using bytes_at_holds [OF holds_drop [of mem m a bs "w * i"]] r(3) [OF rd] by metis
  qed
  then have "(if (if readable mem m ws a (w * n) then 0 else - 1 :: int) \<noteq> 0 then None
      else Some (map (\<lambda>i. le_word (take w (drop (w * i) bs))) [0..<n])) = args_at mem m ws a n"
    unfolding args_at_def w_def [symmetric] Let_def by simp
  then show ?thesis using r(1,2)
    unfolding fetch_indirect_syscall_args_def w_def [symmetric] Let_def by (auto simp del: of_nat_mult)
qed

lemma match_xselect_exact:
  assumes "kernel_ok k mem" "readv_works k mem m" "readv_implemented k m" "ws = 4 \<or> ws = 8"
  shows "answers k mem m (match_xselect_args k ws m f args) (\<exists>fd \<in> select_fds mem m ws args. f fd)"
proof (cases "int_of (args ! 0) \<le> 0")
  case True
  then show ?thesis by (simp add: answers_def match_xselect_args_def select_fds_def)
next
  case False
  let ?n = "min (nat (int_of (args ! 0))) MAX_FDS"
  have "(\<exists>fd \<in> select_fds mem m ws args. f fd) \<longleftrightarrow> (\<exists>a \<in> set (map (\<lambda>i. args ! i) [1, 2, 3]). a \<noteq> 0
      \<and> readable mem m ws a (unat (fdsize_of ws ?n)) \<and> (\<exists>i < ?n. bit_at mem m a i \<and> f (int i)))"
    unfolding select_fds_def Let_def by (simp only: list.map list.set) blast
  then show ?thesis
    using match_sets_exact [OF assms, of ?n f "map (\<lambda>i. args ! i) [1, 2, 3]"] False
    by (simp only: answers_def match_xselect_args_def Let_def if_False) simp
qed

lemma match_poll_exact:
  assumes "kernel_ok k mem" "readv_works k mem m" "readv_implemented k m"
  shows "answers k mem m (match_poll k ws m f a len) (\<exists>fd \<in> poll_fds mem m ws a len. f fd)"
proof -
  let ?n = "min (unat (ucast len :: u32)) MAX_FDS"
  let ?as = "map (\<lambda>i. a + 8 * of_nat i) [0..<?n]"
  show ?thesis
  proof (cases "?n = 0 \<or> a + 8 * of_nat ?n < a")
    case True
    then have "poll_fds mem m ws a len = {}" by (auto simp: poll_fds_def Let_def)
    with True show ?thesis by (simp only: answers_def match_poll_def Let_def if_True) simp
  next
    case False
    have "(\<exists>j < length ?as. (\<forall>i \<le> j. readable mem m ws (?as ! i) 8) \<and> f (fd_at mem m (?as ! j)))
        \<longleftrightarrow> (\<exists>j < ?n. (\<forall>i \<le> j. readable mem m ws (a + 8 * of_nat i) 8) \<and> f (fd_at mem m (a + 8 * of_nat j)))"
      by (auto simp del: min_less_iff_conj)
    also have "\<dots> \<longleftrightarrow> (\<exists>fd \<in> poll_fds mem m ws a len. f fd)"
      using False unfolding poll_fds_def Let_def de_Morgan_disj not_less by blast
    finally show ?thesis
      using match_pollfds_exact [OF assms, of ws f ?as] False
      by (simp only: answers_def match_poll_def Let_def if_False)
  qed
qed

text \<open>
  The file that a descriptor stands for: what its link says, without the suffix that the kernel
  gives the link of an unlinked file.
\<close>

definition deleted_link :: "files \<Rightarrow> int \<Rightarrow> int \<Rightarrow> u8 list \<Rightarrow> bool" where
  "deleted_link fs proc_pid fd l \<longleftrightarrow> length l \<ge> 12 \<and> drop (length l - 10) l = butlast del_sfx
     \<and> fs_stat_fd fs proc_pid fd \<noteq> None \<and> fs_lstat fs l \<noteq> fs_stat_fd fs proc_pid fd"

definition file_of_fd :: "files \<Rightarrow> int \<Rightarrow> int \<Rightarrow> u8 list option" where
  "file_of_fd fs p fd =
     (if fd < 0 \<or> get_proc_pid fs p = 0 then None
      else map_option (\<lambda>l. if deleted_link fs (get_proc_pid fs p) fd l then take (length l - 10) l else l)
             (fs_readlink fs (get_proc_pid fs p) fd (unat PATH_MAX)))"

definition links_ok :: "files \<Rightarrow> bool" where
  "links_ok fs \<longleftrightarrow> (\<forall>p fd n l. fs_readlink fs p fd n = Some l \<longrightarrow> 0 \<notin> set l)"

definition selected :: "path_set option \<Rightarrow> u8 list set" where
  "selected ps = (case ps of None \<Rightarrow> {} | Some s \<Rightarrow> set (paths_selected s))"

definition fds_of :: "number_set option \<Rightarrow> int set" where
  "fds_of fdset = (case fdset of None \<Rightarrow> {} | Some d \<Rightarrow> int ` denotes d)"

lemma fd_path_exact:
  assumes "0 \<notin> set l" "fs_readlink fs q fd (n - 1) = Some l" "0 \<le> fd"
  obtains r buf d where "get_proc_pid_fd_path fs q fd n = (r, buf, d)" "0 \<le> r"
    "cstr buf = (if deleted_link fs q fd l then take (length l - 10) l else l)" "d = deleted_link fs q fd l"
proof (cases "length l \<ge> 12 \<and> drop (length l - 10) l = butlast del_sfx")
  case True
  have sfx: "drop (length l - 10) (l @ [0]) = del_sfx"
    using True by (simp add: del_sfx_def)
  have "0 \<notin> set (take (length l - 10) l)" using assms(1) by (meson in_set_takeD)
  then have cut: "cstr ((l @ [0])[length l - 10 := 0]) = take (length l - 10) l"
    using True by (subst upd_conv_take_nth_drop) (simp_all add: cstr_append)
  have len: "length del_sfx = 11" by (simp add: del_sfx_def)
  have dl: "deleted_link fs q fd l \<longleftrightarrow> fs_stat_fd fs q fd \<noteq> None \<and> fs_lstat fs l \<noteq> fs_stat_fd fs q fd"
    using True by (simp add: deleted_link_def)
  show ?thesis
  proof (cases "deleted_link fs q fd l")
    case del: True
    then obtain st where "fs_stat_fd fs q fd = Some st" "fs_lstat fs l \<noteq> Some st" using dl by auto
    then have "get_proc_pid_fd_path fs q fd n = (int (length l - 10) + 1, (l @ [0])[length l - 10 := 0], True)"
      using assms(2,3) True sfx len by (simp add: get_proc_pid_fd_path_def Let_def)
    then show ?thesis using that del cut by simp
  next
    case no: False
    then have "get_proc_pid_fd_path fs q fd n = (int (length l), l @ [0], False)"
      using assms(2,3) True sfx len dl by (auto simp: get_proc_pid_fd_path_def Let_def split: option.splits)
    then show ?thesis using that no assms(1) cstr_append [of l "[]"] by simp
  qed
next
  case False
  have no: "\<not> deleted_link fs q fd l" using False by (auto simp: deleted_link_def)
  have "length l \<le> length del_sfx \<or> drop (length l + 1 - length del_sfx) (l @ [0]) \<noteq> del_sfx"
    using False by (auto simp: del_sfx_def eval_nat_numeral)
  then have "get_proc_pid_fd_path fs q fd n = (int (length l), l @ [0], False)"
    using assms(2,3) by (simp add: get_proc_pid_fd_path_def Let_def)
  then show ?thesis using that no assms(1) cstr_append [of l "[]"] by simp
qed

lemma fdmatch_exact:
  assumes "links_ok fs"
  shows "fdmatch fs t fd ps fdset \<longleftrightarrow> fd \<in> fds_of fdset \<or> (\<exists>p \<in> selected ps. file_of_fd fs (pid t) fd = Some p)"
proof -
  have set: "fd \<in> fds_of fdset \<longleftrightarrow> fdset \<noteq> None \<and> fd \<ge> 0 \<and> is_number_in_set (nat fd) fdset"
    by (cases fdset) (auto simp: fds_of_def denotes_def image_iff intro: exI [of _ "nat fd"])
  let ?q = "get_proc_pid fs (pid t)"
  have path: "(case getfdpath_pid fs (pid t) fd (unat PATH_MAX + 1) of (n, path, _) \<Rightarrow> n \<ge> 0 \<and> pathmatch path (Some s))
      \<longleftrightarrow> (\<exists>p \<in> set (paths_selected s). file_of_fd fs (pid t) fd = Some p)" for s
  proof (cases "fd < 0 \<or> ?q = 0")
    case True
    then show ?thesis by (auto simp: getfdpath_pid_def file_of_fd_def)
  next
    case False
    show ?thesis
    proof (cases "fs_readlink fs ?q fd (unat PATH_MAX)")
      case None
      with False show ?thesis by (simp add: getfdpath_pid_def file_of_fd_def get_proc_pid_fd_path_def Let_def)
    next
      case (Some l)
      have z: "0 \<notin> set l" using assms Some by (auto simp: links_ok_def)
      have rl: "fs_readlink fs ?q fd (unat PATH_MAX + 1 - 1) = Some l" using Some by simp
      obtain r buf d where "get_proc_pid_fd_path fs ?q fd (unat PATH_MAX + 1) = (r, buf, d)" "0 \<le> r"
        "cstr buf = (if deleted_link fs ?q fd l then take (length l - 10) l else l)"
        using fd_path_exact [OF z rl] False by (metis not_less)
      with False Some show ?thesis
        by (simp only: getfdpath_pid_def file_of_fd_def Let_def pathmatch_iff) auto
    qed
  qed
  show ?thesis
  proof (cases ps)
    case None
    then show ?thesis by (simp add: fdmatch_def set selected_def)
  next
    case (Some s)
    then show ?thesis using path [of s] by (auto simp: fdmatch_def set selected_def)
  qed
qed

text \<open>Which arguments are descriptors and which are paths, for the calls that pass them directly.\<close>

definition arg_places :: "nat \<Rightarrow> sysent \<Rightarrow> u32 \<Rightarrow> nat list \<times> nat list" where
  "arg_places kls e cmd =
     (if sen e \<in> set sens_fd_fd then ([0, 1], [])
      else if sen e \<in> set sens_fd_path then ([0], [1])
      else if sen e \<in> set sens_path_path then ([], [0, 1])
      else if sen e \<in> set sens_x_path then ([], [1])
      else if sen e \<in> set sens_fd_path_fd_path then ([0, 2], [1, 3])
      else if sen e \<in> set sens_mmap then ([4], [])
      else if sen e = ''symlinkat'' then ([1], [2])
      else if sen e \<in> set sens_fd_x_fd then ([0, 2], [])
      else if sen e = ''epoll_ctl'' then ([2], [])
      else if sen e = ''fanotify_mark'' then ([getllval_next kls 2], [getllval_next kls 2 + 1])
      else if sen e = ''fsconfig''
      then if cmd = 3 \<or> cmd = 4 then ([4], [3]) else if cmd = 5 then ([4], []) else ([], [])
      else if sen e \<in> set sens_nothing then ([], [])
      else if sys_flags e AND TRACE_FILE \<noteq> 0 then ([], [0])
      else ([0], []))"

text \<open>The calls whose descriptors are in the memory of the tracee.\<close>

definition sens_memory :: "string list" where
  "sens_memory = ''old_mmap'' # ''oldselect'' # sens_select @ sens_poll"

definition filed :: "sysent \<Rightarrow> bool" where
  "filed e \<longleftrightarrow> sys_flags e AND (TRACE_FILE OR TRACE_DESC OR TRACE_NETWORK) \<noteq> 0"

definition call_fds :: "('m \<Rightarrow> u64 \<Rightarrow> u8 option) \<Rightarrow> 'm \<Rightarrow> nat \<Rightarrow> nat \<Rightarrow> tcb \<Rightarrow> int set" where
  "call_fds mem m ws kls t =
     (let e = tcp_sysent t; args = (\<lambda>n. args_at mem m ws (u_arg t ! 0) n)
      in if \<not> filed e then {}
         else if sen e = ''old_mmap'' then (case args 6 of None \<Rightarrow> {} | Some args \<Rightarrow> {int_of (args ! 4)})
         else if sen e = ''oldselect'' then (case args 5 of None \<Rightarrow> {} | Some args \<Rightarrow> select_fds mem m ws args)
         else if sen e \<in> set sens_select then select_fds mem m ws (u_arg t)
         else if sen e \<in> set sens_poll then poll_fds mem m ws (u_arg t ! 0) (u_arg t ! 1)
         else (\<lambda>i. int_of (u_arg t ! i)) ` set (fst (arg_places kls e (ucast (u_arg t ! 1)))))"

definition call_paths :: "nat \<Rightarrow> tcb \<Rightarrow> u64 set" where
  "call_paths kls t =
     (let e = tcp_sysent t
      in if \<not> filed e \<or> sen e \<in> set sens_memory then {}
         else (\<lambda>i. u_arg t ! i) ` set (snd (arg_places kls e (ucast (u_arg t ! 1)))))"

lemma por_False: "por f (\<lambda>s. Some (False, s)) = f"
  by (rule ext) (auto simp: por_def bind_eq_Some_conv split: Option.bind_splits)

definition any_of :: "('s \<Rightarrow> (bool \<times> 's) option) list \<Rightarrow> 's \<Rightarrow> (bool \<times> 's) option" where
  "any_of fs = foldr por fs (\<lambda>s. Some (False, s))"

lemma any_of_simps: "any_of [] = (\<lambda>s. Some (False, s))" "any_of [f] = f" "any_of (f # g # fs) = por f (any_of (g # fs))"
  by (simp_all add: any_of_def por_False)

lemma answers_any_of:
  "list_all2 (answers k mem m) fs bs \<Longrightarrow> answers k mem m (any_of fs) (True \<in> set bs)"
proof (induction fs bs rule: list_all2_induct)
  case (Cons f fs b bs)
  then show ?case using answers_por [of k mem m f b "any_of fs" "True \<in> set bs"] by (cases b) (simp_all add: any_of_def)
qed (simp add: any_of_def)

lemma match_direct:
  assumes "filed (tcp_sysent t)" "sen (tcp_sysent t) \<notin> set sens_memory"
  shows "pathtrace_match_set fs k ws kls m stack t ps fdset =
    (case arg_places kls (tcp_sysent t) (ucast (u_arg t ! 1)) of (F, P) \<Rightarrow>
      any_of (map (\<lambda>i s. Some (fdmatch fs t (int_of (u_arg t ! i)) ps fdset, s)) F
        @ map (\<lambda>i. upathmatch k ws m stack ps (u_arg t ! i)) P))"
proof -
  have special: "sen (tcp_sysent t) \<noteq> ''old_mmap''" "sen (tcp_sysent t) \<noteq> ''oldselect''"
    "sen (tcp_sysent t) \<notin> set sens_select" "sen (tcp_sysent t) \<notin> set sens_poll"
    using assms(2) by (simp_all add: sens_memory_def)
  have flags: "\<not> sys_flags (tcp_sysent t) AND (TRACE_FILE OR TRACE_DESC OR TRACE_NETWORK) = 0"
    using assms(1) by (simp add: filed_def)
  show ?thesis
    unfolding pathtrace_match_set_def arg_places_def Let_def if_not_P [OF flags] if_not_P [OF special(1)]
      if_not_P [OF special(2)] if_not_P [OF special(3)] if_not_P [OF special(4)]
    by (rule ext) (simp add: any_of_simps split: if_split cong: if_cong)
qed

lemma upathmatch_answers:
  assumes "kernel_ok k mem" "readv_works k mem m" "readv_implemented k m" "pred_option path_set_ok ps"
  shows "answers k mem m (upathmatch k ws m stack ps a) (\<exists>p \<in> selected ps. path_at mem m ws a p)"
proof (cases ps)
  case None
  then show ?thesis by (simp add: answers_def upathmatch_def selected_def)
next
  case (Some s)
  with upathmatch_exact [OF assms(1-3), of s ws stack a] assms(4) show ?thesis by (simp add: selected_def)
qed

lemma match_direct_answers:
  assumes "kernel_ok k mem" "readv_works k mem m" "readv_implemented k m" "pred_option path_set_ok ps"
    and "filed (tcp_sysent t)" "sen (tcp_sysent t) \<notin> set sens_memory"
  shows "answers k mem m (pathtrace_match_set fs k ws kls m stack t ps fdset)
    ((\<exists>fd \<in> call_fds mem m ws kls t. fdmatch fs t fd ps fdset)
     \<or> (\<exists>a \<in> call_paths kls t. \<exists>p \<in> selected ps. path_at mem m ws a p))"
proof -
  obtain F P where FP: "arg_places kls (tcp_sysent t) (ucast (u_arg t ! 1)) = (F, P)" by fastforce
  let ?f = "\<lambda>i. fdmatch fs t (int_of (u_arg t ! i)) ps fdset"
  let ?p = "\<lambda>i. \<exists>p \<in> selected ps. path_at mem m ws (u_arg t ! i) p"
  have 1: "list_all2 (answers k mem m) (map (\<lambda>i s. Some (?f i, s)) F) (map ?f F)"
    by (simp add: list_all2_conv_all_nth)
  have 2: "list_all2 (answers k mem m) (map (\<lambda>i. upathmatch k ws m stack ps (u_arg t ! i)) P) (map ?p P)"
    using upathmatch_answers [OF assms(1-4)] by (simp add: list_all2_conv_all_nth)
  have "call_fds mem m ws kls t = (\<lambda>i. int_of (u_arg t ! i)) ` set F" "call_paths kls t = (\<lambda>i. u_arg t ! i) ` set P"
    using assms(5,6) FP by (auto simp: call_fds_def call_paths_def sens_memory_def)
  then have "((\<exists>fd \<in> call_fds mem m ws kls t. fdmatch fs t fd ps fdset)
     \<or> (\<exists>a \<in> call_paths kls t. \<exists>p \<in> selected ps. path_at mem m ws a p)) \<longleftrightarrow> True \<in> set (map ?f F @ map ?p P)"
    by (auto simp: image_iff)
  then show ?thesis unfolding match_direct [OF assms(5,6)] FP prod.case
    using answers_any_of [OF list_all2_appendI [OF 1 2]] by simp
qed

lemma answers_fetched:
  assumes "kernel_ok k mem" "readv_works k mem m" "readv_implemented k m" "n \<le> 6"
    and "\<And>args. answers k mem m (h args) (b args)"
  shows "answers k mem m (\<lambda>s. Option.bind (fetch_indirect_syscall_args k ws m a n s)
      (\<lambda>(args, s). case args of None \<Rightarrow> Some (False, s) | Some args \<Rightarrow> h args s))
    (case args_at mem m ws a n of None \<Rightarrow> False | Some args \<Rightarrow> b args)"
  unfolding answers_def
proof (intro allI impI)
  fix s assume "reads_ok k mem m s"
  then obtain s1 where s1: "fetch_indirect_syscall_args k ws m a n s = Some (args_at mem m ws a n, s1)" "reads_ok k mem m s1"
    using fetch_exact [OF assms(1-3) _ assms(4)] by blast
  then show "\<exists>s'. Option.bind (fetch_indirect_syscall_args k ws m a n s)
      (\<lambda>(args, s). case args of None \<Rightarrow> Some (False, s) | Some args \<Rightarrow> h args s)
    = Some (case args_at mem m ws a n of None \<Rightarrow> False | Some args \<Rightarrow> b args, s') \<and> reads_ok k mem m s'"
    using assms(5) by (cases "args_at mem m ws a n") (auto simp: answers_def)
qed

lemma answers_cong: "answers k mem m f b \<Longrightarrow> (\<And>s. h s = f s) \<Longrightarrow> c = b \<Longrightarrow> answers k mem m h c"
  by (simp add: answers_def)

lemmas sens_defs = sens_fd_fd_def sens_fd_path_def sens_path_path_def sens_x_path_def sens_fd_path_fd_path_def
  sens_mmap_def sens_fd_x_fd_def sens_select_def sens_poll_def

lemma sens_apart:
  assumes "sn \<in> set (sens_select @ sens_poll)"
  shows "sn \<notin> set sens_fd_fd" "sn \<notin> set sens_fd_path" "sn \<notin> set sens_path_path" "sn \<notin> set sens_x_path"
    "sn \<notin> set sens_fd_path_fd_path" "sn \<noteq> ''old_mmap''" "sn \<notin> set sens_mmap" "sn \<noteq> ''symlinkat''"
    "sn \<notin> set sens_fd_x_fd" "sn \<noteq> ''epoll_ctl''" "sn \<noteq> ''fanotify_mark''" "sn \<noteq> ''oldselect''"
  using assms by (auto simp: sens_defs)

lemma sens_poll_apart: "sn \<in> set sens_poll \<Longrightarrow> sn \<notin> set sens_select"
  by (auto simp: sens_defs)

lemma match_memory_answers:
  assumes "kernel_ok k mem" "readv_works k mem m" "readv_implemented k m" "ws = 4 \<or> ws = 8"
    and "filed (tcp_sysent t)" "sen (tcp_sysent t) \<in> set sens_memory"
  shows "answers k mem m (pathtrace_match_set fs k ws kls m stack t ps fdset)
    (\<exists>fd \<in> call_fds mem m ws kls t. fdmatch fs t fd ps fdset)"
proof -
  let ?f = "\<lambda>fd. fdmatch fs t fd ps fdset"
  have flags: "sys_flags (tcp_sysent t) AND (TRACE_FILE OR TRACE_DESC OR TRACE_NETWORK) \<noteq> 0"
    using assms(5) by (simp add: filed_def)
  have unfetched: "(\<exists>fd \<in> (case x of None \<Rightarrow> {} | Some y \<Rightarrow> g y). ?f fd) = (case x of None \<Rightarrow> False | Some y \<Rightarrow> \<exists>fd \<in> g y. ?f fd)"
    for x :: "u64 list option" and g by (cases x) simp_all
  consider "sen (tcp_sysent t) = ''old_mmap''" | "sen (tcp_sysent t) = ''oldselect''"
    | "sen (tcp_sysent t) \<in> set sens_select" | "sen (tcp_sysent t) \<in> set sens_poll"
    using assms(6) by (auto simp: sens_memory_def)
  then show ?thesis
  proof cases
    case 1
    have "answers k mem m (\<lambda>s. Some (?f (int_of (args ! 4)), s)) (\<exists>fd \<in> {int_of (args ! 4)}. ?f fd)" for args :: "u64 list"
      by simp
    from answers_fetched [OF assms(1-3) _ this, of 6 ws "u_arg t ! 0"] show ?thesis
      by (rule answers_cong) (use 1 flags assms(5) in
        \<open>simp_all add: pathtrace_match_set_def call_fds_def sens_defs Let_def unfetched\<close>)
  next
    case 2
    from answers_fetched [OF assms(1-3) _ match_xselect_exact [OF assms(1-4), of ?f], of 5 ws "u_arg t ! 0"] show ?thesis
      by (rule answers_cong) (use 2 flags assms(5) in
        \<open>simp_all add: pathtrace_match_set_def call_fds_def sens_defs Let_def unfetched\<close>)
  next
    case 3
    show ?thesis
      by (rule answers_cong [OF match_xselect_exact [OF assms(1-4), of ?f "u_arg t"]])
        (use 3 flags assms(5) in \<open>simp_all add: pathtrace_match_set_def call_fds_def sens_apart Let_def\<close>)
  next
    case 4
    show ?thesis
      by (rule answers_cong [OF match_poll_exact [OF assms(1-3), of ws ?f "u_arg t ! 0" "u_arg t ! 1"]])
        (use 4 flags assms(5) in \<open>simp_all add: pathtrace_match_set_def call_fds_def sens_apart sens_poll_apart Let_def\<close>)
  qed
qed


section \<open>The options select what they name\<close>

text \<open>The array is at most twice as long as needed, so that it can grow for any number of options.\<close>

definition path_set_small :: "nat \<Rightarrow> path_set \<Rightarrow> bool" where
  "path_set_small n s \<longleftrightarrow> length (paths_selected s) \<le> n \<and> unat (path_size s) \<le> 16 + 2 * length (paths_selected s)"

lemma xgrowarray_small:
  assumes "unat sz < 2 ^ 40"
  shows "\<exists>sz'. xgrowarray (sz = 0) sz 8 = Inr sz' \<and> unat sz' \<le> max 16 (2 * unat sz + 1)"
proof (cases "sz = 0")
  case True
  then show ?thesis by (simp add: xgrowarray_def Let_def xreallocarray_eq ROUNDUP_DIV_def DEFAULT_ALLOC_SIZE_def)
next
  case False
  have half: "unat (drop_bit 1 sz + 1) = unat sz div 2 + 1"
    using assms by (simp add: unat_word_ariths unat_drop_bit_eq drop_bit_eq_div)
  then have sum: "unat (sz + (drop_bit 1 sz + 1)) = unat sz + (unat sz div 2 + 1)"
    using assms by (simp add: unat_word_ariths)
  have "\<not> sz + (drop_bit 1 sz + 1) < sz" using sum by (simp add: word_less_nat_alt)
  moreover have "unat (sz + (drop_bit 1 sz + 1)) * unat (8 :: u64) < 2 ^ 64" unfolding sum using assms by simp
  ultimately have "xgrowarray (sz = 0) sz 8 = Inr (sz + (drop_bit 1 sz + 1))"
    using False by (simp add: xgrowarray_def Let_def xreallocarray_eq del: add.assoc flip: add.assoc)
  then show ?thesis using sum by auto
qed

lemma storepath_returns:
  assumes "path_set_ok s" "path_set_small n s" "n < 2 ^ 32"
  shows "\<exists>s'. storepath p s = Inr s' \<and> path_set_small (n + 1) s'"
proof (cases "pathmatch p (Some s)")
  case True
  then show ?thesis using assms(2) by (simp add: storepath_def path_set_small_def)
next
  case False
  let ?n = "length (paths_selected s)"
  have small: "?n < 2 ^ 32" "unat (path_size s) < 2 ^ 40" using assms(2,3) by (simp_all add: path_set_small_def)
  then have un: "unat (of_nat ?n :: u64) = ?n" by (simp add: unat_of_nat)
  have "\<exists>sz. (if of_nat ?n \<ge> path_size s then xgrowarray (path_size s = 0) (path_size s) 8 else Inr (path_size s)) = Inr sz
      \<and> unat sz \<le> 16 + 2 * (?n + 1)"
  proof (cases "of_nat ?n \<ge> path_size s")
    case True
    then have "unat (path_size s) \<le> ?n" using un by (simp add: word_le_nat_alt)
    then show ?thesis using True xgrowarray_small [OF small(2)] by auto
  next
    case False
    then show ?thesis using assms(2) by (simp add: path_set_small_def)
  qed
  then show ?thesis using False assms(2) by (auto simp: storepath_def path_set_small_def)
qed

lemma select_set_returns:
  assumes "path_set_ok s" "path_set_small n s" "n + 1 < 2 ^ 32" "0 \<notin> set p"
  shows "\<exists>msgs s'. pathtrace_select_set fs g xflag p s = Inr (msgs, s') \<and> path_set_small (n + 2) s'"
proof -
  obtain u where u: "storepath p s = Inr u" "path_set_small (n + 1) u"
    using storepath_returns [OF assms(1,2)] assms(3) by fastforce
  have ok: "path_set_ok u" using storepath_ok [OF assms(1) u(1) assms(4)] by simp
  have same: "path_set_small (n + 2) u" using u(2) by (simp add: path_set_small_def)
  show ?thesis
  proof (cases "fs_realpath fs p")
    case None
    then show ?thesis using u same by (simp add: pathtrace_select_set_def)
  next
    case (Some r)
    obtain v where "storepath r u = Inr v" "path_set_small (n + 1 + 1) v"
      using storepath_returns [OF ok u(2), of r] assms(3) by auto
    then show ?thesis using u same Some by (simp add: pathtrace_select_set_def Let_def)
  qed
qed

lemma select_all_returns:
  assumes "\<forall>p \<in> chosen fs ps. 0 \<notin> set p" "path_set_ok s" "path_set_small n s" "n + 2 * length ps < 2 ^ 32"
  shows "\<exists>s'. pathtrace_select_all fs g xflag ps s = Inr s'"
  using assms
proof (induction ps arbitrary: s n)
  case (Cons p ps)
  have nul: "0 \<notin> set p" "\<And>r. fs_realpath fs p = Some r \<Longrightarrow> 0 \<notin> set r" "\<forall>p \<in> chosen fs ps. 0 \<notin> set p"
    using Cons.prems(1) by (auto simp: chosen_def)
  obtain msgs u where u: "pathtrace_select_set fs g xflag p s = Inr (msgs, u)" "path_set_small (n + 2) u"
    using select_set_returns [OF Cons.prems(2,3) _ nul(1)] Cons.prems(4) by fastforce
  have "path_set_ok u" using select_set_ok [OF Cons.prems(2) u(1) nul(1,2)] by simp
  with Cons.IH [OF nul(3) _ u(2)] Cons.prems(4) u(1) show ?case by (simp add: obind_def)
qed simp

text \<open>
  C29: The options \<open>-P\<close> select exactly the paths they name and what those resolve to: starting from
  the empty set, \<open>pathtrace_select_set\<close> returns for every option, and then \<open>pathmatch\<close> is true of
  a string if and only if it is one of these paths.  The array has room for the paths it holds and
  holds none of them twice.
\<close>

theorem selected_paths_exact:
  assumes "\<forall>p \<in> chosen fs ps. 0 \<notin> set p" "2 * length ps < 2 ^ 32"
  shows "\<exists>s. pathtrace_select_all fs g xflag ps global_path_set = Inr s \<and> path_set_ok s
    \<and> (\<forall>path. pathmatch path (Some s) \<longleftrightarrow> cstr path \<in> chosen fs ps)"
proof -
  have start: "path_set_ok global_path_set" "path_set_small 0 global_path_set"
    by (simp_all add: path_set_ok_def path_set_small_def global_path_set_def)
  obtain s where s: "pathtrace_select_all fs g xflag ps global_path_set = Inr s"
    using select_all_returns [OF assms(1) start] assms(2) by auto
  from select_all_ok [OF assms(1) start(1) s] have "path_set_ok s" "set (paths_selected s) = chosen fs ps"
    by (simp_all add: global_path_set_def)
  with s show ?thesis by (simp add: pathmatch_iff)
qed

text \<open>A file system without links in which \<^verbatim>\<open>b\<close> is another name of \<^verbatim>\<open>AAAA\<close>.\<close>

definition sample_files :: files where
  "sample_files = \<lparr>fs_readlink = (\<lambda>p fd n. None), fs_stat_fd = (\<lambda>p fd. None), fs_lstat = (\<lambda>l. None),
     fs_realpath = (\<lambda>p. if p = [98] then Some [65, 65, 65, 65] else None), get_proc_pid = (\<lambda>p. p)\<rparr>"

theorem selected_paths_exact_witness:
  "\<exists>s. pathtrace_select_all sample_files (initial_globals sample_config) HEXSTR_NONE [[98]] global_path_set = Inr s
     \<and> pathmatch [65, 65, 65, 65, 0, 7] (Some s) \<and> \<not> pathmatch [65, 0] (Some s)"
proof -
  have c: "chosen sample_files [[98]] = {[98], [65, 65, 65, 65]}" by (auto simp: chosen_def sample_files_def)
  from selected_paths_exact [of sample_files "[[98]]" "initial_globals sample_config" HEXSTR_NONE] show ?thesis
    unfolding c by (auto simp: cstr_def)
qed

text \<open>\<open>openat\<close> of the string at \<open>0x1003\<close>, relative to descriptor 5.\<close>

definition sample_call :: tcb where
  "sample_call = \<lparr>tcb_flags = 0, pid = 1, qual_flg = 0, currpers = 0, u_error = 0, scno = 257,
     true_scno = 257, u_arg = [5, 0x1003, 0, 0, 0, 0], u_rval = 0, sys_func_rval = 0, outf = Log [],
     staged_output_data = None, auxstr = None,
     s_ent = Some \<lparr>nargs = 4, sys_flags = TRACE_DESC OR TRACE_FILE, sen = ''openat'', sys_func = True,
                   sys_name = Some ''openat''\<rparr>,
     s_prev_ent = None, priv_sysent = False, tcb_inject_vec = [], stime = zero_ts, ltime = zero_ts,
     etime = zero_ts, delay_expiration_time = zero_ts\<rparr>"


end
