(* ===== verification/Spec2Isabelle.thy ===== *)
theory Spec2Isabelle
  imports Seccomp_Filter Trie Mmap_Cache Syscall Ucopy Signal_Mask Quote Event_Delay Event_Restart Process_Table Pathtrace
begin

text \<open>
  \<^bold>\<open>The program.\<close> The metric proxy collects counters of running programs.  Its system call exporter, under
  \<^verbatim>\<open>src/exporters/strace\<close>, is a modified strace: it traces processes with ptrace, counts their system
  calls, errors, times and sizes, and sends the counters to the proxy through a client library.
  This development models the C code of that tracer, which is the core of the repository, by hand
  translation into executable HOL functions, and proves what makes it correct.  File names below
  are relative to \<^verbatim>\<open>src/exporters/strace/src\<close>.

  \<^bold>\<open>Parts and their interaction.\<close> At startup the options are parsed: \<open>-e\<close> expressions go through
  \<^verbatim>\<open>filter_qualify.c\<close>, which uses the token language of \<^verbatim>\<open>basic_filters.c\<close> to fill number sets
  (\<^verbatim>\<open>number_set.c\<close>) and the tables of injections (\<^verbatim>\<open>retval.c\<close>, \<^verbatim>\<open>delay.c\<close>, \<^verbatim>\<open>poke.c\<close>).  From the traced set
  \<^verbatim>\<open>filter_seccomp.c\<close> generates a BPF program, so that the kernel stops only at interesting calls.
  The main loop of \<^verbatim>\<open>strace.c\<close> waits for events of the traced processes, finds their control blocks
  in a table, and dispatches the events; a system call stop goes to \<open>trace_syscall\<close> (\<^verbatim>\<open>syscall.c\<close>),
  which reads registers, matches the filters, tampers, lets the decoder of the call print, and
  counts the call (\<^verbatim>\<open>count.c\<close>).  Decoders read the memory of the tracee with \<^verbatim>\<open>ucopy.c\<close> and print with
  the routines of \<^verbatim>\<open>util.c\<close>, \<^verbatim>\<open>xlat.c\<close> and \<^verbatim>\<open>signal.c\<close>; \<^verbatim>\<open>mmap_cache.c\<close> and \<^verbatim>\<open>trie.c\<close> hold the memory
  maps of a process and its namespace translations.  Then the process is restarted, at once or,
  if an injection delays it, by the handler of the delay timer.

  \<^bold>\<open>Conventions.\<close> A struct is a record with the members of the source, an enum a datatype, an integer
  whose width matters a word.  Static variables are members of state records that the operations
  return updated.  A function that can end strace or that reaches undefined behaviour returns an
  \<open>outcome\<close>, a sum whose left values name the call or the access; \<open>obind\<close> is its composition.  What the
  kernel, the C library's environment and the decoders do is an argument: records of answers such
  as \<open>kernel\<close>, \<open>clock\<close>, \<open>answers\<close>, \<open>decoders\<close>, and the build configuration \<open>config\<close> with the generated
  tables.  Where a theorem relies on them, a named predicate (\<open>kernel_ok\<close>, \<open>reports_ok\<close>, \<open>accepts\<close>, and
  the promises at the start of \<open>Ucopy\<close>) states the documented behaviour, and a witness
  instantiates it.

  \<^bold>\<open>Theories.\<close>

  \<^item> \<open>Prelude\<close>: types, outcomes, generic facts on words and lists.

  \<^item> \<open>Number_Set\<close> (\<^verbatim>\<open>number_set.c\<close>): growing bit vectors with an inversion flag.  They refine sets of
    numbers; the contract is the locale \<open>number_set_contract\<close>, interpreted on the code's functions.

  \<^item> \<open>Cstring\<close> (\<^verbatim>\<open>string_to_uint.c\<close>), \<open>Timespec\<close> (time arithmetic of \<^verbatim>\<open>util.c\<close>), \<open>Xmalloc\<close> (\<^verbatim>\<open>xmalloc.c\<close>): numbers
    in strings, exact and rounded time arithmetic, overflow guards of allocations.

  \<^item> \<open>Inject_Data\<close> (\<^verbatim>\<open>retval.c\<close>, \<^verbatim>\<open>delay.c\<close>, \<^verbatim>\<open>poke.c\<close>): the three tables of injection data share the
    locale \<open>index_table\<close>, interpreted on each of them: an index once handed out keeps its entry.

  \<^item> \<open>Sysent\<close> (\<^verbatim>\<open>sysent.h\<close>), \<open>Basic_Filters\<close> (\<^verbatim>\<open>basic_filters.c\<close>), \<open>Qualify\<close> (\<^verbatim>\<open>filter_qualify.c\<close>): the tables,
    the language of filter expressions with a specification of the set an expression selects,
    and every qualifier of \<open>-e\<close>, with the invariant that all filter state is well formed and that
    every stored injection has its data.

  \<^item> \<open>Bpf\<close>, \<open>Seccomp_Gen\<close>, \<open>Seccomp_Filter\<close> (\<^verbatim>\<open>filter_seccomp.c\<close>): the instructions, the two generators, the
    choice between them, the check of the order of kernel stops.  The BPF machine of the kernel
    is the locale \<open>cbpf\<close>, interpreted on a concrete interpreter; the chosen program stops exactly
    the traced calls.

  \<^item> \<open>Mmap_Cache\<close> (\<^verbatim>\<open>mmap_cache.c\<close>, \<^verbatim>\<open>mmap_notify.c\<close>), \<open>Trie\<close> (\<^verbatim>\<open>trie.c\<close>): the sorted cache of mappings and its
    binary search against a linear reference; the trie refines a function from keys to values
    (locale \<open>key_store\<close>).

  \<^item> \<open>Tcb\<close> (\<^verbatim>\<open>defs.h\<close>, \<^verbatim>\<open>stage_output.c\<close>), \<open>Count\<close> (\<^verbatim>\<open>count.c\<close>): control blocks, staged output; counting, the metric
    proxy handlers, the summary table.  The orders of the summary are instances of the locale
    \<open>comparison\<close>.

  \<^item> \<open>Syscall_Regs\<close>, \<open>Tamper\<close>, \<open>Syscall\<close> (\<^verbatim>\<open>syscall.c\<close>, \<^verbatim>\<open>upoke.c\<close>, \<^verbatim>\<open>linux/x86_64\<close>): reading and changing a call, the
    schedule of injections, and the handlers of both stops.  The two ways of decoding agree; no
    sequence of stops leaves the states in which the handlers are defined; hidden calls print
    nothing.

  \<^item> \<open>Ucopy\<close> (\<^verbatim>\<open>ucopy.c\<close>): reading and writing memory, with the page cache and the paths through
    \<open>process_vm_readv\<close> and \<open>PTRACE_PEEKDATA\<close>.

  \<^item> \<open>Xlat\<close> (\<^verbatim>\<open>xlat.c\<close>), \<open>Signal_Mask\<close> (\<^verbatim>\<open>signal.c\<close>), \<open>Quote\<close> (\<^verbatim>\<open>util.c\<close>): lookup of constants, complete printing of
    flags, signal sets in their static buffer, quoting that can be read back.

  \<^item> \<open>Pathtrace\<close> (\<^verbatim>\<open>pathtrace.c\<close>, \<^verbatim>\<open>fetch_indirect_syscall_args.c\<close>): the filter of the option \<open>-P\<close>.  The options
    select the paths they name and what those resolve to; a system call is matched exactly if a
    descriptor or a path among its arguments, in its sets or its arrays is selected.  In \<open>Syscall\<close>
    the answer of this filter is the member \<open>pathtrace_match\<close> of \<open>decoders\<close>.

  \<^item> \<open>Tcb_Table\<close>, \<open>Event_Loop\<close> (\<^verbatim>\<open>strace.c\<close>): the table of processes (allocation, lookup with its cache,
    dropping, detaching, the switch at an execve) and the main loop (collecting, queueing and
    dispatching events, delayed restarts, cleanup, exit status).  Collected events are handed out
    in order, one per round, and none is lost.

  \<^item> \<open>Event_Delay\<close>: the timer handler restarts every process whose delay is over and sets the timer
    to the next one.  \<open>Event_Restart\<close>: a stop is answered by exactly one request with the right
    signal; strace ends as its child ended.

  \<^item> \<open>Process_Id\<close>, \<open>Table_Invariant\<close>, \<open>Process_Table\<close>: the handlers keep the id of a process; every
    function of the main loop keeps the invariant of the table; with it the table is a finite map
    (locale \<open>process_table\<close>, interpreted on \<open>pid2tcb\<close>, \<open>alloctcb\<close> and \<open>droptcb\<close>).

  Lemmas named after an error state defects of the code: signals lost by a delay, an event of a
  dropped process, a buffer that is too small for verbose signal sets, arrays of metrics sized for
  one personality, a flag that is never cleared, the offset of strings read by words.

  \<^bold>\<open>Bounds and fuel.\<close> Loops are structural recursions or have a measure.  The loops of \<open>Ucopy\<close> depend on
  what the kernel answers and are partial functions into \<open>option\<close>; the theorems show that they
  return.  \<open>main_loop\<close> runs over a list of rounds, each with what the kernel does in it, so a theorem
  about all lists covers runs of any length; an exhausted list of answers of \<open>wait4\<close> or \<open>waitpid\<close>
  means that no child is left or that the call fails.  \<open>hexdigs\<close> has 16 digits of fuel for 64 bits.

  \<^bold>\<open>Not modelled.\<close> The metric proxy server is written in Rust and is another process, the client library
  is linked in binary form (its calls are logged in the state of \<open>Count\<close>), and the MPI exporter is
  generated by a wrapper generator.  The printers of some three hundred single system calls are
  the parameter \<open>decoders\<close>: each is independent of the others and of the core.  The tables of
  constants, ioctls and system calls are generated or plain data, and the bundled kernel headers
  have no code.  Startup (parsing of the command line, forking the child, attaching to running
  processes, the probes of kernel features) is a sequence of system calls whose results are
  the record \<open>run_setup\<close>.  Stack unwinding and security contexts are build options that are off.
  Of the architectures only x86-64 with its three personalities is modelled.
\<close>

end
